(* ===== verification/Slog_Prelude.thy ===== *)
theory Slog_Prelude
  imports Main "HOL-Library.Code_Target_Nat"
begin

text \<open>
  Shared vocabulary of the development: the error values that stand for the ways the C++ code
  stops (a failed \<^verbatim>\<open>CHECK\<close>, \<^verbatim>\<open>LOG(FATAL)\<close>, a thrown exception, an access outside a
  container), the result type, and the generic facts on lists, maps and transitive closures that
  the component theories use.
\<close>

section \<open>Errors as values\<close>

datatype slog_error =
    CheckFailed string     \<comment> \<open>\<^verbatim>\<open>CHECK\<close>, \<^verbatim>\<open>CHECK_EQ\<close>, ...\<close>
  | FatalLog string        \<comment> \<open>\<^verbatim>\<open>LOG(FATAL)\<close>\<close>
  | RuntimeError string    \<comment> \<open>\<^verbatim>\<open>throw std::runtime_error\<close>\<close>
  | InvalidArgument string \<comment> \<open>\<^verbatim>\<open>std::invalid_argument\<close>, e.g. of \<^verbatim>\<open>std::stoll\<close>\<close>
  | UndefinedBehaviour string \<comment> \<open>dereferencing an end iterator, indexing out of range\<close>

type_synonym 'a result = "slog_error + 'a"

named_theorems slog_simps \<open>unfolding rules of the model's small definitions\<close>

section \<open>\<^verbatim>\<open>std::sort\<close> followed by \<^verbatim>\<open>std::unique\<close> and \<^verbatim>\<open>erase\<close>\<close>

definition sort_unique :: "'a::linorder list \<Rightarrow> 'a list" where
  "sort_unique xs = remdups_adj (sort xs)"

lemma set_sort_unique [simp]: "set (sort_unique xs) = set xs"
  by (simp add: sort_unique_def)

lemma sorted_remdups_adj: "sorted xs \<Longrightarrow> sorted (remdups_adj xs)"
  by (induction xs rule: remdups_adj.induct) auto

lemma distinct_remdups_adj: "sorted xs \<Longrightarrow> distinct (remdups_adj xs)"
  by (induction xs rule: remdups_adj.induct) (auto simp: less_le_not_le)

lemma sorted_sort_unique [simp]: "sorted (sort_unique xs)"
  by (simp add: sort_unique_def sorted_remdups_adj)

lemma distinct_sort_unique [simp]: "distinct (sort_unique xs)"
  by (simp add: sort_unique_def distinct_remdups_adj)

lemma sort_unique_eqI:
  assumes "sorted ys" "distinct ys" "set ys = set xs"
  shows "sort_unique xs = ys"
  using assms by (metis distinct_sort_unique set_sort_unique sorted_distinct_set_unique
      sorted_sort_unique)

lemma sort_unique_cong: "set xs = set ys \<Longrightarrow> sort_unique xs = sort_unique ys"
  by (rule sort_unique_eqI) simp_all

section \<open>Maps\<close>

text \<open>\<^verbatim>\<open>unordered_map::try_emplace\<close>: the value is stored only when the key is absent.\<close>

definition try_emplace :: "('k \<rightharpoonup> 'v) \<Rightarrow> 'k \<Rightarrow> 'v \<Rightarrow> ('k \<rightharpoonup> 'v)" where
  "try_emplace m k v = (case m k of None \<Rightarrow> m(k \<mapsto> v) | Some _ \<Rightarrow> m)"

lemma try_emplace_same: "try_emplace m k v k = Some (case m k of None \<Rightarrow> v | Some w \<Rightarrow> w)"
  by (simp add: try_emplace_def split: option.splits)

lemma try_emplace_other [simp]: "k' \<noteq> k \<Longrightarrow> try_emplace m k v k' = m k'"
  by (simp add: try_emplace_def split: option.splits)

lemma dom_try_emplace [simp]: "dom (try_emplace m k v) = insert k (dom m)"
  by (auto simp: try_emplace_def split: option.splits)

section \<open>Lists\<close>

lemma nth_append_split:
  assumes "i < length (xs @ ys)"
  shows "(i < length xs \<and> (xs @ ys) ! i = xs ! i) \<or>
         (length xs \<le> i \<and> (xs @ ys) ! i = ys ! (i - length xs))"
  using assms by (auto simp: nth_append)

lemma upt_split: "a \<le> b \<Longrightarrow> b \<le> c \<Longrightarrow> [a..<c] = [a..<b] @ [b..<c]"
  by (metis le_add_diff_inverse upt_add_eq_append)

lemma concat_map_single:
  assumes "distinct xs" "x \<in> set xs" "\<And>y. y \<in> set xs \<Longrightarrow> f y = (if y = x then [v] else [])"
  shows "concat (map f xs) = [v]"
  using assms
proof (induction xs)
  case (Cons a xs)
  show ?case
  proof (cases "a = x")
    case True
    have "concat (map f xs) = []" using Cons.prems True by auto
    with Cons.prems True show ?thesis by simp
  next
    case False
    with Cons show ?thesis by simp
  qed
qed simp

end
