(* ===== verification/Slog_Types.thy ===== *)
theory Slog_Types
  imports Slog_Prelude
begin

text \<open>
  The data of the program: \<^verbatim>\<open>common/types.h\<close>, \<^verbatim>\<open>common/constants.h\<close> and the protobuf messages
  of \<^verbatim>\<open>proto/transaction.proto\<close> the C++ code works on.

  Unsigned machine integers (\<^verbatim>\<open>uint32_t\<close>, \<^verbatim>\<open>uint64_t\<close>) are \<^typ>\<open>nat\<close> and signed ones \<^typ>\<open>int\<close>;
  where the code computes with them the wrap-around is written out with \<open>mod 2 ^ w\<close>.
  A protobuf \<^verbatim>\<open>oneof\<close> member that may be absent is an \<^typ>\<open>'a option\<close>, and reading a field of an
  absent message gives the field's default, as the generated accessors do.
\<close>

type_synonym key = string
type_synonym key_replica = string
type_synonym txn_id = nat
type_synonym batch_id = nat
type_synonym slot_id = nat
type_synonym channel = nat
type_synonym machine_id = int

section \<open>Metadata and records (\<^verbatim>\<open>common/types.h\<close>)\<close>

record metadata =
  master :: nat
  counter :: nat

definition default_metadata :: metadata where
  "default_metadata = \<lparr>master = 0, counter = 0\<rparr>"

text \<open>
  A \<^verbatim>\<open>Record\<close> is a byte buffer with metadata; \<^verbatim>\<open>to_string\<close> of a record without a buffer is the
  empty string, so the buffer is its byte string.
\<close>

record stored_record =
  rec_value :: string
  rec_metadata :: metadata

definition default_record :: stored_record where
  "default_record = \<lparr>rec_value = [], rec_metadata = default_metadata\<rparr>"

definition SetMetadata :: "metadata \<Rightarrow> stored_record \<Rightarrow> stored_record" where
  "SetMetadata m r = r\<lparr>rec_metadata := m\<rparr>"

definition SetValue :: "string \<Rightarrow> stored_record \<Rightarrow> stored_record" where
  "SetValue v r = r\<lparr>rec_value := v\<rparr>"

datatype lock_mode = LM_UNLOCKED | LM_READ | LM_WRITE

datatype acquire_result = ACQUIRED | WAITING | ABORT

section \<open>\<^verbatim>\<open>std::to_string\<close> on unsigned integers and \<^verbatim>\<open>MakeKeyReplica\<close>\<close>

definition digit_char :: "nat \<Rightarrow> char" where
  "digit_char d = char_of (48 + d)"

fun to_string :: "nat \<Rightarrow> string" where
  "to_string n = (if n < 10 then [digit_char n] else to_string (n div 10) @ [digit_char (n mod 10)])"

declare to_string.simps [simp del]

definition MakeKeyReplica :: "key \<Rightarrow> nat \<Rightarrow> key_replica" where
  "MakeKeyReplica k m = k @ '':'' @ to_string m"

section \<open>Transactions (\<^verbatim>\<open>proto/transaction.proto\<close>)\<close>

datatype transaction_type = UNKNOWN | SINGLE_HOME | MULTI_HOME_OR_LOCK_ONLY

datatype transaction_status = NOT_STARTED | COMMITTED | ABORTED

datatype key_type = READ | WRITE

instantiation key_type :: enum
begin

definition enum_key_type :: "key_type list" where
  "enum_key_type = [READ, WRITE]"

definition enum_all_key_type :: "(key_type \<Rightarrow> bool) \<Rightarrow> bool" where
  "enum_all_key_type P \<longleftrightarrow> P READ \<and> P WRITE"

definition enum_ex_key_type :: "(key_type \<Rightarrow> bool) \<Rightarrow> bool" where
  "enum_ex_key_type P \<longleftrightarrow> P READ \<or> P WRITE"

instance
proof
  have cases: "m = READ \<or> m = WRITE" for m :: key_type by (cases m) simp_all
  show "UNIV = set (enum_class.enum :: key_type list)"
    using cases by (auto simp: enum_key_type_def)
  show "enum_class.enum_all P = Ball UNIV P" for P :: "key_type \<Rightarrow> bool"
    using cases by (auto simp: enum_all_key_type_def) metis
  show "enum_class.enum_ex P = Bex UNIV P" for P :: "key_type \<Rightarrow> bool"
    using cases by (auto simp: enum_ex_key_type_def) metis
qed (simp add: enum_key_type_def)

end

record value_entry =
  ve_value :: string
  ve_new_value :: string
  ve_type :: key_type
  ve_metadata :: "metadata option"

record key_value =
  kv_key :: key
  kv_entry :: value_entry

text \<open>\<^verbatim>\<open>kv.value_entry().metadata().master()\<close>: 0 when no metadata is set.\<close>

definition kv_master :: "key_value \<Rightarrow> nat" where
  "kv_master kv = (case ve_metadata (kv_entry kv) of None \<Rightarrow> 0 | Some m \<Rightarrow> master m)"

definition kv_counter :: "key_value \<Rightarrow> nat" where
  "kv_counter kv = (case ve_metadata (kv_entry kv) of None \<Rightarrow> 0 | Some m \<Rightarrow> counter m)"

abbreviation kv_type :: "key_value \<Rightarrow> key_type" where
  "kv_type kv \<equiv> ve_type (kv_entry kv)"

text \<open>\<^verbatim>\<open>static_cast<int>\<close> of a \<^verbatim>\<open>uint32_t\<close> and the conversion back.\<close>

definition int32_of_uint32 :: "nat \<Rightarrow> int" where
  "int32_of_uint32 n = (if n < 2 ^ 31 then int n else int n - 2 ^ 32)"

definition uint32_of_int :: "int \<Rightarrow> nat" where
  "uint32_of_int i = nat (i mod 2 ^ 32)"

lemma uint32_of_int_int [simp]: "n < 2 ^ 32 \<Longrightarrow> uint32_of_int (int n) = n"
  by (simp add: uint32_of_int_def)

lemma uint32_int32_roundtrip: "n < 2 ^ 32 \<Longrightarrow> uint32_of_int (int32_of_uint32 n) = n"
  by (simp add: uint32_of_int_def int32_of_uint32_def)

record txn_event =
  ev_event :: nat
  ev_time :: int
  ev_machine :: int
  ev_home :: int

record transaction_internal =
  txn_id :: txn_id
  txn_type :: transaction_type
  home :: int
  coordinating_server :: nat
  sequencer_delay_ms :: int
  involved_partitions :: "nat list"
  active_partitions :: "nat list"
  involved_replicas :: "nat list"
  events :: "txn_event list"
  global_log_positions :: "int list"

datatype program =
    NoProgram
  | Code "string list list"
  | Remaster nat bool  \<comment> \<open>\<^verbatim>\<open>new_master\<close>, \<^verbatim>\<open>is_new_master_lock_only\<close>\<close>

fun is_remaster :: "program \<Rightarrow> bool" where
  "is_remaster (Remaster _ _) = True"
| "is_remaster _ = False"

record transaction =
  internal :: transaction_internal
  program :: program
  keys :: "key_value list"
  deleted_keys :: "string list"
  status :: transaction_status
  abort_reason :: string

abbreviation tid :: "transaction \<Rightarrow> txn_id" where
  "tid t \<equiv> txn_id (internal t)"

section \<open>\<^verbatim>\<open>MakeKeyReplica\<close> is injective\<close>

lemma of_digit_char: "d < 10 \<Longrightarrow> of_char (digit_char d) = (48 + d :: nat)"
  by (simp add: digit_char_def)

lemma digit_char_neq_colon: "d < 10 \<Longrightarrow> digit_char d \<noteq> CHR '':''"
  using of_digit_char [of d] by auto

lemma digit_char_inject:
  assumes "a < 10" and "b < 10" and "digit_char a = digit_char b"
  shows "a = b"
proof -
  have "(of_char (digit_char a) :: nat) = of_char (digit_char b)" by (simp only: assms(3))
  then show ?thesis by (simp only: of_digit_char [OF assms(1)] of_digit_char [OF assms(2)] add_left_cancel)
qed

lemma colon_notin_to_string: "CHR '':'' \<notin> set (to_string n)"
proof (induction n rule: to_string.induct)
  case (1 n)
  show ?case
  proof (cases "n < 10")
    case True
    then show ?thesis using digit_char_neq_colon [OF True] by (simp add: to_string.simps [of n])
  next
    case False
    then show ?thesis
      using 1 digit_char_neq_colon [of "n mod 10"] by (simp add: to_string.simps [of n])
  qed
qed

lemma to_string_not_Nil [simp]: "to_string n \<noteq> []" "[] \<noteq> to_string n"
  by (subst to_string.simps, simp)+

lemma to_string_inject: "to_string m = to_string n \<Longrightarrow> m = n"
proof (induction m arbitrary: n rule: to_string.induct)
  case (1 m)
  have m: "to_string m = (if m < 10 then [digit_char m]
                           else to_string (m div 10) @ [digit_char (m mod 10)])"
    by (rule to_string.simps)
  have n: "to_string n = (if n < 10 then [digit_char n]
                           else to_string (n div 10) @ [digit_char (n mod 10)])"
    by (rule to_string.simps)
  show ?case
  proof (cases "m < 10")
    case True
    with "1.prems" m n show ?thesis by (auto dest: digit_char_inject split: if_splits)
  next
    case False
    with "1.prems" m n have n10: "\<not> n < 10" by (auto split: if_splits)
    with False "1.prems" m n have "to_string (m div 10) = to_string (n div 10)"
      and d: "digit_char (m mod 10) = digit_char (n mod 10)" by simp_all
    with "1.IH" [OF False] have "m div 10 = n div 10" by blast
    moreover have "m mod 10 = n mod 10"
      by (rule digit_char_inject [OF _ _ d]) simp_all
    ultimately show ?thesis by (metis div_mult_mod_eq)
  qed
qed

lemma split_at_first_sep:
  "xs @ c # ys = xs' @ c # ys' \<Longrightarrow> c \<notin> set xs \<Longrightarrow> c \<notin> set xs' \<Longrightarrow> xs = xs' \<and> ys = ys'"
proof (induction xs arbitrary: xs')
  case Nil
  then show ?case by (cases xs') auto
next
  case (Cons x xs)
  then show ?case by (cases xs') auto
qed

lemma split_at_last_sep:
  assumes "xs @ c # ys = xs' @ c # ys'" and "c \<notin> set ys" and "c \<notin> set ys'"
  shows "xs = xs' \<and> ys = ys'"
proof -
  from assms(1) have "rev (xs @ c # ys) = rev (xs' @ c # ys')" by simp
  then have "rev ys @ c # rev xs = rev ys' @ c # rev xs'" by simp
  then have "rev ys = rev ys' \<and> rev xs = rev xs'"
    using assms(2,3) by (intro split_at_first_sep) simp_all
  then show ?thesis by simp
qed

lemma MakeKeyReplica_inject:
  "MakeKeyReplica k m = MakeKeyReplica k' m' \<longleftrightarrow> k = k' \<and> m = m'"
proof
  assume "MakeKeyReplica k m = MakeKeyReplica k' m'"
  then have "k @ CHR '':'' # to_string m = k' @ CHR '':'' # to_string m'"
    by (simp add: MakeKeyReplica_def)
  then have "k = k' \<and> to_string m = to_string m'"
    by (rule split_at_last_sep) (simp_all add: colon_notin_to_string)
  then show "k = k' \<and> m = m'" by (auto dest: to_string_inject)
qed simp

section \<open>Concrete transactions\<close>

text \<open>Small transactions for the concrete instances of the theorems.\<close>

definition mk_kv :: "key \<Rightarrow> nat \<Rightarrow> nat \<Rightarrow> key_type \<Rightarrow> key_value" where
  "mk_kv k ms cnt ty = \<lparr>kv_key = k, kv_entry = \<lparr>ve_value = [], ve_new_value = [], ve_type = ty,
     ve_metadata = Some \<lparr>master = ms, counter = cnt\<rparr>\<rparr>\<rparr>"

definition mk_txn :: "txn_id \<Rightarrow> transaction_type \<Rightarrow> int \<Rightarrow> program \<Rightarrow> key_value list \<Rightarrow> transaction" where
  "mk_txn t ty hm prog kvs = \<lparr>
     internal = \<lparr>txn_id = t, txn_type = ty, home = hm, coordinating_server = 0,
       sequencer_delay_ms = 0, involved_partitions = [], active_partitions = [],
       involved_replicas = [], events = [], global_log_positions = []\<rparr>,
     program = prog, keys = kvs, deleted_keys = [], status = NOT_STARTED, abort_reason = []\<rparr>"

end
