(* ===== verification/Lock_Spec.thy ===== *)
theory Lock_Spec
  imports Slog_Types
begin

text \<open>
  What a lock manager of the scheduler promises. The three implementations
  (\<^verbatim>\<open>module/scheduler_components/rma_lock_manager\<close>, \<^verbatim>\<open>ddr_lock_manager\<close> and
  \<^verbatim>\<open>old_lock_manager\<close>) document the same contract: locks are granted in the order in which
  transactions request them. The specification keeps the whole history of lock requests and, for
  each transaction still in the manager, how many of its requests have not arrived. A transaction
  is ready when all of its requests have arrived and no active transaction has an earlier
  conflicting request.

  The locale \<open>lock_manager\<close> is the interface the scheduler relies on; its client lemmas
  are proved once, and each implementation interprets it in its own theory.
\<close>

section \<open>Histories of lock requests and conflicts\<close>

type_synonym 'k request = "txn_id \<times> 'k \<times> key_type"

definition conflicts :: "key_type \<Rightarrow> key_type \<Rightarrow> bool" where
  "conflicts m1 m2 \<longleftrightarrow> m1 = WRITE \<or> m2 = WRITE"

lemma conflicts_simps [simp]:
  "conflicts WRITE m" "conflicts m WRITE" "\<not> conflicts READ READ"
  by (simp_all add: conflicts_def)

text \<open>\<open>conf_prec H\<close>: pairs of different transactions where the first requested a lock before the
  second one, on the same key and in a conflicting mode.\<close>

definition conf_prec :: "'k request list \<Rightarrow> (txn_id \<times> txn_id) set" where
  "conf_prec H = {(a, t). a \<noteq> t \<and> (\<exists>i j k m1 m2. i < j \<and> j < length H \<and>
     H ! i = (a, k, m1) \<and> H ! j = (t, k, m2) \<and> conflicts m1 m2)}"

lemma conf_prec_Nil [simp]: "conf_prec [] = {}"
  by (auto simp: conf_prec_def)

lemma conf_prec_snoc:
  "conf_prec (H @ [(t, k, m)]) =
   conf_prec H \<union> {(a, t) |a. a \<noteq> t \<and> (\<exists>m1. (a, k, m1) \<in> set H \<and> conflicts m1 m)}"
  (is "?L = ?R")
proof
  show "?L \<subseteq> ?R"
  proof
    fix p
    assume "p \<in> ?L"
    then obtain a u i j k' m1 m2 where p: "p = (a, u)" "a \<noteq> u" "i < j" "j < Suc (length H)"
      "(H @ [(t, k, m)]) ! i = (a, k', m1)" "(H @ [(t, k, m)]) ! j = (u, k', m2)" "conflicts m1 m2"
      by (auto simp: conf_prec_def)
    then have i: "i < length H" "H ! i = (a, k', m1)" by (auto simp: nth_append)
    show "p \<in> ?R"
    proof (cases "j < length H")
      case True
      with p have "H ! j = (u, k', m2)" by (simp add: nth_append)
      with True p i show ?thesis unfolding conf_prec_def by blast
    next
      case False
      with p have "j = length H" by simp
      with p have "u = t" "k' = k" "m2 = m" by simp_all
      moreover from i have "(a, k', m1) \<in> set H" by (metis nth_mem)
      ultimately show ?thesis using p by auto
    qed
  qed
  show "?R \<subseteq> ?L"
  proof
    fix p
    assume "p \<in> ?R"
    then consider (old) "p \<in> conf_prec H"
      | (new) a m1 where "p = (a, t)" "a \<noteq> t" "(a, k, m1) \<in> set H" "conflicts m1 m"
      by blast
    then show "p \<in> ?L"
    proof cases
      case old
      then obtain a u i j k' m1 m2 where "p = (a, u)" "a \<noteq> u" "i < j" "j < length H"
        "H ! i = (a, k', m1)" "H ! j = (u, k', m2)" "conflicts m1 m2"
        by (auto simp: conf_prec_def)
      then have "a \<noteq> u \<and> i < j \<and> j < length (H @ [(t, k, m)]) \<and> (H @ [(t, k, m)]) ! i = (a, k', m1)
        \<and> (H @ [(t, k, m)]) ! j = (u, k', m2) \<and> conflicts m1 m2" by (auto simp: nth_append)
      then show ?thesis using \<open>p = (a, u)\<close> unfolding conf_prec_def by blast
    next
      case new
      then obtain i where "i < length H" "H ! i = (a, k, m1)" by (auto simp: in_set_conv_nth)
      then have "a \<noteq> t \<and> i < length H \<and> length H < length (H @ [(t, k, m)]) \<and>
        (H @ [(t, k, m)]) ! i = (a, k, m1) \<and> (H @ [(t, k, m)]) ! length H = (t, k, m) \<and> conflicts m1 m"
        using new by (auto simp: nth_append)
      then show ?thesis using \<open>p = (a, t)\<close> unfolding conf_prec_def by blast
    qed
  qed
qed

lemma conf_prec_mono: "conf_prec H \<subseteq> conf_prec (H @ H')"
proof (induction H' rule: rev_induct)
  case (snoc r H')
  then show ?case by (cases r) (auto simp flip: append_assoc simp: conf_prec_snoc)
qed simp

lemma conf_prec_in_hist:
  assumes "(a, t) \<in> conf_prec H"
  shows "a \<in> fst ` set H" "t \<in> fst ` set H" "a \<noteq> t"
proof -
  from assms obtain i j k m1 m2 where "a \<noteq> t" "i < j" "j < length H"
    "H ! i = (a, k, m1)" "H ! j = (t, k, m2)" by (auto simp: conf_prec_def)
  moreover from this have "i < length H" by simp
  ultimately show "a \<in> fst ` set H" "t \<in> fst ` set H" "a \<noteq> t"
    by (metis fst_conv imageI nth_mem)+
qed

lemma conf_prec_split:
  "(a, t) \<in> conf_prec H \<longleftrightarrow> a \<noteq> t \<and> (\<exists>H1 H2 k m1 m. H = H1 @ (t, k, m) # H2 \<and>
     (a, k, m1) \<in> set H1 \<and> conflicts m1 m)"
proof (induction H rule: rev_induct)
  case (snoc r H)
  obtain t' k' m' where r: "r = (t', k', m')" by (cases r)
  have "(\<exists>H1 H2 k m1 m. H @ [r] = H1 @ (t, k, m) # H2 \<and> (a, k, m1) \<in> set H1 \<and> conflicts m1 m) \<longleftrightarrow>
      (\<exists>H1 H2 k m1 m. H = H1 @ (t, k, m) # H2 \<and> (a, k, m1) \<in> set H1 \<and> conflicts m1 m) \<or>
      t' = t \<and> (\<exists>m1. (a, k', m1) \<in> set H \<and> conflicts m1 m')" (is "?L \<longleftrightarrow> ?A \<or> ?B")
  proof
    assume ?L
    then obtain H1 H2 k m1 m where h: "H @ [r] = H1 @ (t, k, m) # H2" "(a, k, m1) \<in> set H1" "conflicts m1 m"
      by blast
    show "?A \<or> ?B"
    proof (cases H2 rule: rev_cases)
      case Nil
      with h r show ?thesis by auto
    next
      case (snoc H3 x)
      with h have "H = H1 @ (t, k, m) # H3" by simp
      with h show ?thesis by blast
    qed
  next
    assume "?A \<or> ?B"
    then show ?L
    proof
      assume ?A
      then obtain H1 H2 k m1 m where "H = H1 @ (t, k, m) # H2" "(a, k, m1) \<in> set H1" "conflicts m1 m" by blast
      moreover from this have "H @ [r] = H1 @ (t, k, m) # (H2 @ [r])" by simp
      ultimately show ?L by blast
    next
      assume ?B
      then show ?L unfolding r by blast
    qed
  qed
  moreover have "(a, t) \<in> conf_prec (H @ [r]) \<longleftrightarrow> (a, t) \<in> conf_prec H \<or>
      a \<noteq> t \<and> t' = t \<and> (\<exists>m1. (a, k', m1) \<in> set H \<and> conflicts m1 m')"
    by (auto simp: r conf_prec_snoc)
  ultimately show ?case unfolding snoc.IH by (simp only: conj_disj_distribL)
qed simp

text \<open>Two different transactions with conflicting requests on a key are ordered one way or the
  other.\<close>

lemma conflicting_requests_ordered:
  assumes "(a, k, m1) \<in> set H" "(t, k, m2) \<in> set H" "a \<noteq> t" "conflicts m1 m2"
  shows "(a, t) \<in> conf_prec H \<or> (t, a) \<in> conf_prec H"
proof -
  obtain i j where ij: "i < length H" "H ! i = (a, k, m1)" "j < length H" "H ! j = (t, k, m2)"
    using assms by (auto simp: in_set_conv_nth)
  then consider "i < j" | "j < i" using assms(3) by (metis Pair_inject linorder_neqE_nat)
  then show ?thesis
  proof cases
    case 1
    then show ?thesis using ij assms unfolding conf_prec_def by blast
  next
    case 2
    have "conflicts m2 m1" using assms(4) by (auto simp: conflicts_def)
    with 2 show ?thesis using ij assms(3) unfolding conf_prec_def by blast
  qed
qed

section \<open>The abstract lock manager\<close>

record 'k lock_spec =
  hist :: "'k request list"
  need :: "txn_id \<rightharpoonup> int"

definition spec_init :: "'k lock_spec" where
  "spec_init = \<lparr>hist = [], need = Map.empty\<rparr>"

abbreviation active :: "'k lock_spec \<Rightarrow> txn_id set" where
  "active S \<equiv> dom (need S)"

definition spec_ready :: "'k lock_spec \<Rightarrow> txn_id \<Rightarrow> bool" where
  "spec_ready S t \<longleftrightarrow> need S t = Some 0 \<and> (\<forall>a \<in> active S. (a, t) \<notin> conf_prec (hist S))"

definition requests_of :: "txn_id \<Rightarrow> ('k \<times> key_type) list \<Rightarrow> 'k request list" where
  "requests_of t rs = map (\<lambda>(k, m). (t, k, m)) rs"

definition spec_acquire ::
  "txn_id \<Rightarrow> int \<Rightarrow> ('k \<times> key_type) list \<Rightarrow> 'k lock_spec \<Rightarrow> 'k lock_spec" where
  "spec_acquire t n rs S =
     S\<lparr>hist := hist S @ requests_of t rs,
       need := (need S)(t \<mapsto> (case need S t of None \<Rightarrow> n | Some x \<Rightarrow> x) - int (length rs))\<rparr>"

definition spec_release :: "txn_id \<Rightarrow> 'k lock_spec \<Rightarrow> 'k lock_spec" where
  "spec_release t S = S\<lparr>need := (need S)(t := None)\<rparr>"

definition newly_ready :: "'k lock_spec \<Rightarrow> txn_id \<Rightarrow> txn_id set" where
  "newly_ready S t = {u. \<not> spec_ready S u \<and> spec_ready (spec_release t S) u}"

text \<open>
  The calls the scheduler makes: a transaction enters once (its identifier is never reused after
  it left), a lock-only part asks for at least one key (\<^verbatim>\<open>GeneratePartitionedTxn\<close> drops the
  others) and only for keys the transaction has not asked for yet (the \<^verbatim>\<open>DCHECK\<close> in the lock
  managers), and no more keys arrive than were announced.
\<close>

definition legal_acquire ::
  "'k lock_spec \<Rightarrow> txn_id \<Rightarrow> int \<Rightarrow> ('k \<times> key_type) list \<Rightarrow> bool" where
  "legal_acquire S t n rs \<longleftrightarrow> rs \<noteq> [] \<and>
     (t \<in> active S \<or> t \<notin> fst ` set (hist S)) \<and> distinct (map fst rs) \<and>
     (\<forall>k \<in> fst ` set rs. \<forall>m. (t, k, m) \<notin> set (hist S)) \<and>
     int (length rs) \<le> (case need S t of None \<Rightarrow> n | Some x \<Rightarrow> x)"

lemma active_acquire [simp]: "active (spec_acquire t n rs S) = insert t (active S)"
  by (simp add: spec_acquire_def)

lemma active_release [simp]: "active (spec_release t S) = active S - {t}"
  by (auto simp: spec_release_def)

lemma hist_release [simp]: "hist (spec_release t S) = hist S"
  by (simp add: spec_release_def)

lemma hist_acquire [simp]: "hist (spec_acquire t n rs S) = hist S @ requests_of t rs"
  by (simp add: spec_acquire_def)

lemma spec_ready_active: "spec_ready S t \<Longrightarrow> t \<in> active S"
  by (auto simp: spec_ready_def)

text \<open>An executable form of readiness.\<close>

fun blockers :: "'k request list \<Rightarrow> 'k request list \<Rightarrow> txn_id \<Rightarrow> txn_id list" where
  "blockers seen [] t = []"
| "blockers seen ((t', k, m) # H) t =
     (if t' = t then map fst (filter (\<lambda>(a, k', m1). k' = k \<and> a \<noteq> t \<and> conflicts m1 m) seen) else []) @
     blockers (seen @ [(t', k, m)]) H t"

lemma blockers_conf_prec:
  "(a, t) \<in> conf_prec (seen @ H) \<longleftrightarrow> (a, t) \<in> conf_prec seen \<or> a \<in> set (blockers seen H t)"
proof (induction H arbitrary: seen)
  case (Cons r H)
  obtain t' k m where r: "r = (t', k, m)" by (cases r)
  have "(a, t) \<in> conf_prec (seen @ r # H) \<longleftrightarrow>
      (a, t) \<in> conf_prec (seen @ [r]) \<or> a \<in> set (blockers (seen @ [r]) H t)"
    using Cons [of "seen @ [r]"] by simp
  also have "\<dots> \<longleftrightarrow> (a, t) \<in> conf_prec seen \<or> a \<in> set (blockers seen (r # H) t)"
    by (force simp: r conf_prec_snoc)
  finally show ?case .
qed simp

lemma spec_ready_code [code]:
  "spec_ready S t \<longleftrightarrow> need S t = Some 0 \<and> list_all (\<lambda>a. need S a = None) (blockers [] (hist S) t)"
  using blockers_conf_prec [of _ t "[]" "hist S"] by (auto simp: spec_ready_def list_all_iff domIff)

text \<open>Transactions that are ready at the same time never conflict.\<close>

lemma spec_ready_exclusive:
  assumes "spec_ready S a" "spec_ready S t" "a \<noteq> t"
    and "(a, k, m1) \<in> set (hist S)" "(t, k, m2) \<in> set (hist S)"
  shows "m1 = READ \<and> m2 = READ"
proof (rule ccontr)
  assume "\<not> ?thesis"
  then have "conflicts m1 m2" by (metis key_type.exhaust conflicts_def)
  with assms have "(a, t) \<in> conf_prec (hist S) \<or> (t, a) \<in> conf_prec (hist S)"
    by (intro conflicting_requests_ordered)
  with assms(1,2) show False by (auto simp: spec_ready_def)
qed

text \<open>Releasing a transaction never makes another one wait.\<close>

lemma spec_ready_release_mono: "spec_ready S u \<Longrightarrow> u \<noteq> t \<Longrightarrow> spec_ready (spec_release t S) u"
  by (auto simp: spec_ready_def spec_release_def)

section \<open>Sequences of calls\<close>

datatype lock_op = AcquireOp transaction | ReleaseOp txn_id

fun spec_step ::
  "(transaction \<Rightarrow> ('k \<times> key_type) list) \<Rightarrow> (transaction \<Rightarrow> int) \<Rightarrow> lock_op \<Rightarrow>
   'k lock_spec \<Rightarrow> 'k lock_spec" where
  "spec_step req rqd (AcquireOp x) S = spec_acquire (tid x) (rqd x) (req x) S"
| "spec_step req rqd (ReleaseOp t) S = spec_release t S"

fun legal_op ::
  "(transaction \<Rightarrow> ('k \<times> key_type) list) \<Rightarrow> (transaction \<Rightarrow> int) \<Rightarrow> 'k lock_spec \<Rightarrow>
   lock_op \<Rightarrow> bool" where
  "legal_op req rqd S (AcquireOp x) = legal_acquire S (tid x) (rqd x) (req x)"
| "legal_op req rqd S (ReleaseOp t) = spec_ready S t"

text \<open>The transactions that a call makes ready, and the ready transactions not yet released.\<close>

fun spec_grants ::
  "(transaction \<Rightarrow> ('k \<times> key_type) list) \<Rightarrow> (transaction \<Rightarrow> int) \<Rightarrow> lock_op \<Rightarrow>
   'k lock_spec \<Rightarrow> txn_id set" where
  "spec_grants req rqd (AcquireOp x) S =
     (if spec_ready (spec_acquire (tid x) (rqd x) (req x) S) (tid x) then {tid x} else {})"
| "spec_grants req rqd (ReleaseOp t) S = newly_ready S t"

fun spec_run where
  "spec_run req rqd [] S = S"
| "spec_run req rqd (x # xs) S = spec_run req rqd xs (spec_step req rqd x S)"

fun legal_run where
  "legal_run req rqd S [] = True"
| "legal_run req rqd S (x # xs) =
     (legal_op req rqd S x \<and> legal_run req rqd (spec_step req rqd x S) xs)"

text \<open>A lock manager given by its two operations, run over the same calls; every call answers
  with the transactions it grants.\<close>

fun lm_step ::
  "(transaction \<Rightarrow> 's \<Rightarrow> (acquire_result \<times> 's) result) \<Rightarrow> (txn_id \<Rightarrow> 's \<Rightarrow> (txn_id list \<times> 's) result) \<Rightarrow>
   lock_op \<Rightarrow> 's \<Rightarrow> (txn_id list \<times> 's) result" where
  "lm_step acq rel (AcquireOp x) s =
     (case acq x s of Inl e \<Rightarrow> Inl e
      | Inr (r, s') \<Rightarrow> Inr (if r = ACQUIRED then [tid x] else [], s'))"
| "lm_step acq rel (ReleaseOp t) s = rel t s"

fun lm_run ::
  "(transaction \<Rightarrow> 's \<Rightarrow> (acquire_result \<times> 's) result) \<Rightarrow> (txn_id \<Rightarrow> 's \<Rightarrow> (txn_id list \<times> 's) result) \<Rightarrow>
   lock_op list \<Rightarrow> 's \<Rightarrow> (txn_id list list \<times> 's) result" where
  "lm_run acq rel [] s = Inr ([], s)"
| "lm_run acq rel (x # xs) s =
     (case lm_step acq rel x s of Inl e \<Rightarrow> Inl e
      | Inr (g, s') \<Rightarrow> (case lm_run acq rel xs s' of Inl e \<Rightarrow> Inl e
          | Inr (gs, s'') \<Rightarrow> Inr (g # gs, s'')))"

definition lm_grants ::
  "(transaction \<Rightarrow> 's \<Rightarrow> (acquire_result \<times> 's) result) \<Rightarrow> (txn_id \<Rightarrow> 's \<Rightarrow> (txn_id list \<times> 's) result) \<Rightarrow>
   lock_op list \<Rightarrow> 's \<Rightarrow> txn_id list list result" where
  "lm_grants acq rel xs s = map_sum id fst (lm_run acq rel xs s)"

fun spec_run_grants where
  "spec_run_grants req rqd [] S = []"
| "spec_run_grants req rqd (x # xs) S =
     spec_grants req rqd x S # spec_run_grants req rqd xs (spec_step req rqd x S)"

text \<open>The transactions granted by a run and not released by it.\<close>

fun live_grants :: "txn_id set \<Rightarrow> lock_op list \<Rightarrow> txn_id list list \<Rightarrow> txn_id set" where
  "live_grants A (AcquireOp x # xs) (g # gs) = live_grants (A \<union> set g) xs gs"
| "live_grants A (ReleaseOp t # xs) (g # gs) = live_grants (A - {t} \<union> set g) xs gs"
| "live_grants A _ _ = A"

lemma conf_prec_requests_of:
  "(a, u) \<in> conf_prec (H @ requests_of t rs) \<Longrightarrow> u \<noteq> t \<Longrightarrow> (a, u) \<in> conf_prec H"
proof (induction rs rule: rev_induct)
  case Nil
  then show ?case by (simp add: requests_of_def)
next
  case (snoc r rs)
  then show ?case
    by (cases r) (auto simp: requests_of_def conf_prec_snoc simp flip: append_assoc)
qed

lemma spec_ready_acquire_other:
  assumes "legal_acquire S t n rs" and "u \<noteq> t"
  shows "spec_ready (spec_acquire t n rs S) u \<longleftrightarrow> spec_ready S u"
proof -
  have conf: "(a, u) \<in> conf_prec (hist S @ requests_of t rs) \<longleftrightarrow> (a, u) \<in> conf_prec (hist S)" for a
    using assms(2) conf_prec_requests_of conf_prec_mono by blast
  have "t \<in> active S \<or> (t, u) \<notin> conf_prec (hist S)"
    using assms(1) conf_prec_in_hist(1) by (fastforce simp: legal_acquire_def)
  then show ?thesis
    using assms(2) by (auto simp: spec_ready_def conf) (simp_all add: spec_acquire_def)
qed

lemma legal_acquire_not_ready: "legal_acquire S t n rs \<Longrightarrow> \<not> spec_ready S t"
  by (auto simp: legal_acquire_def spec_ready_def)

lemma spec_ready_step:
  assumes "legal_op req rqd S x"
  shows "{u. spec_ready (spec_step req rqd x S) u} =
    {u. spec_ready S u} - (case x of AcquireOp _ \<Rightarrow> {} | ReleaseOp t \<Rightarrow> {t}) \<union> spec_grants req rqd x S"
proof (cases x)
  case (AcquireOp y)
  with assms have l: "legal_acquire S (tid y) (rqd y) (req y)" by simp
  have "spec_ready (spec_acquire (tid y) (rqd y) (req y) S) u \<longleftrightarrow>
      spec_ready S u \<or> u \<in> spec_grants req rqd x S" for u
    using spec_ready_acquire_other [OF l, of u] legal_acquire_not_ready [OF l] AcquireOp
    by (cases "u = tid y") auto
  with AcquireOp show ?thesis by (auto simp del: spec_grants.simps)
next
  case (ReleaseOp t)
  have "\<not> spec_ready (spec_release t S) t" by (simp add: spec_ready_def spec_release_def)
  then show ?thesis
    using ReleaseOp by (auto simp: newly_ready_def intro: spec_ready_release_mono)
qed

lemma spec_run_hist_mono: "r \<in> set (hist S) \<Longrightarrow> r \<in> set (hist (spec_run req rqd xs S))"
proof (induction xs arbitrary: S)
  case (Cons x xs)
  then show ?case by (cases x) auto
qed simp

lemma spec_run_hist:
  "AcquireOp x \<in> set xs \<Longrightarrow> (k, m) \<in> set (req x) \<Longrightarrow>
   (tid x, k, m) \<in> set (hist (spec_run req rqd xs S))"
proof (induction xs arbitrary: S)
  case (Cons y xs)
  show ?case
  proof (cases "y = AcquireOp x")
    case True
    then have "(tid x, k, m) \<in> set (hist (spec_step req rqd y S))"
      using Cons.prems(2) by (force simp: requests_of_def)
    then show ?thesis by (simp add: spec_run_hist_mono)
  next
    case False
    with Cons show ?thesis by simp
  qed
qed simp

section \<open>Transactions that ask for all of their locks at once\<close>

definition single_shot :: "'k lock_spec \<Rightarrow> bool" where
  "single_shot S \<longleftrightarrow> finite (active S) \<and> (\<forall>t \<in> active S. need S t = Some 0) \<and>
     (\<exists>f :: txn_id \<Rightarrow> nat. \<forall>(a, t) \<in> conf_prec (hist S). f a < f t)"

lemma single_shot_ready:
  assumes "single_shot S" "active S \<noteq> {}"
  shows "\<exists>t. spec_ready S t"
proof -
  from assms obtain f :: "txn_id \<Rightarrow> nat" where
    f: "\<And>a t. (a, t) \<in> conf_prec (hist S) \<Longrightarrow> f a < f t"
    unfolding single_shot_def by blast
  obtain t where t: "t \<in> active S" "\<And>u. u \<in> active S \<Longrightarrow> f t \<le> f u"
    using assms(2) ex_has_least_nat [of "\<lambda>x. x \<in> active S" _ f] by blast
  have "(a, t) \<notin> conf_prec (hist S)" if "a \<in> active S" for a using t(2) [OF that] f [of a t] by auto
  with t(1) assms(1) show ?thesis unfolding spec_ready_def single_shot_def by blast
qed

lemma single_shot_acquire:
  assumes "single_shot S" "legal_acquire S t (int (length rs)) rs"
  shows "single_shot (spec_acquire t (int (length rs)) rs S)"
proof -
  from assms obtain f :: "txn_id \<Rightarrow> nat" where
    f: "\<And>a t. (a, t) \<in> conf_prec (hist S) \<Longrightarrow> f a < f t"
    unfolding single_shot_def by blast
  have "t \<notin> active S"
  proof
    assume "t \<in> active S"
    then have "need S t = Some 0" using assms(1) unfolding single_shot_def by blast
    with assms(2) show False by (auto simp: legal_acquire_def)
  qed
  then have none: "need S t = None" and fresh: "t \<notin> fst ` set (hist S)"
    using assms(2) unfolding legal_acquire_def by blast+
  let ?f = "f(t := Suc (Max (f ` fst ` set (hist S @ requests_of t rs))))"
  have "?f a < ?f u" if au: "(a, u) \<in> conf_prec (hist S @ requests_of t rs)" for a u
  proof (cases "u = t")
    case True
    have "f a \<le> Max (f ` fst ` set (hist S @ requests_of t rs))"
      using conf_prec_in_hist(1) [OF au] by (intro Max_ge) auto
    with True conf_prec_in_hist(3) [OF au] show ?thesis by simp
  next
    case False
    with au have "(a, u) \<in> conf_prec (hist S)" by (rule conf_prec_requests_of)
    with f [OF this] fresh False conf_prec_in_hist(1) [OF this] show ?thesis by auto
  qed
  then have "\<exists>f :: txn_id \<Rightarrow> nat. \<forall>(a, u) \<in> conf_prec (hist S @ requests_of t rs). f a < f u" by blast
  moreover have "need (spec_acquire t (int (length rs)) rs S) u = Some 0"
    if "u \<in> insert t (active S)" for u
  proof (cases "u = t")
    case True
    with none show ?thesis by (simp add: spec_acquire_def)
  next
    case False
    with that assms(1) show ?thesis by (simp add: single_shot_def spec_acquire_def)
  qed
  moreover have "finite (insert t (active S))" using assms(1) by (simp add: single_shot_def)
  ultimately show ?thesis unfolding single_shot_def active_acquire hist_acquire by blast
qed

lemma single_shot_run:
  assumes "single_shot S" "legal_run req rqd S xs"
    and "\<forall>x. AcquireOp x \<in> set xs \<longrightarrow> rqd x = int (length (req x))"
  shows "single_shot (spec_run req rqd xs S)"
  using assms
proof (induction xs arbitrary: S)
  case (Cons x xs)
  have "single_shot (spec_step req rqd x S)"
  proof (cases x)
    case (AcquireOp y)
    with Cons.prems show ?thesis using single_shot_acquire [of S "tid y" "req y"] by simp
  next
    case (ReleaseOp t)
    have "need (spec_release t S) u = Some 0" if "u \<in> active S - {t}" for u
      using that Cons.prems(1) unfolding single_shot_def spec_release_def by simp
    then have "single_shot (spec_release t S)"
      using Cons.prems(1) unfolding single_shot_def active_release hist_release by blast
    with ReleaseOp show ?thesis by simp
  qed
  with Cons show ?case by simp
qed simp

section \<open>The interface of a lock manager\<close>

locale lock_manager =
  fixes requests :: "transaction \<Rightarrow> ('k \<times> key_type) list"
    and required :: "transaction \<Rightarrow> int"
    and init :: 's
    and acquire :: "transaction \<Rightarrow> 's \<Rightarrow> (acquire_result \<times> 's) result"
    and release :: "txn_id \<Rightarrow> 's \<Rightarrow> (txn_id list \<times> 's) result"
    and sim :: "'k lock_spec \<Rightarrow> 's \<Rightarrow> bool"
  assumes sim_init: "sim spec_init init"
    and sim_acquire: "sim S s \<Longrightarrow> legal_acquire S (tid x) (required x) (requests x) \<Longrightarrow>
      \<exists>s'. acquire x s =
          Inr (if spec_ready (spec_acquire (tid x) (required x) (requests x) S) (tid x)
               then ACQUIRED else WAITING, s') \<and>
        sim (spec_acquire (tid x) (required x) (requests x) S) s'"
    and sim_release: "sim S s \<Longrightarrow> spec_ready S t \<Longrightarrow>
      \<exists>ts s'. release t s = Inr (ts, s') \<and> sim (spec_release t S) s' \<and>
              distinct ts \<and> set ts = newly_ready S t"
begin

lemma step_refines:
  assumes "sim S s" and "legal_op requests required S x"
  shows "\<exists>g s'. lm_step acquire release x s = Inr (g, s') \<and> sim (spec_step requests required x S) s' \<and>
    distinct g \<and> set g = spec_grants requests required x S"
proof (cases x)
  case (AcquireOp y)
  with assms sim_acquire [of S s y] show ?thesis by auto
next
  case (ReleaseOp t)
  with assms sim_release [of S s t] show ?thesis by auto
qed

lemma run_refines:
  assumes "sim S s" and "legal_run requests required S xs"
    and "A = {u. spec_ready S u}"
  shows "\<exists>gs s'. lm_run acquire release xs s = Inr (gs, s') \<and>
    sim (spec_run requests required xs S) s' \<and> (\<forall>g \<in> set gs. distinct g) \<and>
    map set gs = spec_run_grants requests required xs S \<and>
    live_grants A xs gs = {u. spec_ready (spec_run requests required xs S) u}"
  using assms
proof (induction xs arbitrary: S s A)
  case Nil
  then show ?case by simp
next
  case (Cons x xs)
  from Cons.prems(2) have leg: "legal_op requests required S x" by simp
  let ?S = "spec_step requests required x S"
  obtain g s1 where g: "lm_step acquire release x s = Inr (g, s1)" "sim ?S s1" "distinct g"
    "set g = spec_grants requests required x S"
    using step_refines [OF Cons.prems(1) leg] by blast
  let ?A = "A - (case x of AcquireOp _ \<Rightarrow> {} | ReleaseOp t \<Rightarrow> {t}) \<union> set g"
  have A: "?A = {u. spec_ready ?S u}"
    using spec_ready_step [OF leg] g(4) Cons.prems(3) by simp
  from Cons.prems(2) have "legal_run requests required ?S xs" by simp
  from Cons.IH [OF g(2) this A] obtain gs s2 where
    "lm_run acquire release xs s1 = Inr (gs, s2)" "sim (spec_run requests required xs ?S) s2"
    "\<forall>g \<in> set gs. distinct g" "map set gs = spec_run_grants requests required xs ?S"
    "live_grants ?A xs gs = {u. spec_ready (spec_run requests required xs ?S) u}"
    by blast
  with g show ?case by (cases x) auto
qed

text \<open>Starting from the empty manager: every legal sequence of calls is answered, and the
  transactions it has granted and not released are exactly the ready ones.\<close>

lemma legal_run_answers:
  assumes "legal_run requests required spec_init xs"
  shows "\<exists>gs. lm_grants acquire release xs init = Inr gs \<and>
    map set gs = spec_run_grants requests required xs spec_init \<and> (\<forall>g \<in> set gs. distinct g) \<and>
    live_grants {} xs gs = {u. spec_ready (spec_run requests required xs spec_init) u}"
proof -
  have "{} = {u. spec_ready (spec_init :: 'k lock_spec) u}"
    by (auto simp: spec_ready_def spec_init_def)
  from run_refines [OF sim_init assms this] show ?thesis by (auto simp: lm_grants_def)
qed

lemma legal_run_sim:
  assumes "legal_run requests required spec_init xs" "lm_run acquire release xs init = Inr (gs, s)"
  shows "sim (spec_run requests required xs spec_init) s"
  using run_refines [OF sim_init assms(1) refl] assms(2) by auto

text \<open>Transactions that hold their locks at the same time only share keys that both read.\<close>

lemma granted_exclusive:
  assumes "legal_run requests required spec_init xs" "lm_grants acquire release xs init = Inr gs"
    and "AcquireOp x \<in> set xs" "AcquireOp y \<in> set xs" "tid x \<noteq> tid y"
    and "tid x \<in> live_grants {} xs gs" "tid y \<in> live_grants {} xs gs"
    and "(k, m1) \<in> set (requests x)" "(k, m2) \<in> set (requests y)"
  shows "m1 = READ \<and> m2 = READ"
proof -
  let ?S = "spec_run requests required xs spec_init"
  have "live_grants {} xs gs = {u. spec_ready ?S u}"
    using legal_run_answers [OF assms(1)] assms(2) by auto
  with assms(6,7) have "spec_ready ?S (tid x)" "spec_ready ?S (tid y)" by simp_all
  then show ?thesis
    using assms(5) spec_run_hist [where req = requests, OF assms(3,8)]
      spec_run_hist [where req = requests, OF assms(4,9)] by (rule spec_ready_exclusive)
qed

text \<open>When every transaction asks for all of its locks in one call, some transaction always holds
  all of its locks as long as one is in the manager: no deadlock.\<close>

lemma single_shot_progress:
  assumes "legal_run requests required spec_init xs" "lm_grants acquire release xs init = Inr gs"
    and "\<forall>x. AcquireOp x \<in> set xs \<longrightarrow> required x = int (length (requests x))"
    and "active (spec_run requests required xs spec_init) \<noteq> {}"
  shows "live_grants {} xs gs \<noteq> {}"
proof -
  let ?S = "spec_run requests required xs spec_init"
  have "live_grants {} xs gs = {u. spec_ready ?S u}"
    using legal_run_answers [OF assms(1)] assms(2) by auto
  moreover have "single_shot (spec_init :: 'k lock_spec)" by (simp add: single_shot_def spec_init_def)
  then have "single_shot ?S" using assms(1,3) by (intro single_shot_run)
  ultimately show ?thesis using single_shot_ready assms(4) by blast
qed

end

section \<open>What a remaster-aware manager is asked for\<close>

text \<open>
  The locks one call of \<^verbatim>\<open>AcquireLocks\<close> of the RMA and the DDR manager is about: one per key whose
  master is the home of the transaction part, on the pair of key and home; a remaster transaction
  asks for its key whatever the master is, and needs two locks altogether.
\<close>

definition lock_requests :: "transaction \<Rightarrow> (key_replica \<times> key_type) list" where
  "lock_requests txn =
     map (\<lambda>kv. (MakeKeyReplica (kv_key kv) (uint32_of_int (home (internal txn))), kv_type kv))
       (filter (\<lambda>kv. is_remaster (program txn) \<or>
                    int32_of_uint32 (kv_master kv) = home (internal txn)) (keys txn))"

definition num_required_locks :: "transaction \<Rightarrow> int" where
  "num_required_locks txn = (if is_remaster (program txn) then 2 else int (length (keys txn)))"

end
