(* ===== verification/Lock_State.thy ===== *)
theory Lock_State
  imports Lock_Spec
begin

text \<open>
  The class \<^verbatim>\<open>LockState\<close> of \<^verbatim>\<open>module/scheduler_components/rma_lock_manager.{h,cpp}\<close>: the holders
  and the waiter queue of one lock. The lemmas represent a lock state as a function \<open>ls_of\<close> of the
  queue of requests: appending a request is an acquire, dropping one that holds the lock is a
  release, and a request holds the lock exactly when no earlier one conflicts with it.
\<close>

section \<open>Model of LockState\<close>

record lock_state =
  ls_mode :: lock_mode
  holders :: "txn_id list"
  waiter_queue :: "(txn_id \<times> lock_mode) list"

definition LockState :: lock_state where
  "LockState = \<lparr>ls_mode = LM_UNLOCKED, holders = [], waiter_queue = []\<rparr>"

definition LockState_AcquireReadLock :: "txn_id \<Rightarrow> lock_state \<Rightarrow> bool \<times> lock_state" where
  "LockState_AcquireReadLock t ls =
     (case ls_mode ls of
        LM_UNLOCKED \<Rightarrow> (True, ls\<lparr>holders := holders ls @ [t], ls_mode := LM_READ\<rparr>)
      | LM_READ \<Rightarrow>
          if waiter_queue ls = [] then (True, ls\<lparr>holders := holders ls @ [t]\<rparr>)
          else (False, ls\<lparr>waiter_queue := waiter_queue ls @ [(t, LM_READ)]\<rparr>)
      | LM_WRITE \<Rightarrow> (False, ls\<lparr>waiter_queue := waiter_queue ls @ [(t, LM_READ)]\<rparr>))"

definition LockState_AcquireWriteLock :: "txn_id \<Rightarrow> lock_state \<Rightarrow> bool \<times> lock_state" where
  "LockState_AcquireWriteLock t ls =
     (case ls_mode ls of
        LM_UNLOCKED \<Rightarrow> (True, ls\<lparr>holders := holders ls @ [t], ls_mode := LM_WRITE\<rparr>)
      | _ \<Rightarrow> (False, ls\<lparr>waiter_queue := waiter_queue ls @ [(t, LM_WRITE)]\<rparr>))"

definition LockState_Contains :: "txn_id \<Rightarrow> lock_state \<Rightarrow> bool" where
  "LockState_Contains t ls \<longleftrightarrow> t \<in> set (holders ls) \<or> t \<in> set (map fst (waiter_queue ls))"

text \<open>The \<^verbatim>\<open>do ... while\<close> loop of \<^verbatim>\<open>Release\<close>: readers at the head of the queue become holders.\<close>

fun grant_readers ::
  "txn_id list \<Rightarrow> (txn_id \<times> lock_mode) list \<Rightarrow> txn_id list \<times> (txn_id \<times> lock_mode) list" where
  "grant_readers hs [] = (hs, [])"
| "grant_readers hs ((t, m) # q) = (if m = LM_READ then grant_readers (hs @ [t]) q else (hs, (t, m) # q))"

definition LockState_Release :: "txn_id \<Rightarrow> lock_state \<Rightarrow> txn_id list \<times> lock_state" where
  "LockState_Release t ls =
     (if t \<notin> set (holders ls)
      then ([], ls\<lparr>waiter_queue := filter (\<lambda>p. fst p \<noteq> t) (waiter_queue ls)\<rparr>)
      else
        let ls1 = ls\<lparr>holders := remove1 t (holders ls)\<rparr>
        in if holders ls1 \<noteq> [] then ([], ls1)
           else case waiter_queue ls1 of
                  [] \<Rightarrow> ([], ls1\<lparr>ls_mode := LM_UNLOCKED\<rparr>)
                | (f, m) # q \<Rightarrow>
                    if m = LM_READ then
                      (case grant_readers (holders ls1) (waiter_queue ls1) of (hs, q') \<Rightarrow>
                         (hs, ls1\<lparr>holders := hs, waiter_queue := q', ls_mode := LM_READ\<rparr>))
                    else if m = LM_WRITE then
                      (holders ls1 @ [f],
                       ls1\<lparr>holders := holders ls1 @ [f], waiter_queue := q, ls_mode := LM_WRITE\<rparr>)
                    else (holders ls1, ls1))"

section \<open>A lock state as a function of the queue of requests\<close>

fun lm_of :: "key_type \<Rightarrow> lock_mode" where
  "lm_of READ = LM_READ"
| "lm_of WRITE = LM_WRITE"

definition wq :: "(txn_id \<times> key_type) list \<Rightarrow> (txn_id \<times> lock_mode) list" where
  "wq = map (map_prod id lm_of)"

fun ls_of :: "(txn_id \<times> key_type) list \<Rightarrow> lock_state" where
  "ls_of [] = LockState"
| "ls_of ((t, WRITE) # q) = \<lparr>ls_mode = LM_WRITE, holders = [t], waiter_queue = wq q\<rparr>"
| "ls_of ((t, READ) # q) =
     \<lparr>ls_mode = LM_READ, holders = t # map fst (takeWhile (\<lambda>p. snd p = READ) q),
      waiter_queue = wq (dropWhile (\<lambda>p. snd p = READ) q)\<rparr>"

lemma wq_simps [simp]:
  "wq [] = []" "wq (x # q) = (fst x, lm_of (snd x)) # wq q" "wq (q @ q') = wq q @ wq q'"
  "wq q = [] \<longleftrightarrow> q = []" "map fst (wq q) = map fst q" "fst ` set (wq q) = fst ` set q"
  by (auto simp: wq_def image_image comp_def map_prod_def case_prod_beta)

lemma wq_filter: "wq (filter (\<lambda>p. fst p \<noteq> t) q) = filter (\<lambda>p. fst p \<noteq> t) (wq q)"
  by (induction q) auto

lemma lm_of_eq [simp]: "lm_of m = LM_READ \<longleftrightarrow> m = READ" "lm_of m = LM_WRITE \<longleftrightarrow> m = WRITE"
  "lm_of m \<noteq> LM_UNLOCKED"
  by (cases m; simp)+

lemma ls_of_snoc:
  "ls_of (q @ [(t, m)]) =
     snd (case m of READ \<Rightarrow> LockState_AcquireReadLock t (ls_of q)
                  | WRITE \<Rightarrow> LockState_AcquireWriteLock t (ls_of q))"
proof (cases q rule: ls_of.cases)
  case (3 u r)
  show ?thesis
  proof (cases "\<forall>x \<in> set r. snd x = READ")
    case True
    then have tw: "takeWhile (\<lambda>p. snd p = READ) r = r" "dropWhile (\<lambda>p. snd p = READ) r = []"
      by (simp_all add: takeWhile_eq_all_conv)
    from True show ?thesis
      by (cases m)
         (simp_all add: 3 tw LockState_AcquireReadLock_def LockState_AcquireWriteLock_def takeWhile_append dropWhile_append)
  next
    case False
    then have "takeWhile (\<lambda>p. snd p = READ) (r @ [(t, m)]) = takeWhile (\<lambda>p. snd p = READ) r"
      "dropWhile (\<lambda>p. snd p = READ) (r @ [(t, m)]) = dropWhile (\<lambda>p. snd p = READ) r @ [(t, m)]"
      "dropWhile (\<lambda>p. snd p = READ) r \<noteq> []"
      by (auto simp: takeWhile_append dropWhile_append)
    then show ?thesis
      by (cases m) (simp_all add: 3 LockState_AcquireReadLock_def LockState_AcquireWriteLock_def)
  qed
qed (cases m; simp add: LockState_def LockState_AcquireReadLock_def LockState_AcquireWriteLock_def)+

lemma granted_iff:
  assumes "t \<notin> fst ` set q"
  shows "fst (case m of READ \<Rightarrow> LockState_AcquireReadLock t (ls_of q)
                      | WRITE \<Rightarrow> LockState_AcquireWriteLock t (ls_of q)) \<longleftrightarrow>
         t \<in> set (holders (ls_of (q @ [(t, m)])))"
proof (cases q rule: ls_of.cases)
  case (3 u r)
  have "t \<notin> fst ` set (takeWhile (\<lambda>p. snd p = READ) r)"
    using assms set_takeWhileD 3 by fastforce
  then show ?thesis
    using assms unfolding ls_of_snoc
    by (cases m; cases "dropWhile (\<lambda>p. snd p = READ) r = []")
       (auto simp: 3 LockState_AcquireReadLock_def LockState_AcquireWriteLock_def)
qed (use assms in \<open>cases m; simp add: LockState_def LockState_AcquireReadLock_def LockState_AcquireWriteLock_def\<close>)+

lemma holders_snoc_other:
  "u \<noteq> t \<Longrightarrow> u \<in> set (holders (ls_of (q @ [(t, m)]))) \<longleftrightarrow> u \<in> set (holders (ls_of q))"
  unfolding ls_of_snoc LockState_AcquireReadLock_def LockState_AcquireWriteLock_def
  by (auto split: key_type.splits lock_mode.splits)

lemma ls_of_members: "set (holders (ls_of q)) \<union> fst ` set (waiter_queue (ls_of q)) = fst ` set q"
proof (cases q rule: ls_of.cases)
  case (3 u r)
  have "set r = set (takeWhile (\<lambda>p. snd p = READ) r) \<union> set (dropWhile (\<lambda>p. snd p = READ) r)"
    by (metis set_append takeWhile_dropWhile_id)
  then show ?thesis by (auto simp: 3)
qed (simp_all add: LockState_def)

lemma Contains_ls_of: "LockState_Contains t (ls_of q) \<longleftrightarrow> t \<in> fst ` set q"
  using ls_of_members [of q] by (auto simp: LockState_Contains_def)

lemma ls_of_unlocked [simp]: "ls_mode (ls_of q) = LM_UNLOCKED \<longleftrightarrow> q = []"
  by (cases q rule: ls_of.cases) (simp_all add: LockState_def)

text \<open>A request is granted exactly when no earlier request of its queue conflicts with it.\<close>

lemma holder_iff:
  assumes "distinct (map fst (p @ (t, m) # q))"
  shows "t \<in> set (holders (ls_of (p @ (t, m) # q))) \<longleftrightarrow> (\<forall>(u, m') \<in> set p. \<not> conflicts m' m)"
proof (cases p rule: ls_of.cases)
  case 1
  then show ?thesis by (cases m) auto
next
  case (2 u r)
  with assms show ?thesis by auto
next
  case (3 u r)
  have tr: "t \<notin> fst ` set r" "t \<noteq> u" using assms 3 by auto
  have "t \<in> fst ` set (takeWhile (\<lambda>p. snd p = READ) (r @ (t, m) # q)) \<longleftrightarrow>
      m = READ \<and> (\<forall>x \<in> set r. snd x = READ)"
  proof (cases "\<forall>x \<in> set r. snd x = READ")
    case True
    then have "takeWhile (\<lambda>p. snd p = READ) (r @ (t, m) # q) =
        r @ (if m = READ then (t, m) # takeWhile (\<lambda>p. snd p = READ) q else [])"
      by (auto simp: takeWhile_append)
    with True tr show ?thesis by (cases m) (simp_all add: image_Un)
  next
    case False
    then have "takeWhile (\<lambda>p. snd p = READ) (r @ (t, m) # q) = takeWhile (\<lambda>p. snd p = READ) r"
      by (auto simp: takeWhile_append)
    moreover have "t \<notin> fst ` set (takeWhile (\<lambda>p. snd p = READ) r)"
      using tr by (auto dest!: set_takeWhileD)
    ultimately show ?thesis using False by simp
  qed
  moreover have "\<not> conflicts m' READ \<longleftrightarrow> m' = READ" for m' by (cases m') simp_all
  then have "(\<forall>(u, m') \<in> set r. \<not> conflicts m' READ) \<longleftrightarrow> (\<forall>x \<in> set r. snd x = READ)"
    by (simp add: case_prod_beta)
  ultimately show ?thesis using tr by (cases m) (simp_all add: 3, blast)
qed

text \<open>Releasing a holder: the state of the remaining queue; the answer is the list of new holders.\<close>

lemma grant_readers_eq:
  "grant_readers hs (wq q) =
     (hs @ map fst (takeWhile (\<lambda>p. snd p = READ) q), wq (dropWhile (\<lambda>p. snd p = READ) q))"
  by (induction q arbitrary: hs) auto

lemma filter_notin: "t \<notin> fst ` set q \<Longrightarrow> filter (\<lambda>p. fst p \<noteq> t) q = q"
  by (induction q) auto

text \<open>Three shapes of a queue: nobody, one writer in front, or some readers in front.\<close>

abbreviation readers :: "txn_id list \<Rightarrow> (txn_id \<times> key_type) list" where
  "readers hs \<equiv> map (\<lambda>t. (t, READ)) hs"

definition head_write :: "(txn_id \<times> key_type) list \<Rightarrow> bool" where
  "head_write w \<longleftrightarrow> w = [] \<or> snd (hd w) = WRITE"

lemma ls_of_readers:
  assumes "hs \<noteq> []" "head_write w"
  shows "ls_of (readers hs @ w) = \<lparr>ls_mode = LM_READ, holders = hs, waiter_queue = wq w\<rparr>"
proof -
  obtain t hs' where hs: "hs = t # hs'" using assms(1) by (cases hs) auto
  have "takeWhile (\<lambda>p. snd p = READ) w = []" "dropWhile (\<lambda>p. snd p = READ) w = w"
    using assms(2) by (cases w; auto simp: head_write_def)+
  then have "takeWhile (\<lambda>p. snd p = READ) (readers hs' @ w) = readers hs'"
    "dropWhile (\<lambda>p. snd p = READ) (readers hs' @ w) = w"
    by (induction hs') auto
  then show ?thesis by (simp add: hs comp_def)
qed

lemma grant_readers_readers:
  "head_write w \<Longrightarrow> grant_readers hs0 (wq (readers hs @ w)) = (hs0 @ hs, wq w)"
proof (induction hs arbitrary: hs0)
  case Nil
  then show ?case by (cases w) (auto simp: head_write_def)
qed auto

lemma queue_cases:
  obtains (Empty) "q = []" | (Write) t w where "q = (t, WRITE) # w"
    | (Readers) t hs w where "q = readers (t # hs) @ w" "head_write w"
proof -
  have "\<exists>hs w. q = readers hs @ w \<and> head_write w"
  proof (induction q)
    case (Cons x q)
    obtain t m where x: "x = (t, m)" by (cases x)
    show ?case
    proof (cases m)
      case READ
      with Cons obtain hs w where "x # q = readers (t # hs) @ w" "head_write w" by (auto simp: x)
      then show ?thesis by blast
    next
      case WRITE
      then have "x # q = readers [] @ x # q \<and> head_write (x # q)" by (simp add: x head_write_def)
      then show ?thesis by blast
    qed
  qed (simp add: head_write_def)
  then obtain hs w where q: "q = readers hs @ w" "head_write w" by blast
  show thesis
  proof (cases hs)
    case Nil
    show thesis
    proof (cases w)
      case (Cons y w')
      with q Nil have "q = (fst y, WRITE) # w'" by (cases y) (simp add: head_write_def)
      then show thesis by (rule Write)
    qed (use q Nil Empty in simp)
  next
    case (Cons t hs')
    with q show thesis by (intro Readers) auto
  qed
qed

lemma ls_of_release:
  assumes "t \<in> set (holders (ls_of q))" "distinct (map fst q)"
  defines "q' \<equiv> filter (\<lambda>p. fst p \<noteq> t) q"
  obtains g where "LockState_Release t (ls_of q) = (g, ls_of q')" "distinct g"
    "set g = set (holders (ls_of q')) - set (holders (ls_of q))"
proof (cases q rule: queue_cases)
  case Empty
  with assms show ?thesis by (simp add: LockState_def)
next
  case (Write u w)
  with assms have t: "t = u" "t \<notin> fst ` set w" and d: "distinct (map fst w)" by auto
  then have q': "q' = w" by (simp add: q'_def Write filter_notin)
  show ?thesis
  proof (cases w rule: queue_cases)
    case Empty
    with t show ?thesis
      by (intro that [of "[]"]) (auto simp: q' LockState_Release_def Write LockState_def)
  next
    case (Write v w')
    with t \<open>q = (u, WRITE) # w\<close> show ?thesis
      by (intro that [of "[v]"]) (auto simp: q' LockState_Release_def)
  next
    case (Readers v hs w')
    have "LockState_Release t (ls_of q) = (v # hs, ls_of q')"
      using t(1) grant_readers_readers [OF Readers(2), of "[]" "v # hs"]
      by (simp add: q' LockState_Release_def Write ls_of_readers [OF _ Readers(2)] Readers(1) del: list.map)
         (simp add: ls_of_readers [OF _ Readers(2), of "v # hs", simplified])
    then show ?thesis
      using t d by (intro that [of "v # hs"])
        (auto simp: q' Write Readers(1) ls_of_readers [OF _ Readers(2), of "v # hs", simplified] comp_def image_Un image_image)
  qed
next
  case (Readers u hs w)
  let ?hs = "remove1 t (u # hs)"
  have ls: "ls_of q = \<lparr>ls_mode = LM_READ, holders = u # hs, waiter_queue = wq w\<rparr>"
    unfolding Readers(1) by (intro ls_of_readers Readers) simp
  have d: "distinct (u # hs)" "fst ` set w \<inter> set (u # hs) = {}" "distinct (map fst w)"
    using assms(2) by (auto simp: Readers(1) comp_def)
  have t: "t \<in> set (u # hs)" using assms(1) by (simp add: ls)
  have "filter (\<lambda>p. fst p \<noteq> t) (readers (u # hs)) = readers ?hs"
    using d(1) by (simp only: filter_map comp_def fst_conv distinct_remove1_removeAll
        removeAll_filter_not_eq eq_commute [of t])
  moreover have "filter (\<lambda>p. fst p \<noteq> t) w = w" using t d(2) by (intro filter_notin) auto
  ultimately have q': "q' = readers ?hs @ w" by (simp only: q'_def Readers(1) filter_append)
  show ?thesis
  proof (cases "?hs = []")
    case False
    have "ls_of q' = \<lparr>ls_mode = LM_READ, holders = ?hs, waiter_queue = wq w\<rparr>"
      unfolding q' using False Readers(2) by (rule ls_of_readers)
    then show ?thesis
      using False t set_remove1_subset [of t "u # hs"]
      by (intro that [of "[]"]) (auto simp: LockState_Release_def ls simp del: remove1.simps)
  next
    case True
    show ?thesis
    proof (cases w)
      case Nil
      with True t show ?thesis
        by (intro that [of "[]"]) (auto simp: q' LockState_Release_def ls LockState_def simp del: remove1.simps)
    next
      case (Cons y w')
      then obtain v where "y = (v, WRITE)" using Readers(2) by (cases y) (auto simp: head_write_def)
      with True t Cons d show ?thesis
        by (intro that [of "[v]"]) (auto simp: q' LockState_Release_def ls simp del: remove1.simps)
    qed
  qed
qed

text \<open>Removing another request never takes a lock away.\<close>

lemma holders_filter_mono:
  assumes "u \<in> set (holders (ls_of q))" "distinct (map fst q)" "u \<noteq> t"
  shows "u \<in> set (holders (ls_of (filter (\<lambda>p. fst p \<noteq> t) q)))"
proof -
  have "u \<in> fst ` set q" using assms(1) ls_of_members [of q] by blast
  then obtain m p r where q: "q = p @ (u, m) # r" by (auto dest: split_list)
  have f: "filter (\<lambda>p. fst p \<noteq> t) q =
      filter (\<lambda>p. fst p \<noteq> t) p @ (u, m) # filter (\<lambda>p. fst p \<noteq> t) r"
    using assms(3) by (simp add: q)
  have d: "distinct (map fst (filter (\<lambda>p. fst p \<noteq> t) q))" using assms(2) by (rule distinct_map_filter)
  have "\<forall>(u', m') \<in> set p. \<not> conflicts m' m"
    using assms(1,2) holder_iff [of p u m r] unfolding q by blast
  then have "\<forall>(u', m') \<in> set (filter (\<lambda>p. fst p \<noteq> t) p). \<not> conflicts m' m" by auto
  then show ?thesis using holder_iff d unfolding f by blast
qed

end
