(* ===== verification/Rma_Lock_Manager.thy ===== *)
theory Rma_Lock_Manager
  imports Lock_State
begin

text \<open>
  \<^verbatim>\<open>module/scheduler_components/rma_lock_manager.{h,cpp}\<close>: the remaster-aware lock manager, the
  default one. Every \<^verbatim>\<open><key, replica>\<close> has a \<^verbatim>\<open>LockState\<close> with its holders and its queue of
  waiters; every transaction counts the locks it still waits for.

  The proof represents each lock state as a function of the queue of requests of the transactions
  in the manager (\<open>Lock_State\<close>), and shows that the manager meets the contract of \<open>Lock_Spec\<close>, that none
  of its \<^verbatim>\<open>DCHECK\<close>s can fail on legal calls, and that its counter of locked keys is right.
\<close>

section \<open>Model of RMALockManager\<close>

record rma_txn_info =
  num_waiting_for :: int
  info_keys :: "key_replica list"

definition RMA_TxnInfo :: "int \<Rightarrow> rma_txn_info" where
  "RMA_TxnInfo num_keys = \<lparr>num_waiting_for = num_keys, info_keys = []\<rparr>"

definition RMA_is_ready :: "rma_txn_info \<Rightarrow> bool" where
  "RMA_is_ready i \<longleftrightarrow> num_waiting_for i = 0"

record rma_lock_manager =
  rma_infos :: "txn_id \<rightharpoonup> rma_txn_info"
  rma_lock_table :: "key_replica \<rightharpoonup> lock_state"
  num_locked_keys :: nat

definition RMALockManager :: rma_lock_manager where
  "RMALockManager = \<lparr>rma_infos = Map.empty, rma_lock_table = Map.empty, num_locked_keys = 0\<rparr>"

definition ls_at :: "('k \<rightharpoonup> lock_state) \<Rightarrow> 'k \<Rightarrow> lock_state" where
  "ls_at tab k = (case tab k of None \<Rightarrow> LockState | Some ls \<Rightarrow> ls)"

text \<open>One turn of the loop of \<^verbatim>\<open>AcquireLocks\<close>, for a key that belongs to the home. \<^verbatim>\<open>DCHECK\<close> is
  written out as in a debug build.\<close>

definition RMA_acquire_key ::
  "txn_id \<Rightarrow> key_replica \<Rightarrow> key_type \<Rightarrow> rma_txn_info \<times> (key_replica \<rightharpoonup> lock_state) \<times> nat \<Rightarrow>
   (rma_txn_info \<times> (key_replica \<rightharpoonup> lock_state) \<times> nat) result" where
  "RMA_acquire_key t key_replica ty st =
     (case st of (info, tab, locked) \<Rightarrow>
        let info1 = info\<lparr>info_keys := info_keys info @ [key_replica]\<rparr>;
            lock_state = ls_at tab key_replica
        in if LockState_Contains t lock_state then Inl (CheckFailed ''Txn requested lock twice'')
           else
             let before_mode = ls_mode lock_state;
                 (acquired, lock_state') =
                   (case ty of READ \<Rightarrow> LockState_AcquireReadLock t lock_state
                             | WRITE \<Rightarrow> LockState_AcquireWriteLock t lock_state);
                 info2 = (if acquired then info1\<lparr>num_waiting_for := num_waiting_for info1 - 1\<rparr> else info1);
                 locked' = (if before_mode = LM_UNLOCKED \<and> ls_mode lock_state' \<noteq> before_mode
                            then (locked + 1) mod 2 ^ 32 else locked)
             in Inr (info2, tab(key_replica \<mapsto> lock_state'), locked'))"

fun RMA_acquire_loop ::
  "txn_id \<Rightarrow> int \<Rightarrow> bool \<Rightarrow> key_value list \<Rightarrow> rma_txn_info \<times> (key_replica \<rightharpoonup> lock_state) \<times> nat \<Rightarrow>
   (rma_txn_info \<times> (key_replica \<rightharpoonup> lock_state) \<times> nat) result" where
  "RMA_acquire_loop t hm rem [] st = Inr st"
| "RMA_acquire_loop t hm rem (kv # kvs) st =
     (if \<not> rem \<and> int32_of_uint32 (kv_master kv) \<noteq> hm then RMA_acquire_loop t hm rem kvs st
      else case RMA_acquire_key t (MakeKeyReplica (kv_key kv) (uint32_of_int hm)) (kv_type kv) st of
             Inl e \<Rightarrow> Inl e
           | Inr st' \<Rightarrow> RMA_acquire_loop t hm rem kvs st')"

definition RMA_AcquireLocks ::
  "transaction \<Rightarrow> rma_lock_manager \<Rightarrow> (acquire_result \<times> rma_lock_manager) result" where
  "RMA_AcquireLocks txn s =
     (let t = tid txn;
          rem = is_remaster (program txn);
          num_locks = (if rem then 2 else int (length (keys txn)));
          infos = try_emplace (rma_infos s) t (RMA_TxnInfo num_locks)
      in case infos t of
           None \<Rightarrow> Inl (UndefinedBehaviour ''txn_info'')
         | Some info \<Rightarrow>
             (case RMA_acquire_loop t (home (internal txn)) rem (keys txn)
                     (info, rma_lock_table s, num_locked_keys s) of
                Inl e \<Rightarrow> Inl e
              | Inr (info', tab, locked) \<Rightarrow>
                  Inr (if RMA_is_ready info' then ACQUIRED else WAITING,
                       \<lparr>rma_infos = infos(t \<mapsto> info'), rma_lock_table = tab, num_locked_keys = locked\<rparr>)))"

text \<open>The inner loop of \<^verbatim>\<open>ReleaseLocks\<close>, over the transactions that got one lock.\<close>

fun RMA_grant ::
  "txn_id list \<Rightarrow> (txn_id \<rightharpoonup> rma_txn_info) \<times> txn_id list \<Rightarrow>
   ((txn_id \<rightharpoonup> rma_txn_info) \<times> txn_id list) result" where
  "RMA_grant [] st = Inr st"
| "RMA_grant (u # us) (m, res) =
     (case m u of
        None \<Rightarrow> Inl (CheckFailed ''it != txn_info_.end()'')
      | Some i \<Rightarrow>
          let i' = i\<lparr>num_waiting_for := num_waiting_for i - 1\<rparr>
          in RMA_grant us (m(u \<mapsto> i'), if RMA_is_ready i' then res @ [u] else res))"

fun RMA_release_loop ::
  "txn_id \<Rightarrow> key_replica list \<Rightarrow>
   (txn_id \<rightharpoonup> rma_txn_info) \<times> (key_replica \<rightharpoonup> lock_state) \<times> nat \<times> txn_id list \<Rightarrow>
   ((txn_id \<rightharpoonup> rma_txn_info) \<times> (key_replica \<rightharpoonup> lock_state) \<times> nat \<times> txn_id list) result" where
  "RMA_release_loop t [] st = Inr st"
| "RMA_release_loop t (k # ks) (m, tab, locked, res) =
     (case tab k of
        None \<Rightarrow> RMA_release_loop t ks (m, tab, locked, res)
      | Some ls \<Rightarrow>
          (case LockState_Release t ls of
             (new_grantees, ls') \<Rightarrow>
               let locked' = (if ls_mode ls' = LM_UNLOCKED \<and> ls_mode ls \<noteq> LM_UNLOCKED
                              then (locked + (2 ^ 32 - 1)) mod 2 ^ 32 else locked)
               in case RMA_grant new_grantees (m, res) of
                    Inl e \<Rightarrow> Inl e
                  | Inr (m', res') \<Rightarrow> RMA_release_loop t ks (m', tab(k \<mapsto> ls'), locked', res')))"

definition RMA_ReleaseLocks ::
  "txn_id \<Rightarrow> rma_lock_manager \<Rightarrow> (txn_id list \<times> rma_lock_manager) result" where
  "RMA_ReleaseLocks t s =
     (case rma_infos s t of
        None \<Rightarrow> Inr ([], s)
      | Some info \<Rightarrow>
          (case RMA_release_loop t (info_keys info)
                  (rma_infos s, rma_lock_table s, num_locked_keys s, []) of
             Inl e \<Rightarrow> Inl e
           | Inr (m, tab, locked, res) \<Rightarrow>
               Inr (sort_unique res,
                    \<lparr>rma_infos = m(t := None), rma_lock_table = tab, num_locked_keys = locked\<rparr>)))"


section \<open>The queue of requests of a key\<close>

definition queue_of :: "'k request list \<Rightarrow> txn_id set \<Rightarrow> 'k \<Rightarrow> (txn_id \<times> key_type) list" where
  "queue_of H A k = map (\<lambda>(t, _, m). (t, m)) (filter (\<lambda>(t, k', _). k' = k \<and> t \<in> A) H)"

definition keys_of :: "'k request list \<Rightarrow> txn_id \<Rightarrow> 'k list" where
  "keys_of H t = map (\<lambda>(_, k, _). k) (filter (\<lambda>(t', _, _). t' = t) H)"

definition no_repeat :: "'k request list \<Rightarrow> bool" where
  "no_repeat H \<longleftrightarrow> distinct (map (\<lambda>(t, k, _). (t, k)) H)"

lemma queue_of_simps [simp]:
  "queue_of [] A k = []"
  "queue_of ((t, k', m) # H) A k = (if k' = k \<and> t \<in> A then [(t, m)] else []) @ queue_of H A k"
  "queue_of (H @ H') A k = queue_of H A k @ queue_of H' A k"
  by (simp_all add: queue_of_def)

lemma keys_of_simps [simp]:
  "keys_of [] t = []"
  "keys_of (H @ [(t', k, m)]) t = keys_of H t @ (if t' = t then [k] else [])"
  by (simp_all add: keys_of_def)

lemma queue_of_Diff: "queue_of H (A - {t}) k = filter (\<lambda>p. fst p \<noteq> t) (queue_of H A k)"
  by (induction H) auto

lemma queue_of_fresh: "t \<notin> fst ` set H \<Longrightarrow> queue_of H (insert t A) k = queue_of H A k"
  by (induction H) auto

lemma in_queue_of: "(t, m) \<in> set (queue_of H A k) \<longleftrightarrow> (t, k, m) \<in> set H \<and> t \<in> A"
  by (induction H) auto

lemma fst_in_queue_of: "t \<in> fst ` set (queue_of H A k) \<longleftrightarrow> (\<exists>m. (t, k, m) \<in> set H) \<and> t \<in> A"
  using in_queue_of [of t _ H A k] by force

lemma in_keys_of: "k \<in> set (keys_of H t) \<longleftrightarrow> (\<exists>m. (t, k, m) \<in> set H)"
  by (force simp: keys_of_def)

lemma no_repeat_snoc: "no_repeat (H @ [(t, k, m)]) \<longleftrightarrow> no_repeat H \<and> (\<forall>m'. (t, k, m') \<notin> set H)"
  by (force simp: no_repeat_def)

lemma no_repeat_queue: "no_repeat H \<Longrightarrow> distinct (map fst (queue_of H A k))"
proof (induction H rule: rev_induct)
  case (snoc r H)
  obtain t k' m where r: "r = (t, k', m)" by (cases r)
  show ?case
  proof (cases "k' = k \<and> t \<in> A")
    case True
    then have "queue_of (H @ [r]) A k = queue_of H A k @ [(t, m)]" by (simp add: r)
    with True snoc show ?thesis by (simp add: r no_repeat_snoc fst_in_queue_of del: queue_of_simps)
  next
    case False
    then have "queue_of (H @ [r]) A k = queue_of H A k" by (auto simp: r)
    with snoc show ?thesis by (simp add: r no_repeat_snoc del: queue_of_simps)
  qed
qed simp

lemma no_repeat_keys: "no_repeat H \<Longrightarrow> distinct (keys_of H t)"
proof (induction H rule: rev_induct)
  case (snoc r H)
  then show ?case by (cases r) (auto simp: no_repeat_snoc in_keys_of)
qed simp

text \<open>How many requests of a transaction are queued and not granted.\<close>

definition wcount :: "'k request list \<Rightarrow> ('k \<rightharpoonup> lock_state) \<Rightarrow> txn_id \<Rightarrow> nat" where
  "wcount H tab t = length (filter (\<lambda>(t', k, _). t' = t \<and> t \<notin> set (holders (ls_at tab k))) H)"

lemma wcount_zero:
  "wcount H tab t = 0 \<longleftrightarrow> (\<forall>k m. (t, k, m) \<in> set H \<longrightarrow> t \<in> set (holders (ls_at tab k)))"
  by (auto simp: wcount_def filter_empty_conv)

lemma wcount_snoc [simp]:
  "wcount (H @ [(t', k, m)]) tab t =
     wcount H tab t + (if t' = t \<and> t \<notin> set (holders (ls_at tab k)) then 1 else 0)"
  by (simp add: wcount_def)

lemma ls_at_upd [simp]:
  "ls_at (tab(k \<mapsto> ls)) k = ls"
  "k' \<noteq> k \<Longrightarrow> ls_at (tab(k \<mapsto> ls)) k' = ls_at tab k'"
  by (simp_all add: ls_at_def)

lemma wcount_cong:
  "(\<And>k m. (t, k, m) \<in> set H \<Longrightarrow>
      t \<in> set (holders (ls_at tab k)) \<longleftrightarrow> t \<in> set (holders (ls_at tab' k))) \<Longrightarrow>
   wcount H tab t = wcount H tab' t"
  unfolding wcount_def by (rule arg_cong [where f = length], rule filter_cong) auto

text \<open>Granting one more lock of a transaction.\<close>

lemma wcount_grant:
  assumes "no_repeat H" "(t, k, m) \<in> set H"
    and "t \<notin> set (holders (ls_at tab k))" "t \<in> set (holders (ls_at tab' k))"
    and "\<And>k'. k' \<noteq> k \<Longrightarrow> ls_at tab' k' = ls_at tab k'"
  shows "wcount H tab t = wcount H tab' t + 1"
  using assms(1,2)
proof (induction H rule: rev_induct)
  case (snoc r H)
  obtain t' k' m' where r: "r = (t', k', m')" by (cases r)
  show ?case
  proof (cases "(t, k, m) \<in> set H")
    case True
    with snoc.prems have k': "t' = t \<longrightarrow> k' \<noteq> k" by (auto simp: r no_repeat_snoc)
    have "no_repeat H" using snoc.prems by (simp add: r no_repeat_snoc)
    from snoc.IH [OF this True] k' assms(5) show ?thesis by (cases "t' = t") (simp_all add: r)
  next
    case False
    with snoc.prems have r': "r = (t, k, m)" by simp
    with snoc.prems have "\<forall>m. (t, k, m) \<notin> set H" by (simp add: no_repeat_snoc)
    then have "wcount H tab t = wcount H tab' t" by (intro wcount_cong) (metis assms(5))
    with r' assms(3,4) show ?thesis by simp
  qed
qed simp

section \<open>Refinement\<close>

definition locked_ok :: "(key_replica \<rightharpoonup> lock_state) \<Rightarrow> nat \<Rightarrow> bool" where
  "locked_ok tab n \<longleftrightarrow> finite {k. ls_mode (ls_at tab k) \<noteq> LM_UNLOCKED} \<and>
     n = card {k. ls_mode (ls_at tab k) \<noteq> LM_UNLOCKED} mod 2 ^ 32"

definition rma_inv ::
  "key_replica request list \<Rightarrow> (txn_id \<rightharpoonup> int) \<Rightarrow> (txn_id \<rightharpoonup> rma_txn_info) \<Rightarrow>
   (key_replica \<rightharpoonup> lock_state) \<Rightarrow> bool" where
  "rma_inv H nd m tab \<longleftrightarrow> dom m = dom nd \<and> no_repeat H \<and>
     (\<forall>k. ls_at tab k = ls_of (queue_of H (dom nd) k)) \<and>
     (\<forall>t i. m t = Some i \<longrightarrow> info_keys i = keys_of H t \<and>
        num_waiting_for i = the (nd t) + int (wcount H tab t))"

definition rma_sim :: "key_replica lock_spec \<Rightarrow> rma_lock_manager \<Rightarrow> bool" where
  "rma_sim S s \<longleftrightarrow> rma_inv (hist S) (need S) (rma_infos s) (rma_lock_table s) \<and>
     (\<forall>t n. need S t = Some n \<longrightarrow> 0 \<le> n) \<and> locked_ok (rma_lock_table s) (num_locked_keys s)"

lemma rma_invD:
  assumes "rma_inv H nd m tab"
  shows "dom m = dom nd" "no_repeat H" "ls_at tab k = ls_of (queue_of H (dom nd) k)"
    "m t = Some i \<Longrightarrow> info_keys i = keys_of H t"
    "m t = Some i \<Longrightarrow> num_waiting_for i = the (nd t) + int (wcount H tab t)"
  using assms unfolding rma_inv_def by blast+

lemma holds_all_iff:
  assumes "no_repeat H" "\<And>k. ls_at tab k = ls_of (queue_of H A k)" "t \<in> A"
  shows "wcount H tab t = 0 \<longleftrightarrow> (\<forall>a \<in> A. (a, t) \<notin> conf_prec H)"
proof -
  have split: "t \<in> set (holders (ls_at tab k)) \<longleftrightarrow> (\<forall>a m1. a \<in> A \<longrightarrow> (a, k, m1) \<in> set H1 \<longrightarrow> \<not> conflicts m1 m)"
    if H: "H = H1 @ (t, k, m) # H2" for k m H1 H2
  proof -
    have q: "queue_of H A k = queue_of H1 A k @ (t, m) # queue_of H2 A k" using assms(3) by (simp add: H)
    have "t \<in> set (holders (ls_at tab k)) \<longleftrightarrow> (\<forall>(u, m') \<in> set (queue_of H1 A k). \<not> conflicts m' m)"
      using no_repeat_queue [OF assms(1), of A k] unfolding assms(2) q by (rule holder_iff)
    then show ?thesis using in_queue_of by fastforce
  qed
  show ?thesis
  proof
    assume "wcount H tab t = 0"
    then show "\<forall>a \<in> A. (a, t) \<notin> conf_prec H"
      unfolding conf_prec_split wcount_zero using split by (metis in_set_conv_decomp)
  next
    assume c: "\<forall>a \<in> A. (a, t) \<notin> conf_prec H"
    have "t \<in> set (holders (ls_at tab k))" if tk: "(t, k, m) \<in> set H" for k m
    proof -
      obtain H1 H2 where H: "H = H1 @ (t, k, m) # H2" using tk by (meson split_list)
      have "\<not> conflicts m1 m" if "a \<in> A" "(a, k, m1) \<in> set H1" for a m1
      proof (cases "a = t")
        case True
        with that assms(1) show ?thesis by (force simp: H no_repeat_def)
      next
        case False
        with c that H show ?thesis unfolding conf_prec_split by blast
      qed
      with split [OF H] show ?thesis by blast
    qed
    then show "wcount H tab t = 0" by (simp add: wcount_zero)
  qed
qed

lemma rma_sim_ready:
  assumes "rma_sim S s" "rma_infos s t = Some i"
  shows "RMA_is_ready i \<longleftrightarrow> spec_ready S t"
proof -
  have inv: "rma_inv (hist S) (need S) (rma_infos s) (rma_lock_table s)"
    using assms(1) by (simp add: rma_sim_def)
  note D = rma_invD [OF inv]
  have t: "t \<in> active S" using D(1) assms(2) by blast
  then obtain n where n: "need S t = Some n" by blast
  then have "0 \<le> n" using assms(1) by (simp add: rma_sim_def)
  then have "num_waiting_for i = 0 \<longleftrightarrow> n = 0 \<and> wcount (hist S) (rma_lock_table s) t = 0"
    using D(5) [OF assms(2)] n by auto
  also have "\<dots> \<longleftrightarrow> n = 0 \<and> (\<forall>a \<in> active S. (a, t) \<notin> conf_prec (hist S))"
    using holds_all_iff [OF D(2,3) t] by blast
  finally show ?thesis unfolding RMA_is_ready_def spec_ready_def n by blast
qed

lemma locked_ok_acquire:
  assumes "locked_ok tab l" "ls_mode ls \<noteq> LM_UNLOCKED"
  shows "locked_ok (tab(k \<mapsto> ls)) (if ls_mode (ls_at tab k) = LM_UNLOCKED then (l + 1) mod 2 ^ 32 else l)"
proof -
  let ?L = "\<lambda>tab. {k. ls_mode (ls_at tab k) \<noteq> LM_UNLOCKED}"
  have "?L (tab(k \<mapsto> ls)) = insert k (?L tab)" using assms(2) by (auto simp: ls_at_def)
  moreover have "insert k (?L tab) = ?L tab" if "ls_mode (ls_at tab k) \<noteq> LM_UNLOCKED" using that by blast
  ultimately show ?thesis using assms(1) by (simp add: locked_ok_def mod_simps)
qed

lemma locked_ok_release:
  assumes "locked_ok tab l" "ls_mode (ls_at tab k) \<noteq> LM_UNLOCKED"
  shows "locked_ok (tab(k \<mapsto> ls))
    (if ls_mode ls = LM_UNLOCKED then (l + (2 ^ 32 - 1)) mod 2 ^ 32 else l)"
proof -
  let ?L = "\<lambda>tab. {k. ls_mode (ls_at tab k) \<noteq> LM_UNLOCKED}"
  have k: "k \<in> ?L tab" and fin: "finite (?L tab)" using assms by (simp_all add: locked_ok_def)
  show ?thesis
  proof (cases "ls_mode ls = LM_UNLOCKED")
    case False
    then have "?L (tab(k \<mapsto> ls)) = ?L tab" using k by (auto simp: ls_at_def)
    with False assms(1) show ?thesis by (simp add: locked_ok_def)
  next
    case True
    then have L: "?L (tab(k \<mapsto> ls)) = ?L tab - {k}" by (auto simp: ls_at_def)
    have "l = Suc (card (?L tab - {k})) mod 2 ^ 32"
      using assms(1) unfolding locked_ok_def card_Suc_Diff1 [OF fin k] by simp
    then have "(l + (2 ^ 32 - 1)) mod 2 ^ 32 = (Suc (card (?L tab - {k})) + (2 ^ 32 - 1)) mod 2 ^ 32"
      by (simp only: mod_add_left_eq)
    also have "\<dots> = (card (?L tab - {k}) + 2 ^ 32) mod 2 ^ 32" by simp
    also have "\<dots> = card (?L tab - {k}) mod 2 ^ 32" by (rule mod_add_self2)
    finally show ?thesis using True fin unfolding locked_ok_def L by (simp only: if_True) simp
  qed
qed

lemma rma_acquire_key_step:
  assumes inv: "rma_inv H nd (infos(t \<mapsto> info)) tab" and new: "\<forall>m. (t, k, m) \<notin> set H"
    and lok: "locked_ok tab l"
  obtains info' tab' l' where "RMA_acquire_key t k ty (info, tab, l) = Inr (info', tab', l')"
    "rma_inv (H @ [(t, k, ty)]) (nd(t \<mapsto> the (nd t) - 1)) (infos(t \<mapsto> info')) tab'" "locked_ok tab' l'"
proof -
  note D = rma_invD [OF inv]
  have t: "t \<in> dom nd" using D(1) by auto
  let ?q = "queue_of H (dom nd) k" and ?nd = "nd(t \<mapsto> the (nd t) - 1)" and ?H = "H @ [(t, k, ty)]"
  have nin: "t \<notin> fst ` set ?q" using new by (simp add: fst_in_queue_of)
  define acq where "acq = (case ty of READ \<Rightarrow> LockState_AcquireReadLock t (ls_at tab k)
                                   | WRITE \<Rightarrow> LockState_AcquireWriteLock t (ls_at tab k))"
  let ?ls = "ls_of (?q @ [(t, ty)])" and ?g = "t \<in> set (holders (ls_of (?q @ [(t, ty)])))"
  let ?tab = "tab(k \<mapsto> ?ls)"
  define info' where "info' = \<lparr>num_waiting_for = num_waiting_for info - (if ?g then 1 else 0),
                               info_keys = info_keys info @ [k]\<rparr>"
  define l' where "l' = (if ls_mode (ls_at tab k) = LM_UNLOCKED then (l + 1) mod 2 ^ 32 else l)"
  have acq: "acq = (?g, ?ls)"
    unfolding acq_def D(3)
    by (rule prod_eqI) (simp_all only: granted_iff [OF nin] ls_of_snoc [symmetric] fst_conv snd_conv)
  have nc: "\<not> LockState_Contains t (ls_at tab k)" unfolding D(3) Contains_ls_of using nin .
  have "RMA_acquire_key t k ty (info, tab, l) = Inr (info', ?tab, l')"
    using nc unfolding RMA_acquire_key_def Let_def prod.case acq_def [symmetric] acq
    by (cases info; cases "ls_mode (ls_at tab k) = LM_UNLOCKED"; cases ?g)
       (simp_all add: Let_def info'_def l'_def)
  moreover have "locked_ok ?tab l'" unfolding l'_def by (rule locked_ok_acquire [OF lok]) simp
  moreover have "rma_inv ?H ?nd (infos(t \<mapsto> info')) ?tab"
    unfolding rma_inv_def
  proof (intro conjI allI impI)
    show "dom (infos(t \<mapsto> info')) = dom ?nd" using D(1) by auto
    show "no_repeat ?H" using D(2) new by (simp add: no_repeat_snoc)
    have dom: "dom ?nd = dom nd" using t by auto
    show "ls_at ?tab k' = ls_of (queue_of ?H (dom ?nd) k')" for k'
      unfolding dom using t D(3) by (cases "k' = k") simp_all
    fix u i
    assume u: "(infos(t \<mapsto> info')) u = Some i"
    have other: "u' \<in> set (holders (ls_at tab k')) \<longleftrightarrow> u' \<in> set (holders (ls_at ?tab k'))"
      if "u' \<noteq> t \<or> k' \<noteq> k" for u' k'
      using that holders_snoc_other [of u' t ?q ty] D(3) by (cases "k' = k") auto
    show "info_keys i = keys_of ?H u"
      using u D(4) [of t info] D(4) [of u i] by (cases "u = t") (auto simp: info'_def)
    show "num_waiting_for i = the (?nd u) + int (wcount ?H ?tab u)"
    proof (cases "u = t")
      case True
      have "wcount H tab t = wcount H ?tab t"
        by (rule wcount_cong, rule other) (use new in blast)
      with True u D(5) [of t info] show ?thesis by (auto simp: info'_def)
    next
      case False
      have "wcount H tab u = wcount H ?tab u"
        by (rule wcount_cong, rule other) (use False in blast)
      with False u D(5) [of u i] show ?thesis by auto
    qed
  qed
  ultimately show thesis using that by blast
qed

text \<open>The locks of one call as a list of requests: what both this manager and \<^verbatim>\<open>OldLockManager\<close> do with them.\<close>

fun acquire_requests ::
  "txn_id \<Rightarrow> (key_replica \<times> key_type) list \<Rightarrow> rma_txn_info \<times> (key_replica \<rightharpoonup> lock_state) \<times> nat \<Rightarrow>
   (rma_txn_info \<times> (key_replica \<rightharpoonup> lock_state) \<times> nat) result" where
  "acquire_requests t [] st = Inr st"
| "acquire_requests t ((k, ty) # rs) st =
     (case RMA_acquire_key t k ty st of Inl e \<Rightarrow> Inl e | Inr st' \<Rightarrow> acquire_requests t rs st')"

definition acquire_all ::
  "txn_id \<Rightarrow> int \<Rightarrow> (key_replica \<times> key_type) list \<Rightarrow> rma_lock_manager \<Rightarrow> (acquire_result \<times> rma_lock_manager) result" where
  "acquire_all t n rs s =
     (let infos = try_emplace (rma_infos s) t (RMA_TxnInfo n)
      in case infos t of
           None \<Rightarrow> Inl (UndefinedBehaviour ''txn_info'')
         | Some info \<Rightarrow>
             (case acquire_requests t rs (info, rma_lock_table s, num_locked_keys s) of
                Inl e \<Rightarrow> Inl e
              | Inr (info', tab, locked) \<Rightarrow>
                  Inr (if RMA_is_ready info' then ACQUIRED else WAITING,
                       \<lparr>rma_infos = infos(t \<mapsto> info'), rma_lock_table = tab, num_locked_keys = locked\<rparr>)))"

lemma RMA_acquire_loop_requests:
  "RMA_acquire_loop t hm rem kvs st =
   acquire_requests t (map (\<lambda>kv. (MakeKeyReplica (kv_key kv) (uint32_of_int hm), kv_type kv))
     (filter (\<lambda>kv. rem \<or> int32_of_uint32 (kv_master kv) = hm) kvs)) st"
  by (induction kvs arbitrary: st) (auto split: sum.splits)

lemma RMA_AcquireLocks_requests: "RMA_AcquireLocks x s = acquire_all (tid x) (num_required_locks x) (lock_requests x) s"
  by (simp add: RMA_AcquireLocks_def acquire_all_def Let_def RMA_acquire_loop_requests num_required_locks_def lock_requests_def
      cong: option.case_cong)

lemma acquire_requests_step:
  assumes "rma_inv H nd (infos(t \<mapsto> info)) tab" "locked_ok tab l"
    and "distinct (map fst rs)" "\<forall>k \<in> fst ` set rs. \<forall>m. (t, k, m) \<notin> set H"
  shows "\<exists>info' tab' l'. acquire_requests t rs (info, tab, l) = Inr (info', tab', l') \<and>
    rma_inv (H @ requests_of t rs) (nd(t \<mapsto> the (nd t) - int (length rs))) (infos(t \<mapsto> info')) tab' \<and>
    locked_ok tab' l'"
  using assms
proof (induction rs arbitrary: H nd info tab l)
  case Nil
  have "t \<in> dom (infos(t \<mapsto> info))" by simp
  then have "t \<in> dom nd" unfolding rma_invD(1) [OF Nil.prems(1)] .
  then have "nd(t \<mapsto> the (nd t)) = nd" by (intro fun_upd_idem) auto
  with Nil show ?case by (simp add: requests_of_def)
next
  case (Cons r rs)
  obtain k ty where r: "r = (k, ty)" by (cases r)
  let ?H = "H @ [(t, k, ty)]" and ?nd = "nd(t \<mapsto> the (nd t) - 1)"
  from Cons.prems(4) have "\<forall>m. (t, k, m) \<notin> set H" by (simp add: r)
  from rma_acquire_key_step [OF Cons.prems(1) this Cons.prems(2)] obtain info1 tab1 l1 where
    1: "RMA_acquire_key t k ty (info, tab, l) = Inr (info1, tab1, l1)"
      "rma_inv ?H ?nd (infos(t \<mapsto> info1)) tab1" "locked_ok tab1 l1" by blast
  have d: "distinct (map fst rs)" and kn: "k \<notin> fst ` set rs" using Cons.prems(3) by (simp_all add: r)
  have new: "\<forall>k' \<in> fst ` set rs. \<forall>m. (t, k', m) \<notin> set ?H"
  proof (intro ballI allI)
    fix k' m
    assume k': "k' \<in> fst ` set rs"
    then have "k' \<noteq> k" using kn by blast
    moreover have "(t, k', m) \<notin> set H" using Cons.prems(4) k' by auto
    ultimately show "(t, k', m) \<notin> set ?H" by simp
  qed
  have H: "?H @ requests_of t rs = H @ requests_of t (r # rs)"
    and n: "?nd(t \<mapsto> the (?nd t) - int (length rs)) = nd(t \<mapsto> the (nd t) - int (length (r # rs)))"
    by (simp_all add: r requests_of_def algebra_simps)
  have "acquire_requests t (r # rs) (info, tab, l) = acquire_requests t rs (info1, tab1, l1)"
    using 1(1) by (simp add: r)
  with Cons.IH [OF 1(2,3) d new] show ?case unfolding H n by (simp only:)
qed

lemma acquire_all_sim:
  fixes t n rs
  assumes sim: "rma_sim S s" and legal: "legal_acquire S t n rs"
  shows "\<exists>s'. acquire_all t n rs s = Inr (if spec_ready (spec_acquire t n rs S) t then ACQUIRED else WAITING, s') \<and>
    rma_sim (spec_acquire t n rs S) s'"
proof -
  let ?t = t and ?rs = rs and ?n = n
  let ?S = "spec_acquire ?t ?n ?rs S"
  have inv: "rma_inv (hist S) (need S) (rma_infos s) (rma_lock_table s)"
    and nonneg: "\<And>t n. need S t = Some n \<Longrightarrow> 0 \<le> n"
    and lok: "locked_ok (rma_lock_table s) (num_locked_keys s)" using sim by (simp_all add: rma_sim_def)
  note D = rma_invD [OF inv]
  define nd where "nd = try_emplace (need S) ?t ?n"
  define m0 where "m0 = try_emplace (rma_infos s) ?t (RMA_TxnInfo ?n)"
  obtain info where info: "m0 ?t = Some info" by (auto simp: m0_def try_emplace_same)
  have inv0: "rma_inv (hist S) nd (m0(?t \<mapsto> info)) (rma_lock_table s)"
  proof (cases "need S ?t")
    case None
    then have fresh: "?t \<notin> fst ` set (hist S)" using legal by (auto simp: legal_acquire_def)
    then have "keys_of (hist S) ?t = []" "wcount (hist S) (rma_lock_table s) ?t = 0"
      by (force simp: keys_of_def wcount_def filter_empty_conv)+
    moreover have none: "rma_infos s ?t = None" using None D(1) by (metis domIff)
    moreover have "queue_of (hist S) (insert ?t (active S)) k = queue_of (hist S) (active S) k" for k
      using fresh by (rule queue_of_fresh)
    moreover have "info = RMA_TxnInfo ?n" using info none by (simp add: m0_def try_emplace_def)
    ultimately show ?thesis
      using inv None unfolding rma_inv_def nd_def m0_def try_emplace_def
      by (simp add: RMA_TxnInfo_def)
  next
    case (Some n)
    then have "?t \<in> dom (rma_infos s)" using D(1) by blast
    then obtain i where i: "rma_infos s ?t = Some i" by blast
    then have "m0 = rma_infos s" "nd = need S" using Some by (simp_all add: m0_def nd_def try_emplace_def)
    with inv info show ?thesis by (simp add: fun_upd_idem)
  qed
  have "distinct (map fst ?rs)" "\<forall>k \<in> fst ` set ?rs. \<forall>m. (?t, k, m) \<notin> set (hist S)"
    using legal unfolding legal_acquire_def by blast+
  from acquire_requests_step [OF inv0 lok this] obtain info' tab l where
    loop: "acquire_requests ?t ?rs (info, rma_lock_table s, num_locked_keys s) = Inr (info', tab, l)"
      "rma_inv (hist S @ requests_of ?t ?rs) (nd(?t \<mapsto> the (nd ?t) - int (length ?rs))) (m0(?t \<mapsto> info')) tab"
      "locked_ok tab l"
    by blast
  have nd: "nd(?t \<mapsto> the (nd ?t) - int (length ?rs)) = need ?S"
    by (auto simp: nd_def try_emplace_def spec_acquire_def split: option.splits)
  let ?s = "\<lparr>rma_infos = m0(?t \<mapsto> info'), rma_lock_table = tab, num_locked_keys = l\<rparr>"
  have "0 \<le> n" if "need ?S u = Some n" for u n
    using that nonneg [of u n] legal by (auto simp: spec_acquire_def legal_acquire_def split: if_splits)
  then have sim': "rma_sim ?S ?s"
    using loop(2,3) unfolding nd by (simp add: rma_sim_def)
  have "acquire_all ?t ?n ?rs s = Inr (if RMA_is_ready info' then ACQUIRED else WAITING, ?s)"
    using info loop(1) unfolding acquire_all_def Let_def m0_def [symmetric] by simp
  with sim' rma_sim_ready [OF sim', of ?t info'] show ?thesis by simp
qed

section \<open>Releasing\<close>

lemma RMA_grant_eq:
  assumes "distinct us" "\<forall>u \<in> set us. m u \<noteq> None"
  shows "RMA_grant us (m, res) =
    Inr (\<lambda>u. if u \<in> set us then map_option (\<lambda>i. i\<lparr>num_waiting_for := num_waiting_for i - 1\<rparr>) (m u) else m u,
         res @ filter (\<lambda>u. num_waiting_for (the (m u)) = 1) us)"
  using assms
proof (induction us arbitrary: m res)
  case (Cons u us)
  then obtain i where i: "m u = Some i" by auto
  let ?m = "m(u \<mapsto> i\<lparr>num_waiting_for := num_waiting_for i - 1\<rparr>)"
  have "\<forall>v \<in> set us. ?m v \<noteq> None" using Cons.prems by simp
  then have "RMA_grant (u # us) (m, res) =
      Inr (\<lambda>v. if v \<in> set us then map_option (\<lambda>i. i\<lparr>num_waiting_for := num_waiting_for i - 1\<rparr>) (?m v) else ?m v,
        (if num_waiting_for i = 1 then res @ [u] else res) @ filter (\<lambda>v. num_waiting_for (the (?m v)) = 1) us)"
    using Cons.prems(1) by (simp add: i Let_def RMA_is_ready_def Cons.IH)
  moreover have "filter (\<lambda>v. num_waiting_for (the (?m v)) = 1) us = filter (\<lambda>v. num_waiting_for (the (m v)) = 1) us"
    using Cons.prems(1) by (intro filter_cong) auto
  moreover have "(\<lambda>v. if v \<in> set us then map_option (\<lambda>i. i\<lparr>num_waiting_for := num_waiting_for i - 1\<rparr>) (?m v) else ?m v) =
      (\<lambda>v. if v \<in> set (u # us) then map_option (\<lambda>i. i\<lparr>num_waiting_for := num_waiting_for i - 1\<rparr>) (m v) else m v)"
    using Cons.prems(1) i by (intro ext) auto
  ultimately show ?case using i by simp
qed simp

text \<open>One turn of the release loop: a key whose lock the transaction holds.\<close>

definition rma_num :: "'k request list \<Rightarrow> (txn_id \<rightharpoonup> int) \<Rightarrow> ('k \<rightharpoonup> lock_state) \<Rightarrow> txn_id \<Rightarrow> int" where
  "rma_num H nd tab u = the (nd u) + int (wcount H tab u)"

definition rma_releasing ::
  "txn_id \<Rightarrow> key_replica request list \<Rightarrow> (txn_id \<rightharpoonup> int) \<Rightarrow> (key_replica \<rightharpoonup> lock_state) \<Rightarrow>
   (txn_id \<rightharpoonup> rma_txn_info) \<times> (key_replica \<rightharpoonup> lock_state) \<times> nat \<times> txn_id list \<Rightarrow> bool" where
  "rma_releasing t H nd tab0 st \<longleftrightarrow> (case st of (m, tab, l, res) \<Rightarrow>
     dom m = dom nd \<and> locked_ok tab l \<and>
     (\<forall>u i. u \<noteq> t \<longrightarrow> m u = Some i \<longrightarrow> info_keys i = keys_of H u \<and> num_waiting_for i = rma_num H nd tab u) \<and>
     set res = {u \<in> dom nd - {t}. rma_num H nd tab u = 0 \<and> rma_num H nd tab0 u \<noteq> 0} \<and>
     (\<forall>u \<in> dom nd - {t}. rma_num H nd tab u \<le> rma_num H nd tab0 u))"

lemma rma_release_key:
  assumes st: "rma_releasing t H nd tab0 (m, tab, l, res)"
    and nr: "no_repeat H" and nn: "\<forall>u n. nd u = Some n \<longrightarrow> 0 \<le> n"
    and k: "ls_at tab k = ls_of (queue_of H (dom nd) k)" "t \<in> set (holders (ls_at tab k))"
  obtains m' l' res' where
    "\<And>ks. RMA_release_loop t (k # ks) (m, tab, l, res) =
       RMA_release_loop t ks (m', tab(k \<mapsto> ls_of (filter (\<lambda>p. fst p \<noteq> t) (queue_of H (dom nd) k))), l', res')"
    "rma_releasing t H nd tab0 (m', tab(k \<mapsto> ls_of (filter (\<lambda>p. fst p \<noteq> t) (queue_of H (dom nd) k))), l', res')"
proof -
  let ?q = "queue_of H (dom nd) k" and ?q' = "filter (\<lambda>p. fst p \<noteq> t) (queue_of H (dom nd) k)"
  define tab' where "tab' = tab(k \<mapsto> ls_of ?q')"
  have at: "ls_at tab' k = ls_of ?q'" "\<And>k'. k' \<noteq> k \<Longrightarrow> ls_at tab' k' = ls_at tab k'" by (simp_all add: tab'_def)
  have dist: "distinct (map fst ?q)" using nr by (rule no_repeat_queue)
  from ls_of_release [OF k(2) [unfolded k(1)] dist] obtain g where
    g: "LockState_Release t (ls_of ?q) = (g, ls_of ?q')" "distinct g"
       "set g = set (holders (ls_of ?q')) - set (holders (ls_of ?q))" .
  have gq: "u \<noteq> t \<and> u \<in> dom nd \<and> (\<exists>m. (u, k, m) \<in> set H)" if "u \<in> set g" for u
  proof -
    have "u \<in> fst ` set ?q'" using that g(3) ls_of_members [of ?q'] by blast
    then have "u \<noteq> t" "u \<in> fst ` set ?q" by auto
    then show ?thesis by (simp add: fst_in_queue_of)
  qed
  have wc: "wcount H tab u = wcount H tab' u + (if u \<in> set g then 1 else 0)" if "u \<noteq> t" for u
  proof (cases "u \<in> set g")
    case True
    with gq obtain m where m: "(u, k, m) \<in> set H" by blast
    have "u \<notin> set (holders (ls_at tab k))" "u \<in> set (holders (ls_at tab' k))"
      using True g(3) unfolding k(1) at(1) by blast+
    from wcount_grant [OF nr m this at(2)] True show ?thesis by simp
  next
    case False
    then have "u \<in> set (holders (ls_at tab k)) \<longleftrightarrow> u \<in> set (holders (ls_at tab' k))"
      using g(3) holders_filter_mono [OF _ dist that] unfolding k(1) at(1) by blast
    then have "wcount H tab u = wcount H tab' u" using at(2) by (intro wcount_cong) metis
    with False show ?thesis by simp
  qed
  have num: "rma_num H nd tab u = rma_num H nd tab' u + (if u \<in> set g then 1 else 0)" if "u \<noteq> t" for u
    using wc [OF that] by (simp add: rma_num_def)
  have S: "dom m = dom nd" "locked_ok tab l"
    "\<And>u i. u \<noteq> t \<Longrightarrow> m u = Some i \<Longrightarrow> info_keys i = keys_of H u \<and> num_waiting_for i = rma_num H nd tab u"
    "set res = {u \<in> dom nd - {t}. rma_num H nd tab u = 0 \<and> rma_num H nd tab0 u \<noteq> 0}"
    "\<And>u. u \<in> dom nd - {t} \<Longrightarrow> rma_num H nd tab u \<le> rma_num H nd tab0 u"
    using st unfolding rma_releasing_def prod.case by (elim conjE, (assumption | simp))+
  define m' where "m' = (\<lambda>u. if u \<in> set g then map_option (\<lambda>i. i\<lparr>num_waiting_for := num_waiting_for i - 1\<rparr>) (m u) else m u)"
  define res' where "res' = res @ filter (\<lambda>u. num_waiting_for (the (m u)) = 1) g"
  define l' where "l' = (if ls_mode (ls_of ?q') = LM_UNLOCKED then (l + (2 ^ 32 - 1)) mod 2 ^ 32 else l)"
  have gm: "\<forall>u \<in> set g. m u \<noteq> None" using gq S(1) by blast
  have locked: "ls_mode (ls_at tab k) \<noteq> LM_UNLOCKED" using k by (auto simp: LockState_def)
  have tabk: "tab k = Some (ls_of ?q)" using k by (auto simp: ls_at_def LockState_def split: option.splits)
  have "RMA_release_loop t (k # ks) (m, tab, l, res) = RMA_release_loop t ks (m', tab', l', res')" for ks
    using locked by (simp add: tabk g(1) RMA_grant_eq [OF g(2) gm] m'_def tab'_def l'_def res'_def Let_def k(1))
  moreover have "rma_releasing t H nd tab0 (m', tab', l', res')"
    unfolding rma_releasing_def prod.case
  proof (intro conjI allI impI ballI)
    show "dom m' = dom nd" unfolding S(1) [symmetric] by (auto simp: m'_def split: if_splits)
    show "locked_ok tab' l'" unfolding tab'_def l'_def by (rule locked_ok_release [OF S(2) locked])
    fix u i
    assume u: "u \<noteq> t" "m' u = Some i"
    show "info_keys i = keys_of H u" "num_waiting_for i = rma_num H nd tab' u"
      using u S(3) [OF u(1)] num [OF u(1)] by (auto simp: m'_def split: if_splits)
  next
    have "u \<in> set res' \<longleftrightarrow> u \<in> dom nd - {t} \<and> rma_num H nd tab' u = 0 \<and> rma_num H nd tab0 u \<noteq> 0" for u
    proof (cases "u \<in> set g")
      case True
      with gq have u: "u \<noteq> t" "u \<in> dom nd" by simp_all
      obtain i where "m u = Some i" using True gm by blast
      with S(3) [OF u(1)] have "num_waiting_for (the (m u)) = rma_num H nd tab u" by simp
      moreover have "rma_num H nd tab u = rma_num H nd tab' u + 1" using num [OF u(1)] True by simp
      moreover have "0 \<le> rma_num H nd tab' u" using u(2) nn by (auto simp: rma_num_def)
      moreover have "rma_num H nd tab u \<le> rma_num H nd tab0 u" using S(5) u by blast
      ultimately show ?thesis using True u by (simp add: res'_def S(4))
    next
      case False
      then have "u \<in> set res' \<longleftrightarrow> u \<in> set res" by (simp add: res'_def)
      then show ?thesis using False num [of u] unfolding S(4) by auto
    qed
    then show "set res' = {u \<in> dom nd - {t}. rma_num H nd tab' u = 0 \<and> rma_num H nd tab0 u \<noteq> 0}" by blast
  next
    fix u
    assume "u \<in> dom nd - {t}"
    then show "rma_num H nd tab' u \<le> rma_num H nd tab0 u" using S(5) [of u] num [of u] by (auto split: if_splits)
  qed
  ultimately show thesis using that unfolding tab'_def by blast
qed

lemma rma_release_loop:
  assumes "rma_releasing t H nd tab0 (m, tab, l, res)"
    and nr: "no_repeat H" and nn: "\<forall>u n. nd u = Some n \<longrightarrow> 0 \<le> n"
    and "distinct ks"
    and "\<forall>k \<in> set ks. ls_at tab k = ls_of (queue_of H (dom nd) k) \<and> t \<in> set (holders (ls_at tab k))"
  shows "\<exists>m' tab' l' res'. RMA_release_loop t ks (m, tab, l, res) = Inr (m', tab', l', res') \<and>
    rma_releasing t H nd tab0 (m', tab', l', res') \<and>
    (\<forall>k. ls_at tab' k = (if k \<in> set ks then ls_of (filter (\<lambda>p. fst p \<noteq> t) (queue_of H (dom nd) k))
                          else ls_at tab k))"
  using assms(1,4,5)
proof (induction ks arbitrary: m tab l res)
  case Nil
  then show ?case by simp
next
  case (Cons k ks)
  let ?ls = "ls_of (filter (\<lambda>p. fst p \<noteq> t) (queue_of H (dom nd) k))"
  have k: "ls_at tab k = ls_of (queue_of H (dom nd) k)" "t \<in> set (holders (ls_at tab k))"
    using Cons.prems(3) by (meson list.set_intros(1))+
  have kn: "k \<notin> set ks" and d: "distinct ks" using Cons.prems(2) by simp_all
  obtain m1 l1 res1 where
    1: "\<And>ks. RMA_release_loop t (k # ks) (m, tab, l, res) = RMA_release_loop t ks (m1, tab(k \<mapsto> ?ls), l1, res1)"
      "rma_releasing t H nd tab0 (m1, tab(k \<mapsto> ?ls), l1, res1)"
    using rma_release_key [OF Cons.prems(1) nr nn k, where thesis = thesis] by meson
  have "\<forall>k' \<in> set ks. ls_at (tab(k \<mapsto> ?ls)) k' = ls_of (queue_of H (dom nd) k') \<and>
      t \<in> set (holders (ls_at (tab(k \<mapsto> ?ls)) k'))"
    using Cons.prems(3) kn by (metis list.set_intros(2) ls_at_upd(2))
  from Cons.IH [OF 1(2) d this] obtain m' tab' l' res' where
    2: "RMA_release_loop t ks (m1, tab(k \<mapsto> ?ls), l1, res1) = Inr (m', tab', l', res')"
      "rma_releasing t H nd tab0 (m', tab', l', res')"
      "\<And>k'. ls_at tab' k' = (if k' \<in> set ks then ls_of (filter (\<lambda>p. fst p \<noteq> t) (queue_of H (dom nd) k'))
                            else ls_at (tab(k \<mapsto> ?ls)) k')" by blast
  have "ls_at tab' k' = (if k' \<in> set (k # ks) then ls_of (filter (\<lambda>p. fst p \<noteq> t) (queue_of H (dom nd) k'))
          else ls_at tab k')" for k'
    using kn by (cases "k' = k") (simp_all add: 2(3))
  with 1(1) 2(1,2) show ?case by (simp only:) blast
qed

lemma rma_sim_init: "rma_sim spec_init RMALockManager"
  by (simp add: rma_sim_def rma_inv_def spec_init_def RMALockManager_def no_repeat_def ls_at_def
      locked_ok_def LockState_def)

lemma rma_sim_release:
  assumes sim: "rma_sim S s" and ready: "spec_ready S t"
  shows "\<exists>ts s'. RMA_ReleaseLocks t s = Inr (ts, s') \<and> rma_sim (spec_release t S) s' \<and>
    distinct ts \<and> set ts = newly_ready S t"
proof -
  let ?H = "hist S" and ?S = "spec_release t S"
  have inv: "rma_inv ?H (need S) (rma_infos s) (rma_lock_table s)"
    and nn: "\<forall>t n. need S t = Some n \<longrightarrow> 0 \<le> n"
    and lok: "locked_ok (rma_lock_table s) (num_locked_keys s)" using sim by (simp_all add: rma_sim_def)
  note D = rma_invD [OF inv]
  have tA: "t \<in> active S" using ready by (rule spec_ready_active)
  then obtain info where info: "rma_infos s t = Some info" using D(1) by blast
  have hold: "t \<in> set (holders (ls_at (rma_lock_table s) k))" if "(t, k, m) \<in> set ?H" for k m
  proof -
    have "wcount ?H (rma_lock_table s) t = 0"
      using holds_all_iff [OF D(2,3) tA] ready unfolding spec_ready_def by blast
    with that show ?thesis unfolding wcount_zero by blast
  qed
  have "rma_releasing t ?H (need S) (rma_lock_table s) (rma_infos s, rma_lock_table s, num_locked_keys s, [])"
    unfolding rma_releasing_def rma_num_def using D(1,4,5) lok by auto
  moreover have "\<forall>k \<in> set (info_keys info). ls_at (rma_lock_table s) k = ls_of (queue_of ?H (active S) k) \<and>
      t \<in> set (holders (ls_at (rma_lock_table s) k))"
  proof (intro ballI conjI D(3))
    fix k
    assume "k \<in> set (info_keys info)"
    then obtain m where "(t, k, m) \<in> set ?H" unfolding D(4) [OF info] in_keys_of by blast
    then show "t \<in> set (holders (ls_at (rma_lock_table s) k))" by (rule hold)
  qed
  moreover have "distinct (info_keys info)" unfolding D(4) [OF info] using D(2) by (rule no_repeat_keys)
  ultimately obtain m tab l res where
    loop: "RMA_release_loop t (info_keys info) (rma_infos s, rma_lock_table s, num_locked_keys s, []) =
        Inr (m, tab, l, res)"
      "rma_releasing t ?H (need S) (rma_lock_table s) (m, tab, l, res)"
      "\<And>k. ls_at tab k = (if k \<in> set (info_keys info)
          then ls_of (filter (\<lambda>p. fst p \<noteq> t) (queue_of ?H (active S) k)) else ls_at (rma_lock_table s) k)"
    using rma_release_loop [OF _ D(2) nn] by blast
  let ?s = "\<lparr>rma_infos = m(t := None), rma_lock_table = tab, num_locked_keys = l\<rparr>"
  have tab: "ls_at tab k = ls_of (queue_of ?H (active ?S) k)" for k
  proof (cases "k \<in> set (info_keys info)")
    case True
    then show ?thesis by (simp add: loop(3) queue_of_Diff)
  next
    case False
    then have "t \<notin> fst ` set (queue_of ?H (active S) k)" by (auto simp: D(4) [OF info] in_keys_of fst_in_queue_of)
    then show ?thesis using False D(3) by (simp add: loop(3) queue_of_Diff filter_notin)
  qed
  have R: "dom m = active S" "locked_ok tab l"
    "\<And>u i. u \<noteq> t \<Longrightarrow> m u = Some i \<Longrightarrow> info_keys i = keys_of ?H u \<and> num_waiting_for i = rma_num ?H (need S) tab u"
    "set res = {u \<in> active S - {t}. rma_num ?H (need S) tab u = 0 \<and> rma_num ?H (need S) (rma_lock_table s) u \<noteq> 0}"
    using loop(2) unfolding rma_releasing_def prod.case by (elim conjE, (assumption | simp))+
  have "rma_inv ?H (need ?S) (m(t := None)) tab"
    unfolding rma_inv_def
  proof (intro conjI allI impI)
    show "dom (m(t := None)) = active ?S" unfolding active_release R(1) [symmetric] by auto
    show "no_repeat ?H" by (rule D(2))
    show "ls_at tab k = ls_of (queue_of ?H (active ?S) k)" for k by (rule tab)
    fix u i
    assume "(m(t := None)) u = Some i"
    with R(3) [of u i] show "info_keys i = keys_of ?H u"
      "num_waiting_for i = the (need ?S u) + int (wcount ?H tab u)"
      by (auto simp: rma_num_def spec_release_def split: if_splits)
  qed
  then have sim': "rma_sim ?S ?s"
    using nn R(2) by (auto simp: rma_sim_def) (auto simp: spec_release_def split: if_splits)
  have "u \<in> set res \<longleftrightarrow> u \<in> newly_ready S t" for u
  proof (cases "u \<in> active S - {t}")
    case True
    then have ut: "u \<noteq> t" by blast
    obtain i where i: "rma_infos s u = Some i" using True D(1) by blast
    obtain j where j: "m u = Some j" using True R(1) by blast
    have "spec_ready S u \<longleftrightarrow> rma_num ?H (need S) (rma_lock_table s) u = 0"
      using rma_sim_ready [OF sim i] D(5) [OF i] by (simp add: RMA_is_ready_def rma_num_def)
    moreover have "spec_ready ?S u \<longleftrightarrow> rma_num ?H (need S) tab u = 0"
      using rma_sim_ready [OF sim', of u j] R(3) [OF ut j] j ut by (simp add: RMA_is_ready_def)
    ultimately show ?thesis using True unfolding R(4) newly_ready_def by blast
  next
    case False
    then have "\<not> spec_ready ?S u" using spec_ready_active [of ?S u] unfolding active_release by blast
    with False show ?thesis unfolding R(4) newly_ready_def by blast
  qed
  moreover have "RMA_ReleaseLocks t s = Inr (sort_unique res, ?s)"
    by (simp add: RMA_ReleaseLocks_def info loop(1))
  ultimately show ?thesis using sim' by auto
qed

interpretation rma: lock_manager lock_requests num_required_locks RMALockManager RMA_AcquireLocks
  RMA_ReleaseLocks rma_sim
  using rma_sim_init acquire_all_sim rma_sim_release by unfold_locales (simp_all add: RMA_AcquireLocks_requests)

end
