(* ===== verification/Ddr_Lock_Manager.thy ===== *)
theory Ddr_Lock_Manager
  imports Lock_Spec
begin

text \<open>
  \<^verbatim>\<open>module/scheduler_components/ddr_lock_manager.{h,cpp}\<close>: the lock manager that keeps, for every
  \<^verbatim>\<open><key, replica>\<close>, only the tail of the lock queue (last writer and the readers after it), and
  a graph of which transaction waits for which.

  The tail may name transactions that already left; the proof shows that the graph of the
  transactions still present nevertheless orders every two conflicting requests, so that the
  manager meets the contract of \<open>Lock_Spec\<close>.
\<close>

section \<open>Model\<close>

record lock_queue_tail =
  write_lock_requester :: "txn_id option"
  read_lock_requesters :: "txn_id list"

definition empty_tail :: lock_queue_tail where
  "empty_tail = \<lparr>write_lock_requester = None, read_lock_requesters = []\<rparr>"

definition LockQueueTail_AcquireReadLock ::
  "txn_id \<Rightarrow> lock_queue_tail \<Rightarrow> txn_id option \<times> lock_queue_tail" where
  "LockQueueTail_AcquireReadLock t q =
     (write_lock_requester q, q\<lparr>read_lock_requesters := read_lock_requesters q @ [t]\<rparr>)"

definition LockQueueTail_AcquireWriteLock ::
  "txn_id \<Rightarrow> lock_queue_tail \<Rightarrow> txn_id list \<times> lock_queue_tail" where
  "LockQueueTail_AcquireWriteLock t q =
     (if read_lock_requesters q = [] then
        (case write_lock_requester q of None \<Rightarrow> [] | Some w \<Rightarrow> [w],
         q\<lparr>write_lock_requester := Some t\<rparr>)
      else (read_lock_requesters q, q\<lparr>read_lock_requesters := [], write_lock_requester := Some t\<rparr>))"

record ddr_txn_info =
  waited_by :: "txn_id list"
  unarrived_lock_requests :: int
  waiting_for_cnt :: int

definition DDR_TxnInfo :: "int \<Rightarrow> ddr_txn_info" where
  "DDR_TxnInfo unarrived =
     \<lparr>waited_by = [], unarrived_lock_requests = unarrived, waiting_for_cnt = 0\<rparr>"

definition DDR_is_ready :: "ddr_txn_info \<Rightarrow> bool" where
  "DDR_is_ready i \<longleftrightarrow> waiting_for_cnt i = 0 \<and> unarrived_lock_requests i = 0"

record ddr_lock_manager =
  ddr_infos :: "txn_id \<rightharpoonup> ddr_txn_info"
  ddr_lock_table :: "key_replica \<rightharpoonup> lock_queue_tail"

definition DDRLockManager :: ddr_lock_manager where
  "DDRLockManager = \<lparr>ddr_infos = Map.empty, ddr_lock_table = Map.empty\<rparr>"

text \<open>\<^verbatim>\<open>lock_table_[key_replica]\<close> creates an empty entry when there is none.\<close>

definition tail_at :: "('k \<rightharpoonup> lock_queue_tail) \<Rightarrow> 'k \<Rightarrow> lock_queue_tail" where
  "tail_at tab k = (case tab k of None \<Rightarrow> empty_tail | Some q \<Rightarrow> q)"

text \<open>The first loop of \<^verbatim>\<open>AcquireLocks\<close>: over the keys, with the lock table, the number of relevant
  locks and the blocking transactions as its state.\<close>

fun DDR_collect ::
  "txn_id \<Rightarrow> int \<Rightarrow> bool \<Rightarrow> key_value list \<Rightarrow>
   (key_replica \<rightharpoonup> lock_queue_tail) \<times> int \<times> txn_id list \<Rightarrow>
   (key_replica \<rightharpoonup> lock_queue_tail) \<times> int \<times> txn_id list" where
  "DDR_collect t hm rem [] st = st"
| "DDR_collect t hm rem (kv # kvs) (tab, n, blocking) =
     (if \<not> rem \<and> int32_of_uint32 (kv_master kv) \<noteq> hm
      then DDR_collect t hm rem kvs (tab, n, blocking)
      else
        let key_replica = MakeKeyReplica (kv_key kv) (uint32_of_int hm);
            tail = tail_at tab key_replica
        in case kv_type kv of
             READ \<Rightarrow>
               (case LockQueueTail_AcquireReadLock t tail of (b_txn, tail') \<Rightarrow>
                  DDR_collect t hm rem kvs (tab(key_replica \<mapsto> tail'), n + 1,
                    (case b_txn of None \<Rightarrow> blocking | Some b \<Rightarrow> blocking @ [b])))
           | WRITE \<Rightarrow>
               (case LockQueueTail_AcquireWriteLock t tail of (b_txns, tail') \<Rightarrow>
                  DDR_collect t hm rem kvs (tab(key_replica \<mapsto> tail'), n + 1, blocking @ b_txns)))"

text \<open>The second loop: the transaction joins the \<^verbatim>\<open>waited_by\<close> list of each blocking transaction that
  is still there.\<close>

fun DDR_add_waits ::
  "txn_id \<Rightarrow> txn_id list \<Rightarrow> (txn_id \<rightharpoonup> ddr_txn_info) \<Rightarrow> (txn_id \<rightharpoonup> ddr_txn_info)" where
  "DDR_add_waits t [] m = m"
| "DDR_add_waits t (b # bs) m =
     (if b = t then DDR_add_waits t bs m
      else case m b of
             None \<Rightarrow> DDR_add_waits t bs m
           | Some bi \<Rightarrow> DDR_add_waits t bs
               (m(t := map_option (\<lambda>i. i\<lparr>waiting_for_cnt := waiting_for_cnt i + 1\<rparr>) (m t),
                  b \<mapsto> bi\<lparr>waited_by := waited_by bi @ [t]\<rparr>)))"

definition DDR_AcquireLocks ::
  "transaction \<Rightarrow> ddr_lock_manager \<Rightarrow> (acquire_result \<times> ddr_lock_manager) result" where
  "DDR_AcquireLocks txn s =
     (let t = tid txn;
          hm = home (internal txn);
          rem = is_remaster (program txn);
          num_locks = (if rem then 2 else int (length (keys txn)));
          info = try_emplace (ddr_infos s) t (DDR_TxnInfo num_locks)
      in case DDR_collect t hm rem (keys txn) (ddr_lock_table s, 0, []) of
           (tab, num_relevant_locks, blocking) \<Rightarrow>
             let info1 = info(t := map_option (\<lambda>i. i\<lparr>unarrived_lock_requests :=
                                    unarrived_lock_requests i - num_relevant_locks\<rparr>) (info t));
                 info2 = DDR_add_waits t (sort_unique blocking) info1;
                 s' = s\<lparr>ddr_infos := info2, ddr_lock_table := tab\<rparr>
             in (case info2 t of
                   Some i \<Rightarrow> Inr (if DDR_is_ready i then ACQUIRED else WAITING, s')
                 | None \<Rightarrow> Inl (UndefinedBehaviour ''txn_info'')))"

text \<open>The loop of \<^verbatim>\<open>ReleaseLocks\<close> over the transactions that wait for the released one.\<close>

fun DDR_unblock ::
  "txn_id list \<Rightarrow> (txn_id \<rightharpoonup> ddr_txn_info) \<Rightarrow> txn_id list \<times> (txn_id \<rightharpoonup> ddr_txn_info)" where
  "DDR_unblock [] m = ([], m)"
| "DDR_unblock (u # us) m =
     (case m u of
        None \<Rightarrow> DDR_unblock us m
      | Some i \<Rightarrow>
          let i' = i\<lparr>waiting_for_cnt := waiting_for_cnt i - 1\<rparr>;
              (rest, m') = DDR_unblock us (m(u \<mapsto> i'))
          in (if DDR_is_ready i' then u # rest else rest, m'))"

definition DDR_ReleaseLocks ::
  "txn_id \<Rightarrow> ddr_lock_manager \<Rightarrow> (txn_id list \<times> ddr_lock_manager) result" where
  "DDR_ReleaseLocks t s =
     (case ddr_infos s t of
        None \<Rightarrow> Inr ([], s)
      | Some info \<Rightarrow>
          if \<not> DDR_is_ready info then Inl (FatalLog ''Releasing unready txn is forbidden'')
          else case DDR_unblock (waited_by info) (ddr_infos s) of
                 (result, m) \<Rightarrow> Inr (result, s\<lparr>ddr_infos := m(t := None)\<rparr>))"

section \<open>The queue tail as a function of the request history\<close>

fun tail_upd :: "'k \<Rightarrow> lock_queue_tail \<Rightarrow> 'k request \<Rightarrow> lock_queue_tail" where
  "tail_upd k q (t, k', m) =
     (if k' \<noteq> k then q
      else case m of READ \<Rightarrow> snd (LockQueueTail_AcquireReadLock t q)
                   | WRITE \<Rightarrow> snd (LockQueueTail_AcquireWriteLock t q))"

definition tail_of :: "'k request list \<Rightarrow> 'k \<Rightarrow> lock_queue_tail" where
  "tail_of H k = foldl (tail_upd k) empty_tail H"

definition deps :: "lock_queue_tail \<Rightarrow> key_type \<Rightarrow> txn_id list" where
  "deps q m = (case m of
     READ \<Rightarrow> (case write_lock_requester q of None \<Rightarrow> [] | Some w \<Rightarrow> [w])
   | WRITE \<Rightarrow> (if read_lock_requesters q = []
               then (case write_lock_requester q of None \<Rightarrow> [] | Some w \<Rightarrow> [w])
               else read_lock_requesters q))"

lemma tail_of_Nil [simp]: "tail_of [] k = empty_tail"
  by (simp add: tail_of_def)

lemma tail_of_snoc [simp]: "tail_of (H @ [r]) k = tail_upd k (tail_of H k) r"
  by (simp add: tail_of_def)

lemma empty_tail_simps [simp]:
  "write_lock_requester empty_tail = None" "read_lock_requesters empty_tail = []"
  by (simp_all add: empty_tail_def)

lemmas tail_defs = LockQueueTail_AcquireReadLock_def LockQueueTail_AcquireWriteLock_def

lemma tail_requesters_in_hist:
  "(write_lock_requester (tail_of H k) = Some w \<longrightarrow> (w, k, WRITE) \<in> set H) \<and>
   (\<forall>r \<in> set (read_lock_requesters (tail_of H k)). (r, k, READ) \<in> set H)"
proof (induction H rule: rev_induct)
  case (snoc x H)
  obtain t k' m where x: "x = (t, k', m)" by (cases x)
  show ?case using snoc by (auto simp: x tail_defs split: key_type.splits)
qed simp

lemma deps_in_hist: "d \<in> set (deps (tail_of H k) m) \<Longrightarrow> \<exists>m1. (d, k, m1) \<in> set H \<and> conflicts m1 m"
  using tail_requesters_in_hist [of H k d]
  by (cases "write_lock_requester (tail_of H k)")
     (auto simp: deps_def conflicts_def split: key_type.splits if_splits)

text \<open>Every earlier conflicting request is covered by some transaction in the tail, through a chain
  of conflicts.\<close>

lemma tail_covers:
  "(\<forall>a. (a, k, WRITE) \<in> set H \<longrightarrow>
      (\<exists>w. write_lock_requester (tail_of H k) = Some w \<and> (a, w) \<in> (conf_prec H)\<^sup>*)) \<and>
   (\<forall>a m. (a, k, m) \<in> set H \<longrightarrow>
      (\<exists>d \<in> set (deps (tail_of H k) WRITE). (a, d) \<in> (conf_prec H)\<^sup>*))"
proof (induction H rule: rev_induct)
  case Nil
  then show ?case by simp
next
  case (snoc x H)
  obtain t k' m where x: "x = (t, k', m)" by (cases x)
  let ?C = "conf_prec H" and ?C' = "conf_prec (H @ [x])"
  have sub: "?C\<^sup>* \<subseteq> ?C'\<^sup>*" by (intro rtrancl_mono conf_prec_mono)
  show ?case
  proof (cases "k' = k")
    case False
    then have "tail_of (H @ [x]) k = tail_of H k" and "\<And>a m. (a, k, m) \<in> set (H @ [x]) \<longleftrightarrow> (a, k, m) \<in> set H"
      by (auto simp: x)
    with snoc sub show ?thesis by (simp only:) blast
  next
    case k: True
    have step: "(d, t) \<in> ?C'\<^sup>*" if "(d, k, m1) \<in> set H" "conflicts m1 m" for d m1
      using that by (cases "d = t") (auto simp: x k conf_prec_snoc)
    have cov: "(a, t) \<in> ?C'\<^sup>*" if "(a, d) \<in> ?C\<^sup>*" "d \<in> set (deps (tail_of H k) m)" for a d
    proof -
      from deps_in_hist [OF that(2)] obtain m1 where "(d, k, m1) \<in> set H" "conflicts m1 m" by blast
      then have "(d, t) \<in> ?C'\<^sup>*" by (rule step)
      moreover have "(a, d) \<in> ?C'\<^sup>*" using that(1) sub by blast
      ultimately show ?thesis by (rule rtrancl_trans [rotated])
    qed
    show ?thesis
    proof (cases m)
      case WRITE
      have q: "write_lock_requester (tail_of (H @ [x]) k) = Some t" "deps (tail_of (H @ [x]) k) WRITE = [t]"
        by (auto simp: x k WRITE tail_defs deps_def)
      have "(a, t) \<in> ?C'\<^sup>*" if "(a, k, m2) \<in> set (H @ [x])" for a m2
      proof (cases "(a, k, m2) \<in> set H")
        case True
        with snoc obtain d where "d \<in> set (deps (tail_of H k) WRITE)" "(a, d) \<in> ?C\<^sup>*" by blast
        then show ?thesis using cov WRITE by simp
      next
        case False
        with that show ?thesis by (simp add: x)
      qed
      then show ?thesis using q by auto
    next
      case READ
      let ?q = "tail_of H k"
      have w: "write_lock_requester (tail_of (H @ [x]) k) = write_lock_requester ?q"
        and d: "deps (tail_of (H @ [x]) k) WRITE = read_lock_requesters ?q @ [t]"
        by (simp_all add: x k READ tail_defs deps_def)
      have 1: "\<exists>w. write_lock_requester (tail_of (H @ [x]) k) = Some w \<and> (a, w) \<in> ?C'\<^sup>*"
        if "(a, k, WRITE) \<in> set (H @ [x])" for a
      proof -
        have "(a, k, WRITE) \<in> set H" using that by (simp add: x READ)
        with snoc sub show ?thesis unfolding w by blast
      qed
      have 2: "\<exists>d \<in> set (deps (tail_of (H @ [x]) k) WRITE). (a, d) \<in> ?C'\<^sup>*"
        if a: "(a, k, m2) \<in> set (H @ [x])" for a m2
      proof (cases "(a, k, m2) \<in> set H")
        case False
        with a d show ?thesis by (auto simp: x)
      next
        case True
        then obtain e where e: "e \<in> set (deps ?q WRITE)" "(a, e) \<in> ?C\<^sup>*" using snoc by blast
        show ?thesis
        proof (cases "read_lock_requesters ?q = []")
          case True
          then have "e \<in> set (deps ?q m)" using e(1) READ by (simp add: deps_def)
          with e cov d show ?thesis by auto
        next
          case False
          with e sub d show ?thesis by (auto simp: deps_def)
        qed
      qed
      from 1 2 show ?thesis by blast
    qed
  qed
qed

lemma deps_cover:
  assumes "(a, k, m1) \<in> set H" "conflicts m1 m"
  shows "\<exists>d \<in> set (deps (tail_of H k) m). (a, d) \<in> (conf_prec H)\<^sup>*"
proof (cases m)
  case READ
  with assms have "m1 = WRITE" by (auto simp: conflicts_def)
  with assms obtain w where "write_lock_requester (tail_of H k) = Some w" "(a, w) \<in> (conf_prec H)\<^sup>*"
    using tail_covers [of k H] by blast
  with READ show ?thesis by (simp add: deps_def)
next
  case WRITE
  with assms tail_covers [of k H] show ?thesis by blast
qed

section \<open>The two loops of AcquireLocks\<close>

fun blocking_of :: "'k request list \<Rightarrow> txn_id \<Rightarrow> ('k \<times> key_type) list \<Rightarrow> txn_id list" where
  "blocking_of H t [] = []"
| "blocking_of H t ((k, m) # rs) = deps (tail_of H k) m @ blocking_of (H @ [(t, k, m)]) t rs"

lemma DDR_collect_eq:
  assumes "\<forall>k. tail_at tab k = tail_of H k"
    and "rs = map (\<lambda>kv. (MakeKeyReplica (kv_key kv) (uint32_of_int hm), kv_type kv))
                (filter (\<lambda>kv. rem \<or> int32_of_uint32 (kv_master kv) = hm) kvs)"
  shows "\<exists>tab'. DDR_collect t hm rem kvs (tab, n, bl) =
             (tab', n + int (length rs), bl @ blocking_of H t rs) \<and>
           (\<forall>k. tail_at tab' k = tail_of (H @ requests_of t rs) k)"
  using assms
proof (induction kvs arbitrary: tab H n bl rs)
  case Nil
  then show ?case by (simp add: requests_of_def)
next
  case (Cons kv kvs)
  let ?k = "MakeKeyReplica (kv_key kv) (uint32_of_int hm)"
  let ?rs = "map (\<lambda>kv. (MakeKeyReplica (kv_key kv) (uint32_of_int hm), kv_type kv))
                (filter (\<lambda>kv. rem \<or> int32_of_uint32 (kv_master kv) = hm) kvs)"
  show ?case
  proof (cases "rem \<or> int32_of_uint32 (kv_master kv) = hm")
    case False
    with Cons.IH [OF Cons.prems(1) refl, of n bl] Cons.prems(2) show ?thesis by simp
  next
    case True
    let ?H = "H @ [(t, ?k, kv_type kv)]"
    let ?tab = "tab(?k \<mapsto> tail_of ?H ?k)"
    have tab: "\<forall>k. tail_at ?tab k = tail_of ?H k"
      using Cons.prems(1) by (auto simp: tail_at_def)
    have rs: "rs = (?k, kv_type kv) # ?rs" using True Cons.prems(2) by auto
    have H: "H @ requests_of t rs = ?H @ requests_of t ?rs" by (simp add: rs requests_of_def)
    have "DDR_collect t hm rem (kv # kvs) (tab, n, bl) =
        DDR_collect t hm rem kvs (?tab, n + 1, bl @ deps (tail_of H ?k) (kv_type kv))"
      using True Cons.prems(1)
      by (auto simp: Let_def tail_defs deps_def split: key_type.splits option.splits)
    moreover obtain tab' where "DDR_collect t hm rem kvs (?tab, n + 1, bl @ deps (tail_of H ?k) (kv_type kv)) =
        (tab', n + 1 + int (length ?rs), (bl @ deps (tail_of H ?k) (kv_type kv)) @ blocking_of ?H t ?rs)"
      "\<forall>k. tail_at tab' k = tail_of (?H @ requests_of t ?rs) k"
      using Cons.IH [OF tab refl] by blast
    ultimately show ?thesis unfolding H by (auto simp: rs)
  qed
qed

lemma DDR_add_waits_eq:
  assumes "distinct bs"
  shows "DDR_add_waits t bs m = (\<lambda>b. map_option (\<lambda>bi. bi
    \<lparr>waited_by := waited_by bi @ (if b \<in> set bs \<and> b \<noteq> t then [t] else []),
     waiting_for_cnt := waiting_for_cnt bi +
       (if b = t then int (card {d \<in> set bs. d \<noteq> t \<and> d \<in> dom m}) else 0)\<rparr>) (m b))"
  using assms
proof (induction bs arbitrary: m)
  case Nil
  show ?case by (auto simp: fun_eq_iff option.map_ident)
next
  case (Cons d bs)
  have notin: "{e. (e = d \<or> e \<in> set bs) \<and> e \<noteq> t \<and> e \<in> dom m} =
      (if d \<noteq> t \<and> d \<in> dom m then insert d else id) {e \<in> set bs. e \<noteq> t \<and> e \<in> dom m}" by auto
  have card: "card {e. (e = d \<or> e \<in> set bs) \<and> e \<noteq> t \<and> e \<in> dom m} =
      (if d \<noteq> t \<and> d \<in> dom m then 1 else 0) + card {e \<in> set bs. e \<noteq> t \<and> e \<in> dom m}"
    unfolding notin using Cons.prems by auto
  consider "d = t" | "d \<noteq> t" "m d = None" | di where "d \<noteq> t" "m d = Some di" by auto
  then show ?case
  proof cases
    case 1
    with Cons card show ?thesis by (auto simp: fun_eq_iff)
  next
    case 2
    with Cons card show ?thesis by (auto simp: fun_eq_iff map_option_case split: option.splits)
  next
    case 3
    let ?m = "m(t := map_option (\<lambda>i. i\<lparr>waiting_for_cnt := waiting_for_cnt i + 1\<rparr>) (m t),
                d \<mapsto> di\<lparr>waited_by := waited_by di @ [t]\<rparr>)"
    have dom: "dom ?m = dom m" using 3 by (auto split: if_splits)
    have d: "d \<notin> set bs" and bs: "distinct bs" using Cons.prems by simp_all
    have "DDR_add_waits t (d # bs) m = DDR_add_waits t bs ?m" using 3 by simp
    also have "\<dots> = (\<lambda>b. map_option (\<lambda>bi. bi
      \<lparr>waited_by := waited_by bi @ (if b \<in> set bs \<and> b \<noteq> t then [t] else []),
       waiting_for_cnt := waiting_for_cnt bi +
         (if b = t then int (card {d \<in> set bs. d \<noteq> t \<and> d \<in> dom m}) else 0)\<rparr>) (?m b))"
      using Cons.IH [OF bs, of ?m] unfolding dom .
    also have "\<dots> = (\<lambda>b. map_option (\<lambda>bi. bi
      \<lparr>waited_by := waited_by bi @ (if b \<in> set (d # bs) \<and> b \<noteq> t then [t] else []),
       waiting_for_cnt := waiting_for_cnt bi +
         (if b = t then int (card {e \<in> set (d # bs). e \<noteq> t \<and> e \<in> dom m}) else 0)\<rparr>) (m b))"
      (is "?L = ?R")
    proof
      fix b
      show "?L b = ?R b" using 3 d card by (cases "m b") auto
    qed
    finally show ?thesis .
  qed
qed

section \<open>The graph of waiting transactions\<close>

definition ddr_waits :: "(txn_id \<rightharpoonup> ddr_txn_info) \<Rightarrow> (txn_id \<times> txn_id) set" where
  "ddr_waits m = {(t, b). \<exists>bi. m b = Some bi \<and> t \<in> set (waited_by bi)}"

definition wait_count :: "(txn_id \<rightharpoonup> ddr_txn_info) \<Rightarrow> txn_id \<Rightarrow> nat" where
  "wait_count m t = (\<Sum>b \<in> dom m. count_list (waited_by (the (m b))) t)"

lemma wait_count_zero:
  assumes "finite (dom m)"
  shows "wait_count m t = 0 \<longleftrightarrow> (\<forall>b. (t, b) \<notin> ddr_waits m)"
  using assms by (auto simp: wait_count_def ddr_waits_def count_list_0_iff) force

text \<open>The requests of one call keep the graph complete, provided the transaction waits for every
  present transaction the queue tails name.\<close>

lemma graph_complete_requests:
  assumes "\<forall>(a, u) \<in> conf_prec H. a \<in> A \<longrightarrow> u \<in> A \<and> (u, a) \<in> W\<^sup>+"
    and "\<forall>d \<in> set (blocking_of H t rs). d \<noteq> t \<longrightarrow> d \<in> A \<longrightarrow> (t, d) \<in> W"
    and "t \<in> A"
  shows "\<forall>(a, u) \<in> conf_prec (H @ requests_of t rs). a \<in> A \<longrightarrow> u \<in> A \<and> (u, a) \<in> W\<^sup>+"
  using assms
proof (induction rs arbitrary: H)
  case Nil
  then show ?case by (simp add: requests_of_def)
next
  case (Cons r rs)
  obtain k m where r: "r = (k, m)" by (cases r)
  let ?H = "H @ [(t, k, m)]"
  have chain: "d \<in> A \<and> (d, a) \<in> W\<^sup>*" if "(a, d) \<in> (conf_prec H)\<^sup>*" "a \<in> A" for a d
    using that
  proof (induction rule: rtrancl_induct)
    case (step b c)
    then have "c \<in> A" "(c, b) \<in> W\<^sup>+" using Cons.prems(1) by blast+
    with step show ?case by (meson rtrancl_trans trancl_into_rtrancl)
  qed simp
  have "a \<in> A \<longrightarrow> u \<in> A \<and> (u, a) \<in> W\<^sup>+" if "(a, u) \<in> conf_prec ?H" for a u
  proof
    assume a: "a \<in> A"
    from that consider "(a, u) \<in> conf_prec H"
      | m1 where "u = t" "a \<noteq> t" "(a, k, m1) \<in> set H" "conflicts m1 m"
      by (auto simp: conf_prec_snoc)
    then show "u \<in> A \<and> (u, a) \<in> W\<^sup>+"
    proof cases
      case 1
      with a Cons.prems(1) show ?thesis by blast
    next
      case 2
      from deps_cover [OF 2(3,4)] obtain d where
        d: "d \<in> set (deps (tail_of H k) m)" "(a, d) \<in> (conf_prec H)\<^sup>*" by blast
      from chain [OF d(2) a] have dA: "d \<in> A" "(d, a) \<in> W\<^sup>*" by simp_all
      show ?thesis
      proof (cases "d = t")
        case True
        with dA 2 show ?thesis by (auto simp: rtrancl_eq_or_trancl)
      next
        case False
        with dA d Cons.prems(2) have "(t, d) \<in> W" by (simp add: r)
        with dA 2 Cons.prems(3) show ?thesis by (auto intro: rtrancl_into_trancl2)
      qed
    qed
  qed
  then have "\<forall>(a, u) \<in> conf_prec ?H. a \<in> A \<longrightarrow> u \<in> A \<and> (u, a) \<in> W\<^sup>+" by blast
  from Cons.IH [OF this _ Cons.prems(3)] Cons.prems(2) show ?case
    by (simp add: r requests_of_def)
qed

lemma blocking_in_conf_prec:
  "d \<in> set (blocking_of H t rs) \<Longrightarrow> d \<noteq> t \<Longrightarrow> (d, t) \<in> conf_prec (H @ requests_of t rs)"
proof (induction rs arbitrary: H)
  case (Cons r rs)
  obtain k m where r: "r = (k, m)" by (cases r)
  let ?H = "H @ [(t, k, m)]"
  from Cons.prems consider "d \<in> set (deps (tail_of H k) m)" | "d \<in> set (blocking_of ?H t rs)"
    by (auto simp: r)
  then have "(d, t) \<in> conf_prec (?H @ requests_of t rs)"
  proof cases
    case 1
    with deps_in_hist have "(d, t) \<in> conf_prec ?H" using Cons.prems(2) by (fastforce simp: conf_prec_snoc)
    then show ?thesis using conf_prec_mono by blast
  next
    case 2
    then show ?thesis using Cons.IH Cons.prems(2) by blast
  qed
  then show ?case by (simp add: r requests_of_def)
qed simp

section \<open>Refinement\<close>

definition ddr_sim :: "key_replica lock_spec \<Rightarrow> ddr_lock_manager \<Rightarrow> bool" where
  "ddr_sim S s \<longleftrightarrow> finite (dom (ddr_infos s)) \<and> dom (ddr_infos s) = active S \<and>
     (\<forall>t i. ddr_infos s t = Some i \<longrightarrow> need S t = Some (unarrived_lock_requests i) \<and>
        waiting_for_cnt i = int (wait_count (ddr_infos s) t)) \<and>
     (\<forall>k. tail_at (ddr_lock_table s) k = tail_of (hist S) k) \<and>
     (\<forall>(t, b) \<in> ddr_waits (ddr_infos s). t \<in> active S \<and> (b, t) \<in> conf_prec (hist S)) \<and>
     (\<forall>(a, t) \<in> conf_prec (hist S). a \<in> active S \<longrightarrow>
        t \<in> active S \<and> (t, a) \<in> (ddr_waits (ddr_infos s))\<^sup>+)"

lemma ddr_simD:
  assumes "ddr_sim S s"
  shows "finite (dom (ddr_infos s))" "dom (ddr_infos s) = active S"
    "ddr_infos s t = Some i \<Longrightarrow> need S t = Some (unarrived_lock_requests i)"
    "ddr_infos s t = Some i \<Longrightarrow> waiting_for_cnt i = int (wait_count (ddr_infos s) t)"
    "tail_at (ddr_lock_table s) k = tail_of (hist S) k"
    "(t, b) \<in> ddr_waits (ddr_infos s) \<Longrightarrow> t \<in> active S \<and> (b, t) \<in> conf_prec (hist S)"
    "(a, t) \<in> conf_prec (hist S) \<Longrightarrow> a \<in> active S \<Longrightarrow>
       t \<in> active S \<and> (t, a) \<in> (ddr_waits (ddr_infos s))\<^sup>+"
  using assms unfolding ddr_sim_def by blast+

lemma ddr_simI:
  assumes "finite (dom m)" "dom m = active S"
    and "\<And>t i. m t = Some i \<Longrightarrow> need S t = Some (unarrived_lock_requests i)"
    and "\<And>t i. m t = Some i \<Longrightarrow> waiting_for_cnt i = int (wait_count m t)"
    and "\<And>k. tail_at tab k = tail_of (hist S) k"
    and "\<And>t b. (t, b) \<in> ddr_waits m \<Longrightarrow> t \<in> active S \<and> (b, t) \<in> conf_prec (hist S)"
    and "\<And>a t. (a, t) \<in> conf_prec (hist S) \<Longrightarrow> a \<in> active S \<Longrightarrow> t \<in> active S \<and> (t, a) \<in> (ddr_waits m)\<^sup>+"
  shows "ddr_sim S \<lparr>ddr_infos = m, ddr_lock_table = tab\<rparr>"
  unfolding ddr_sim_def ddr_lock_manager.simps using assms by blast

lemma ddr_sim_ready:
  assumes "ddr_sim S s" "ddr_infos s t = Some i"
  shows "DDR_is_ready i \<longleftrightarrow> spec_ready S t"
proof -
  let ?W = "ddr_waits (ddr_infos s)"
  have "(\<forall>b. (t, b) \<notin> ?W) \<longleftrightarrow> (\<forall>a \<in> active S. (a, t) \<notin> conf_prec (hist S))"
  proof
    assume n: "\<forall>b. (t, b) \<notin> ?W"
    show "\<forall>a \<in> active S. (a, t) \<notin> conf_prec (hist S)"
    proof (intro ballI notI)
      fix a
      assume "a \<in> active S" "(a, t) \<in> conf_prec (hist S)"
      then have "(t, a) \<in> ?W\<^sup>+" using assms(1) unfolding ddr_sim_def by blast
      then obtain c where "(t, c) \<in> ?W" by (meson tranclD)
      with n show False by blast
    qed
  next
    assume n: "\<forall>a \<in> active S. (a, t) \<notin> conf_prec (hist S)"
    show "\<forall>b. (t, b) \<notin> ?W"
    proof (intro allI notI)
      fix b
      assume tb: "(t, b) \<in> ?W"
      then have "b \<in> active S" using assms(1) by (auto simp: ddr_sim_def ddr_waits_def)
      moreover have "(b, t) \<in> conf_prec (hist S)" using tb assms(1) unfolding ddr_sim_def by blast
      ultimately show False using n by blast
    qed
  qed
  moreover have "waiting_for_cnt i = 0 \<longleftrightarrow> (\<forall>b. (t, b) \<notin> ?W)"
  proof -
    have "finite (dom (ddr_infos s))" "waiting_for_cnt i = int (wait_count (ddr_infos s) t)"
      using ddr_simD [OF assms(1)] assms(2) by blast+
    then show ?thesis using wait_count_zero by simp
  qed
  moreover have "need S t = Some (unarrived_lock_requests i)" using assms by (simp add: ddr_sim_def)
  ultimately show ?thesis unfolding DDR_is_ready_def spec_ready_def by (simp only: option.inject) blast
qed

lemma ddr_sim_init: "ddr_sim spec_init DDRLockManager"
  by (simp add: ddr_sim_def spec_init_def DDRLockManager_def tail_at_def ddr_waits_def)

lemma wait_count_add_waits:
  assumes "distinct bs" "finite (dom m)"
  shows "wait_count (DDR_add_waits t bs m) u =
    wait_count m u + (if u = t then card {d \<in> set bs. d \<noteq> t \<and> d \<in> dom m} else 0)"
proof -
  have dom: "dom (DDR_add_waits t bs m) = dom m"
    by (auto simp: DDR_add_waits_eq [OF assms(1)])
  have "wait_count (DDR_add_waits t bs m) u =
    (\<Sum>b \<in> dom m. count_list (waited_by (the (m b))) u +
       (if b \<in> set bs \<and> b \<noteq> t \<and> u = t then 1 else 0))"
    unfolding wait_count_def dom
    by (intro sum.cong) (auto simp: DDR_add_waits_eq [OF assms(1)] option.map_sel domIff)
  also have "\<dots> = wait_count m u + (\<Sum>b \<in> dom m. if b \<in> set bs \<and> b \<noteq> t \<and> u = t then 1 else 0)"
    by (simp add: sum.distrib wait_count_def)
  also have "(\<Sum>b \<in> dom m. if b \<in> set bs \<and> b \<noteq> t \<and> u = t then 1 else 0) =
      (if u = t then card {d \<in> set bs. d \<noteq> t \<and> d \<in> dom m} else 0)"
    using assms(2) by (auto simp: sum.If_cases intro!: arg_cong [where f = card])
  finally show ?thesis .
qed

lemma ddr_waits_add_waits:
  assumes "distinct bs"
  shows "ddr_waits (DDR_add_waits t bs m) =
    ddr_waits m \<union> {(t, b) |b. b \<in> set bs \<and> b \<noteq> t \<and> b \<in> dom m}"
  by (auto simp: ddr_waits_def DDR_add_waits_eq [OF assms] split: if_splits)

definition DDR_enter :: "txn_id \<Rightarrow> int \<Rightarrow> int \<Rightarrow> (txn_id \<rightharpoonup> ddr_txn_info) \<Rightarrow> (txn_id \<rightharpoonup> ddr_txn_info)" where
  "DDR_enter t n c m =
     (let info = try_emplace m t (DDR_TxnInfo n)
      in info(t := map_option (\<lambda>i. i\<lparr>unarrived_lock_requests := unarrived_lock_requests i - c\<rparr>) (info t)))"

lemma DDR_enter_apply:
  "DDR_enter t n c m u =
     (if u \<noteq> t then m u
      else Some (case m t of None \<Rightarrow> DDR_TxnInfo (n - c)
                 | Some i \<Rightarrow> i\<lparr>unarrived_lock_requests := unarrived_lock_requests i - c\<rparr>))"
  by (auto simp: DDR_enter_def Let_def try_emplace_def DDR_TxnInfo_def split: option.splits)

lemma dom_DDR_enter [simp]: "dom (DDR_enter t n c m) = insert t (dom m)"
  by (auto simp: DDR_enter_apply split: if_splits)

lemma ddr_waits_enter [simp]: "ddr_waits (DDR_enter t n c m) = ddr_waits m"
  by (auto simp: ddr_waits_def DDR_enter_apply DDR_TxnInfo_def split: if_splits option.splits)

lemma wait_count_enter [simp]:
  assumes "finite (dom m)"
  shows "wait_count (DDR_enter t n c m) u = wait_count m u"
proof (cases "m t")
  case None
  then have "(\<Sum>b \<in> dom m. count_list (waited_by (the (DDR_enter t n c m b))) u) =
      (\<Sum>b \<in> dom m. count_list (waited_by (the (m b))) u)"
    by (intro sum.cong) (auto simp: DDR_enter_apply)
  moreover have "t \<notin> dom m" using None by auto
  ultimately show ?thesis
    using assms None by (simp add: wait_count_def) (simp add: DDR_enter_apply DDR_TxnInfo_def)
next
  case (Some i)
  then have "insert t (dom m) = dom m" by auto
  then show ?thesis
    using Some unfolding wait_count_def dom_DDR_enter
    by (auto simp: DDR_enter_apply intro!: sum.cong)
qed

lemma DDR_AcquireLocks_eq:
  assumes "ddr_sim S s"
  obtains tab where
    "DDR_AcquireLocks txn s =
       (let m = DDR_add_waits (tid txn) (sort_unique (blocking_of (hist S) (tid txn) (lock_requests txn)))
                  (DDR_enter (tid txn) (num_required_locks txn) (int (length (lock_requests txn))) (ddr_infos s))
        in Inr (if DDR_is_ready (the (m (tid txn))) then ACQUIRED else WAITING,
            \<lparr>ddr_infos = m, ddr_lock_table = tab\<rparr>))"
    "\<forall>k. tail_at tab k = tail_of (hist S @ requests_of (tid txn) (lock_requests txn)) k"
proof -
  let ?t = "tid txn" and ?rs = "lock_requests txn"
  let ?bs = "sort_unique (blocking_of (hist S) ?t ?rs)"
  let ?m = "DDR_enter ?t (num_required_locks txn) (int (length ?rs)) (ddr_infos s)"
  obtain tab where tab: "DDR_collect ?t (home (internal txn)) (is_remaster (program txn)) (keys txn)
        (ddr_lock_table s, 0, []) = (tab, int (length ?rs), blocking_of (hist S) ?t ?rs)"
    "\<forall>k. tail_at tab k = tail_of (hist S @ requests_of ?t ?rs) k"
    using DDR_collect_eq [of "ddr_lock_table s" "hist S" ?rs "home (internal txn)"
        "is_remaster (program txn)" "keys txn" ?t 0 "[]"] ddr_simD(5) [OF assms]
    by (auto simp: lock_requests_def)
  have "?t \<in> dom (DDR_add_waits ?t ?bs ?m)" by (auto simp: DDR_add_waits_eq DDR_enter_apply)
  then obtain i where i: "DDR_add_waits ?t ?bs ?m ?t = Some i" by blast
  show ?thesis
  proof (rule that [OF _ tab(2)])
    show "DDR_AcquireLocks txn s = (let m = DDR_add_waits ?t ?bs ?m in
        Inr (if DDR_is_ready (the (m ?t)) then ACQUIRED else WAITING, \<lparr>ddr_infos = m, ddr_lock_table = tab\<rparr>))"
      using i unfolding DDR_AcquireLocks_def Let_def num_required_locks_def [symmetric] tab(1) prod.case
        DDR_enter_def [unfolded Let_def, symmetric]
      by simp
  qed
qed

lemma ddr_sim_acquire:
  assumes sim: "ddr_sim S s"
    and legal: "legal_acquire S (tid x) (num_required_locks x) (lock_requests x)"
  shows "\<exists>s'. DDR_AcquireLocks x s =
      Inr (if spec_ready (spec_acquire (tid x) (num_required_locks x) (lock_requests x) S) (tid x)
           then ACQUIRED else WAITING, s') \<and>
    ddr_sim (spec_acquire (tid x) (num_required_locks x) (lock_requests x) S) s'"
proof -
  let ?t = "tid x" and ?rs = "lock_requests x" and ?n = "num_required_locks x"
  let ?H = "hist S @ requests_of ?t ?rs"
  let ?S = "spec_acquire ?t ?n ?rs S"
  define bs where "bs = sort_unique (blocking_of (hist S) ?t ?rs)"
  define m1 where "m1 = DDR_enter ?t ?n (int (length ?rs)) (ddr_infos s)"
  define m2 where "m2 = DDR_add_waits ?t bs m1"
  note D = ddr_simD [OF sim]
  from DDR_AcquireLocks_eq [OF sim, of x] obtain tab where
    eq: "DDR_AcquireLocks x s = Inr (if DDR_is_ready (the (m2 ?t)) then ACQUIRED else WAITING,
           \<lparr>ddr_infos = m2, ddr_lock_table = tab\<rparr>)"
    and tab: "\<forall>k. tail_at tab k = tail_of ?H k"
    by (auto simp: bs_def m1_def m2_def Let_def)
  have dist: "distinct bs" by (simp add: bs_def)
  have dom1: "dom m1 = active ?S" using D(2) by (simp add: m1_def)
  have "dom m2 = dom m1" by (auto simp: m2_def DDR_add_waits_eq [OF dist])
  with dom1 have dom2: "dom m2 = active ?S" by (simp only:)
  have fin: "finite (dom m1)" using D(1) by (simp add: m1_def)
  have W: "ddr_waits m2 = ddr_waits (ddr_infos s) \<union> {(?t, b) |b. b \<in> set bs \<and> b \<noteq> ?t \<and> b \<in> active ?S}"
    unfolding m2_def ddr_waits_add_waits [OF dist] dom1 by (simp add: m1_def)
  have wc: "wait_count m2 u = wait_count (ddr_infos s) u +
      (if u = ?t then card {d \<in> set bs. d \<noteq> ?t \<and> d \<in> dom m1} else 0)" for u
    unfolding m2_def wait_count_add_waits [OF dist fin] using D(1) by (simp add: m1_def)
  have fresh: "wait_count (ddr_infos s) ?t = 0" if "ddr_infos s ?t = None"
  proof -
    have "?t \<notin> active S" using that D(2) by auto
    then have "\<forall>b. (?t, b) \<notin> ddr_waits (ddr_infos s)" using D(6) by blast
    then show ?thesis using wait_count_zero [OF D(1)] by simp
  qed
  have counts: "need ?S u = Some (unarrived_lock_requests i) \<and> waiting_for_cnt i = int (wait_count m2 u)"
    if "m2 u = Some i" for u i
  proof (cases "u = ?t")
    case False
    with that have "ddr_infos s u = Some (i\<lparr>waited_by := waited_by (the (ddr_infos s u))\<rparr>)"
      by (auto simp: m2_def DDR_add_waits_eq [OF dist] m1_def DDR_enter_apply)
    from D(3) [OF this] D(4) [OF this] False show ?thesis by (simp add: wc spec_acquire_def)
  next
    case True
    with that obtain j where j: "m1 ?t = Some j"
      "i = j\<lparr>waiting_for_cnt := waiting_for_cnt j + int (card {d \<in> set bs. d \<noteq> ?t \<and> d \<in> dom m1})\<rparr>"
      by (auto simp: m2_def DDR_add_waits_eq [OF dist])
    show ?thesis
    proof (cases "ddr_infos s ?t")
      case None
      then have "need S ?t = None" using D(2) by blast
      moreover have "j = DDR_TxnInfo (?n - int (length ?rs))" using j(1) None by (simp add: m1_def DDR_enter_apply)
      ultimately show ?thesis
        using fresh [OF None] True by (simp add: wc j(2) DDR_TxnInfo_def spec_acquire_def)
    next
      case (Some l)
      then have "j = l\<lparr>unarrived_lock_requests := unarrived_lock_requests l - int (length ?rs)\<rparr>"
        using j(1) by (simp add: m1_def DDR_enter_apply)
      then show ?thesis
        using D(3) [OF Some] D(4) [OF Some] True by (simp add: wc j(2) spec_acquire_def)
    qed
  qed
  have sound: "u \<in> active ?S \<and> (b, u) \<in> conf_prec ?H" if "(u, b) \<in> ddr_waits m2" for u b
  proof -
    from that consider "(u, b) \<in> ddr_waits (ddr_infos s)" | "u = ?t" "b \<in> set bs" "b \<noteq> ?t"
      unfolding W by blast
    then show ?thesis
    proof cases
      case 1
      from D(6) [OF this] show ?thesis using conf_prec_mono by auto
    next
      case 2
      then show ?thesis using blocking_in_conf_prec by (simp add: bs_def)
    qed
  qed
  have complete: "\<forall>(a, u) \<in> conf_prec ?H. a \<in> active ?S \<longrightarrow> u \<in> active ?S \<and> (u, a) \<in> (ddr_waits m2)\<^sup>+"
  proof (rule graph_complete_requests)
    show "\<forall>(a, u) \<in> conf_prec (hist S). a \<in> active ?S \<longrightarrow> u \<in> active ?S \<and> (u, a) \<in> (ddr_waits m2)\<^sup>+"
    proof -
      have "u \<in> active ?S \<and> (u, a) \<in> (ddr_waits m2)\<^sup>+"
        if au: "(a, u) \<in> conf_prec (hist S)" and a: "a \<in> active ?S" for a u
      proof -
        have "a \<in> active S"
          using legal a conf_prec_in_hist(1) [OF au] unfolding legal_acquire_def active_acquire by blast
        from D(7) [OF au this] have "u \<in> active S" "(u, a) \<in> (ddr_waits (ddr_infos s))\<^sup>+" by simp_all
        then show ?thesis using trancl_mono [of _ "ddr_waits (ddr_infos s)" "ddr_waits m2"] by (simp add: W)
      qed
      then show ?thesis by blast
    qed
  qed (auto simp: W bs_def)
  have sim': "ddr_sim ?S \<lparr>ddr_infos = m2, ddr_lock_table = tab\<rparr>"
  proof (rule ddr_simI)
    show "finite (dom m2)" using fin dom1 dom2 by (simp only:)
  qed (use dom2 counts tab sound complete in \<open>unfold hist_acquire, blast+\<close>)
  moreover have "?t \<in> dom m2" unfolding dom2 by simp
  then obtain i where "m2 ?t = Some i" by blast
  ultimately show ?thesis using ddr_sim_ready [OF sim', of ?t i] eq by simp
qed

lemma DDR_unblock_eq:
  assumes "DDR_unblock us m = (res, m')"
    and "\<And>u i. m u = Some i \<Longrightarrow> int (count_list us u) \<le> waiting_for_cnt i"
  shows "m' = (\<lambda>u. map_option (\<lambda>i. i\<lparr>waiting_for_cnt := waiting_for_cnt i - int (count_list us u)\<rparr>) (m u)) \<and>
    distinct res \<and>
    set res = {u \<in> set us. \<exists>i. m u = Some i \<and> waiting_for_cnt i = int (count_list us u) \<and>
                              unarrived_lock_requests i = 0}"
  using assms
proof (induction us arbitrary: m res m')
  case Nil
  then show ?case by (auto simp: option.map_ident)
next
  case (Cons u us)
  show ?case
  proof (cases "m u")
    case None
    with Cons.prems(1) have "DDR_unblock us m = (res, m')" by simp
    moreover have "int (count_list us v) \<le> waiting_for_cnt i" if "m v = Some i" for v i
      using Cons.prems(2) [OF that] by (simp split: if_splits)
    ultimately have IH: "m' = (\<lambda>u. map_option (\<lambda>i. i\<lparr>waiting_for_cnt := waiting_for_cnt i - int (count_list us u)\<rparr>) (m u)) \<and>
      distinct res \<and> set res = {u \<in> set us. \<exists>i. m u = Some i \<and>
        waiting_for_cnt i = int (count_list us u) \<and> unarrived_lock_requests i = 0}"
      by (rule Cons.IH)
    have "map_option (\<lambda>i. i\<lparr>waiting_for_cnt := waiting_for_cnt i - int (count_list us v)\<rparr>) (m v) =
        map_option (\<lambda>i. i\<lparr>waiting_for_cnt := waiting_for_cnt i - int (count_list (u # us) v)\<rparr>) (m v)" for v
      using None by (cases "v = u") auto
    moreover have "set res = {v \<in> set (u # us). \<exists>i. m v = Some i \<and>
        waiting_for_cnt i = int (count_list (u # us) v) \<and> unarrived_lock_requests i = 0}"
      using IH None by auto
    ultimately show ?thesis using IH by presburger
  next
    case (Some i)
    let ?i = "i\<lparr>waiting_for_cnt := waiting_for_cnt i - 1\<rparr>"
    let ?m = "m(u \<mapsto> ?i)"
    obtain rest where rest: "DDR_unblock us ?m = (rest, m')" "res = (if DDR_is_ready ?i then u # rest else rest)"
      using Cons.prems(1) Some by (auto simp: Let_def split: prod.splits)
    have pre: "int (count_list us v) \<le> waiting_for_cnt j" if "?m v = Some j" for v j
      using that Cons.prems(2) [of v] Some by (auto split: if_splits)
    note IH = Cons.IH [OF rest(1) pre]
    have 1: "m' = (\<lambda>v. map_option (\<lambda>i. i\<lparr>waiting_for_cnt := waiting_for_cnt i - int (count_list (u # us) v)\<rparr>) (m v))"
      using IH Some by (auto simp: fun_eq_iff)
    have ready: "DDR_is_ready ?i \<longleftrightarrow> unarrived_lock_requests i = 0 \<and> waiting_for_cnt i = 1"
      by (auto simp: DDR_is_ready_def)
    have u: "u \<notin> set us" if "waiting_for_cnt i = 1"
      using Cons.prems(2) [OF Some] that by (simp add: count_list_0_iff)
    have 2: "distinct res" using IH rest(2) ready u by auto
    have 3: "set res = {v \<in> set (u # us). \<exists>i. m v = Some i \<and> waiting_for_cnt i = int (count_list (u # us) v) \<and>
                              unarrived_lock_requests i = 0}"
    proof -
      have r: "set rest = {v \<in> set us. \<exists>i. ?m v = Some i \<and> waiting_for_cnt i = int (count_list us v) \<and>
                              unarrived_lock_requests i = 0}" using IH by blast
      show ?thesis using Some u count_list_0_iff [of us u] unfolding rest(2) ready
        by (auto simp: r split: if_splits)
    qed
    from 1 2 3 show ?thesis by blast
  qed
qed

lemma trancl_avoid:
  assumes "(x, y) \<in> W\<^sup>+" "\<And>b. (t, b) \<notin> W" "y \<noteq> t"
  shows "(x, y) \<in> {(u, v) \<in> W. v \<noteq> t}\<^sup>+"
  using assms(1,3)
proof (induction rule: converse_trancl_induct)
  case (base x)
  then show ?case by blast
next
  case (step x z)
  then have "z \<noteq> t" using assms(2) tranclD [OF step(2)] by auto
  with step(1) have "(x, z) \<in> {(u, v) \<in> W. v \<noteq> t}" by simp
  then show ?case using step.IH [OF step.prems] by (rule trancl_into_trancl2)
qed

lemma wait_count_remove:
  assumes "finite (dom m)" "m t = Some i"
  shows "wait_count m u = wait_count (m(t := None)) u + count_list (waited_by i) u"
proof -
  have "wait_count m u = count_list (waited_by i) u + (\<Sum>b \<in> dom m - {t}. count_list (waited_by (the (m b))) u)"
    unfolding wait_count_def using assms by (subst sum.remove [of "dom m" t]) auto
  moreover have "wait_count (m(t := None)) u = (\<Sum>b \<in> dom m - {t}. count_list (waited_by (the (m b))) u)"
    unfolding wait_count_def by (intro sum.cong) auto
  ultimately show ?thesis by simp
qed

lemma ddr_sim_release:
  assumes sim: "ddr_sim S s" and ready: "spec_ready S t"
  shows "\<exists>ts s'. DDR_ReleaseLocks t s = Inr (ts, s') \<and> ddr_sim (spec_release t S) s' \<and>
    distinct ts \<and> set ts = newly_ready S t"
proof -
  note D = ddr_simD [OF sim]
  let ?m = "ddr_infos s" and ?S = "spec_release t S"
  obtain i where i: "?m t = Some i" using spec_ready_active [OF ready] D(2) by blast
  have rdy: "DDR_is_ready i" using ddr_sim_ready [OF sim i] ready by simp
  have noout: "(t, b) \<notin> ddr_waits ?m" for b
    using D(4) [OF i] rdy wait_count_zero [OF D(1)] by (simp add: DDR_is_ready_def)
  obtain ts m1 where un: "DDR_unblock (waited_by i) ?m = (ts, m1)" by (cases "DDR_unblock (waited_by i) ?m")
  have le: "int (count_list (waited_by i) u) \<le> waiting_for_cnt j" if "?m u = Some j" for u j
    using D(4) [OF that] wait_count_remove [OF D(1) i, of u] by simp
  note U = DDR_unblock_eq [OF un le]
  define m2 where "m2 = m1(t := None)"
  have m2: "m2 u = (if u = t then None else map_option (\<lambda>j. j\<lparr>waiting_for_cnt :=
      waiting_for_cnt j - int (count_list (waited_by i) u)\<rparr>) (?m u))" for u
    using U by (simp add: m2_def)
  have dom2: "dom m2 = dom ?m - {t}" by (auto simp: m2 split: if_splits)
  have W: "ddr_waits m2 = {(u, v) \<in> ddr_waits ?m. v \<noteq> t}"
    by (auto simp: ddr_waits_def m2 split: if_splits)
  have wc: "wait_count m2 u = wait_count (?m(t := None)) u" for u
    unfolding wait_count_def dom2 by (intro sum.cong) (auto simp: m2)
  have tw: "t \<notin> set (waited_by i)"
    using D(6) [of t t] i conf_prec_in_hist(3) by (fastforce simp: ddr_waits_def)
  define s' where "s' = \<lparr>ddr_infos = m2, ddr_lock_table = ddr_lock_table s\<rparr>"
  have sim': "ddr_sim ?S s'"
    unfolding s'_def
  proof (rule ddr_simI)
    show "finite (dom m2)" unfolding dom2 using D(1) by (rule finite_Diff)
    show "dom m2 = active ?S" unfolding dom2 active_release D(2) ..
    show "tail_at (ddr_lock_table s) k = tail_of (hist ?S) k" for k using D(5) by simp
    show "need ?S u = Some (unarrived_lock_requests j)" if "m2 u = Some j" for u j
      using that D(3) [of u] by (auto simp: m2 spec_release_def split: if_splits)
    show "waiting_for_cnt j = int (wait_count m2 u)" if "m2 u = Some j" for u j
      using that D(4) [of u] wait_count_remove [OF D(1) i, of u] by (auto simp: m2 wc split: if_splits)
    show "u \<in> active ?S \<and> (b, u) \<in> conf_prec (hist ?S)" if "(u, b) \<in> ddr_waits m2" for u b
      using that D(6) [of u b] noout unfolding W active_release hist_release by blast
    show "u \<in> active ?S \<and> (u, a) \<in> (ddr_waits m2)\<^sup>+"
      if au: "(a, u) \<in> conf_prec (hist ?S)" and a: "a \<in> active ?S" for a u
    proof -
      from D(7) [of a u] au a have "u \<in> active S" "(u, a) \<in> (ddr_waits ?m)\<^sup>+" "a \<noteq> t" by auto
      moreover from tranclD [OF this(2)] noout have "u \<noteq> t" by auto
      moreover have "(u, a) \<in> (ddr_waits m2)\<^sup>+"
        unfolding W using \<open>(u, a) \<in> (ddr_waits ?m)\<^sup>+\<close> noout \<open>a \<noteq> t\<close> by (rule trancl_avoid)
      ultimately show ?thesis by simp
    qed
  qed
  have "DDR_ReleaseLocks t s = Inr (ts, s')"
    using i rdy un by (simp add: DDR_ReleaseLocks_def s'_def m2_def)
  moreover have "u \<in> set ts \<longleftrightarrow> u \<in> newly_ready S t" for u
  proof (cases "u \<noteq> t \<and> u \<in> dom ?m")
    case True
    then obtain j where j: "?m u = Some j" by blast
    then have "m2 u = Some (j\<lparr>waiting_for_cnt := waiting_for_cnt j - int (count_list (waited_by i) u)\<rparr>)"
      using True by (simp add: m2)
    then have "spec_ready ?S u \<longleftrightarrow>
        waiting_for_cnt j = int (count_list (waited_by i) u) \<and> unarrived_lock_requests j = 0"
      using ddr_sim_ready [OF sim', of u] by (simp add: s'_def DDR_is_ready_def)
    moreover have "spec_ready S u \<longleftrightarrow> waiting_for_cnt j = 0 \<and> unarrived_lock_requests j = 0"
      using ddr_sim_ready [OF sim j] by (simp add: DDR_is_ready_def)
    ultimately show ?thesis
      using U j by (auto simp: newly_ready_def count_list_0_iff)
  next
    case False
    then have "u \<notin> set ts" using U tw by auto
    moreover have "\<not> spec_ready ?S u"
      using False D(2) spec_ready_active [of ?S u] unfolding active_release by blast
    ultimately show ?thesis by (simp add: newly_ready_def)
  qed
  ultimately show ?thesis using sim' U by blast
qed

interpretation ddr: lock_manager lock_requests num_required_locks DDRLockManager DDR_AcquireLocks
  DDR_ReleaseLocks ddr_sim
  using ddr_sim_init ddr_sim_acquire ddr_sim_release by unfold_locales

end
