(* ===== verification/Old_Lock_Manager.thy ===== *)
theory Old_Lock_Manager
  imports Rma_Lock_Manager "HOL-Library.AList"
begin

text \<open>
  \<^verbatim>\<open>module/scheduler_components/old_lock_manager.{h,cpp}\<close>: the lock manager used with a separate remaster manager. It
  locks keys and not pairs of key and region, keeps holders and waiters of a key in unordered sets beside the queue,
  and erases unlocked entries once its table is large.

  The proof relates it to the request-level operations of \<open>Rma_Lock_Manager\<close> (\<open>acquire_all\<close> and \<^verbatim>\<open>ReleaseLocks\<close>), which
  meet the contract of \<open>Lock_Spec\<close>, so that this manager meets it as well.
\<close>

section \<open>Model\<close>

text \<open>An unordered set is a list without duplicates: the order in which the code walks through it only affects the
  order of a result that is sorted afterwards.\<close>

definition set_insert :: "'a \<Rightarrow> 'a list \<Rightarrow> 'a list" where
  "set_insert x xs = (if x \<in> set xs then xs else xs @ [x])"

definition set_erase :: "'a \<Rightarrow> 'a list \<Rightarrow> 'a list" where
  "set_erase x xs = remove1 x xs"

record old_lock_state =
  old_mode :: lock_mode
  old_holders :: "txn_id list"
  old_waiters :: "txn_id list"
  old_waiter_queue :: "(txn_id \<times> lock_mode) list"

definition OldLockState :: old_lock_state where
  "OldLockState = \<lparr>old_mode = LM_UNLOCKED, old_holders = [], old_waiters = [], old_waiter_queue = []\<rparr>"

definition old_wait :: "txn_id \<Rightarrow> lock_mode \<Rightarrow> old_lock_state \<Rightarrow> bool \<times> old_lock_state" where
  "old_wait t m ls =
     (False, ls\<lparr>old_waiters := set_insert t (old_waiters ls), old_waiter_queue := old_waiter_queue ls @ [(t, m)]\<rparr>)"

definition OldLockState_AcquireReadLock :: "txn_id \<Rightarrow> old_lock_state \<Rightarrow> bool \<times> old_lock_state" where
  "OldLockState_AcquireReadLock t ls =
     (case old_mode ls of
        LM_UNLOCKED \<Rightarrow> (True, ls\<lparr>old_holders := set_insert t (old_holders ls), old_mode := LM_READ\<rparr>)
      | LM_READ \<Rightarrow>
          if old_waiters ls = [] then (True, ls\<lparr>old_holders := set_insert t (old_holders ls)\<rparr>)
          else old_wait t LM_READ ls
      | LM_WRITE \<Rightarrow> old_wait t LM_READ ls)"

definition OldLockState_AcquireWriteLock :: "txn_id \<Rightarrow> old_lock_state \<Rightarrow> bool \<times> old_lock_state" where
  "OldLockState_AcquireWriteLock t ls =
     (case old_mode ls of
        LM_UNLOCKED \<Rightarrow> (True, ls\<lparr>old_holders := set_insert t (old_holders ls), old_mode := LM_WRITE\<rparr>)
      | _ \<Rightarrow> old_wait t LM_WRITE ls)"

definition OldLockState_Contains :: "txn_id \<Rightarrow> old_lock_state \<Rightarrow> bool" where
  "OldLockState_Contains t ls \<longleftrightarrow> t \<in> set (old_holders ls) \<or> t \<in> set (old_waiters ls)"

text \<open>The \<^verbatim>\<open>do ... while\<close> loop of \<^verbatim>\<open>Release\<close>.\<close>

fun old_grant_readers ::
  "txn_id list \<Rightarrow> txn_id list \<Rightarrow> (txn_id \<times> lock_mode) list \<Rightarrow> txn_id list \<times> txn_id list \<times> (txn_id \<times> lock_mode) list" where
  "old_grant_readers hs ws [] = (hs, ws, [])"
| "old_grant_readers hs ws ((t, m) # q) =
     (if m = LM_READ then old_grant_readers (set_insert t hs) (set_erase t ws) q else (hs, ws, (t, m) # q))"

text \<open>\<^verbatim>\<open>waiter_queue_.front()\<close> of an empty list is undefined.\<close>

definition OldLockState_Release :: "txn_id \<Rightarrow> old_lock_state \<Rightarrow> (txn_id list \<times> old_lock_state) result" where
  "OldLockState_Release t ls =
     (if t \<notin> set (old_holders ls)
      then Inr ([], ls\<lparr>old_waiter_queue := filter (\<lambda>p. fst p \<noteq> t) (old_waiter_queue ls), old_waiters := set_erase t (old_waiters ls)\<rparr>)
      else
        let ls1 = ls\<lparr>old_holders := set_erase t (old_holders ls)\<rparr>
        in if old_holders ls1 \<noteq> [] then Inr ([], ls1)
           else if old_waiters ls1 = [] then Inr ([], ls1\<lparr>old_mode := LM_UNLOCKED\<rparr>)
           else case old_waiter_queue ls1 of
                  [] \<Rightarrow> Inl (UndefinedBehaviour ''waiter_queue_.front()'')
                | (f, m) # q \<Rightarrow>
                    if m = LM_READ then
                      (case old_grant_readers (old_holders ls1) (old_waiters ls1) (old_waiter_queue ls1) of (hs, ws, q') \<Rightarrow>
                         Inr (hs, ls1\<lparr>old_holders := hs, old_waiters := ws, old_waiter_queue := q', old_mode := LM_READ\<rparr>))
                    else if m = LM_WRITE then
                      (let hs = set_insert f (old_holders ls1)
                       in Inr (hs, ls1\<lparr>old_holders := hs, old_waiters := set_erase f (old_waiters ls1), old_waiter_queue := q, old_mode := LM_WRITE\<rparr>))
                    else Inr (old_holders ls1, ls1))"

record old_txn_info =
  old_num_waiting_for :: int
  old_keys :: "key list"

definition Old_TxnInfo :: "int \<Rightarrow> old_txn_info" where
  "Old_TxnInfo num_keys = \<lparr>old_num_waiting_for = num_keys, old_keys = []\<rparr>"

definition Old_is_ready :: "old_txn_info \<Rightarrow> bool" where
  "Old_is_ready i \<longleftrightarrow> old_num_waiting_for i = 0"

record old_lock_manager =
  old_infos :: "txn_id \<rightharpoonup> old_txn_info"
  old_lock_table :: "(key \<times> old_lock_state) list"
  old_num_locked_keys :: nat

definition OldLockManager :: old_lock_manager where
  "OldLockManager = \<lparr>old_infos = Map.empty, old_lock_table = [], old_num_locked_keys = 0\<rparr>"

definition kLockTableSizeLimit :: nat where
  "kLockTableSizeLimit = 1000000"

text \<open>\<^verbatim>\<open>lock_table_[key]\<close> creates a missing entry.\<close>

definition old_at :: "(key \<times> old_lock_state) list \<Rightarrow> key \<Rightarrow> old_lock_state" where
  "old_at tab k = (case map_of tab k of None \<Rightarrow> OldLockState | Some ls \<Rightarrow> ls)"

definition Old_acquire_key ::
  "txn_id \<Rightarrow> key \<Rightarrow> key_type \<Rightarrow> old_txn_info \<times> (key \<times> old_lock_state) list \<times> nat \<Rightarrow>
   (old_txn_info \<times> (key \<times> old_lock_state) list \<times> nat) result" where
  "Old_acquire_key t k ty st =
     (case st of (info, tab, locked) \<Rightarrow>
        let info1 = info\<lparr>old_keys := old_keys info @ [k]\<rparr>;
            lock_state = old_at tab k
        in if OldLockState_Contains t lock_state then Inl (CheckFailed ''Txn requested lock twice'')
           else
             let before_mode = old_mode lock_state;
                 (acquired, lock_state') =
                   (case ty of READ \<Rightarrow> OldLockState_AcquireReadLock t lock_state
                             | WRITE \<Rightarrow> OldLockState_AcquireWriteLock t lock_state);
                 info2 = (if acquired then info1\<lparr>old_num_waiting_for := old_num_waiting_for info1 - 1\<rparr> else info1);
                 locked' = (if before_mode = LM_UNLOCKED \<and> old_mode lock_state' \<noteq> before_mode
                            then (locked + 1) mod 2 ^ 32 else locked)
             in Inr (info2, AList.update k lock_state' tab, locked'))"

fun Old_acquire_loop ::
  "txn_id \<Rightarrow> int \<Rightarrow> key_value list \<Rightarrow> old_txn_info \<times> (key \<times> old_lock_state) list \<times> nat \<Rightarrow>
   (old_txn_info \<times> (key \<times> old_lock_state) list \<times> nat) result" where
  "Old_acquire_loop t hm [] st = Inr st"
| "Old_acquire_loop t hm (kv # kvs) st =
     (if int32_of_uint32 (kv_master kv) \<noteq> hm then Old_acquire_loop t hm kvs st
      else case Old_acquire_key t (kv_key kv) (kv_type kv) st of
             Inl e \<Rightarrow> Inl e
           | Inr st' \<Rightarrow> Old_acquire_loop t hm kvs st')"

definition Old_AcquireLocks :: "transaction \<Rightarrow> old_lock_manager \<Rightarrow> (acquire_result \<times> old_lock_manager) result" where
  "Old_AcquireLocks txn s =
     (let t = tid txn;
          infos = try_emplace (old_infos s) t (Old_TxnInfo (int (length (keys txn))))
      in case infos t of
           None \<Rightarrow> Inl (UndefinedBehaviour ''txn_info'')
         | Some info \<Rightarrow>
             (case Old_acquire_loop t (home (internal txn)) (keys txn) (info, old_lock_table s, old_num_locked_keys s) of
                Inl e \<Rightarrow> Inl e
              | Inr (info', tab, locked) \<Rightarrow>
                  Inr (if Old_is_ready info' then ACQUIRED else WAITING,
                       \<lparr>old_infos = infos(t \<mapsto> info'), old_lock_table = tab, old_num_locked_keys = locked\<rparr>)))"

fun Old_grant ::
  "txn_id list \<Rightarrow> (txn_id \<rightharpoonup> old_txn_info) \<times> txn_id list \<Rightarrow> ((txn_id \<rightharpoonup> old_txn_info) \<times> txn_id list) result" where
  "Old_grant [] st = Inr st"
| "Old_grant (u # us) (m, res) =
     (case m u of
        None \<Rightarrow> Inl (CheckFailed ''it != txn_info_.end()'')
      | Some i \<Rightarrow>
          let i' = i\<lparr>old_num_waiting_for := old_num_waiting_for i - 1\<rparr>
          in Old_grant us (m(u \<mapsto> i'), if Old_is_ready i' then res @ [u] else res))"

text \<open>The entry of an unlocked key is erased when the table, with that entry, exceeds the limit.\<close>

fun Old_release_loop ::
  "txn_id \<Rightarrow> key list \<Rightarrow> (txn_id \<rightharpoonup> old_txn_info) \<times> (key \<times> old_lock_state) list \<times> nat \<times> txn_id list \<Rightarrow>
   ((txn_id \<rightharpoonup> old_txn_info) \<times> (key \<times> old_lock_state) list \<times> nat \<times> txn_id list) result" where
  "Old_release_loop t [] st = Inr st"
| "Old_release_loop t (k # ks) (m, tab, locked, res) =
     (case map_of tab k of
        None \<Rightarrow> Old_release_loop t ks (m, tab, locked, res)
      | Some ls \<Rightarrow>
          (case OldLockState_Release t ls of
             Inl e \<Rightarrow> Inl e
           | Inr (new_grantees, ls') \<Rightarrow>
               let locked' = (if old_mode ls' = LM_UNLOCKED \<and> old_mode ls \<noteq> LM_UNLOCKED
                              then (locked + (2 ^ 32 - 1)) mod 2 ^ 32 else locked);
                   tab1 = AList.update k ls' tab;
                   tab2 = (if old_mode ls' = LM_UNLOCKED \<and> length tab1 > kLockTableSizeLimit then AList.delete k tab1 else tab1)
               in case Old_grant new_grantees (m, res) of
                    Inl e \<Rightarrow> Inl e
                  | Inr (m', res') \<Rightarrow> Old_release_loop t ks (m', tab2, locked', res')))"

definition Old_ReleaseLocks :: "txn_id \<Rightarrow> old_lock_manager \<Rightarrow> (txn_id list \<times> old_lock_manager) result" where
  "Old_ReleaseLocks t s =
     (case old_infos s t of
        None \<Rightarrow> Inr ([], s)
      | Some info \<Rightarrow>
          (case Old_release_loop t (old_keys info) (old_infos s, old_lock_table s, old_num_locked_keys s, []) of
             Inl e \<Rightarrow> Inl e
           | Inr (m, tab, locked, res) \<Rightarrow>
               Inr (sort_unique res, \<lparr>old_infos = m(t := None), old_lock_table = tab, old_num_locked_keys = locked\<rparr>)))"

text \<open>The locks a call is about: the keys whose master is the home of the part.\<close>

definition old_lock_requests :: "transaction \<Rightarrow> (key \<times> key_type) list" where
  "old_lock_requests txn =
     map (\<lambda>kv. (kv_key kv, kv_type kv)) (filter (\<lambda>kv. int32_of_uint32 (kv_master kv) = home (internal txn)) (keys txn))"

definition old_num_required_locks :: "transaction \<Rightarrow> int" where
  "old_num_required_locks txn = int (length (keys txn))"

section \<open>Relation to the request-level manager\<close>

definition old_state_ok :: "old_lock_state \<Rightarrow> bool" where
  "old_state_ok ls \<longleftrightarrow> distinct (old_holders ls) \<and> distinct (old_waiters ls) \<and> distinct (map fst (old_waiter_queue ls)) \<and>
     set (old_waiters ls) = fst ` set (old_waiter_queue ls) \<and> set (old_holders ls) \<inter> fst ` set (old_waiter_queue ls) = {} \<and>
     (old_mode ls = LM_UNLOCKED \<longrightarrow> old_holders ls = [] \<and> old_waiter_queue ls = [])"

definition state_of_old :: "old_lock_state \<Rightarrow> lock_state" where
  "state_of_old ls = \<lparr>ls_mode = old_mode ls, holders = old_holders ls, waiter_queue = old_waiter_queue ls\<rparr>"

definition info_of_old :: "old_txn_info \<Rightarrow> rma_txn_info" where
  "info_of_old i = \<lparr>num_waiting_for = old_num_waiting_for i, info_keys = old_keys i\<rparr>"

definition infos_of_old :: "(txn_id \<rightharpoonup> old_txn_info) \<Rightarrow> (txn_id \<rightharpoonup> rma_txn_info)" where
  "infos_of_old m t = map_option info_of_old (m t)"

definition tables_agree :: "(key \<times> old_lock_state) list \<Rightarrow> (key \<rightharpoonup> lock_state) \<Rightarrow> bool" where
  "tables_agree tab rtab \<longleftrightarrow> distinct (map fst tab) \<and>
     (\<forall>k. old_state_ok (old_at tab k) \<and> state_of_old (old_at tab k) = ls_at rtab k)"

lemma set_ops:
  "set (set_insert x xs) = insert x (set xs)" "distinct xs \<Longrightarrow> distinct (set_insert x xs)"
  "x \<notin> set xs \<Longrightarrow> set_insert x xs = xs @ [x]" "distinct xs \<Longrightarrow> set (set_erase x xs) = set xs - {x}"
  "distinct xs \<Longrightarrow> distinct (set_erase x xs)"
  by (auto simp: set_insert_def set_erase_def)

lemma state_of_old_simps [simp]:
  "ls_mode (state_of_old ls) = old_mode ls" "holders (state_of_old ls) = old_holders ls"
  "waiter_queue (state_of_old ls) = old_waiter_queue ls"
  "state_of_old (ls\<lparr>old_holders := hs, old_mode := m\<rparr>) = (state_of_old ls)\<lparr>holders := hs, ls_mode := m\<rparr>"
  "state_of_old (ls\<lparr>old_holders := hs\<rparr>) = (state_of_old ls)\<lparr>holders := hs\<rparr>"
  by (simp_all add: state_of_old_def)

lemma info_of_old_simps:
  "num_waiting_for (info_of_old i) = old_num_waiting_for i" "info_keys (info_of_old i) = old_keys i"
  "(info_of_old i)\<lparr>num_waiting_for := n\<rparr> = info_of_old (i\<lparr>old_num_waiting_for := n\<rparr>)"
  "RMA_is_ready (info_of_old i) \<longleftrightarrow> Old_is_ready i" "RMA_TxnInfo n = info_of_old (Old_TxnInfo n)"
  by (simp_all add: info_of_old_def RMA_is_ready_def Old_is_ready_def RMA_TxnInfo_def Old_TxnInfo_def)

lemma infos_of_old_upd: "(infos_of_old m)(t \<mapsto> info_of_old i) = infos_of_old (m(t \<mapsto> i))" "(infos_of_old m)(t := None) = infos_of_old (m(t := None))"
  by (auto simp: infos_of_old_def)

lemma waiters_empty: "old_state_ok ls \<Longrightarrow> old_waiters ls = [] \<longleftrightarrow> old_waiter_queue ls = []"
  unfolding old_state_ok_def by (metis image_is_empty set_empty)

lemma old_contains: "old_state_ok ls \<Longrightarrow> OldLockState_Contains t ls \<longleftrightarrow> LockState_Contains t (state_of_old ls)"
  by (simp add: old_state_ok_def OldLockState_Contains_def LockState_Contains_def state_of_old_def)

lemma old_acquire:
  assumes "old_state_ok ls" "\<not> OldLockState_Contains t ls"
    and "(case ty of READ \<Rightarrow> OldLockState_AcquireReadLock t ls | WRITE \<Rightarrow> OldLockState_AcquireWriteLock t ls) = (b, ls')"
  shows "old_state_ok ls' \<and> (case ty of READ \<Rightarrow> LockState_AcquireReadLock t (state_of_old ls)
    | WRITE \<Rightarrow> LockState_AcquireWriteLock t (state_of_old ls)) = (b, state_of_old ls')"
proof -
  have n: "t \<notin> set (old_holders ls)" "t \<notin> set (old_waiters ls)" using assms(2) by (simp_all add: OldLockState_Contains_def)
  with assms(1) have q: "t \<notin> fst ` set (old_waiter_queue ls)" by (simp add: old_state_ok_def)
  have wait: "old_state_ok ls' \<and> \<not> b \<and> state_of_old ls' = (state_of_old ls)\<lparr>waiter_queue := waiter_queue (state_of_old ls) @ [(t, m)]\<rparr>"
    if "old_wait t m ls = (b, ls')" "old_mode ls \<noteq> LM_UNLOCKED" for m
  proof -
    from that(1) have "\<not> b" "ls' = ls\<lparr>old_waiters := old_waiters ls @ [t], old_waiter_queue := old_waiter_queue ls @ [(t, m)]\<rparr>"
      using n(2) by (simp_all add: old_wait_def set_ops(3))
    with assms(1) n q that(2) show ?thesis by (simp add: old_state_ok_def state_of_old_def)
  qed
  have hold: "old_state_ok (ls\<lparr>old_holders := old_holders ls @ [t], old_mode := m\<rparr>)" if "m \<noteq> LM_UNLOCKED" for m
    using assms(1) n that by (auto simp: old_state_ok_def set_ops)
  have hold': "old_state_ok (ls\<lparr>old_holders := old_holders ls @ [t]\<rparr>)" if "old_mode ls \<noteq> LM_UNLOCKED"
    using hold [OF that] by simp
  show ?thesis
    using assms(3) waiters_empty [OF assms(1)]
    by (cases ty; cases "old_mode ls")
       (auto simp: OldLockState_AcquireReadLock_def OldLockState_AcquireWriteLock_def LockState_AcquireReadLock_def
         LockState_AcquireWriteLock_def set_ops(3) [OF n(1)] hold hold' dest!: wait split: if_splits)
qed

lemma old_grant_readers_eq:
  assumes "distinct (hs @ map fst q)" "distinct ws" "set ws = fst ` set q" "old_grant_readers hs ws q = (hs', ws', q')"
  shows "grant_readers hs q = (hs', q') \<and> distinct (hs' @ map fst q') \<and> distinct ws' \<and> set ws' = fst ` set q'"
  using assms
proof (induction hs ws q rule: old_grant_readers.induct)
  case (2 hs ws t m q)
  show ?case
  proof (cases "m = LM_READ")
    case True
    have "distinct ((hs @ [t]) @ map fst q)" "distinct (set_erase t ws)" "set (set_erase t ws) = fst ` set q"
      using "2.prems" by (auto simp: set_ops)
    with "2.IH" [OF True] "2.prems" True show ?thesis by (simp add: set_ops)
  next
    case False
    then have "hs' = hs" "ws' = ws" "q' = (t, m) # q" using "2.prems"(4) by simp_all
    with "2.prems"(1-3) False show ?thesis by simp
  qed
qed simp

lemma old_release:
  assumes ok: "old_state_ok ls"
  shows "\<exists>g ls'. OldLockState_Release t ls = Inr (g, ls') \<and> old_state_ok ls' \<and> LockState_Release t (state_of_old ls) = (g, state_of_old ls')"
proof (cases "t \<in> set (old_holders ls)")
  case False
  have "set (set_erase t (old_waiters ls)) = fst ` set (filter (\<lambda>p. fst p \<noteq> t) (old_waiter_queue ls))"
    using ok by (auto simp: old_state_ok_def set_ops)
  with False ok show ?thesis
    by (auto simp: OldLockState_Release_def LockState_Release_def state_of_old_def old_state_ok_def set_ops distinct_map_filter)
next
  case True
  define ls1 where "ls1 = ls\<lparr>old_holders := remove1 t (old_holders ls)\<rparr>"
  have R: "OldLockState_Release t ls = (if old_holders ls1 \<noteq> [] then Inr ([], ls1)
      else if old_waiters ls1 = [] then Inr ([], ls1\<lparr>old_mode := LM_UNLOCKED\<rparr>)
      else case old_waiter_queue ls1 of
        [] \<Rightarrow> Inl (UndefinedBehaviour ''waiter_queue_.front()'')
      | (f, m) # q \<Rightarrow>
          if m = LM_READ then
            (case old_grant_readers (old_holders ls1) (old_waiters ls1) (old_waiter_queue ls1) of (hs, ws, q') \<Rightarrow>
               Inr (hs, ls1\<lparr>old_holders := hs, old_waiters := ws, old_waiter_queue := q', old_mode := LM_READ\<rparr>))
          else if m = LM_WRITE then
            (let hs = set_insert f (old_holders ls1)
             in Inr (hs, ls1\<lparr>old_holders := hs, old_waiters := set_erase f (old_waiters ls1), old_waiter_queue := q, old_mode := LM_WRITE\<rparr>))
          else Inr (old_holders ls1, ls1))"
    using True unfolding OldLockState_Release_def ls1_def set_erase_def Let_def by (simp only: if_False not_True_eq_False simp_thms)
  have st1: "(state_of_old ls)\<lparr>holders := remove1 t (holders (state_of_old ls))\<rparr> = state_of_old ls1"
    by (simp add: state_of_old_def ls1_def)
  have ok1: "distinct (old_holders ls1)" "distinct (old_waiters ls1)" "distinct (map fst (old_waiter_queue ls1))"
    "set (old_waiters ls1) = fst ` set (old_waiter_queue ls1)" "set (old_holders ls1) \<inter> fst ` set (old_waiter_queue ls1) = {}"
    "old_mode ls1 \<noteq> LM_UNLOCKED"
    using ok True set_remove1_subset [of t "old_holders ls"] by (auto simp: old_state_ok_def ls1_def)
  have w1: "old_waiters ls1 = [] \<longleftrightarrow> old_waiter_queue ls1 = []" using ok1(4) by (metis image_is_empty set_empty)
  have L: "LockState_Release t (state_of_old ls) = (if old_holders ls1 \<noteq> [] then ([], state_of_old ls1)
      else case old_waiter_queue ls1 of
        [] \<Rightarrow> ([], (state_of_old ls1)\<lparr>ls_mode := LM_UNLOCKED\<rparr>)
      | (f, m) # q \<Rightarrow>
          if m = LM_READ then
            (case grant_readers (old_holders ls1) (old_waiter_queue ls1) of (hs, q') \<Rightarrow>
               (hs, (state_of_old ls1)\<lparr>holders := hs, waiter_queue := q', ls_mode := LM_READ\<rparr>))
          else if m = LM_WRITE then
            (old_holders ls1 @ [f], (state_of_old ls1)\<lparr>holders := old_holders ls1 @ [f], waiter_queue := q, ls_mode := LM_WRITE\<rparr>)
          else (old_holders ls1, state_of_old ls1))"
    using True unfolding LockState_Release_def Let_def st1 by (simp only: if_False not_True_eq_False simp_thms state_of_old_simps)
  show ?thesis
  proof (cases "old_holders ls1 = [] \<and> old_waiter_queue ls1 \<noteq> []")
    case False
    with ok1 w1 show ?thesis unfolding R L by (auto simp: old_state_ok_def state_of_old_def)
  next
    case h: True
    then obtain f m q where q: "old_waiter_queue ls1 = (f, m) # q" by (cases "old_waiter_queue ls1") auto
    obtain hs ws q' where g: "old_grant_readers [] (old_waiters ls1) ((f, m) # q) = (hs, ws, q')" by (metis prod_cases3)
    from old_grant_readers_eq [OF _ ok1(2) _ g] ok1(3,4) have G: "grant_readers [] ((f, m) # q) = (hs, q')"
      "distinct (hs @ map fst q')" "distinct ws" "set ws = fst ` set q'" by (simp_all add: q)
    have w: "set (set_erase f (old_waiters ls1)) = fst ` set q" "distinct (set_erase f (old_waiters ls1))"
      using ok1(2-4) by (auto simp: q set_ops)
    from h have hn: "old_holders ls1 = []" "old_waiters ls1 \<noteq> []" using w1 by simp_all
    show ?thesis
    proof (cases m)
      case LM_READ
      let ?ls = "ls1\<lparr>old_holders := hs, old_waiters := ws, old_waiter_queue := q', old_mode := LM_READ\<rparr>"
      have "OldLockState_Release t ls = Inr (hs, ?ls)" unfolding R q list.case prod.case hn(1) g using hn(2) by (simp add: LM_READ)
      moreover have "LockState_Release t (state_of_old ls) = (hs, state_of_old ?ls)"
        unfolding L q list.case prod.case hn(1) G(1) by (simp add: LM_READ state_of_old_def)
      moreover have "old_state_ok ?ls" using G(2-4) by (simp add: old_state_ok_def)
      ultimately show ?thesis by blast
    next
      case LM_WRITE
      let ?ls = "ls1\<lparr>old_holders := [f], old_waiters := set_erase f (old_waiters ls1), old_waiter_queue := q, old_mode := LM_WRITE\<rparr>"
      have "OldLockState_Release t ls = Inr ([f], ?ls)" unfolding R q list.case prod.case LM_WRITE using hn by (simp add: set_insert_def Let_def)
      moreover have "LockState_Release t (state_of_old ls) = ([f], state_of_old ?ls)"
        unfolding L q list.case prod.case LM_WRITE using hn by (simp add: state_of_old_def)
      moreover have "old_state_ok ?ls" using w ok1(3) by (simp add: old_state_ok_def q)
      ultimately show ?thesis by blast
    next
      case LM_UNLOCKED
      have "OldLockState_Release t ls = Inr ([], ls1)" unfolding R q list.case prod.case LM_UNLOCKED using hn by simp
      moreover have "LockState_Release t (state_of_old ls) = ([], state_of_old ls1)"
        unfolding L q list.case prod.case LM_UNLOCKED using hn by simp
      moreover have "old_state_ok ls1" using ok1 by (simp add: old_state_ok_def)
      ultimately show ?thesis by blast
    qed
  qed
qed

section \<open>The loops\<close>

lemma old_at_simps:
  "distinct (map fst tab) \<Longrightarrow> old_at (AList.update k ls tab) = (old_at tab)(k := ls)"
  "distinct (map fst tab) \<Longrightarrow> old_at (AList.delete k tab) = (old_at tab)(k := OldLockState)"
  by (auto simp: old_at_def fun_eq_iff update_conv' delete_conv')

lemma OldLockState_ok [simp]: "old_state_ok OldLockState" "state_of_old OldLockState = LockState"
  by (simp_all add: old_state_ok_def OldLockState_def state_of_old_def LockState_def)

lemma tables_agree_update:
  assumes "tables_agree tab rtab" "old_state_ok ls"
  shows "tables_agree (AList.update k ls tab) (rtab(k \<mapsto> state_of_old ls))"
  using assms distinct_update [of tab k ls] by (auto simp: tables_agree_def old_at_simps ls_at_def)

text \<open>Whatever the request-level manager does without an error, the old one does.\<close>

lemma old_acquire_key:
  assumes agree: "tables_agree tab rtab" and rma: "RMA_acquire_key t k ty (info_of_old info, rtab, l) = Inr (i', rtab', l')"
  shows "\<exists>info' tab'. Old_acquire_key t k ty (info, tab, l) = Inr (info', tab', l') \<and> i' = info_of_old info' \<and> tables_agree tab' rtab'"
proof -
  have ok: "old_state_ok (old_at tab k)" and st: "ls_at rtab k = state_of_old (old_at tab k)" using agree by (simp_all add: tables_agree_def)
  have nc: "\<not> OldLockState_Contains t (old_at tab k)"
    using rma old_contains [OF ok, of t] by (auto simp: RMA_acquire_key_def st Let_def split: if_splits)
  obtain b ls' where a: "(case ty of READ \<Rightarrow> OldLockState_AcquireReadLock t (old_at tab k)
      | WRITE \<Rightarrow> OldLockState_AcquireWriteLock t (old_at tab k)) = (b, ls')" by fastforce
  from old_acquire [OF ok nc a] have ls': "old_state_ok ls'"
    and r: "(case ty of READ \<Rightarrow> LockState_AcquireReadLock t (state_of_old (old_at tab k))
      | WRITE \<Rightarrow> LockState_AcquireWriteLock t (state_of_old (old_at tab k))) = (b, state_of_old ls')" by blast+
  from rma nc old_contains [OF ok, of t] have "i' = (info_of_old info)\<lparr>info_keys := info_keys (info_of_old info) @ [k],
      num_waiting_for := num_waiting_for (info_of_old info) - (if b then 1 else 0)\<rparr>" "rtab' = rtab(k \<mapsto> state_of_old ls')"
    "l' = (if old_mode (old_at tab k) = LM_UNLOCKED \<and> old_mode ls' \<noteq> old_mode (old_at tab k) then (l + 1) mod 2 ^ 32 else l)"
    unfolding RMA_acquire_key_def Let_def prod.case st r by (auto simp: info_of_old_def split: if_splits)
  with nc tables_agree_update [OF agree ls', of k] show ?thesis
    unfolding Old_acquire_key_def Let_def prod.case a by (auto simp: info_of_old_def)
qed

lemma old_acquire_loop:
  assumes "tables_agree tab rtab"
    and "acquire_requests t (map (\<lambda>kv. (kv_key kv, kv_type kv)) (filter (\<lambda>kv. int32_of_uint32 (kv_master kv) = hm) kvs))
        (info_of_old info, rtab, l) = Inr (i', rtab', l')"
  shows "\<exists>info' tab'. Old_acquire_loop t hm kvs (info, tab, l) = Inr (info', tab', l') \<and> i' = info_of_old info' \<and> tables_agree tab' rtab'"
  using assms
proof (induction kvs arbitrary: info tab l rtab)
  case (Cons kv kvs)
  show ?case
  proof (cases "int32_of_uint32 (kv_master kv) = hm")
    case False
    with Cons.IH [OF Cons.prems(1), of info l] Cons.prems(2) show ?thesis by simp
  next
    case True
    with Cons.prems(2) obtain i1 rtab1 l1 where 1: "RMA_acquire_key t (kv_key kv) (kv_type kv) (info_of_old info, rtab, l) = Inr (i1, rtab1, l1)"
      by (cases "RMA_acquire_key t (kv_key kv) (kv_type kv) (info_of_old info, rtab, l)") auto
    from old_acquire_key [OF Cons.prems(1) 1] obtain info1 tab1 where
      2: "Old_acquire_key t (kv_key kv) (kv_type kv) (info, tab, l) = Inr (info1, tab1, l1)" "i1 = info_of_old info1" "tables_agree tab1 rtab1" by blast
    from Cons.IH [OF 2(3), of info1 l1] Cons.prems(2) 1 2(1,2) True show ?thesis by simp
  qed
qed simp

lemma old_grant:
  assumes "RMA_grant us (infos_of_old m, res) = Inr (r', res')"
  shows "\<exists>m'. Old_grant us (m, res) = Inr (m', res') \<and> r' = infos_of_old m'"
  using assms
proof (induction us arbitrary: m res)
  case (Cons u us)
  then obtain i where i: "m u = Some i" by (cases "m u") (auto simp: infos_of_old_def)
  let ?i = "i\<lparr>old_num_waiting_for := old_num_waiting_for i - 1\<rparr>"
  have "RMA_grant us (infos_of_old (m(u \<mapsto> ?i)), if Old_is_ready ?i then res @ [u] else res) = Inr (r', res')"
    using Cons.prems i by (simp add: infos_of_old_def [of m u] Let_def info_of_old_simps infos_of_old_upd)
  with Cons.IH [of "m(u \<mapsto> ?i)" "if Old_is_ready ?i then res @ [u] else res"]
  have "\<exists>m'. Old_grant us (m(u \<mapsto> ?i), if Old_is_ready ?i then res @ [u] else res) = Inr (m', res') \<and> r' = infos_of_old m'" by blast
  moreover have "Old_grant (u # us) (m, res) = Old_grant us (m(u \<mapsto> ?i), if Old_is_ready ?i then res @ [u] else res)"
    by (simp add: i Let_def)
  ultimately show ?case by (simp only:)
qed auto

text \<open>One turn of the release loops: a missing entry is like an unlocked one.\<close>

lemma RMA_release_turn:
  assumes "LockState_Release t (ls_at rtab k) = (g, ls')"
  obtains rtab1 where "\<And>m res. RMA_release_loop t (k # ks) (m, rtab, l, res) =
      (case RMA_grant g (m, res) of Inl e \<Rightarrow> Inl e
       | Inr (m', res') \<Rightarrow> RMA_release_loop t ks (m', rtab1,
           (if ls_mode ls' = LM_UNLOCKED \<and> ls_mode (ls_at rtab k) \<noteq> LM_UNLOCKED then (l + (2 ^ 32 - 1)) mod 2 ^ 32 else l), res'))"
    "ls_at rtab1 = (ls_at rtab)(k := ls')"
proof (cases "rtab k")
  case None
  then have "g = []" "ls' = LockState" "ls_at rtab k = LockState"
    using assms by (auto simp: ls_at_def LockState_Release_def LockState_def)
  with None show ?thesis by (intro that [of rtab]) (auto simp: fun_eq_iff)
next
  case (Some ls)
  then have "ls_at rtab k = ls" by (simp add: ls_at_def)
  with Some assms show ?thesis by (intro that [of "rtab(k \<mapsto> ls')"]) (auto simp: Let_def ls_at_def fun_eq_iff)
qed

lemma unlocked_state: "old_state_ok ls \<Longrightarrow> old_mode ls = LM_UNLOCKED \<Longrightarrow> ls = OldLockState"
  using waiters_empty [of ls] by (cases ls) (simp add: old_state_ok_def OldLockState_def)

lemma Old_release_turn:
  assumes "distinct (map fst tab)" "OldLockState_Release t (old_at tab k) = Inr (g, ls')" "old_state_ok ls'"
  obtains tab1 where "\<And>m res. Old_release_loop t (k # ks) (m, tab, l, res) =
      (case Old_grant g (m, res) of Inl e \<Rightarrow> Inl e
       | Inr (m', res') \<Rightarrow> Old_release_loop t ks (m', tab1,
           (if old_mode ls' = LM_UNLOCKED \<and> old_mode (old_at tab k) \<noteq> LM_UNLOCKED then (l + (2 ^ 32 - 1)) mod 2 ^ 32 else l), res'))"
    "distinct (map fst tab1)" "old_at tab1 = (old_at tab)(k := ls')"
proof (cases "map_of tab k")
  case None
  then have "g = []" "ls' = OldLockState" "old_at tab k = OldLockState"
    using assms(2) by (auto simp: old_at_def OldLockState_Release_def OldLockState_def set_erase_def)
  with None assms(1) show ?thesis by (intro that [of tab]) (auto simp: fun_eq_iff)
next
  case (Some ls)
  then have at: "old_at tab k = ls" by (simp add: old_at_def)
  have d: "distinct (map fst (AList.update k ls' tab))" using assms(1) by (rule distinct_update)
  define tab1 where "tab1 = (if old_mode ls' = LM_UNLOCKED \<and> length (AList.update k ls' tab) > kLockTableSizeLimit
    then AList.delete k (AList.update k ls' tab) else AList.update k ls' tab)"
  show ?thesis
  proof (rule that [of tab1])
    show "distinct (map fst tab1)" using d distinct_delete [OF d] by (simp add: tab1_def)
    show "old_at tab1 = (old_at tab)(k := ls')"
      using unlocked_state [OF assms(3)] by (auto simp: tab1_def old_at_simps [OF d] old_at_simps(1) [OF assms(1)])
  qed (simp only: Old_release_loop.simps Some option.case at assms(2) [unfolded at] sum.case prod.case Let_def tab1_def)
qed

lemma old_release_loop:
  assumes "tables_agree tab rtab" "RMA_release_loop t ks (infos_of_old m, rtab, l, res) = Inr (r', rtab', l', res')"
  shows "\<exists>m' tab'. Old_release_loop t ks (m, tab, l, res) = Inr (m', tab', l', res') \<and> r' = infos_of_old m' \<and> tables_agree tab' rtab'"
  using assms
proof (induction ks arbitrary: m tab rtab l res)
  case (Cons k ks)
  have ok: "old_state_ok (old_at tab k)" and st: "ls_at rtab k = state_of_old (old_at tab k)" and d: "distinct (map fst tab)"
    using Cons.prems(1) by (simp_all add: tables_agree_def)
  from old_release [OF ok, of t] obtain g ls' where g: "OldLockState_Release t (old_at tab k) = Inr (g, ls')" "old_state_ok ls'"
    "LockState_Release t (ls_at rtab k) = (g, state_of_old ls')" unfolding st by blast
  let ?l = "if old_mode ls' = LM_UNLOCKED \<and> old_mode (old_at tab k) \<noteq> LM_UNLOCKED then (l + (2 ^ 32 - 1)) mod 2 ^ 32 else l"
  obtain rtab1 where r1: "\<And>m res. RMA_release_loop t (k # ks) (m, rtab, l, res) =
      (case RMA_grant g (m, res) of Inl e \<Rightarrow> Inl e | Inr (m', res') \<Rightarrow> RMA_release_loop t ks (m', rtab1, ?l, res'))"
    "ls_at rtab1 = (ls_at rtab)(k := state_of_old ls')"
    using RMA_release_turn [OF g(3), of ks l] unfolding st state_of_old_simps by metis
  obtain tab1 where o1: "\<And>m res. Old_release_loop t (k # ks) (m, tab, l, res) =
      (case Old_grant g (m, res) of Inl e \<Rightarrow> Inl e | Inr (m', res') \<Rightarrow> Old_release_loop t ks (m', tab1, ?l, res'))"
    "distinct (map fst tab1)" "old_at tab1 = (old_at tab)(k := ls')"
    using Old_release_turn [OF d g(1,2), of ks l] by metis
  have agree: "tables_agree tab1 rtab1" using Cons.prems(1) g(2) r1(2) o1(2,3) by (simp add: tables_agree_def)
  from Cons.prems(2) r1(1) obtain r2 res2 where r2: "RMA_grant g (infos_of_old m, res) = Inr (r2, res2)"
    by (cases "RMA_grant g (infos_of_old m, res)") auto
  from old_grant [OF this] obtain m2 where m2: "Old_grant g (m, res) = Inr (m2, res2)" "r2 = infos_of_old m2" by blast
  from Cons.prems(2) r1(1) r2 m2(2) have "RMA_release_loop t ks (infos_of_old m2, rtab1, ?l, res2) = Inr (r', rtab', l', res')" by simp
  from Cons.IH [OF agree this] o1(1) m2(1) show ?case by simp
qed auto

section \<open>The contract\<close>

definition old_rel :: "old_lock_manager \<Rightarrow> rma_lock_manager \<Rightarrow> bool" where
  "old_rel s r \<longleftrightarrow> rma_infos r = infos_of_old (old_infos s) \<and> tables_agree (old_lock_table s) (rma_lock_table r) \<and>
     num_locked_keys r = old_num_locked_keys s"

definition old_sim :: "key lock_spec \<Rightarrow> old_lock_manager \<Rightarrow> bool" where
  "old_sim S s \<longleftrightarrow> (\<exists>r. rma_sim S r \<and> old_rel s r)"

lemma old_AcquireLocks:
  assumes "old_rel s r" "acquire_all (tid x) (old_num_required_locks x) (old_lock_requests x) r = Inr (a, r')"
  shows "\<exists>s'. Old_AcquireLocks x s = Inr (a, s') \<and> old_rel s' r'"
proof -
  let ?t = "tid x" and ?n = "old_num_required_locks x"
  define m0 where "m0 = try_emplace (old_infos s) ?t (Old_TxnInfo ?n)"
  have m0: "try_emplace (rma_infos r) ?t (RMA_TxnInfo ?n) = infos_of_old m0"
    using assms(1) by (auto simp: old_rel_def try_emplace_def m0_def infos_of_old_def info_of_old_simps fun_eq_iff split: option.splits)
  obtain info where info: "m0 ?t = Some info" by (auto simp: m0_def try_emplace_same)
  then have ri: "infos_of_old m0 ?t = Some (info_of_old info)" by (simp add: infos_of_old_def)
  from assms(2) obtain i' rtab l where
    acq: "acquire_requests ?t (old_lock_requests x) (info_of_old info, rma_lock_table r, num_locked_keys r) = Inr (i', rtab, l)"
    unfolding acquire_all_def Let_def m0 ri by (auto split: sum.splits)
  with assms(2) have r': "a = (if RMA_is_ready i' then ACQUIRED else WAITING)"
    "r' = \<lparr>rma_infos = (infos_of_old m0)(?t \<mapsto> i'), rma_lock_table = rtab, num_locked_keys = l\<rparr>"
    unfolding acquire_all_def Let_def m0 ri by auto
  have agree: "tables_agree (old_lock_table s) (rma_lock_table r)" and l: "num_locked_keys r = old_num_locked_keys s"
    using assms(1) by (simp_all add: old_rel_def)
  from old_acquire_loop [OF agree, of ?t "home (internal x)" "keys x" info "old_num_locked_keys s" i' rtab l] acq obtain info' tab where
    o: "Old_acquire_loop ?t (home (internal x)) (keys x) (info, old_lock_table s, old_num_locked_keys s) = Inr (info', tab, l)"
      "i' = info_of_old info'" "tables_agree tab rtab" unfolding old_lock_requests_def l by blast
  show ?thesis
    using o r' info unfolding Old_AcquireLocks_def Let_def old_num_required_locks_def [symmetric] m0_def [symmetric]
    by (simp add: old_rel_def info_of_old_simps infos_of_old_upd)
qed

lemma old_ReleaseLocks:
  assumes "old_rel s r" "RMA_ReleaseLocks t r = Inr (ts, r')"
  shows "\<exists>s'. Old_ReleaseLocks t s = Inr (ts, s') \<and> old_rel s' r'"
proof (cases "old_infos s t")
  case None
  with assms show ?thesis by (auto simp: old_rel_def RMA_ReleaseLocks_def Old_ReleaseLocks_def infos_of_old_def)
next
  case (Some info)
  have R: "rma_infos r = infos_of_old (old_infos s)" "tables_agree (old_lock_table s) (rma_lock_table r)" "num_locked_keys r = old_num_locked_keys s"
    using assms(1) by (simp_all add: old_rel_def)
  have ri: "infos_of_old (old_infos s) t = Some (info_of_old info)" using Some by (simp add: infos_of_old_def)
  from assms(2) obtain m tab l res where
    loop: "RMA_release_loop t (old_keys info) (infos_of_old (old_infos s), rma_lock_table r, old_num_locked_keys s, []) = Inr (m, tab, l, res)"
    unfolding RMA_ReleaseLocks_def R(1,3) ri by (auto simp: info_of_old_simps split: sum.splits)
  from old_release_loop [OF R(2) loop] obtain m' tab' where
    o: "Old_release_loop t (old_keys info) (old_infos s, old_lock_table s, old_num_locked_keys s, []) = Inr (m', tab', l, res)"
      "m = infos_of_old m'" "tables_agree tab' tab" by blast
  with assms(2) loop Some show ?thesis
    unfolding RMA_ReleaseLocks_def R(1,3) ri
    by (auto simp: Old_ReleaseLocks_def old_rel_def info_of_old_simps infos_of_old_upd)
qed

interpretation old: lock_manager old_lock_requests old_num_required_locks OldLockManager Old_AcquireLocks Old_ReleaseLocks old_sim
proof unfold_locales
  show "old_sim spec_init OldLockManager"
    unfolding old_sim_def
  proof (intro exI conjI)
    show "rma_sim spec_init RMALockManager" by (rule rma_sim_init)
    show "old_rel OldLockManager RMALockManager"
      by (simp add: old_rel_def OldLockManager_def RMALockManager_def infos_of_old_def fun_eq_iff tables_agree_def old_at_def ls_at_def)
  qed
next
  fix S s x
  assume "old_sim S s" and legal: "legal_acquire S (tid x) (old_num_required_locks x) (old_lock_requests x)"
  then obtain r where r: "rma_sim S r" "old_rel s r" by (auto simp: old_sim_def)
  from acquire_all_sim [OF r(1) legal] old_AcquireLocks [OF r(2)]
  show "\<exists>s'. Old_AcquireLocks x s = Inr (if spec_ready (spec_acquire (tid x) (old_num_required_locks x) (old_lock_requests x) S) (tid x)
      then ACQUIRED else WAITING, s') \<and> old_sim (spec_acquire (tid x) (old_num_required_locks x) (old_lock_requests x) S) s'"
    unfolding old_sim_def by metis
next
  fix S s t
  assume "old_sim S s" and ready: "spec_ready S t"
  then obtain r where r: "rma_sim S r" "old_rel s r" by (auto simp: old_sim_def)
  from rma_sim_release [OF r(1) ready] old_ReleaseLocks [OF r(2)]
  show "\<exists>ts s'. Old_ReleaseLocks t s = Inr (ts, s') \<and> old_sim (spec_release t S) s' \<and> distinct ts \<and> set ts = newly_ready S t"
    unfolding old_sim_def by metis
qed

end
