(* ===== verification/Lock_Manager_Properties.thy ===== *)
theory Lock_Manager_Properties
  imports Rma_Lock_Manager Ddr_Lock_Manager Old_Lock_Manager
begin

text \<open>
  What the scheduler gets from its lock managers, as consequences of the three interpretations of
  the locale \<open>lock_manager\<close>: the answers are the ones of the contract, conflicting
  transactions never hold their locks together, the two remaster-aware managers are
  interchangeable, and transactions that ask for all of their locks in one call never deadlock.
\<close>

section \<open>Concrete calls\<close>

definition writer :: "txn_id \<Rightarrow> key list \<Rightarrow> transaction" where
  "writer t ks = mk_txn t SINGLE_HOME 0 (Code []) (map (\<lambda>k. mk_kv k 0 0 WRITE) ks)"

definition reader :: "txn_id \<Rightarrow> key list \<Rightarrow> transaction" where
  "reader t ks = mk_txn t SINGLE_HOME 0 (Code []) (map (\<lambda>k. mk_kv k 0 0 READ) ks)"

definition sample_ops :: "lock_op list" where
  "sample_ops = [AcquireOp (writer 100 [''A'', ''B'']), AcquireOp (reader 200 [''A'']),
     AcquireOp (reader 300 [''A'', ''C'']), AcquireOp (writer 400 [''C'']), ReleaseOp 100]"

lemma sample_ops_legal: "legal_run lock_requests num_required_locks spec_init sample_ops"
  by code_simp

lemma sample_ops_rma:
  "lm_grants RMA_AcquireLocks RMA_ReleaseLocks sample_ops RMALockManager =
     Inr [[100], [], [], [], [200, 300]]"
  by code_simp

lemma sample_ops_ddr:
  "lm_grants DDR_AcquireLocks DDR_ReleaseLocks sample_ops DDRLockManager =
     Inr [[100], [], [], [], [200, 300]]"
  by code_simp

lemma sample_ops_old:
  "lm_grants Old_AcquireLocks Old_ReleaseLocks sample_ops OldLockManager =
     Inr [[100], [], [], [], [200, 300]]"
  by code_simp

lemma sample_ops_old_legal: "legal_run old_lock_requests old_num_required_locks spec_init sample_ops"
  by code_simp

section \<open>Properties\<close>

text \<open>C1. On every legal sequence of calls the RMA lock manager answers without failing any of its
  checks, and the transactions each call grants are exactly those that the contract makes ready:
  all of their lock requests have arrived and no transaction still in the manager has an earlier
  conflicting request.\<close>

theorem rma_grants_in_request_order:
  assumes "legal_run lock_requests num_required_locks spec_init ops"
  shows "\<exists>gs. lm_grants RMA_AcquireLocks RMA_ReleaseLocks ops RMALockManager = Inr gs \<and>
    map set gs = spec_run_grants lock_requests num_required_locks ops spec_init \<and>
    (\<forall>g \<in> set gs. distinct g)"
  using rma.legal_run_answers [OF assms] by blast

theorem rma_grants_in_request_order_witness:
  "map set [[100], [], [], [], [200, 300]] =
     spec_run_grants lock_requests num_required_locks sample_ops spec_init"
  using rma_grants_in_request_order [OF sample_ops_legal] sample_ops_rma by auto

text \<open>C3. The old lock manager, which keeps one lock per key instead of one per key and region and erases
  unused locks when its table grows too large, also answers every legal sequence of calls without failing a check, and grants exactly the
  transactions that the contract makes ready.\<close>

theorem old_grants_in_request_order:
  assumes "legal_run old_lock_requests old_num_required_locks spec_init ops"
  shows "\<exists>gs. lm_grants Old_AcquireLocks Old_ReleaseLocks ops OldLockManager = Inr gs \<and>
    map set gs = spec_run_grants old_lock_requests old_num_required_locks ops spec_init \<and>
    (\<forall>g \<in> set gs. distinct g)"
  using old.legal_run_answers [OF assms] by blast

theorem old_grants_in_request_order_witness:
  "map set [[100], [], [], [], [200, 300]] =
     spec_run_grants old_lock_requests old_num_required_locks sample_ops spec_init"
  using old_grants_in_request_order [OF sample_ops_old_legal] sample_ops_old by auto

text \<open>C2. The DDR lock manager, which only keeps the tails of the lock queues and a waits-for
  graph, gives on every legal sequence of calls the same grants as the RMA lock manager, which
  keeps the whole queues.\<close>

theorem ddr_equivalent_to_rma:
  assumes "legal_run lock_requests num_required_locks spec_init ops"
  shows "\<exists>gs gs'. lm_grants DDR_AcquireLocks DDR_ReleaseLocks ops DDRLockManager = Inr gs \<and>
    lm_grants RMA_AcquireLocks RMA_ReleaseLocks ops RMALockManager = Inr gs' \<and>
    list_all2 (\<lambda>g g'. distinct g \<and> distinct g' \<and> set g = set g') gs gs'"
proof -
  from ddr.legal_run_answers [OF assms] obtain gs where
    1: "lm_grants DDR_AcquireLocks DDR_ReleaseLocks ops DDRLockManager = Inr gs"
      "map set gs = spec_run_grants lock_requests num_required_locks ops spec_init"
      "\<forall>g \<in> set gs. distinct g" by blast
  from rma.legal_run_answers [OF assms] obtain gs' where
    2: "lm_grants RMA_AcquireLocks RMA_ReleaseLocks ops RMALockManager = Inr gs'"
      "map set gs' = spec_run_grants lock_requests num_required_locks ops spec_init"
      "\<forall>g \<in> set gs'. distinct g" by blast
  have eq: "map set gs = map set gs'" using 1(2) 2(2) by (rule trans [OF _ sym])
  then have "length gs = length gs'" by (metis length_map)
  then have "list_all2 (\<lambda>g g'. distinct g \<and> distinct g' \<and> set g = set g') gs gs'"
    using eq 1(3) 2(3) by (auto simp: list_all2_conv_all_nth) (metis nth_map)+
  with 1(1) 2(1) show ?thesis by blast
qed

theorem ddr_equivalent_to_rma_witness:
  "\<exists>gs gs'. lm_grants DDR_AcquireLocks DDR_ReleaseLocks sample_ops DDRLockManager = Inr gs \<and>
    lm_grants RMA_AcquireLocks RMA_ReleaseLocks sample_ops RMALockManager = Inr gs' \<and>
    list_all2 (\<lambda>g g'. distinct g \<and> distinct g' \<and> set g = set g') gs gs'"
  by (rule ddr_equivalent_to_rma [OF sample_ops_legal])

text \<open>C15. Mutual exclusion: two transactions that hold their locks at the same time under the RMA
  lock manager share a pair of key and region only when both of them read it.\<close>

theorem rma_mutual_exclusion:
  assumes "legal_run lock_requests num_required_locks spec_init ops"
    and "lm_grants RMA_AcquireLocks RMA_ReleaseLocks ops RMALockManager = Inr gs"
    and "AcquireOp x \<in> set ops" "AcquireOp y \<in> set ops" "tid x \<noteq> tid y"
    and "tid x \<in> live_grants {} ops gs" "tid y \<in> live_grants {} ops gs"
    and "(k, m1) \<in> set (lock_requests x)" "(k, m2) \<in> set (lock_requests y)"
  shows "m1 = READ \<and> m2 = READ"
  using assms by (rule rma.granted_exclusive)

theorem rma_mutual_exclusion_witness:
  "{200, 300} \<subseteq> live_grants {} sample_ops [[100], [], [], [], [200, 300]] \<and>
   (''A:0'', READ) \<in> set (lock_requests (reader 200 [''A''])) \<and>
   (''A:0'', READ) \<in> set (lock_requests (reader 300 [''A'', ''C''])) \<and> READ = READ \<and> READ = READ"
proof (intro conjI)
  show "READ = READ" "READ = READ"
    by (rule conjunct1 [OF rma_mutual_exclusion [OF sample_ops_legal sample_ops_rma,
          of "reader 200 [''A'']" "reader 300 [''A'', ''C'']" "''A:0''" READ READ]], code_simp+)+
qed code_simp+

text \<open>Mutual exclusion for the DDR lock manager.\<close>

theorem ddr_mutual_exclusion:
  assumes "legal_run lock_requests num_required_locks spec_init ops"
    and "lm_grants DDR_AcquireLocks DDR_ReleaseLocks ops DDRLockManager = Inr gs"
    and "AcquireOp x \<in> set ops" "AcquireOp y \<in> set ops" "tid x \<noteq> tid y"
    and "tid x \<in> live_grants {} ops gs" "tid y \<in> live_grants {} ops gs"
    and "(k, m1) \<in> set (lock_requests x)" "(k, m2) \<in> set (lock_requests y)"
  shows "m1 = READ \<and> m2 = READ"
  using assms by (rule ddr.granted_exclusive)

theorem ddr_mutual_exclusion_witness:
  "{200, 300} \<subseteq> live_grants {} sample_ops [[100], [], [], [], [200, 300]] \<and>
   (''A:0'', READ) \<in> set (lock_requests (reader 200 [''A''])) \<and>
   (''A:0'', READ) \<in> set (lock_requests (reader 300 [''A'', ''C''])) \<and> READ = READ \<and> READ = READ"
proof (intro conjI)
  show "READ = READ" "READ = READ"
    by (rule conjunct1 [OF ddr_mutual_exclusion [OF sample_ops_legal sample_ops_ddr,
          of "reader 200 [''A'']" "reader 300 [''A'', ''C'']" "''A:0''" READ READ]], code_simp+)+
qed code_simp+

text \<open>C16. No deadlock: when every transaction asks for all of its locks in one call, then as long
  as some transaction is in the DDR lock manager, one that is there holds all of its locks.\<close>

theorem ddr_single_shot_progress:
  assumes "legal_run lock_requests num_required_locks spec_init ops"
    and "lm_grants DDR_AcquireLocks DDR_ReleaseLocks ops DDRLockManager = Inr gs"
    and "\<forall>x. AcquireOp x \<in> set ops \<longrightarrow> num_required_locks x = int (length (lock_requests x))"
    and "active (spec_run lock_requests num_required_locks ops spec_init) \<noteq> {}"
  shows "live_grants {} ops gs \<noteq> {}"
  using assms by (rule ddr.single_shot_progress)

theorem ddr_single_shot_progress_witness:
  "live_grants {} sample_ops [[100], [], [], [], [200, 300]] \<noteq> {}"
proof (rule ddr_single_shot_progress [OF sample_ops_legal sample_ops_ddr])
  have "list_all (\<lambda>x. case x of AcquireOp y \<Rightarrow> num_required_locks y = int (length (lock_requests y)) | _ \<Rightarrow> True)
      sample_ops" by code_simp
  then show "\<forall>x. AcquireOp x \<in> set sample_ops \<longrightarrow> num_required_locks x = int (length (lock_requests x))"
    by (auto simp: list_all_iff split: lock_op.splits)
  have "need (spec_run lock_requests num_required_locks sample_ops spec_init) 400 = Some 0" by code_simp
  then show "active (spec_run lock_requests num_required_locks sample_ops spec_init) \<noteq> {}" by blast
qed

end
