(* ===== verification/Async_Log.thy ===== *)
theory Async_Log
  imports Slog_Types "HOL-Library.Finite_Map"
begin

text \<open>
  \<^verbatim>\<open>data_structure/async_log.h\<close>: a log whose items arrive in any order and are read in the order
  of their positions. The unordered map is a finite map; positions are unsigned 32-bit numbers.
\<close>

section \<open>Model\<close>

record 'a async_log =
  al_log :: "(nat, 'a) fmap"
  al_next :: nat

definition AsyncLog :: "nat \<Rightarrow> 'a async_log" where
  "AsyncLog start_from = \<lparr>al_log = fmempty, al_next = start_from\<rparr>"

definition AsyncLog_Insert :: "nat \<Rightarrow> 'a \<Rightarrow> 'a async_log \<Rightarrow> 'a async_log result" where
  "AsyncLog_Insert position item l =
     (if position < al_next l then Inr l
      else case fmlookup (al_log l) position of
             Some _ \<Rightarrow> Inl (RuntimeError ''Log position has already been taken'')
           | None \<Rightarrow> Inr (l\<lparr>al_log := fmupd position item (al_log l)\<rparr>))"

definition AsyncLog_HasNext :: "'a async_log \<Rightarrow> bool" where
  "AsyncLog_HasNext l \<longleftrightarrow> fmlookup (al_log l) (al_next l) \<noteq> None"

definition AsyncLog_Peek :: "'a async_log \<Rightarrow> 'a result" where
  "AsyncLog_Peek l = (case fmlookup (al_log l) (al_next l) of
     None \<Rightarrow> Inl (RuntimeError ''out_of_range'') | Some x \<Rightarrow> Inr x)"

definition AsyncLog_Next :: "'a async_log \<Rightarrow> ((nat \<times> 'a) \<times> 'a async_log) result" where
  "AsyncLog_Next l =
     (case fmlookup (al_log l) (al_next l) of
        None \<Rightarrow> Inl (RuntimeError ''Next item does not exist'')
      | Some x \<Rightarrow> Inr ((al_next l, x),
          l\<lparr>al_next := (al_next l + 1) mod 2 ^ 32, al_log := fmdrop (al_next l) (al_log l)\<rparr>))"

definition AsyncLog_NumBufferredItems :: "'a async_log \<Rightarrow> nat" where
  "AsyncLog_NumBufferredItems l = card (fset (fmdom (al_log l)))"

section \<open>Facts for the loops that drain a log\<close>

lemma AsyncLog_Next_smaller:
  assumes "AsyncLog_Next l = Inr (x, l')"
  shows "AsyncLog_NumBufferredItems l' < AsyncLog_NumBufferredItems l"
proof -
  obtain y where y: "fmlookup (al_log l) (al_next l) = Some y"
    using assms by (auto simp: AsyncLog_Next_def split: option.splits)
  then have "al_log l' = fmdrop (al_next l) (al_log l)" using assms by (auto simp: AsyncLog_Next_def)
  moreover have "al_next l \<in> fset (fmdom (al_log l))" using y by (simp add: fmdomI)
  ultimately show ?thesis unfolding AsyncLog_NumBufferredItems_def
    by (simp only: fmdom_drop fset_simps minus_fset) (rule card_Diff1_less; simp)
qed

lemma AsyncLog_Next_some:
  assumes "fmlookup (al_log l) (al_next l) = Some x"
  shows "AsyncLog_Next l = Inr ((al_next l, x),
    l\<lparr>al_next := (al_next l + 1) mod 2 ^ 32, al_log := fmdrop (al_next l) (al_log l)\<rparr>)"
  using assms by (simp add: AsyncLog_Next_def)

text \<open>A log that holds exactly the items at the positions from \<open>n\<close> on.\<close>

definition al_holds :: "(nat \<Rightarrow> 'a option) \<Rightarrow> nat \<Rightarrow> 'a async_log \<Rightarrow> bool" where
  "al_holds f n l \<longleftrightarrow> al_next l = n \<and>
     (\<forall>p. fmlookup (al_log l) p = (if n \<le> p then f p else None))"

lemma al_holds_init: "al_holds (\<lambda>_. None) n (AsyncLog n)"
  by (simp add: al_holds_def AsyncLog_def)

lemma al_holds_HasNext: "al_holds f n l \<Longrightarrow> AsyncLog_HasNext l \<longleftrightarrow> f n \<noteq> None"
  by (simp add: al_holds_def AsyncLog_HasNext_def)

lemma al_holds_Peek: "al_holds f n l \<Longrightarrow> f n = Some x \<Longrightarrow> AsyncLog_Peek l = Inr x"
  by (simp add: al_holds_def AsyncLog_Peek_def)

lemma al_holds_Insert:
  assumes "al_holds f n l" "f p = None" "\<forall>q < n. f q \<noteq> None"
  obtains l' where "AsyncLog_Insert p x l = Inr l'" "al_holds (f(p \<mapsto> x)) n l'"
proof -
  have "\<not> p < n" using assms(2,3) by blast
  with assms have "AsyncLog_Insert p x l = Inr (l\<lparr>al_log := fmupd p x (al_log l)\<rparr>)"
    by (simp add: al_holds_def AsyncLog_Insert_def)
  moreover have "al_holds (f(p \<mapsto> x)) n (l\<lparr>al_log := fmupd p x (al_log l)\<rparr>)"
    using assms(1) \<open>\<not> p < n\<close> by (simp add: al_holds_def)
  ultimately show thesis by (rule that)
qed

lemma al_holds_Next:
  assumes "al_holds f n l" "f n = Some x" "n + 1 < 2 ^ 32"
  obtains l' where "AsyncLog_Next l = Inr ((n, x), l')" "al_holds f (Suc n) l'"
proof -
  have "fmlookup (al_log l) (al_next l) = Some x" using assms by (simp add: al_holds_def)
  from AsyncLog_Next_some [OF this] show thesis
    using assms by (intro that) (auto simp: al_holds_def)
qed

end
