(* ===== verification/Ordered_Log.thy ===== *)
theory Ordered_Log
  imports Slog_Types "HOL-Library.Multiset"
begin

text \<open>
  The contract shared by the logs of the interleaver (\<^verbatim>\<open>BatchLog\<close> and \<^verbatim>\<open>LocalLog\<close>): inputs arrive in
  any order, the log is drained at any time, and what comes out is always the sequence of the items
  of slots \<open>0, 1, 2, ...\<close> up to the first slot whose item is not available. The output of a log
  that has been drained is therefore a function of the inputs it received and not of their order.

  The locale \<open>ordered_log\<close> states the contract; each log interprets it.
\<close>

section \<open>Lists up to their order\<close>

lemma mset_concat_map:
  assumes "mset xs = mset ys"
  shows "mset (concat (map f xs)) = mset (concat (map f ys))"
proof -
  have "mset (concat (map f zs)) = sum_mset (image_mset (\<lambda>x. mset (f x)) (mset zs))" for zs
    by (induction zs) auto
  then show ?thesis by (simp add: assms)
qed

lemma distinct_map_mset:
  assumes "mset xs = mset ys"
  shows "distinct (map f xs) \<longleftrightarrow> distinct (map f ys)"
proof -
  have "mset (map f xs) = mset (map f ys)" by (simp add: assms)
  then show ?thesis by (rule mset_eq_imp_distinct_iff)
qed

lemma map_of_mset:
  assumes "mset xs = mset ys" "distinct (map fst xs)"
  shows "map_of xs = map_of ys"
proof -
  have "distinct (map fst ys)" using assms(2) unfolding distinct_map_mset [OF assms(1)] .
  with assms(2) mset_eq_setD [OF assms(1)] show ?thesis by (simp add: map_of_inject_set)
qed

section \<open>The longest available prefix\<close>

definition emit_prefix :: "(nat \<Rightarrow> 'o option) \<Rightarrow> nat \<Rightarrow> bool" where
  "emit_prefix item n \<longleftrightarrow> (\<forall>i < n. item i \<noteq> None) \<and> item n = None"

lemma emit_prefix_unique:
  assumes "emit_prefix item n" "emit_prefix item n'"
  shows "n = n'"
  using assms unfolding emit_prefix_def by (metis linorder_neqE_nat)

definition emitted :: "(nat \<Rightarrow> 'o option) \<Rightarrow> nat \<Rightarrow> nat \<Rightarrow> (nat \<times> 'o) list" where
  "emitted item m n = map (\<lambda>i. (i, the (item i))) [m..<n]"

lemma emitted_append: "l \<le> m \<Longrightarrow> m \<le> n \<Longrightarrow> emitted item l m @ emitted item m n = emitted item l n"
  using upt_add_eq_append [of l m "n - m"] by (simp add: emitted_def flip: map_append)

lemma emitted_cong:
  "(\<And>i. i < n \<Longrightarrow> item i = item' i) \<Longrightarrow> emitted item m n = emitted item' m n"
  by (simp add: emitted_def)

section \<open>Runs of a log\<close>

datatype 'op log_action = Input 'op | Drain

fun inputs :: "'op log_action list \<Rightarrow> 'op list" where
  "inputs [] = []"
| "inputs (Input x # as) = x # inputs as"
| "inputs (Drain # as) = inputs as"

lemma inputs_append [simp]: "inputs (as @ bs) = inputs as @ inputs bs"
  by (induction as rule: inputs.induct) auto

lemma inputs_map_Input [simp]: "inputs (map Input xs) = xs"
  by (induction xs) auto

fun ol_run ::
  "('op \<Rightarrow> 's \<Rightarrow> 's result) \<Rightarrow> ('s \<Rightarrow> ((nat \<times> 'o) list \<times> 's) result) \<Rightarrow>
   'op log_action list \<Rightarrow> 's \<Rightarrow> ((nat \<times> 'o) list \<times> 's) result" where
  "ol_run step drain [] s = Inr ([], s)"
| "ol_run step drain (Input x # as) s =
     (case step x s of Inl e \<Rightarrow> Inl e | Inr s' \<Rightarrow> ol_run step drain as s')"
| "ol_run step drain (Drain # as) s =
     (case drain s of Inl e \<Rightarrow> Inl e
      | Inr (os, s') \<Rightarrow> (case ol_run step drain as s' of Inl e \<Rightarrow> Inl e
          | Inr (os', s'') \<Rightarrow> Inr (os @ os', s'')))"

lemma ol_run_append:
  "ol_run step drain (as @ bs) s = (case ol_run step drain as s of Inl e \<Rightarrow> Inl e
     | Inr (os, s') \<Rightarrow> (case ol_run step drain bs s' of Inl e \<Rightarrow> Inl e | Inr (os', s'') \<Rightarrow> Inr (os @ os', s'')))"
  by (induction as arbitrary: s rule: inputs.induct) (auto split: sum.splits)

definition ol_outputs ::
  "('op \<Rightarrow> 's \<Rightarrow> 's result) \<Rightarrow> ('s \<Rightarrow> ((nat \<times> 'o) list \<times> 's) result) \<Rightarrow>
   'op log_action list \<Rightarrow> 's \<Rightarrow> (nat \<times> 'o) list result" where
  "ol_outputs step drain as s = map_sum id fst (ol_run step drain as s)"

section \<open>The interface\<close>

locale ordered_log =
  fixes init :: 's
    and step :: "'op \<Rightarrow> 's \<Rightarrow> 's result"
    and drain :: "'s \<Rightarrow> ((nat \<times> 'o) list \<times> 's) result"
    and legal :: "'op list \<Rightarrow> bool"
    and item :: "'op list \<Rightarrow> nat \<Rightarrow> 'o option"
    and inv :: "'op list \<Rightarrow> nat \<Rightarrow> 's \<Rightarrow> bool"
  assumes inv_init: "inv [] 0 init"
    and legal_prefix: "legal (xs @ ys) \<Longrightarrow> legal xs"
    and legal_perm: "mset xs = mset ys \<Longrightarrow> legal xs \<Longrightarrow> legal ys"
    and item_perm: "mset xs = mset ys \<Longrightarrow> legal xs \<Longrightarrow> item xs = item ys"
    and item_stable: "legal (xs @ [x]) \<Longrightarrow> item xs i = Some o1 \<Longrightarrow> item (xs @ [x]) i = Some o1"
    and inv_available: "inv xs n s \<Longrightarrow> i < n \<Longrightarrow> item xs i \<noteq> None"
    and inv_step: "inv xs n s \<Longrightarrow> legal (xs @ [x]) \<Longrightarrow> \<exists>s'. step x s = Inr s' \<and> inv (xs @ [x]) n s'"
    and inv_drain: "inv xs n s \<Longrightarrow> legal xs \<Longrightarrow>
      \<exists>n' s'. drain s = Inr (emitted (item xs) n n', s') \<and> n \<le> n' \<and> emit_prefix (item xs) n' \<and> inv xs n' s'"
begin

lemma item_stable_append: "legal (xs @ ys) \<Longrightarrow> item xs i = Some o1 \<Longrightarrow> item (xs @ ys) i = Some o1"
proof (induction ys rule: rev_induct)
  case (snoc y ys)
  then have "legal (xs @ ys)" using legal_prefix [of "xs @ ys" "[y]"] by simp
  with snoc have "item (xs @ ys) i = Some o1" by blast
  with snoc.prems(1) show ?case using item_stable [of "xs @ ys" y] by simp
qed simp

lemma run_from:
  assumes "inv xs n s" "legal (xs @ inputs as)"
  shows "\<exists>n' s'. ol_run step drain as s = Inr (emitted (item (xs @ inputs as)) n n', s') \<and> n \<le> n' \<and>
    inv (xs @ inputs as) n' s'"
  using assms
proof (induction as arbitrary: xs n s)
  case Nil
  then show ?case by (intro exI [of _ n] exI [of _ s]) (simp add: emitted_def)
next
  case (Cons a as)
  show ?case
  proof (cases a)
    case (Input x)
    have l: "legal ((xs @ [x]) @ inputs as)" using Cons.prems(2) Input by simp
    then have "legal (xs @ [x])" by (rule legal_prefix)
    with Cons.prems(1) obtain s1 where "step x s = Inr s1" "inv (xs @ [x]) n s1" using inv_step by blast
    with Cons.IH [OF this(2) l] Input show ?thesis by simp
  next
    case Drain
    have l: "legal (xs @ inputs as)" using Cons.prems(2) Drain by simp
    then have "legal xs" by (rule legal_prefix)
    with Cons.prems(1) obtain n1 s1 where
      1: "drain s = Inr (emitted (item xs) n n1, s1)" "n \<le> n1" "inv xs n1 s1" using inv_drain by blast
    from Cons.IH [OF 1(3) l] obtain n2 s2 where
      2: "ol_run step drain as s1 = Inr (emitted (item (xs @ inputs as)) n1 n2, s2)" "n1 \<le> n2"
         "inv (xs @ inputs as) n2 s2" by blast
    have "emitted (item xs) n n1 = emitted (item (xs @ inputs as)) n n1"
      using inv_available [OF 1(3)] item_stable_append [OF l] by (intro emitted_cong) (metis option.exhaust)
    with 1 2 Drain show ?thesis by (intro exI [of _ n2] exI [of _ s2]) (simp add: emitted_append)
  qed
qed

text \<open>However inputs and draining are interleaved, the outputs are the items of consecutive slots
  from 0, and once the log is drained they are all the available ones.\<close>

lemma outputs_consecutive:
  assumes "legal (inputs as)"
  shows "\<exists>n. ol_outputs step drain as init = Inr (emitted (item (inputs as)) 0 n) \<and>
    (\<forall>i < n. item (inputs as) i \<noteq> None)"
proof -
  from assms have "legal ([] @ inputs as)" by simp
  from run_from [OF inv_init this] obtain n' s' where
    "ol_run step drain as init = Inr (emitted (item (inputs as)) 0 n', s')" "inv (inputs as) n' s'" by auto
  then show ?thesis using inv_available by (auto simp: ol_outputs_def)
qed

lemma drained_outputs:
  assumes "legal (inputs as)"
  shows "\<exists>n. ol_outputs step drain (as @ [Drain]) init = Inr (emitted (item (inputs as)) 0 n) \<and>
    emit_prefix (item (inputs as)) n"
proof -
  have l: "legal ([] @ inputs as)" using assms by simp
  from run_from [OF inv_init l] obtain n1 s1 where
    1: "ol_run step drain as init = Inr (emitted (item (inputs as)) 0 n1, s1)" "inv (inputs as) n1 s1" by auto
  from inv_drain [OF 1(2) assms] obtain n2 s2 where
    2: "drain s1 = Inr (emitted (item (inputs as)) n1 n2, s2)" "n1 \<le> n2" "emit_prefix (item (inputs as)) n2" by blast
  from 1 2 have "ol_outputs step drain (as @ [Drain]) init = Inr (emitted (item (inputs as)) 0 n2)"
    by (simp add: ol_outputs_def ol_run_append emitted_append)
  with 2(3) show ?thesis by blast
qed

lemma order_independent:
  assumes "legal (inputs as)" "mset (inputs as) = mset (inputs bs)"
  shows "ol_outputs step drain (as @ [Drain]) init = ol_outputs step drain (bs @ [Drain]) init"
proof -
  have "legal (inputs bs)" "item (inputs as) = item (inputs bs)"
    using assms legal_perm item_perm by blast+
  with drained_outputs [OF assms(1)] drained_outputs [of bs] show ?thesis
    using emit_prefix_unique by metis
qed

end

end
