(* ===== verification/Batch_Log.thy ===== *)
theory Batch_Log
  imports Async_Log Ordered_Log
begin

text \<open>
  \<^verbatim>\<open>data_structure/batch_log.{h,cpp}\<close>: the log of the batches of one region. A batch comes out when
  its slot is the next one, its data has arrived and it has been replicated often enough.
\<close>

section \<open>Model\<close>

record batch =
  b_id :: batch_id
  b_transactions :: "transaction list"
  b_type :: transaction_type
  b_events :: "txn_event list"

record batch_log =
  bl_slots :: "batch_id async_log"
  bl_batches :: "batch_id \<rightharpoonup> batch"
  bl_replication :: "batch_id \<rightharpoonup> int"
  bl_ready :: "(slot_id \<times> batch_id) list"

definition BatchLog :: batch_log where
  "BatchLog = \<lparr>bl_slots = AsyncLog 0, bl_batches = Map.empty, bl_replication = Map.empty, bl_ready = []\<rparr>"

function BatchLog_UpdateReadyBatches :: "batch_log \<Rightarrow> batch_log result" where
  "BatchLog_UpdateReadyBatches l =
     (if \<not> AsyncLog_HasNext (bl_slots l) then Inr l
      else case AsyncLog_Peek (bl_slots l) of
             Inl e \<Rightarrow> Inl e
           | Inr next_batch_id \<Rightarrow>
               if bl_batches l next_batch_id \<noteq> None \<and> bl_replication l next_batch_id = Some 0
               then (case AsyncLog_Next (bl_slots l) of
                       Inl e \<Rightarrow> Inl e
                     | Inr (x, slots') \<Rightarrow> BatchLog_UpdateReadyBatches
                         (l\<lparr>bl_replication := (bl_replication l)(next_batch_id := None),
                            bl_slots := slots', bl_ready := bl_ready l @ [x]\<rparr>))
               else Inr l)"
  by pat_completeness auto
termination
  by (relation "measure (\<lambda>l. AsyncLog_NumBufferredItems (bl_slots l))")
     (auto intro: AsyncLog_Next_smaller)

declare BatchLog_UpdateReadyBatches.simps [simp del]

definition BatchLog_AddBatch :: "batch \<Rightarrow> batch_log \<Rightarrow> batch_log result" where
  "BatchLog_AddBatch b l = BatchLog_UpdateReadyBatches (l\<lparr>bl_batches := (bl_batches l)(b_id b \<mapsto> b)\<rparr>)"

text \<open>\<^verbatim>\<open>replication_[batch_id]\<close> starts from 0 when there is no entry.\<close>

definition add_replication :: "batch_id \<Rightarrow> int \<Rightarrow> batch_log \<Rightarrow> batch_log" where
  "add_replication b d l =
     l\<lparr>bl_replication := (bl_replication l)(b \<mapsto> (case bl_replication l b of None \<Rightarrow> 0 | Some r \<Rightarrow> r) + d)\<rparr>"

definition BatchLog_AckReplication :: "batch_id \<Rightarrow> batch_log \<Rightarrow> batch_log result" where
  "BatchLog_AckReplication b l = BatchLog_UpdateReadyBatches (add_replication b (- 1) l)"

definition BatchLog_AddSlot :: "slot_id \<Rightarrow> batch_id \<Rightarrow> int \<Rightarrow> batch_log \<Rightarrow> batch_log result" where
  "BatchLog_AddSlot slot b replication_factor l =
     (case AsyncLog_Insert slot b (bl_slots l) of
        Inl e \<Rightarrow> Inl e
      | Inr slots' \<Rightarrow>
          BatchLog_UpdateReadyBatches (add_replication b replication_factor (l\<lparr>bl_slots := slots'\<rparr>)))"

definition BatchLog_HasNextBatch :: "batch_log \<Rightarrow> bool" where
  "BatchLog_HasNextBatch l \<longleftrightarrow> bl_ready l \<noteq> []"

definition BatchLog_NextBatch :: "batch_log \<Rightarrow> ((slot_id \<times> batch) \<times> batch_log) result" where
  "BatchLog_NextBatch l =
     (case bl_ready l of
        [] \<Rightarrow> Inl (RuntimeError ''NextBatch() was called when there is no ready batch'')
      | (next_slot, next_batch_id) # rest \<Rightarrow>
          (case bl_batches l next_batch_id of
             None \<Rightarrow> Inl (UndefinedBehaviour ''batches_.find'')
           | Some b \<Rightarrow> Inr ((next_slot, b),
               l\<lparr>bl_ready := rest, bl_batches := (bl_batches l)(next_batch_id := None)\<rparr>)))"

text \<open>\<^verbatim>\<open>while (log.HasNextBatch()) { ... log.NextBatch() ... }\<close> of the interleaver and of the
  multi-home orderer.\<close>

function BatchLog_drain :: "batch_log \<Rightarrow> ((slot_id \<times> batch) list \<times> batch_log) result" where
  "BatchLog_drain l =
     (if \<not> BatchLog_HasNextBatch l then Inr ([], l)
      else case BatchLog_NextBatch l of
             Inl e \<Rightarrow> Inl e
           | Inr (x, l') \<Rightarrow> (case BatchLog_drain l' of Inl e \<Rightarrow> Inl e | Inr (xs, l'') \<Rightarrow> Inr (x # xs, l'')))"
  by pat_completeness auto
termination
  by (relation "measure (\<lambda>l. length (bl_ready l))")
     (auto simp: BatchLog_NextBatch_def split: list.splits option.splits)

declare BatchLog_drain.simps [simp del]

section \<open>Inputs and the item of a slot\<close>

datatype batch_log_op =
    BL_AddBatch batch
  | BL_AddSlot slot_id batch_id int
  | BL_Ack batch_id

fun bl_step :: "batch_log_op \<Rightarrow> batch_log \<Rightarrow> batch_log result" where
  "bl_step (BL_AddBatch b) l = BatchLog_AddBatch b l"
| "bl_step (BL_AddSlot s b f) l = BatchLog_AddSlot s b f l"
| "bl_step (BL_Ack b) l = BatchLog_AckReplication b l"

fun op_slots :: "batch_log_op \<Rightarrow> (slot_id \<times> batch_id \<times> int) list" where
  "op_slots (BL_AddSlot s b f) = [(s, b, f)]"
| "op_slots _ = []"

fun op_batches :: "batch_log_op \<Rightarrow> (batch_id \<times> batch) list" where
  "op_batches (BL_AddBatch b) = [(b_id b, b)]"
| "op_batches _ = []"

definition slots_in :: "batch_log_op list \<Rightarrow> (slot_id \<times> batch_id \<times> int) list" where
  "slots_in xs = concat (map op_slots xs)"

definition batches_in :: "batch_log_op list \<Rightarrow> (batch_id \<times> batch) list" where
  "batches_in xs = concat (map op_batches xs)"

definition acks_in :: "batch_log_op list \<Rightarrow> batch_id \<Rightarrow> nat" where
  "acks_in xs b = count_list xs (BL_Ack b)"

text \<open>Each slot is assigned once, each batch belongs to one slot and its data arrives once, and
  there are at most as many acknowledgements as the replication factor asks for.\<close>

definition bl_legal :: "batch_log_op list \<Rightarrow> bool" where
  "bl_legal xs \<longleftrightarrow> distinct (map fst (slots_in xs)) \<and> distinct (map (fst \<circ> snd) (slots_in xs)) \<and>
     distinct (map fst (batches_in xs)) \<and>
     (\<forall>r \<in> set (slots_in xs). fst r + 1 < 2 ^ 32 \<and> int (acks_in xs (fst (snd r))) \<le> snd (snd r))"

definition bl_item :: "batch_log_op list \<Rightarrow> slot_id \<Rightarrow> batch option" where
  "bl_item xs i = (case map_of (slots_in xs) i of
     None \<Rightarrow> None
   | Some (b, f) \<Rightarrow> if f = int (acks_in xs b) then map_of (batches_in xs) b else None)"

lemma in_simps [simp]:
  "slots_in [] = []" "batches_in [] = []" "acks_in [] b = 0"
  "slots_in (xs @ ys) = slots_in xs @ slots_in ys" "batches_in (xs @ ys) = batches_in xs @ batches_in ys"
  "acks_in (xs @ ys) b = acks_in xs b + acks_in ys b"
  "slots_in [x] = op_slots x" "batches_in [x] = op_batches x"
  "acks_in [x] b = (if x = BL_Ack b then 1 else 0)"
  by (simp_all add: slots_in_def batches_in_def acks_in_def)

definition slot_batch :: "batch_log_op list \<Rightarrow> slot_id \<Rightarrow> batch_id" where
  "slot_batch xs i = fst (the (map_of (slots_in xs) i))"

definition rep_of :: "batch_log_op list \<Rightarrow> batch_id \<Rightarrow> int option" where
  "rep_of xs b = (if b \<notin> (fst \<circ> snd) ` set (slots_in xs) \<and> acks_in xs b = 0 then None
     else Some (sum_list (map (snd \<circ> snd) (filter (\<lambda>r. fst (snd r) = b) (slots_in xs))) - int (acks_in xs b)))"

lemma filter_key_single:
  assumes "distinct (map g xs)" "x \<in> set xs"
  shows "filter (\<lambda>y. g y = g x) xs = [x]"
  using assms
proof (induction xs)
  case (Cons y ys)
  show ?case
  proof (cases "y = x")
    case True
    with Cons.prems(1) have "filter (\<lambda>y. g y = g x) ys = []" by (auto simp: filter_empty_conv) (metis imageI)
    with True show ?thesis by simp
  next
    case False
    with Cons show ?thesis by force
  qed
qed simp

lemma bl_legalD:
  assumes "bl_legal xs"
  shows "distinct (map fst (slots_in xs))" "distinct (map (fst \<circ> snd) (slots_in xs))"
    "distinct (map fst (batches_in xs))"
    "(s, b, f) \<in> set (slots_in xs) \<Longrightarrow> s + 1 < 2 ^ 32"
    "(s, b, f) \<in> set (slots_in xs) \<Longrightarrow> int (acks_in xs b) \<le> f"
  using assms by (auto simp: bl_legal_def)

lemma bl_legal_prefix:
  assumes "bl_legal (xs @ ys)"
  shows "bl_legal xs"
proof -
  have "s + 1 < 2 ^ 32" "int (acks_in xs b) \<le> f" if "(s, b, f) \<in> set (slots_in xs)" for s b f
    using bl_legalD(4,5) [OF assms, of s b f] that by auto
  with bl_legalD(1-3) [OF assms] show ?thesis by (auto simp: bl_legal_def)
qed

lemma bl_item_Some:
  "bl_item xs i = Some o1 \<longleftrightarrow>
     (\<exists>b f. map_of (slots_in xs) i = Some (b, f) \<and> f = int (acks_in xs b) \<and> map_of (batches_in xs) b = Some o1)"
  by (auto simp: bl_item_def split: option.splits if_splits)

lemma bl_item_stable:
  assumes "bl_legal (xs @ [x])" "bl_item xs i = Some o1"
  shows "bl_item (xs @ [x]) i = Some o1"
proof -
  from assms(2) obtain b where b: "map_of (slots_in xs) i = Some (b, int (acks_in xs b))"
    "map_of (batches_in xs) b = Some o1" by (auto simp: bl_item_Some)
  have s: "(i, b, int (acks_in xs b)) \<in> set (slots_in xs)" using b(1) by (rule map_of_SomeD)
  then have "acks_in [x] b = 0" using bl_legalD(5) [OF assms(1), of i b "int (acks_in xs b)"] by auto
  moreover have "map_of (slots_in (xs @ [x])) i = map_of (slots_in xs) i"
    using b(1) by (simp add: map_add_def)
  moreover have "map_of (batches_in (xs @ [x])) b = Some o1"
    using b(2) by (simp add: map_add_def)
  ultimately show ?thesis using b(1) by (simp only: bl_item_Some in_simps(6)) auto
qed

lemma mset_slots_in: "mset xs = mset ys \<Longrightarrow> mset (slots_in xs) = mset (slots_in ys)"
  unfolding slots_in_def by (rule mset_concat_map)

lemma mset_batches_in: "mset xs = mset ys \<Longrightarrow> mset (batches_in xs) = mset (batches_in ys)"
  unfolding batches_in_def by (rule mset_concat_map)

lemma acks_in_mset: "mset xs = mset ys \<Longrightarrow> acks_in xs = acks_in ys"
  unfolding acks_in_def by (simp add: fun_eq_iff flip: count_mset)

lemma bl_legal_perm:
  assumes "mset xs = mset ys" "bl_legal xs"
  shows "bl_legal ys"
  using assms(2) unfolding bl_legal_def acks_in_mset [OF assms(1)]
    distinct_map_mset [OF mset_slots_in [OF assms(1)]] distinct_map_mset [OF mset_batches_in [OF assms(1)]]
    mset_eq_setD [OF mset_slots_in [OF assms(1)]] .

lemma bl_item_perm:
  assumes "mset xs = mset ys" "bl_legal xs"
  shows "bl_item xs = bl_item ys"
proof -
  have "map_of (slots_in xs) = map_of (slots_in ys)" "map_of (batches_in xs) = map_of (batches_in ys)"
    using assms(2) mset_slots_in [OF assms(1)] mset_batches_in [OF assms(1)]
    by (auto simp: bl_legal_def intro: map_of_mset)
  then show ?thesis by (intro ext) (simp only: bl_item_def acks_in_mset [OF assms(1)])
qed

section \<open>The invariant\<close>

definition bl_pre :: "batch_log_op list \<Rightarrow> nat \<Rightarrow> nat \<Rightarrow> batch_log \<Rightarrow> bool" where
  "bl_pre xs n m l \<longleftrightarrow> n \<le> m \<and>
     al_holds (\<lambda>i. map_option fst (map_of (slots_in xs) i)) m (bl_slots l) \<and>
     (\<forall>i < m. bl_item xs i \<noteq> None) \<and>
     bl_ready l = map (\<lambda>i. (i, slot_batch xs i)) [n..<m] \<and>
     (\<forall>b. bl_batches l b = (if b \<in> slot_batch xs ` {..<n} then None else map_of (batches_in xs) b)) \<and>
     (\<forall>b. bl_replication l b = (if b \<in> slot_batch xs ` {..<m} then None else rep_of xs b))"

definition bl_inv :: "batch_log_op list \<Rightarrow> nat \<Rightarrow> batch_log \<Rightarrow> bool" where
  "bl_inv xs n l \<longleftrightarrow> (\<exists>m. bl_pre xs n m l \<and> bl_item xs m = None)"

lemma slot_batch_inject:
  assumes "bl_legal xs" "map_of (slots_in xs) i = Some (b, f)" "map_of (slots_in xs) j = Some (b, g)"
  shows "i = j"
proof -
  have "(i, b, f) \<in> set (slots_in xs)" "(j, b, g) \<in> set (slots_in xs)"
    using assms(2,3) by (auto dest: map_of_SomeD)
  moreover have "inj_on (fst \<circ> snd) (set (slots_in xs))"
    using assms(1) by (simp add: bl_legal_def distinct_map)
  ultimately have "(i, b, f) = (j, b, g)" by (metis comp_apply fst_conv inj_onD snd_conv)
  then show ?thesis by simp
qed

lemma rep_of_slot:
  assumes "bl_legal xs" "map_of (slots_in xs) i = Some (b, f)"
  shows "rep_of xs b = Some (f - int (acks_in xs b))"
proof -
  have s: "(i, b, f) \<in> set (slots_in xs)" using assms(2) by (rule map_of_SomeD)
  have "filter (\<lambda>r. (fst \<circ> snd) r = (fst \<circ> snd) (i, b, f)) (slots_in xs) = [(i, b, f)]"
    using bl_legalD(2) [OF assms(1)] s by (rule filter_key_single)
  moreover have "b \<in> (fst \<circ> snd) ` set (slots_in xs)" using imageI [OF s, of "fst \<circ> snd"] by simp
  ultimately show ?thesis by (simp add: rep_of_def)
qed

lemma slot_batch_eq: "map_of (slots_in xs) i = Some (b, f) \<Longrightarrow> slot_batch xs i = b"
  by (simp add: slot_batch_def)

lemma bl_update:
  assumes "bl_pre xs n m l" "bl_legal xs"
  shows "\<exists>l'. BatchLog_UpdateReadyBatches l = Inr l' \<and> bl_inv xs n l'"
  using assms(1)
proof (induction l arbitrary: m rule: BatchLog_UpdateReadyBatches.induct)
  case (1 l)
  note P = "1.prems" [unfolded bl_pre_def]
  let ?f = "\<lambda>i. map_option fst (map_of (slots_in xs) i)"
  have al: "al_holds ?f m (bl_slots l)" using P by blast
  show ?case
  proof (cases "map_of (slots_in xs) m")
    case None
    then have "\<not> AsyncLog_HasNext (bl_slots l)" using al_holds_HasNext [OF al] by simp
    moreover have "bl_item xs m = None" using None by (simp add: bl_item_def)
    ultimately show ?thesis using "1.prems" by (auto simp: BatchLog_UpdateReadyBatches.simps [of l] bl_inv_def)
  next
    case (Some bf)
    then obtain b f where bf: "map_of (slots_in xs) m = Some (b, f)" by (cases bf) simp
    have has: "AsyncLog_HasNext (bl_slots l)" and peek: "AsyncLog_Peek (bl_slots l) = Inr b"
      using al_holds_HasNext [OF al] al_holds_Peek [OF al] bf by simp_all
    have old: "b \<notin> slot_batch xs ` {..<m}"
    proof
      assume "b \<in> slot_batch xs ` {..<m}"
      then obtain j where j: "j < m" "slot_batch xs j = b" by auto
      then have "bl_item xs j \<noteq> None" using P by blast
      then obtain b' g where "map_of (slots_in xs) j = Some (b', g)" by (auto simp: bl_item_Some)
      with j(2) have "map_of (slots_in xs) j = Some (b, g)" by (simp add: slot_batch_def)
      from slot_batch_inject [OF assms(2) bf this] j(1) show False by simp
    qed
    have bt: "bl_batches l b = map_of (batches_in xs) b"
      using old P by (simp add: image_iff)
    have rep: "bl_replication l b = Some (f - int (acks_in xs b))"
      using old P rep_of_slot [OF assms(2) bf] by simp
    have item: "bl_item xs m \<noteq> None \<longleftrightarrow> bl_batches l b \<noteq> None \<and> bl_replication l b = Some 0"
      using bt rep bf by (auto simp: bl_item_def)
    show ?thesis
    proof (cases "bl_item xs m = None")
      case True
      with item has peek "1.prems" show ?thesis
        by (auto simp: BatchLog_UpdateReadyBatches.simps [of l] bl_inv_def)
    next
      case False
      then have cond: "bl_batches l b \<noteq> None \<and> bl_replication l b = Some 0" using item by blast
      have "(m, b, f) \<in> set (slots_in xs)" using bf by (rule map_of_SomeD)
      then have "m + 1 < 2 ^ 32" using assms(2) by (auto simp: bl_legal_def)
      then obtain sl where nxt: "AsyncLog_Next (bl_slots l) = Inr ((m, b), sl)" "al_holds ?f (Suc m) sl"
        using al_holds_Next [OF al, of b] bf by auto
      let ?l = "l\<lparr>bl_replication := (bl_replication l)(b := None), bl_slots := sl, bl_ready := bl_ready l @ [(m, b)]\<rparr>"
      have "bl_pre xs n (Suc m) ?l"
        unfolding bl_pre_def
      proof (intro conjI allI impI)
        show "n \<le> Suc m" using P by simp
        show "al_holds ?f (Suc m) (bl_slots ?l)" using nxt(2) by simp
        show "bl_item xs i \<noteq> None" if "i < Suc m" for i
          using that P False by (cases "i = m") simp_all
        show "bl_ready ?l = map (\<lambda>i. (i, slot_batch xs i)) [n..<Suc m]"
          using P slot_batch_eq [OF bf] by simp
        show "bl_batches ?l c = (if c \<in> slot_batch xs ` {..<n} then None else map_of (batches_in xs) c)" for c
          using P by simp
        show "bl_replication ?l c = (if c \<in> slot_batch xs ` {..<Suc m} then None else rep_of xs c)" for c
          using P slot_batch_eq [OF bf] by (auto simp: lessThan_Suc)
      qed
      from "1.IH" [OF _ peek cond nxt(1) refl this] has show ?thesis
        using has peek cond nxt(1) by (simp add: BatchLog_UpdateReadyBatches.simps [of l])
    qed
  qed
qed

lemma bl_preD:
  assumes "bl_pre xs n m l"
  shows "n \<le> m" "al_holds (\<lambda>i. map_option fst (map_of (slots_in xs) i)) m (bl_slots l)"
    "i < m \<Longrightarrow> bl_item xs i \<noteq> None"
    "bl_ready l = map (\<lambda>i. (i, slot_batch xs i)) [n..<m]"
    "bl_batches l b = (if b \<in> slot_batch xs ` {..<n} then None else map_of (batches_in xs) b)"
    "bl_replication l b = (if b \<in> slot_batch xs ` {..<m} then None else rep_of xs b)"
  using assms unfolding bl_pre_def by blast+

lemma bl_item_not_None:
  assumes "bl_item xs i \<noteq> None"
  obtains o1 where "map_of (slots_in xs) i = Some (slot_batch xs i, int (acks_in xs (slot_batch xs i)))"
    "map_of (batches_in xs) (slot_batch xs i) = Some o1" "bl_item xs i = Some o1"
proof -
  obtain o1 where o: "bl_item xs i = Some o1" using assms by blast
  then obtain b where "map_of (slots_in xs) i = Some (b, int (acks_in xs b))" "map_of (batches_in xs) b = Some o1"
    by (auto simp: bl_item_Some)
  with o show thesis by (intro that) (simp_all add: slot_batch_def)
qed

lemma slot_batch_append:
  assumes "\<And>i. i < m \<Longrightarrow> bl_item xs i \<noteq> None" "n \<le> m"
  shows "slot_batch (xs @ ys) ` {..<n} = slot_batch xs ` {..<n}" "i < m \<Longrightarrow> slot_batch (xs @ ys) i = slot_batch xs i"
proof -
  have eq: "slot_batch (xs @ ys) i = slot_batch xs i" if "i < m" for i
    using bl_item_not_None [OF assms(1) [OF that]] by (force simp: slot_batch_def map_add_def split: option.splits)
  then show "slot_batch (xs @ ys) ` {..<n} = slot_batch xs ` {..<n}"
    using assms(2) by (intro image_cong) auto
  show "i < m \<Longrightarrow> slot_batch (xs @ ys) i = slot_batch xs i" by (rule eq)
qed

lemma no_slot_filter:
  "c \<notin> (\<lambda>r. fst (snd r)) ` set rs \<Longrightarrow> filter (\<lambda>r. fst (snd r) = c) rs = []"
  by (force simp: filter_empty_conv)

text \<open>An input keeps the invariant up to the readiness of the next slot.\<close>

lemma bl_pre_extend:
  assumes pre: "bl_pre xs n m l" and legal: "bl_legal (xs @ [x])"
    and "al_holds (\<lambda>i. map_option fst (map_of (slots_in (xs @ [x])) i)) m (bl_slots l')"
    and "bl_ready l' = bl_ready l"
    and "\<And>b. b \<notin> slot_batch xs ` {..<n} \<Longrightarrow> bl_batches l' b = map_of (batches_in (xs @ [x])) b"
    and "\<And>b. b \<in> slot_batch xs ` {..<n} \<Longrightarrow> bl_batches l' b = None"
    and "\<And>b. b \<notin> slot_batch xs ` {..<m} \<Longrightarrow> bl_replication l' b = rep_of (xs @ [x]) b"
    and "\<And>b. b \<in> slot_batch xs ` {..<m} \<Longrightarrow> bl_replication l' b = None"
  shows "bl_pre (xs @ [x]) n m l'"
proof -
  note D = bl_preD [OF pre]
  note eqs = slot_batch_append [OF D(3) D(1), where ys = "[x]"] slot_batch_append [OF D(3) order_refl, where ys = "[x]"]
  have "bl_ready l' = map (\<lambda>i. (i, slot_batch (xs @ [x]) i)) [n..<m]"
    using assms(4) D(4) eqs by simp
  moreover have "bl_item (xs @ [x]) i \<noteq> None" if "i < m" for i
    using bl_item_stable [OF legal] D(3) [OF that] by blast
  ultimately show ?thesis using assms D(1) eqs unfolding bl_pre_def by simp
qed

lemma bl_step_AddBatch:
  assumes "bl_pre xs n m l" "bl_legal (xs @ [BL_AddBatch c])"
  shows "bl_pre (xs @ [BL_AddBatch c]) n m (l\<lparr>bl_batches := (bl_batches l)(b_id c \<mapsto> c)\<rparr>)"
proof (rule bl_pre_extend [OF assms])
  note D = bl_preD [OF assms(1)]
  have fresh: "map_of (batches_in xs) (b_id c) = None"
    using bl_legalD(3) [OF assms(2)] by (simp add: map_of_eq_None_iff)
  have "slot_batch xs i \<noteq> b_id c" if "i < m" for i
    using bl_item_not_None [OF D(3) [OF that]] fresh by (metis option.distinct(1))
  then have old: "b_id c \<notin> slot_batch xs ` {..<n}" using D(1) by (metis imageE lessThan_iff order.strict_trans2)
  show "bl_batches (l\<lparr>bl_batches := (bl_batches l)(b_id c \<mapsto> c)\<rparr>) b = map_of (batches_in (xs @ [BL_AddBatch c])) b"
    if "b \<notin> slot_batch xs ` {..<n}" for b
    using that D(5) fresh by (auto simp: map_add_def split: option.splits)
  show "bl_batches (l\<lparr>bl_batches := (bl_batches l)(b_id c \<mapsto> c)\<rparr>) b = None"
    if "b \<in> slot_batch xs ` {..<n}" for b
    using that old D(5) [of b] by (cases "b = b_id c") simp_all
qed (use bl_preD [OF assms(1)] in \<open>auto simp: rep_of_def\<close>)

lemma bl_step_Ack:
  assumes "bl_pre xs n m l" "bl_legal (xs @ [BL_Ack c])"
  shows "bl_pre (xs @ [BL_Ack c]) n m (add_replication c (- 1) l)"
proof (rule bl_pre_extend [OF assms])
  note D = bl_preD [OF assms(1)]
  have "slot_batch xs i \<noteq> c" if i: "i < m" for i
  proof
    assume c: "slot_batch xs i = c"
    obtain o1 where "map_of (slots_in xs) i = Some (c, int (acks_in xs c))"
      using bl_item_not_None [OF D(3) [OF i]] c by metis
    then have "(i, c, int (acks_in xs c)) \<in> set (slots_in xs)" by (rule map_of_SomeD)
    then show False using bl_legalD(5) [OF assms(2), of i c "int (acks_in xs c)"] by simp
  qed
  then have old: "c \<notin> slot_batch xs ` {..<m}" by auto
  show "bl_replication (add_replication c (- 1) l) b = rep_of (xs @ [BL_Ack c]) b"
    if "b \<notin> slot_batch xs ` {..<m}" for b
    using that old D(6) [of b] by (auto simp: add_replication_def rep_of_def comp_def no_slot_filter)
  show "bl_replication (add_replication c (- 1) l) b = None"
    if "b \<in> slot_batch xs ` {..<m}" for b
    using that old D(6) [of b] by (cases "b = c") (simp_all add: add_replication_def)
qed (use bl_preD [OF assms(1)] in \<open>auto simp: add_replication_def\<close>)

lemma bl_step_AddSlot:
  assumes "bl_pre xs n m l" "bl_legal (xs @ [BL_AddSlot s c f])"
  obtains sl where "AsyncLog_Insert s c (bl_slots l) = Inr sl"
    "bl_pre (xs @ [BL_AddSlot s c f]) n m (add_replication c f (l\<lparr>bl_slots := sl\<rparr>))"
proof -
  note D = bl_preD [OF assms(1)]
  let ?f = "\<lambda>i. map_option fst (map_of (slots_in xs) i)"
  have fresh: "map_of (slots_in xs) s = None"
    using bl_legalD(1) [OF assms(2)] by (simp add: map_of_eq_None_iff)
  have cn: "c \<notin> (fst \<circ> snd) ` set (slots_in xs)" using bl_legalD(2) [OF assms(2)] by auto
  have taken: "\<forall>q < m. ?f q \<noteq> None"
  proof (intro allI impI)
    fix q assume "q < m"
    then show "?f q \<noteq> None" by (rule bl_item_not_None [OF D(3)]) simp
  qed
  have "?f s = None" using fresh by simp
  from al_holds_Insert [OF D(2) this taken] obtain sl where
    sl: "AsyncLog_Insert s c (bl_slots l) = Inr sl" "al_holds (?f(s \<mapsto> c)) m sl" .
  have upd: "(\<lambda>i. map_option fst (map_of (slots_in (xs @ [BL_AddSlot s c f])) i)) = ?f(s \<mapsto> c)"
    using fresh by (auto simp: fun_eq_iff map_add_def split: option.splits)
  have old: "c \<notin> slot_batch xs ` {..<m}"
  proof
    assume "c \<in> slot_batch xs ` {..<m}"
    then obtain i where "i < m" "slot_batch xs i = c" by auto
    with bl_item_not_None [OF D(3)] obtain g where "map_of (slots_in xs) i = Some (c, g)" by metis
    then have "(i, c, g) \<in> set (slots_in xs)" by (rule map_of_SomeD)
    from imageI [OF this, of "fst \<circ> snd"] cn show False by simp
  qed
  have "bl_pre (xs @ [BL_AddSlot s c f]) n m (add_replication c f (l\<lparr>bl_slots := sl\<rparr>))"
  proof (rule bl_pre_extend [OF assms])
    show "al_holds (\<lambda>i. map_option fst (map_of (slots_in (xs @ [BL_AddSlot s c f])) i)) m
        (bl_slots (add_replication c f (l\<lparr>bl_slots := sl\<rparr>)))"
      unfolding upd using sl(2) by (simp add: add_replication_def)
    have none: "filter (\<lambda>r. fst (snd r) = c) (slots_in xs) = []"
      using cn by (intro no_slot_filter) (simp add: comp_def)
    show "bl_replication (add_replication c f (l\<lparr>bl_slots := sl\<rparr>)) b = rep_of (xs @ [BL_AddSlot s c f]) b"
      if "b \<notin> slot_batch xs ` {..<m}" for b
      using that old D(6) [of b] none cn by (auto simp: add_replication_def rep_of_def)
    show "bl_replication (add_replication c f (l\<lparr>bl_slots := sl\<rparr>)) b = None"
      if "b \<in> slot_batch xs ` {..<m}" for b
      using that old D(6) [of b] by (cases "b = c") (simp_all add: add_replication_def)
  qed (use D in \<open>auto simp: add_replication_def\<close>)
  with sl(1) show thesis by (rule that)
qed

lemma bl_inv_step:
  assumes "bl_inv xs n l" "bl_legal (xs @ [x])"
  shows "\<exists>l'. bl_step x l = Inr l' \<and> bl_inv (xs @ [x]) n l'"
proof -
  from assms(1) obtain m where pre: "bl_pre xs n m l" by (auto simp: bl_inv_def)
  show ?thesis
  proof (cases x)
    case (BL_AddBatch c)
    show ?thesis using bl_update [OF bl_step_AddBatch [OF pre]] assms(2)
      by (simp add: BL_AddBatch BatchLog_AddBatch_def)
  next
    case (BL_AddSlot s c f)
    obtain sl where "AsyncLog_Insert s c (bl_slots l) = Inr sl"
      "bl_pre (xs @ [x]) n m (add_replication c f (l\<lparr>bl_slots := sl\<rparr>))"
      using bl_step_AddSlot [OF pre assms(2) [unfolded BL_AddSlot]] BL_AddSlot by blast
    with bl_update [OF this(2) assms(2)] show ?thesis by (simp add: BL_AddSlot BatchLog_AddSlot_def)
  next
    case (BL_Ack c)
    show ?thesis using bl_update [OF bl_step_Ack [OF pre]] assms(2)
      by (simp add: BL_Ack BatchLog_AckReplication_def)
  qed
qed

lemma bl_inv_drain:
  assumes "bl_pre xs n m l" "bl_legal xs"
  shows "\<exists>l'. BatchLog_drain l = Inr (emitted (bl_item xs) n m, l') \<and> bl_pre xs m m l'"
  using assms(1)
proof (induction "m - n" arbitrary: n l)
  case 0
  then have "n = m" using bl_preD(1) [OF "0.prems"] by simp
  with 0 bl_preD(4) [OF "0.prems"] show ?case
    by (simp add: BatchLog_drain.simps [of l] BatchLog_HasNextBatch_def emitted_def)
next
  case (Suc k)
  note D = bl_preD [OF Suc.prems]
  have nm: "n < m" using Suc.hyps(2) by simp
  then have rdy: "bl_ready l = (n, slot_batch xs n) # map (\<lambda>i. (i, slot_batch xs i)) [Suc n..<m]"
    using D(4) by (simp add: upt_conv_Cons)
  obtain o1 where o1: "map_of (slots_in xs) n = Some (slot_batch xs n, int (acks_in xs (slot_batch xs n)))"
    "map_of (batches_in xs) (slot_batch xs n) = Some o1" "bl_item xs n = Some o1"
    using bl_item_not_None [OF D(3) [OF nm]] .
  have "slot_batch xs n \<notin> slot_batch xs ` {..<n}"
  proof
    assume "slot_batch xs n \<in> slot_batch xs ` {..<n}"
    then obtain j where j: "j < n" "slot_batch xs j = slot_batch xs n" by auto
    with nm have "j < m" by simp
    from bl_item_not_None [OF D(3) [OF this]] obtain g where "map_of (slots_in xs) j = Some (slot_batch xs n, g)"
      using j(2) by metis
    from slot_batch_inject [OF assms(2) o1(1) this] j(1) show False by simp
  qed
  then have b: "bl_batches l (slot_batch xs n) = Some o1" using D(5) o1(2) by simp
  let ?l = "l\<lparr>bl_ready := map (\<lambda>i. (i, slot_batch xs i)) [Suc n..<m],
             bl_batches := (bl_batches l)(slot_batch xs n := None)\<rparr>"
  have pre: "bl_pre xs (Suc n) m ?l"
    unfolding bl_pre_def using D nm by (auto simp: lessThan_Suc)
  have "k = m - Suc n" using Suc.hyps(2) by simp
  from Suc.hyps(1) [OF this pre] obtain l' where
    l': "BatchLog_drain ?l = Inr (emitted (bl_item xs) (Suc n) m, l')" "bl_pre xs m m l'" by blast
  have "emitted (bl_item xs) n m = (n, o1) # emitted (bl_item xs) (Suc n) m"
    using nm o1(3) by (simp add: emitted_def upt_conv_Cons)
  with l' b rdy show ?case
    by (simp add: BatchLog_drain.simps [of l] BatchLog_HasNextBatch_def BatchLog_NextBatch_def)
qed

interpretation bl: ordered_log BatchLog bl_step BatchLog_drain bl_legal bl_item bl_inv
proof unfold_locales
  show "bl_inv [] 0 BatchLog"
    by (auto simp: bl_inv_def bl_pre_def BatchLog_def al_holds_def AsyncLog_def bl_item_def rep_of_def)
  show "bl_item xs i \<noteq> None" if inv: "bl_inv xs n s" and i: "i < n" for xs n s i
  proof -
    obtain m where "bl_pre xs n m s" using inv by (auto simp: bl_inv_def)
    from bl_preD(3) [OF this] bl_preD(1) [OF this] i show ?thesis by simp
  qed
next
  fix xs n s
  assume "bl_inv xs n s" and legal: "bl_legal xs"
  then obtain m where m: "bl_pre xs n m s" "bl_item xs m = None" by (auto simp: bl_inv_def)
  from bl_inv_drain [OF m(1) legal] obtain l' where
    "BatchLog_drain s = Inr (emitted (bl_item xs) n m, l')" "bl_pre xs m m l'" by blast
  moreover have "emit_prefix (bl_item xs) m" using m bl_preD(3) [OF m(1)] by (simp add: emit_prefix_def)
  ultimately show "\<exists>n' s'. BatchLog_drain s = Inr (emitted (bl_item xs) n n', s') \<and> n \<le> n' \<and>
      emit_prefix (bl_item xs) n' \<and> bl_inv xs n' s'"
    using m bl_preD(1) [OF m(1)] by (auto simp: bl_inv_def)
qed (use bl_legal_prefix bl_legal_perm bl_item_perm bl_item_stable bl_inv_step in blast)+

end
