(* ===== verification/Local_Log.thy ===== *)
theory Local_Log
  imports Async_Log Ordered_Log
begin

text \<open>
  The class \<^verbatim>\<open>LocalLog\<close> of \<^verbatim>\<open>module/interleaver.{h,cpp}\<close>: every partition of the region has a queue
  of batch ids, and each slot names the queue the next batch is taken from, with the leader that
  proposed it.
\<close>

section \<open>Model\<close>

record local_log =
  ll_slots :: "(nat \<times> machine_id) async_log"
  ll_batch_queues :: "nat \<rightharpoonup> batch_id async_log"
  ll_ready :: "(slot_id \<times> (batch_id \<times> machine_id)) list"

definition LocalLog :: local_log where
  "LocalLog = \<lparr>ll_slots = AsyncLog 0, ll_batch_queues = Map.empty, ll_ready = []\<rparr>"

function LocalLog_UpdateReadyBatches :: "local_log \<Rightarrow> local_log result" where
  "LocalLog_UpdateReadyBatches l =
     (if \<not> AsyncLog_HasNext (ll_slots l) then Inr l
      else case AsyncLog_Peek (ll_slots l) of
             Inl e \<Rightarrow> Inl e
           | Inr (next_queue_id, leader) \<Rightarrow>
               (case ll_batch_queues l next_queue_id of
                  None \<Rightarrow> Inr l
                | Some next_queue \<Rightarrow>
                    if \<not> AsyncLog_HasNext next_queue then Inr l
                    else case AsyncLog_Next (ll_slots l) of
                           Inl e \<Rightarrow> Inl e
                         | Inr ((slot_id, _), slots') \<Rightarrow>
                             (case AsyncLog_Next next_queue of
                                Inl e \<Rightarrow> Inl e
                              | Inr ((_, batch_id), queue') \<Rightarrow> LocalLog_UpdateReadyBatches
                                  (l\<lparr>ll_slots := slots',
                                     ll_batch_queues := (ll_batch_queues l)(next_queue_id \<mapsto> queue'),
                                     ll_ready := ll_ready l @ [(slot_id, (batch_id, leader))]\<rparr>))))"
  by pat_completeness auto
termination
  by (relation "measure (\<lambda>l. AsyncLog_NumBufferredItems (ll_slots l))")
     (auto intro: AsyncLog_Next_smaller)

declare LocalLog_UpdateReadyBatches.simps [simp del]

definition ll_queue :: "local_log \<Rightarrow> nat \<Rightarrow> batch_id async_log" where
  "ll_queue l q = (case ll_batch_queues l q of None \<Rightarrow> AsyncLog 0 | Some x \<Rightarrow> x)"

definition LocalLog_AddBatchId :: "nat \<Rightarrow> nat \<Rightarrow> batch_id \<Rightarrow> local_log \<Rightarrow> local_log result" where
  "LocalLog_AddBatchId queue_id position b l =
     (case AsyncLog_Insert position b (ll_queue l queue_id) of
        Inl e \<Rightarrow> Inl e
      | Inr q \<Rightarrow> LocalLog_UpdateReadyBatches (l\<lparr>ll_batch_queues := (ll_batch_queues l)(queue_id \<mapsto> q)\<rparr>))"

definition LocalLog_AddSlot :: "slot_id \<Rightarrow> nat \<Rightarrow> machine_id \<Rightarrow> local_log \<Rightarrow> local_log result" where
  "LocalLog_AddSlot slot queue_id leader l =
     (case AsyncLog_Insert slot (queue_id, leader) (ll_slots l) of
        Inl e \<Rightarrow> Inl e
      | Inr s \<Rightarrow> LocalLog_UpdateReadyBatches (l\<lparr>ll_slots := s\<rparr>))"

definition LocalLog_HasNextBatch :: "local_log \<Rightarrow> bool" where
  "LocalLog_HasNextBatch l \<longleftrightarrow> ll_ready l \<noteq> []"

definition LocalLog_NextBatch ::
  "local_log \<Rightarrow> ((slot_id \<times> (batch_id \<times> machine_id)) \<times> local_log) result" where
  "LocalLog_NextBatch l =
     (case ll_ready l of
        [] \<Rightarrow> Inl (RuntimeError ''NextBatch() was called when there is no batch'')
      | x # rest \<Rightarrow> Inr (x, l\<lparr>ll_ready := rest\<rparr>))"

text \<open>\<^verbatim>\<open>while (local_log_.HasNextBatch())\<close> of \<^verbatim>\<open>Interleaver::AdvanceLogs\<close>.\<close>

function LocalLog_drain :: "local_log \<Rightarrow> ((slot_id \<times> (batch_id \<times> machine_id)) list \<times> local_log) result" where
  "LocalLog_drain l =
     (if \<not> LocalLog_HasNextBatch l then Inr ([], l)
      else case LocalLog_NextBatch l of
             Inl e \<Rightarrow> Inl e
           | Inr (x, l') \<Rightarrow> (case LocalLog_drain l' of Inl e \<Rightarrow> Inl e | Inr (xs, l'') \<Rightarrow> Inr (x # xs, l'')))"
  by pat_completeness auto
termination
  by (relation "measure (\<lambda>l. length (ll_ready l))")
     (auto simp: LocalLog_NextBatch_def split: list.splits)

declare LocalLog_drain.simps [simp del]

lemma LocalLog_drain_eq: "LocalLog_drain l = Inr (ll_ready l, l\<lparr>ll_ready := []\<rparr>)"
proof (induction "ll_ready l" arbitrary: l)
  case Nil
  then show ?case by (simp add: LocalLog_drain.simps [of l] LocalLog_HasNextBatch_def)
next
  case (Cons x r)
  then have "LocalLog_drain (l\<lparr>ll_ready := r\<rparr>) = Inr (r, l\<lparr>ll_ready := []\<rparr>)" by simp
  with Cons.hyps(2) [symmetric] show ?case
    by (simp add: LocalLog_drain.simps [of l] LocalLog_HasNextBatch_def LocalLog_NextBatch_def)
qed

section \<open>Inputs and the item of a slot\<close>

datatype local_log_op = LL_AddBatchId nat nat batch_id | LL_AddSlot slot_id nat machine_id

fun ll_step :: "local_log_op \<Rightarrow> local_log \<Rightarrow> local_log result" where
  "ll_step (LL_AddBatchId q p b) l = LocalLog_AddBatchId q p b l"
| "ll_step (LL_AddSlot s q m) l = LocalLog_AddSlot s q m l"

fun ll_op_slots :: "local_log_op \<Rightarrow> (slot_id \<times> nat \<times> machine_id) list" where
  "ll_op_slots (LL_AddSlot s q m) = [(s, q, m)]"
| "ll_op_slots _ = []"

fun ll_op_ids :: "local_log_op \<Rightarrow> ((nat \<times> nat) \<times> batch_id) list" where
  "ll_op_ids (LL_AddBatchId q p b) = [((q, p), b)]"
| "ll_op_ids _ = []"

definition ll_slots_in :: "local_log_op list \<Rightarrow> (slot_id \<times> nat \<times> machine_id) list" where
  "ll_slots_in xs = concat (map ll_op_slots xs)"

definition ll_ids_in :: "local_log_op list \<Rightarrow> ((nat \<times> nat) \<times> batch_id) list" where
  "ll_ids_in xs = concat (map ll_op_ids xs)"

text \<open>Each slot and each position of a queue is filled once.\<close>

definition ll_legal :: "local_log_op list \<Rightarrow> bool" where
  "ll_legal xs \<longleftrightarrow> distinct (map fst (ll_slots_in xs)) \<and> distinct (map fst (ll_ids_in xs)) \<and>
     (\<forall>r \<in> set (ll_slots_in xs). fst r + 1 < 2 ^ 32) \<and>
     (\<forall>r \<in> set (ll_ids_in xs). snd (fst r) + 1 < 2 ^ 32)"

text \<open>\<open>ll_pos xs i q\<close>: how many of the slots below \<open>i\<close> take a batch from queue \<open>q\<close>.\<close>

definition ll_pos :: "local_log_op list \<Rightarrow> nat \<Rightarrow> nat \<Rightarrow> nat" where
  "ll_pos xs i q = length (filter (\<lambda>j. map_option fst (map_of (ll_slots_in xs) j) = Some q) [0..<i])"

definition ll_item :: "local_log_op list \<Rightarrow> slot_id \<Rightarrow> (batch_id \<times> machine_id) option" where
  "ll_item xs i =
     (if list_all (\<lambda>j. map_of (ll_slots_in xs) j \<noteq> None) [0..<i] then
        (case map_of (ll_slots_in xs) i of
           None \<Rightarrow> None
         | Some (q, leader) \<Rightarrow> map_option (\<lambda>b. (b, leader)) (map_of (ll_ids_in xs) (q, ll_pos xs i q)))
      else None)"

lemma ll_in_simps [simp]:
  "ll_slots_in [] = []" "ll_ids_in [] = []"
  "ll_slots_in (xs @ ys) = ll_slots_in xs @ ll_slots_in ys" "ll_ids_in (xs @ ys) = ll_ids_in xs @ ll_ids_in ys"
  "ll_slots_in [x] = ll_op_slots x" "ll_ids_in [x] = ll_op_ids x"
  by (simp_all add: ll_slots_in_def ll_ids_in_def)

lemma ll_pos_simps [simp]:
  "ll_pos xs 0 q = 0"
  "ll_pos xs (Suc i) q = ll_pos xs i q + (if map_option fst (map_of (ll_slots_in xs) i) = Some q then 1 else 0)"
  by (simp_all add: ll_pos_def)

lemma ll_legal_prefix: "ll_legal (xs @ ys) \<Longrightarrow> ll_legal xs"
  by (simp add: ll_legal_def)

lemma ll_legal_perm:
  assumes "mset xs = mset ys" "ll_legal xs"
  shows "ll_legal ys"
proof -
  have s: "mset (ll_slots_in xs) = mset (ll_slots_in ys)" "mset (ll_ids_in xs) = mset (ll_ids_in ys)"
    unfolding ll_slots_in_def ll_ids_in_def by (intro mset_concat_map assms(1))+
  show ?thesis
    using assms(2) unfolding ll_legal_def distinct_map_mset [OF s(1)] distinct_map_mset [OF s(2)]
      mset_eq_setD [OF s(1)] mset_eq_setD [OF s(2)] .
qed

lemma ll_item_perm:
  assumes "mset xs = mset ys" "ll_legal xs"
  shows "ll_item xs = ll_item ys"
proof -
  have "mset (ll_slots_in xs) = mset (ll_slots_in ys)" "mset (ll_ids_in xs) = mset (ll_ids_in ys)"
    unfolding ll_slots_in_def ll_ids_in_def by (intro mset_concat_map assms(1))+
  then have "map_of (ll_slots_in xs) = map_of (ll_slots_in ys)" "map_of (ll_ids_in xs) = map_of (ll_ids_in ys)"
    using assms(2) by (auto simp: ll_legal_def intro: map_of_mset)
  then show ?thesis by (intro ext) (simp only: ll_item_def ll_pos_def)
qed

lemma ll_item_Some:
  "ll_item xs i = Some (b, m) \<longleftrightarrow> (\<forall>j < i. map_of (ll_slots_in xs) j \<noteq> None) \<and>
     (\<exists>q. map_of (ll_slots_in xs) i = Some (q, m) \<and> map_of (ll_ids_in xs) (q, ll_pos xs i q) = Some b)"
  by (auto simp: ll_item_def list_all_iff split: option.splits)

lemma map_of_append_Some: "map_of xs k = Some v \<Longrightarrow> map_of (xs @ ys) k = Some v"
  by (simp add: map_add_def)

lemma ll_pos_append:
  assumes "\<forall>j < i. map_of (ll_slots_in xs) j \<noteq> None"
  shows "ll_pos (xs @ ys) i q = ll_pos xs i q"
  unfolding ll_pos_def
  using assms by (intro arg_cong [where f = length] filter_cong) (auto simp: map_of_append_Some)

lemma ll_item_stable:
  assumes "ll_item xs i = Some o1"
  shows "ll_item (xs @ ys) i = Some o1"
proof -
  obtain b m where o1: "o1 = (b, m)" by (cases o1)
  with assms obtain q where q: "\<forall>j < i. map_of (ll_slots_in xs) j \<noteq> None"
    "map_of (ll_slots_in xs) i = Some (q, m)" "map_of (ll_ids_in xs) (q, ll_pos xs i q) = Some b"
    by (auto simp: ll_item_Some)
  have "\<forall>j < i. map_of (ll_slots_in (xs @ ys)) j \<noteq> None" using q(1) by (auto simp: map_of_append_Some)
  moreover have "map_of (ll_slots_in (xs @ ys)) i = Some (q, m)" using q(2) by (simp add: map_of_append_Some del: map_of_append)
  moreover have "map_of (ll_ids_in (xs @ ys)) (q, ll_pos (xs @ ys) i q) = Some b"
    unfolding ll_pos_append [OF q(1)] using q(3) by (simp add: map_of_append_Some del: map_of_append)
  ultimately show ?thesis unfolding o1 ll_item_Some by blast
qed

section \<open>The invariant\<close>

definition ll_pre :: "local_log_op list \<Rightarrow> nat \<Rightarrow> nat \<Rightarrow> local_log \<Rightarrow> bool" where
  "ll_pre xs n m l \<longleftrightarrow> n \<le> m \<and>
     al_holds (map_of (ll_slots_in xs)) m (ll_slots l) \<and>
     (\<forall>i < m. ll_item xs i \<noteq> None) \<and>
     (\<forall>q. al_holds (\<lambda>p. map_of (ll_ids_in xs) (q, p)) (ll_pos xs m q) (ll_queue l q)) \<and>
     ll_ready l = emitted (ll_item xs) n m"

definition ll_inv :: "local_log_op list \<Rightarrow> nat \<Rightarrow> local_log \<Rightarrow> bool" where
  "ll_inv xs n l \<longleftrightarrow> (\<exists>m. ll_pre xs n m l \<and> ll_item xs m = None)"

lemma ll_preD:
  assumes "ll_pre xs n m l"
  shows "n \<le> m" "al_holds (map_of (ll_slots_in xs)) m (ll_slots l)"
    "i < m \<Longrightarrow> ll_item xs i \<noteq> None"
    "al_holds (\<lambda>p. map_of (ll_ids_in xs) (q, p)) (ll_pos xs m q) (ll_queue l q)"
    "ll_ready l = emitted (ll_item xs) n m"
  using assms unfolding ll_pre_def by blast+

lemma ll_slot_taken: "ll_item xs i \<noteq> None \<Longrightarrow> map_of (ll_slots_in xs) i \<noteq> None"
  by (auto simp: ll_item_Some)

lemma ll_pos_taken:
  assumes "\<And>i. i < m \<Longrightarrow> ll_item xs i \<noteq> None" "p < ll_pos xs m q"
  shows "map_of (ll_ids_in xs) (q, p) \<noteq> None"
  using assms
proof (induction m)
  case (Suc m)
  show ?case
  proof (cases "p < ll_pos xs m q")
    case True
    with Suc show ?thesis by simp
  next
    case False
    with Suc.prems(2) have q: "map_option fst (map_of (ll_slots_in xs) m) = Some q" "p = ll_pos xs m q"
      by (auto split: if_splits)
    have "ll_item xs m \<noteq> None" by (simp add: Suc.prems(1))
    with q show ?thesis by (auto simp: ll_item_Some)
  qed
qed simp

lemma emitted_Suc: "n \<le> m \<Longrightarrow> item m = Some o1 \<Longrightarrow> emitted item n (Suc m) = emitted item n m @ [(m, o1)]"
  by (simp add: emitted_def)

lemma ll_update:
  assumes "ll_pre xs n m l" "ll_legal xs"
  shows "\<exists>l'. LocalLog_UpdateReadyBatches l = Inr l' \<and> ll_inv xs n l'"
  using assms(1)
proof (induction l arbitrary: m rule: LocalLog_UpdateReadyBatches.induct)
  case (1 l)
  note D = ll_preD [OF "1.prems"]
  have below: "\<forall>j < m. map_of (ll_slots_in xs) j \<noteq> None" using D(3) ll_slot_taken by blast
  show ?case
  proof (cases "map_of (ll_slots_in xs) m")
    case None
    then have "\<not> AsyncLog_HasNext (ll_slots l)" using al_holds_HasNext [OF D(2)] by simp
    moreover have "ll_item xs m = None" using None by (simp add: ll_item_def)
    ultimately show ?thesis using "1.prems" by (auto simp: LocalLog_UpdateReadyBatches.simps [of l] ll_inv_def)
  next
    case (Some qm)
    then obtain q ld where s: "map_of (ll_slots_in xs) m = Some (q, ld)" by (cases qm) simp
    have has: "AsyncLog_HasNext (ll_slots l)" and peek: "AsyncLog_Peek (ll_slots l) = Inr (q, ld)"
      using al_holds_HasNext [OF D(2)] al_holds_Peek [OF D(2) s] s by simp_all
    let ?p = "ll_pos xs m q"
    have qn: "AsyncLog_HasNext (ll_queue l q) \<longleftrightarrow> map_of (ll_ids_in xs) (q, ?p) \<noteq> None"
      using al_holds_HasNext [OF D(4)] .
    have item: "ll_item xs m = map_option (\<lambda>b. (b, ld)) (map_of (ll_ids_in xs) (q, ?p))"
      using below s by (simp add: ll_item_def list_all_iff)
    show ?thesis
    proof (cases "map_of (ll_ids_in xs) (q, ?p)")
      case None
      then have "\<not> AsyncLog_HasNext (ll_queue l q)" using qn by simp
      then have "LocalLog_UpdateReadyBatches l = Inr l"
        using has peek
        by (auto simp: LocalLog_UpdateReadyBatches.simps [of l] ll_queue_def split: option.splits)
      with None item "1.prems" show ?thesis by (auto simp: ll_inv_def)
    next
      case (Some b)
      then have hq: "AsyncLog_HasNext (ll_queue l q)" using qn by simp
      then obtain qu where qu: "ll_batch_queues l q = Some qu" "ll_queue l q = qu"
        by (auto simp: ll_queue_def AsyncLog_HasNext_def AsyncLog_def split: option.splits)
      have "(m, q, ld) \<in> set (ll_slots_in xs)" "((q, ?p), b) \<in> set (ll_ids_in xs)"
        using s Some by (simp_all add: map_of_SomeD)
      then have bnd: "m + 1 < 2 ^ 32" "?p + 1 < 2 ^ 32" using assms(2) by (force simp: ll_legal_def)+
      obtain sl where sl: "AsyncLog_Next (ll_slots l) = Inr ((m, (q, ld)), sl)"
        "al_holds (map_of (ll_slots_in xs)) (Suc m) sl" using al_holds_Next [OF D(2) s bnd(1)] .
      obtain qu' where qu': "AsyncLog_Next qu = Inr ((?p, b), qu')"
        "al_holds (\<lambda>p. map_of (ll_ids_in xs) (q, p)) (Suc ?p) qu'"
        using al_holds_Next [OF D(4) [of q, unfolded qu(2)] Some bnd(2)] .
      let ?l = "l\<lparr>ll_slots := sl, ll_batch_queues := (ll_batch_queues l)(q \<mapsto> qu'),
                 ll_ready := ll_ready l @ [(m, (b, ld))]\<rparr>"
      have it: "ll_item xs m = Some (b, ld)" using item Some by simp
      have "ll_pre xs n (Suc m) ?l"
        unfolding ll_pre_def
      proof (intro conjI allI impI)
        show "n \<le> Suc m" using D(1) by simp
        show "al_holds (map_of (ll_slots_in xs)) (Suc m) (ll_slots ?l)" using sl(2) by simp
        show "ll_item xs i \<noteq> None" if "i < Suc m" for i
          using that D(3) it by (cases "i = m") simp_all
        show "al_holds (\<lambda>p. map_of (ll_ids_in xs) (q', p)) (ll_pos xs (Suc m) q') (ll_queue ?l q')" for q'
          using D(4) [of q'] qu'(2) s by (simp add: ll_queue_def)
        show "ll_ready ?l = emitted (ll_item xs) n (Suc m)" using D(1,5) it by (simp add: emitted_Suc)
      qed
      moreover have "LocalLog_UpdateReadyBatches l = LocalLog_UpdateReadyBatches ?l"
        using has peek qu hq sl(1) qu'(1) by (simp add: LocalLog_UpdateReadyBatches.simps [of l])
      moreover have hqu: "\<not> \<not> AsyncLog_HasNext qu" using hq qu by simp
      ultimately show ?thesis
        using "1.IH" [OF _ peek refl qu(1) hqu sl(1) refl refl qu'(1) refl refl, of "Suc m"] has by simp
    qed
  qed
qed

lemma ll_inv_step:
  assumes "ll_inv xs n l" "ll_legal (xs @ [x])"
  shows "\<exists>l'. ll_step x l = Inr l' \<and> ll_inv (xs @ [x]) n l'"
proof -
  from assms(1) obtain m where pre: "ll_pre xs n m l" by (auto simp: ll_inv_def)
  note D = ll_preD [OF pre]
  have below: "\<forall>j < m. map_of (ll_slots_in xs) j \<noteq> None" using D(3) ll_slot_taken by blast
  have pos: "ll_pos (xs @ [x]) m q = ll_pos xs m q" for q by (rule ll_pos_append [OF below])
  have items: "ll_item (xs @ [x]) i = ll_item xs i" if "i < m" for i
    using D(3) [OF that] ll_item_stable by fastforce
  have emt: "emitted (ll_item (xs @ [x])) n m = emitted (ll_item xs) n m"
    using items by (rule emitted_cong)
  show ?thesis
  proof (cases x)
    case (LL_AddBatchId q p b)
    have fresh: "map_of (ll_ids_in xs) (q, p) = None"
      using assms(2) by (simp add: LL_AddBatchId ll_legal_def map_of_eq_None_iff)
    have "\<forall>p' < ll_pos xs m q. map_of (ll_ids_in xs) (q, p') \<noteq> None" using ll_pos_taken D(3) by blast
    from al_holds_Insert [OF D(4) fresh this] obtain qu where
      qu: "AsyncLog_Insert p b (ll_queue l q) = Inr qu"
          "al_holds ((\<lambda>p. map_of (ll_ids_in xs) (q, p))(p \<mapsto> b)) (ll_pos xs m q) qu" .
    have same: "(\<lambda>p. map_of (ll_ids_in (xs @ [x])) (q', p)) =
        (if q' = q then (\<lambda>p. map_of (ll_ids_in xs) (q, p))(p \<mapsto> b) else (\<lambda>p. map_of (ll_ids_in xs) (q', p)))" for q'
      using fresh by (auto simp: LL_AddBatchId fun_eq_iff map_add_def split: option.splits)
    have sl: "ll_slots_in (xs @ [x]) = ll_slots_in xs" by (simp add: LL_AddBatchId)
    have "ll_pre (xs @ [x]) n m (l\<lparr>ll_batch_queues := (ll_batch_queues l)(q \<mapsto> qu)\<rparr>)"
      unfolding ll_pre_def emt pos same sl using D items qu(2) by (simp add: ll_queue_def)
    from ll_update [OF this assms(2)] qu(1) show ?thesis
      by (simp add: LL_AddBatchId LocalLog_AddBatchId_def)
  next
    case (LL_AddSlot s q ld)
    have fresh: "map_of (ll_slots_in xs) s = None"
      using assms(2) by (simp add: LL_AddSlot ll_legal_def map_of_eq_None_iff)
    from al_holds_Insert [OF D(2) fresh below] obtain sl where
      sl: "AsyncLog_Insert s (q, ld) (ll_slots l) = Inr sl"
          "al_holds ((map_of (ll_slots_in xs))(s \<mapsto> (q, ld))) m sl" .
    have same: "map_of (ll_slots_in (xs @ [x])) = (map_of (ll_slots_in xs))(s \<mapsto> (q, ld))"
      using fresh by (auto simp: LL_AddSlot fun_eq_iff map_add_def split: option.splits)
    have ids: "ll_ids_in (xs @ [x]) = ll_ids_in xs" by (simp add: LL_AddSlot)
    have "ll_pre (xs @ [x]) n m (l\<lparr>ll_slots := sl\<rparr>)"
      unfolding ll_pre_def emt pos same ids using D items sl(2) by (simp add: ll_queue_def)
    from ll_update [OF this assms(2)] sl(1) show ?thesis
      by (simp add: LL_AddSlot LocalLog_AddSlot_def)
  qed
qed

interpretation ll: ordered_log LocalLog ll_step LocalLog_drain ll_legal ll_item ll_inv
proof unfold_locales
  show "ll_inv [] 0 LocalLog"
    by (auto simp: ll_inv_def ll_pre_def LocalLog_def al_holds_def AsyncLog_def ll_item_def ll_queue_def
        emitted_def)
  show "ll_item xs i \<noteq> None" if inv: "ll_inv xs n s" and i: "i < n" for xs n s i
  proof -
    obtain m where "ll_pre xs n m s" using inv by (auto simp: ll_inv_def)
    from ll_preD(3) [OF this] ll_preD(1) [OF this] i show ?thesis by simp
  qed
next
  fix xs n s
  assume "ll_inv xs n s" and legal: "ll_legal xs"
  then obtain m where m: "ll_pre xs n m s" "ll_item xs m = None" by (auto simp: ll_inv_def)
  note D = ll_preD [OF m(1)]
  have "ll_pre xs m m (s\<lparr>ll_ready := []\<rparr>)" using D unfolding ll_pre_def by (simp add: emitted_def ll_queue_def)
  moreover have "emit_prefix (ll_item xs) m" using m D(3) by (simp add: emit_prefix_def)
  ultimately show "\<exists>n' s'. LocalLog_drain s = Inr (emitted (ll_item xs) n n', s') \<and> n \<le> n' \<and>
      emit_prefix (ll_item xs) n' \<and> ll_inv xs n' s'"
    using m D(1,5) by (auto simp: ll_inv_def LocalLog_drain_eq)
qed (use ll_legal_prefix ll_legal_perm ll_item_perm ll_item_stable ll_inv_step in blast)+

end
