(* ===== verification/String_Utils.thy ===== *)
theory String_Utils
  imports Slog_Types
begin

text \<open>
  \<^verbatim>\<open>common/string_utils.{h,cpp}\<close>: tokens of a string, trimming, splitting and joining; and the
  number parsers of the standard library that the sources call (\<^verbatim>\<open>std::stoll\<close>, \<^verbatim>\<open>std::stoull\<close>).
  \<^verbatim>\<open>string::npos\<close> is \<open>None\<close>.
\<close>

section \<open>Model\<close>

definition find_first_not_of :: "string \<Rightarrow> string \<Rightarrow> nat \<Rightarrow> nat option" where
  "find_first_not_of str delims pos = List.find (\<lambda>i. str ! i \<notin> set delims) [pos..<length str]"

definition find_first_of :: "string \<Rightarrow> string \<Rightarrow> nat \<Rightarrow> nat option" where
  "find_first_of str delims pos = List.find (\<lambda>i. str ! i \<in> set delims) [pos..<length str]"

definition NextToken :: "string \<Rightarrow> string \<Rightarrow> nat \<Rightarrow> string \<times> nat option" where
  "NextToken str delims pos =
     (case find_first_not_of str delims pos of
        None \<Rightarrow> ([], None)
      | Some start \<Rightarrow>
          let e = (case find_first_of str delims start of None \<Rightarrow> length str | Some e \<Rightarrow> e);
              token = take (e - start) (drop start str)
          in (token, Some (start + length token)))"

fun NextNTokens_loop ::
  "string \<Rightarrow> string \<Rightarrow> nat \<Rightarrow> nat \<Rightarrow> string list \<Rightarrow> string list \<times> nat option" where
  "NextNTokens_loop str delims 0 pos tokens = (tokens, Some pos)"
| "NextNTokens_loop str delims (Suc n) pos tokens =
     (case NextToken str delims pos of
        (_, None) \<Rightarrow> ([], None)
      | (token, Some pos') \<Rightarrow> NextNTokens_loop str delims n pos' (tokens @ [token]))"

definition NextNTokens :: "string \<Rightarrow> string \<Rightarrow> nat \<Rightarrow> nat \<Rightarrow> string list \<times> nat option" where
  "NextNTokens str delims n pos = NextNTokens_loop str delims n pos []"

text \<open>\<^verbatim>\<open>std::isspace\<close> in the C locale.\<close>

definition isspace :: "char \<Rightarrow> bool" where
  "isspace c \<longleftrightarrow> (of_char c :: nat) = 32 \<or> (9 \<le> (of_char c :: nat) \<and> (of_char c :: nat) \<le> 13)"

definition Trim :: "string \<Rightarrow> string" where
  "Trim str = (let l = dropWhile isspace str in rev (dropWhile isspace (rev l)))"

fun Join_loop :: "char \<Rightarrow> bool \<Rightarrow> string list \<Rightarrow> string" where
  "Join_loop delim first [] = []"
| "Join_loop delim first (p # ps) = (if first then [] else [delim]) @ p @ Join_loop delim False ps"

definition Join :: "string list \<Rightarrow> char \<Rightarrow> string" where
  "Join parts delim = Join_loop delim True parts"

lemma find_upt_Some:
  "List.find P [a..<b] = Some i \<longleftrightarrow> a \<le> i \<and> i < b \<and> P i \<and> (\<forall>j. a \<le> j \<and> j < i \<longrightarrow> \<not> P j)"
proof (induction "b - a" arbitrary: a)
  case 0
  then show ?case by auto
next
  case (Suc n)
  then have upt: "[a..<b] = a # [Suc a..<b]" by (simp add: upt_conv_Cons)
  have IH: "List.find P [Suc a..<b] = Some i \<longleftrightarrow>
      Suc a \<le> i \<and> i < b \<and> P i \<and> (\<forall>j. Suc a \<le> j \<and> j < i \<longrightarrow> \<not> P j)"
    using Suc by simp
  show ?case
  proof (cases "P a")
    case True
    then show ?thesis using Suc.hyps(2) by (auto simp: upt)
  next
    case False
    have "(\<forall>j. Suc a \<le> j \<and> j < i \<longrightarrow> \<not> P j) \<longleftrightarrow> (\<forall>j. a \<le> j \<and> j < i \<longrightarrow> \<not> P j)"
      using False by (metis Suc_leI le_neq_implies_less Suc_leD)
    moreover have "Suc a \<le> i \<longleftrightarrow> a \<le> i" if "P i" using that False by (metis Suc_leI le_neq_implies_less Suc_leD)
    ultimately show ?thesis using False by (simp add: upt IH) blast
  qed
qed

lemma find_upt_None: "List.find P [a..<b] = None \<longleftrightarrow> (\<forall>j. a \<le> j \<and> j < b \<longrightarrow> \<not> P j)"
  by (auto simp: find_None_iff)

lemma NextToken_advances:
  assumes "NextToken str delims pos = (token, Some p)"
  shows "pos < p" "p \<le> length str"
proof -
  from assms obtain start where s: "find_first_not_of str delims pos = Some start"
    by (auto simp: NextToken_def Let_def split: option.splits)
  then have start: "pos \<le> start" "start < length str" "str ! start \<notin> set delims"
    by (auto simp: find_first_not_of_def find_upt_Some)
  define e where "e = (case find_first_of str delims start of None \<Rightarrow> length str | Some e \<Rightarrow> e)"
  have e: "start < e \<and> e \<le> length str"
  proof (cases "find_first_of str delims start")
    case None
    then show ?thesis using start by (simp add: e_def)
  next
    case (Some e')
    then have "start \<le> e'" "e' < length str" "str ! e' \<in> set delims"
      by (auto simp: find_first_of_def find_upt_Some)
    with start(3) Some show ?thesis unfolding e_def by (metis le_neq_implies_less less_imp_le_nat option.simps(5))
  qed
  from assms s have "p = start + length (take (e - start) (drop start str))"
    by (auto simp: NextToken_def Let_def e_def)
  with e start show "pos < p" "p \<le> length str" by auto
qed

function Split_from :: "string \<Rightarrow> string \<Rightarrow> nat \<Rightarrow> string list" where
  "Split_from str delims pos =
     (case NextToken str delims pos of
        (_, None) \<Rightarrow> []
      | (token, Some pos') \<Rightarrow> token # Split_from str delims pos')"
  by pat_completeness auto
termination
  by (relation "measure (\<lambda>(str, _, pos). length str - pos)")
     (simp, simp, metis NextToken_advances diff_less_mono2 order.strict_trans2)

declare Split_from.simps [simp del]

definition Split :: "string \<Rightarrow> string \<Rightarrow> string list" where
  "Split str delims = Split_from str delims 0"

section \<open>Splitting\<close>

text \<open>A reference definition of splitting, by recursion on the string.\<close>

function tokens_of :: "char set \<Rightarrow> string \<Rightarrow> string list" where
  "tokens_of D [] = []"
| "c \<in> D \<Longrightarrow> tokens_of D (c # cs) = tokens_of D cs"
| "c \<notin> D \<Longrightarrow> tokens_of D (c # cs) =
     (c # takeWhile (\<lambda>x. x \<notin> D) cs) # tokens_of D (dropWhile (\<lambda>x. x \<notin> D) cs)"
  by (auto, metis list.exhaust)
termination
  by (relation "measure (\<lambda>(_, s). length s)") (auto simp: le_imp_less_Suc length_dropWhile_le)

lemma find_index_drop:
  "List.find (\<lambda>i. P (str ! i)) [pos..<length str] =
     (if \<exists>c \<in> set (drop pos str). P c
      then Some (pos + length (takeWhile (\<lambda>c. \<not> P c) (drop pos str))) else None)"
proof (induction "length str - pos" arbitrary: pos)
  case (Suc n)
  then have pos: "pos < length str" by simp
  have "drop pos str = str ! pos # drop (Suc pos) str" using Cons_nth_drop_Suc [OF pos] by simp
  with Suc show ?case by (simp add: upt_conv_Cons [OF pos])
qed simp

lemma find_first_not_of_eq:
  "find_first_not_of str delims pos =
     (if \<exists>c \<in> set (drop pos str). c \<notin> set delims
      then Some (pos + length (takeWhile (\<lambda>c. c \<in> set delims) (drop pos str))) else None)"
  using find_index_drop [of "\<lambda>c. c \<notin> set delims" str pos] by (simp add: find_first_not_of_def)

lemma find_first_of_eq:
  "find_first_of str delims pos =
     (if \<exists>c \<in> set (drop pos str). c \<in> set delims
      then Some (pos + length (takeWhile (\<lambda>c. c \<notin> set delims) (drop pos str))) else None)"
  using find_index_drop [of "\<lambda>c. c \<in> set delims" str pos] by (simp add: find_first_of_def)

lemma NextToken_eq:
  "NextToken str delims pos =
     (case dropWhile (\<lambda>c. c \<in> set delims) (drop pos str) of
        [] \<Rightarrow> ([], None)
      | r \<Rightarrow> (takeWhile (\<lambda>c. c \<notin> set delims) r,
              Some (length str - length (dropWhile (\<lambda>c. c \<notin> set delims) r))))"
proof (cases "dropWhile (\<lambda>c. c \<in> set delims) (drop pos str)")
  case Nil
  then have "\<not> (\<exists>c \<in> set (drop pos str). c \<notin> set delims)" by (simp only: dropWhile_eq_Nil_conv) blast
  then have "find_first_not_of str delims pos = None"
    unfolding find_first_not_of_eq by (rule if_not_P)
  then show ?thesis by (simp only: NextToken_def Nil option.case list.case)
next
  case (Cons c cs)
  let ?w = "takeWhile (\<lambda>c. c \<in> set delims) (drop pos str)"
  let ?start = "pos + length ?w"
  have ex: "\<exists>c \<in> set (drop pos str). c \<notin> set delims"
    using Cons by (metis dropWhile_eq_Nil_conv list.distinct(1))
  have d: "drop ?start str = c # cs"
    using Cons by (metis add.commute drop_drop dropWhile_eq_drop)
  have st: "find_first_not_of str delims pos = Some ?start"
    using ex by (simp add: find_first_not_of_eq)
  let ?t = "takeWhile (\<lambda>c. c \<notin> set delims) (c # cs)"
  have len: "length (c # cs) = length str - ?start" using d by (metis length_drop)
  have e: "(case find_first_of str delims ?start of None \<Rightarrow> length str | Some e \<Rightarrow> e) - ?start = length ?t"
  proof (cases "\<exists>x \<in> set (c # cs). x \<in> set delims")
    case True
    then show ?thesis unfolding find_first_of_eq d by simp
  next
    case False
    then have t: "?t = c # cs" by (simp only: takeWhile_eq_all_conv) blast
    have "find_first_of str delims ?start = None" unfolding find_first_of_eq d using False by (rule if_not_P)
    then show ?thesis by (simp only: option.case t len)
  qed
  have "take (length ?t) (c # cs) = ?t" by (metis takeWhile_eq_take)
  then have "NextToken str delims pos = (?t, Some (?start + length ?t))"
    by (simp only: NextToken_def st option.case Let_def e d)
  moreover have "?start + length ?t = length str - length (dropWhile (\<lambda>c. c \<notin> set delims) (c # cs))"
  proof -
    have "length ?t + length (dropWhile (\<lambda>c. c \<notin> set delims) (c # cs)) = length (c # cs)"
      by (metis length_append takeWhile_dropWhile_id)
    with len show ?thesis by simp
  qed
  ultimately show ?thesis by (simp only: Cons list.case)
qed

lemma tokens_of_dropWhile: "tokens_of D (dropWhile (\<lambda>c. c \<in> D) s) = tokens_of D s"
  by (induction s) auto

lemma Split_from_eq: "Split_from str delims pos = tokens_of (set delims) (drop pos str)"
proof (induction "length str - pos" arbitrary: pos rule: less_induct)
  case less
  show ?case
  proof (cases "dropWhile (\<lambda>c. c \<in> set delims) (drop pos str)")
    case Nil
    then have "NextToken str delims pos = ([], None)" by (simp only: NextToken_eq list.case)
    moreover have "tokens_of (set delims) (drop pos str) = []"
      using tokens_of_dropWhile [of "set delims" "drop pos str"] by (simp only: Nil tokens_of.simps)
    ultimately show ?thesis by (simp add: Split_from.simps [of str delims pos])
  next
    case (Cons c cs)
    let ?rest = "dropWhile (\<lambda>c. c \<notin> set delims) (c # cs)"
    have nt: "NextToken str delims pos =
        (takeWhile (\<lambda>c. c \<notin> set delims) (c # cs), Some (length str - length ?rest))"
      by (simp only: NextToken_eq Cons list.case)
    have cd: "c \<notin> set delims" using Cons by (metis dropWhile_eq_Cons_conv)
    have "drop (length str - length ?rest) str = ?rest"
    proof -
      have "drop pos str = takeWhile (\<lambda>c. c \<in> set delims) (drop pos str) @ takeWhile (\<lambda>c. c \<notin> set delims) (c # cs) @ ?rest"
        by (metis Cons takeWhile_dropWhile_id)
      then have "str = (take pos str @ takeWhile (\<lambda>c. c \<in> set delims) (drop pos str) @
          takeWhile (\<lambda>c. c \<notin> set delims) (c # cs)) @ ?rest" by (metis append.assoc append_take_drop_id)
      then show ?thesis by (metis append_eq_conv_conj length_append diff_add_inverse2)
    qed
    moreover have "length str - (length str - length ?rest) < length str - pos"
      using NextToken_advances [OF nt] by simp
    ultimately have "Split_from str delims (length str - length ?rest) = tokens_of (set delims) ?rest"
      using less by metis
    then have "Split_from str delims pos = tokens_of (set delims) (c # cs)"
      using cd by (simp add: Split_from.simps [of str delims pos] nt)
    then show ?thesis using tokens_of_dropWhile [of "set delims" "drop pos str"] Cons by simp
  qed
qed

lemma Split_eq: "Split str delims = tokens_of (set delims) str"
  by (simp add: Split_def Split_from_eq)

lemma tokens_of_clean: "t \<in> set (tokens_of D s) \<Longrightarrow> t \<noteq> [] \<and> set t \<inter> D = {}"
  by (induction D s rule: tokens_of.induct) (auto dest: set_takeWhileD)

lemma concat_tokens_of: "concat (tokens_of D s) = filter (\<lambda>c. c \<notin> D) s"
proof (induction D s rule: tokens_of.induct)
  case (3 c D cs)
  have "filter (\<lambda>c. c \<notin> D) cs = takeWhile (\<lambda>c. c \<notin> D) cs @ filter (\<lambda>c. c \<notin> D) (dropWhile (\<lambda>c. c \<notin> D) cs)"
    by (induction cs) auto
  with 3 show ?case by simp
qed auto

lemma tokens_of_sep:
  assumes "t \<noteq> []" "set t \<inter> D = {}" "d \<in> D"
  shows "tokens_of D (t @ d # s) = t # tokens_of D s" "tokens_of D t = [t]"
proof -
  obtain c cs where t: "t = c # cs" using assms(1) by (cases t) auto
  have c: "c \<notin> D" and cs: "\<forall>x \<in> set cs. x \<notin> D" using assms(2) by (auto simp: t)
  show "tokens_of D (t @ d # s) = t # tokens_of D s"
    using c cs assms(3) by (simp add: t takeWhile_append dropWhile_append)
  have "takeWhile (\<lambda>x. x \<notin> D) cs = cs" "dropWhile (\<lambda>x. x \<notin> D) cs = []"
    using cs by (simp_all add: takeWhile_eq_all_conv dropWhile_eq_Nil_conv)
  then show "tokens_of D t = [t]" unfolding t tokens_of.simps(3) [OF c] by (simp only: tokens_of.simps(1))
qed

lemma tokens_of_Join_loop:
  assumes "\<forall>p \<in> set ps. p \<noteq> [] \<and> d \<notin> set p"
  shows "tokens_of {d} (Join_loop d True ps) = ps" 
    and "tokens_of {d} (Join_loop d False ps) = ps"
  using assms
proof (induction ps)
  case (Cons p ps)
  { case 1
    show ?case
    proof (cases ps)
      case Nil
      with 1 tokens_of_sep(2) [of p "{d}" d] show ?thesis by simp
    next
      case (Cons q qs)
      then have "Join_loop d False ps = d # Join_loop d True ps" by simp
      with Cons.IH(1) 1 tokens_of_sep(1) [of p "{d}" d "Join_loop d True ps"] show ?thesis by simp
    qed }
  note first = this
  { case 2
    have "Join_loop d False (p # ps) = d # Join_loop d True (p # ps)" by simp
    with first 2 show ?case by simp }
qed simp_all

section \<open>Trimming\<close>

lemma dropWhile_idem: "dropWhile P (dropWhile P xs) = dropWhile P xs"
  by (induction xs) auto

lemma Trim_ends:
  assumes "Trim s \<noteq> []"
  shows "\<not> isspace (hd (Trim s))" "\<not> isspace (last (Trim s))"
proof -
  let ?l = "dropWhile isspace s"
  have r: "dropWhile isspace (rev ?l) \<noteq> []" using assms by (simp add: Trim_def Let_def)
  show "\<not> isspace (last (Trim s))" using hd_dropWhile [OF r] by (simp add: Trim_def Let_def last_rev)
  obtain p where p: "?l = Trim s @ p"
    by (metis Trim_def rev_append rev_rev_ident takeWhile_dropWhile_id)
  then have "?l \<noteq> []" "hd (Trim s) = hd ?l" using assms by auto
  then show "\<not> isspace (hd (Trim s))" using hd_dropWhile by metis
qed

lemma Trim_id:
  assumes "s = [] \<or> (\<not> isspace (hd s) \<and> \<not> isspace (last s))"
  shows "Trim s = s"
proof (cases "s = []")
  case False
  then have "dropWhile isspace s = s" using assms by (cases s) auto
  moreover have "dropWhile isspace (rev s) = rev s"
    using False assms by (cases s rule: rev_cases) auto
  ultimately show ?thesis by (simp add: Trim_def)
qed (simp add: Trim_def)

section \<open>Parsing of numbers\<close>

definition isdigit :: "char \<Rightarrow> bool" where
  "isdigit c \<longleftrightarrow> 48 \<le> (of_char c :: nat) \<and> (of_char c :: nat) \<le> 57"

definition digits_value :: "string \<Rightarrow> nat" where
  "digits_value ds = foldl (\<lambda>n c. n * 10 + ((of_char c :: nat) - 48)) 0 ds"

text \<open>\<open>strto\<close>: the common part of the \<^verbatim>\<open>strtol\<close> family in base 10: white space, an optional sign, the
  digits; \<open>None\<close> when there is no digit.\<close>

definition strto :: "string \<Rightarrow> (bool \<times> nat) option" where
  "strto s =
     (let s1 = dropWhile isspace s;
          neg = (case s1 of [] \<Rightarrow> False | c # _ \<Rightarrow> c = CHR ''-'');
          s2 = (case s1 of [] \<Rightarrow> [] | c # r \<Rightarrow> if c = CHR ''-'' \<or> c = CHR ''+'' then r else s1);
          ds = takeWhile isdigit s2
      in if ds = [] then None else Some (neg, digits_value ds))"

definition stoll :: "string \<Rightarrow> int result" where
  "stoll s = (case strto s of
     None \<Rightarrow> Inl (InvalidArgument ''stoll'')
   | Some (neg, n) \<Rightarrow>
       let v = (if neg then - int n else int n)
       in if - (2 ^ 63) \<le> v \<and> v < 2 ^ 63 then Inr v else Inl (RuntimeError ''out_of_range''))"

definition stoull :: "string \<Rightarrow> nat result" where
  "stoull s = (case strto s of
     None \<Rightarrow> Inl (InvalidArgument ''stoull'')
   | Some (neg, n) \<Rightarrow>
       if n < 2 ^ 64 then Inr (if neg then (2 ^ 64 - n) mod 2 ^ 64 else n)
       else Inl (RuntimeError ''out_of_range''))"

lemma to_string_digits: "c \<in> set (to_string n) \<Longrightarrow> isdigit c"
proof (induction n rule: to_string.induct)
  case (1 n)
  have d: "isdigit (digit_char k)" if "k < 10" for k
    using that by (simp add: isdigit_def of_digit_char)
  show ?case
  proof (cases "n < 10")
    case True
    with "1.prems" d show ?thesis by (simp add: to_string.simps [of n])
  next
    case False
    with 1 d [of "n mod 10"] show ?thesis by (auto simp: to_string.simps [of n])
  qed
qed

lemma digits_value_to_string: "digits_value (to_string n) = n"
proof (induction n rule: to_string.induct)
  case (1 n)
  show ?case
  proof (cases "n < 10")
    case True
    then show ?thesis by (simp add: to_string.simps [of n] digits_value_def of_digit_char)
  next
    case False
    with 1 have "digits_value (to_string (n div 10)) = n div 10" by simp
    with False show ?thesis
      by (simp add: to_string.simps [of n] digits_value_def of_digit_char)
  qed
qed

lemma strto_to_string: "strto (to_string n) = Some (False, n)"
proof -
  obtain c cs where c: "to_string n = c # cs" by (cases "to_string n") auto
  have dig: "isdigit c" using to_string_digits [of c n] c by simp
  then have "\<not> isspace c" "c \<noteq> CHR ''-''" "c \<noteq> CHR ''+''" by (auto simp: isdigit_def isspace_def)
  then have "dropWhile isspace (to_string n) = c # cs" by (simp add: c)
  moreover have "takeWhile isdigit (c # cs) = c # cs"
    using to_string_digits [of _ n] unfolding takeWhile_eq_all_conv c by blast
  moreover have "digits_value (c # cs) = n" using digits_value_to_string [of n] by (simp only: c)
  ultimately show ?thesis
    using \<open>c \<noteq> CHR ''-''\<close> \<open>c \<noteq> CHR ''+''\<close> unfolding strto_def Let_def
    by (simp only: list.case if_False simp_thms list.distinct(2))
qed

lemma stoll_to_string: "n < 2 ^ 63 \<Longrightarrow> stoll (to_string n) = Inr (int n)"
  by (simp add: stoll_def strto_to_string)

lemma stoull_to_string: "n < 2 ^ 64 \<Longrightarrow> stoull (to_string n) = Inr n"
  by (simp add: stoull_def strto_to_string)

end
