(* ===== verification/Slog_Config.thy ===== *)
theory Slog_Config
  imports String_Utils
begin

text \<open>
  \<^verbatim>\<open>common/configuration.{h,cpp}\<close> over the message \<^verbatim>\<open>internal::Configuration\<close> of
  \<^verbatim>\<open>proto/configuration.proto\<close>. Reading the file and parsing the protobuf text format are not
  modelled: the parsed message is the argument of the constructor.
\<close>

section \<open>Model\<close>

record replica_config =
  addresses :: "string list"
  distance_ranking :: string

datatype partitioning =
    NoPartitioning
  | HashPartitioning nat         \<comment> \<open>\<^verbatim>\<open>partition_key_num_bytes\<close>\<close>
  | SimplePartitioning nat nat   \<comment> \<open>\<^verbatim>\<open>num_records\<close>, \<^verbatim>\<open>record_size_bytes\<close>\<close>
  | TPCCPartitioning int         \<comment> \<open>\<^verbatim>\<open>warehouses\<close>\<close>

datatype execution_type = KEY_VALUE | NOOP | TPC_C

record proto_config =
  pc_protocol :: string
  pc_replicas :: "replica_config list"
  pc_broker_ports :: "nat list"
  pc_server_port :: nat
  pc_forwarder_port :: nat
  pc_sequencer_port :: nat
  pc_num_partitions :: nat
  pc_partitioning :: partitioning
  pc_num_workers :: nat
  pc_mh_orderer_batch_duration :: nat
  pc_forwarder_batch_duration :: nat
  pc_sequencer_batch_duration :: nat
  pc_sequencer_batch_size :: int
  pc_sequencer_rrr :: bool
  pc_replication_factor :: nat
  pc_replication_order :: "string list"
  pc_delay_pct :: nat
  pc_delay_amount_ms :: nat
  pc_enabled_events :: "nat list"
  pc_bypass_mh_orderer :: bool
  pc_cpu_pinnings :: "(nat \<times> nat) list"
  pc_return_dummy_txn :: bool
  pc_recv_retries :: int
  pc_execution_type :: execution_type
  pc_synchronized_batching :: bool
  pc_sample_rate :: nat
  pc_broker_rcvbuf :: int
  pc_long_sender_sndbuf :: int

record configuration =
  proto_config :: proto_config
  local_address :: string
  local_replica :: nat
  local_partition :: nat
  all_addresses :: "string list"
  replication_order :: "nat list"

definition kBrokerChannel :: nat where "kBrokerChannel = 11"
definition kMaxChannel :: nat where "kMaxChannel = 15"
definition kMaxNumMachines :: nat where "kMaxNumMachines = 100"

text \<open>The two nested loops over the replicas and their addresses: \<open>found\<close> is the last machine
  whose address is the local one.\<close>

fun scan_addresses ::
  "string \<Rightarrow> nat \<Rightarrow> nat \<Rightarrow> string list \<Rightarrow> (nat \<times> nat) option \<Rightarrow> (nat \<times> nat) option" where
  "scan_addresses la r p [] found = found"
| "scan_addresses la r p (a # as) found =
     scan_addresses la r (Suc p) as (if a = la then Some (r, p) else found)"

fun scan_replicas ::
  "string \<Rightarrow> nat \<Rightarrow> nat \<Rightarrow> replica_config list \<Rightarrow> string list \<Rightarrow> (nat \<times> nat) option \<Rightarrow>
   (string list \<times> (nat \<times> nat) option) result" where
  "scan_replicas la np r [] all_addrs found = Inr (all_addrs, found)"
| "scan_replicas la np r (rc # rcs) all_addrs found =
     (if length (addresses rc) \<noteq> np
      then Inl (CheckFailed ''Number of addresses in each replica must match number of partitions.'')
      else scan_replicas la np (Suc r) rcs (all_addrs @ addresses rc)
             (scan_addresses la r 0 (addresses rc) found))"

fun parse_order :: "nat \<Rightarrow> nat \<Rightarrow> string list \<Rightarrow> nat list result" where
  "parse_order nr lr [] = Inr []"
| "parse_order nr lr (rstr # rest) =
     (case stoll rstr of
        Inl e \<Rightarrow> Inl e
      | Inr r \<Rightarrow>
          if \<not> r < int nr then Inl (CheckFailed ''Invalid replica specified in the replication order'')
          else case parse_order nr lr rest of
                 Inl e \<Rightarrow> Inl e
               | Inr rs \<Rightarrow> Inr (if r \<noteq> int lr then uint32_of_int r # rs else rs))"

fun is_tpcc_partitioning :: "partitioning \<Rightarrow> bool" where
  "is_tpcc_partitioning (TPCCPartitioning _) = True"
| "is_tpcc_partitioning _ = False"

definition Configuration :: "proto_config \<Rightarrow> string \<Rightarrow> configuration result" where
  "Configuration c la =
     (if \<not> pc_replication_factor c \<le> length (pc_replicas c)
      then Inl (CheckFailed ''Replication factor must not exceed number of replicas'')
      else if \<not> length (pc_broker_ports c) \<le> kMaxChannel - kBrokerChannel
      then Inl (CheckFailed ''Maximum number of broker threads'')
      else if \<not> 0 < length (pc_broker_ports c) then Inl (CheckFailed ''There must be at least one broker'')
      else if pc_server_port c = 0 then Inl (CheckFailed ''Server port must be set'')
      else if pc_sequencer_port c = 0 then Inl (CheckFailed ''Sequencer port must be set'')
      else if pc_forwarder_port c = 0 then Inl (CheckFailed ''Forwarder port must be set'')
      else case scan_replicas la (pc_num_partitions c) 0 (pc_replicas c) [] None of
        Inl e \<Rightarrow> Inl e
      | Inr (addrs, found) \<Rightarrow>
          if \<not> (la = [] \<or> found \<noteq> None)
          then Inl (CheckFailed ''The configuration does not contain the provided local machine ID'')
          else if pc_execution_type c = TPC_C \<and> \<not> is_tpcc_partitioning (pc_partitioning c)
          then Inl (CheckFailed ''TPC-C execution type can only be paired with TPC-C partitioning'')
          else if is_tpcc_partitioning (pc_partitioning c) \<and> pc_execution_type c \<noteq> TPC_C
          then Inl (CheckFailed ''TPC-C partitioning can only be paired with TPC-C execution type'')
          else
            let (lr, lp) = (case found of None \<Rightarrow> (0, 0) | Some x \<Rightarrow> x)
            in case (if lr < length (pc_replication_order c)
                     then parse_order (length (pc_replicas c)) lr (Split (pc_replication_order c ! lr) '','')
                     else Inr []) of
                 Inl e \<Rightarrow> Inl e
               | Inr ord \<Rightarrow> Inr \<lparr>proto_config = c, local_address = la, local_replica = lr,
                   local_partition = lp, all_addresses = addrs, replication_order = ord\<rparr>)"

definition num_replicas :: "configuration \<Rightarrow> nat" where
  "num_replicas c = length (pc_replicas (proto_config c))"

definition num_partitions :: "configuration \<Rightarrow> nat" where
  "num_partitions c = pc_num_partitions (proto_config c)"

definition num_workers :: "configuration \<Rightarrow> nat" where
  "num_workers c = max (pc_num_workers (proto_config c)) 1"

definition replication_factor :: "configuration \<Rightarrow> nat" where
  "replication_factor c = max (pc_replication_factor (proto_config c)) 1"

definition sequencer_batch_duration :: "configuration \<Rightarrow> nat" where
  "sequencer_batch_duration c =
     (if pc_sequencer_batch_duration (proto_config c) = 0 then 1
      else pc_sequencer_batch_duration (proto_config c))"

definition recv_retries :: "configuration \<Rightarrow> int" where
  "recv_retries c = (if pc_recv_retries (proto_config c) = 0 then 1000 else pc_recv_retries (proto_config c))"

definition cpu_pinnings :: "configuration \<Rightarrow> nat \<Rightarrow> nat list" where
  "cpu_pinnings c module =
     map snd (filter (\<lambda>e. fst e = module) (pc_cpu_pinnings (proto_config c)))"

definition broker_rcvbuf :: "configuration \<Rightarrow> int" where
  "broker_rcvbuf c = (if pc_broker_rcvbuf (proto_config c) \<le> 0 then - 1 else pc_broker_rcvbuf (proto_config c))"

definition long_sender_sndbuf :: "configuration \<Rightarrow> int" where
  "long_sender_sndbuf c =
     (if pc_long_sender_sndbuf (proto_config c) \<le> 0 then - 1 else pc_long_sender_sndbuf (proto_config c))"

text \<open>\<^verbatim>\<open>address(replica, partition)\<close> and \<^verbatim>\<open>address(machine_id)\<close>; \<open>None\<close> is an access outside of the
  containers.\<close>

definition address_of :: "configuration \<Rightarrow> nat \<Rightarrow> nat \<Rightarrow> string option" where
  "address_of c r p =
     (if r < num_replicas c \<and> p < length (addresses (pc_replicas (proto_config c) ! r))
      then Some (addresses (pc_replicas (proto_config c) ! r) ! p) else None)"

definition address_of_machine :: "configuration \<Rightarrow> machine_id \<Rightarrow> string option" where
  "address_of_machine c m =
     (if 0 \<le> m \<and> nat m < length (all_addresses c) then Some (all_addresses c ! nat m) else None)"

text \<open>The arithmetic of \<^verbatim>\<open>MakeMachineId\<close> is unsigned, the result a signed \<^verbatim>\<open>MachineId\<close>.\<close>

definition MakeMachineId :: "configuration \<Rightarrow> nat \<Rightarrow> nat \<Rightarrow> machine_id" where
  "MakeMachineId c r p = int32_of_uint32 ((r * num_partitions c + p) mod 2 ^ 32)"

definition UnpackMachineId :: "configuration \<Rightarrow> machine_id \<Rightarrow> nat \<times> nat" where
  "UnpackMachineId c m =
     (let np = num_partitions c in (uint32_of_int m div np, uint32_of_int m mod np))"

definition local_machine_id :: "configuration \<Rightarrow> machine_id" where
  "local_machine_id c = MakeMachineId c (local_replica c) (local_partition c)"

definition all_machine_ids :: "configuration \<Rightarrow> machine_id list" where
  "all_machine_ids c =
     concat (map (\<lambda>r. map (\<lambda>p. MakeMachineId c r p) [0..<num_partitions c]) [0..<num_replicas c])"

fun parse_ranking :: "string list \<Rightarrow> int list result" where
  "parse_ranking [] = Inr []"
| "parse_ranking (s # ss) =
     (case stoll s of
        Inl e \<Rightarrow> Inl e
      | Inr v \<Rightarrow>
          if - (2 ^ 31) \<le> v \<and> v < 2 ^ 31
          then (case parse_ranking ss of Inl e \<Rightarrow> Inl e | Inr vs \<Rightarrow> Inr (v # vs))
          else Inl (RuntimeError ''out_of_range''))"

definition distance_ranking_from :: "configuration \<Rightarrow> nat \<Rightarrow> int list result" where
  "distance_ranking_from c replica_id =
     (if replica_id < num_replicas c
      then parse_ranking (Split (distance_ranking (pc_replicas (proto_config c) ! replica_id)) '','')
      else Inl (UndefinedBehaviour ''replicas''))"

section \<open>What a constructed configuration satisfies\<close>

lemma scan_addresses_Some:
  "scan_addresses la r p as found = Some x \<Longrightarrow>
   found = Some x \<or> (\<exists>i < length as. x = (r, p + i) \<and> as ! i = la)"
proof (induction as arbitrary: p found)
  case (Cons a as)
  from Cons.prems have "scan_addresses la r (Suc p) as (if a = la then Some (r, p) else found) = Some x" by simp
  from Cons.IH [OF this] show ?case
  proof
    assume "\<exists>i < length as. x = (r, Suc p + i) \<and> as ! i = la"
    then obtain i where "i < length as" "x = (r, Suc p + i)" "as ! i = la" by blast
    then have "Suc i < length (a # as) \<and> x = (r, p + Suc i) \<and> (a # as) ! Suc i = la" by simp
    then show ?thesis by blast
  next
    assume "(if a = la then Some (r, p) else found) = Some x"
    then show ?thesis
      by (cases "a = la") (auto intro!: exI [of _ 0])
  qed
qed simp

lemma scan_replicas_Inr:
  assumes "scan_replicas la np r rcs addrs0 found0 = Inr (addrs, found)"
  shows "(\<forall>rc \<in> set rcs. length (addresses rc) = np) \<and> addrs = addrs0 @ concat (map addresses rcs) \<and>
    (\<forall>x. found = Some x \<longrightarrow> found0 = Some x \<or>
       (\<exists>i p. i < length rcs \<and> p < np \<and> x = (r + i, p) \<and> addresses (rcs ! i) ! p = la))"
  using assms
proof (induction rcs arbitrary: r addrs0 found0)
  case (Cons rc rcs)
  from Cons.prems have len: "length (addresses rc) = np"
    and rest: "scan_replicas la np (Suc r) rcs (addrs0 @ addresses rc)
      (scan_addresses la r 0 (addresses rc) found0) = Inr (addrs, found)" by (auto split: if_splits)
  note IH = Cons.IH [OF rest]
  have "found0 = Some x \<or> (\<exists>i p. i < length (rc # rcs) \<and> p < np \<and> x = (r + i, p) \<and> addresses ((rc # rcs) ! i) ! p = la)"
    if f: "found = Some x" for x
  proof -
    from IH f consider "scan_addresses la r 0 (addresses rc) found0 = Some x"
      | i p where "i < length rcs" "p < np" "x = (Suc r + i, p)" "addresses (rcs ! i) ! p = la" by blast
    then show ?thesis
    proof cases
      case 1
      from scan_addresses_Some [OF this] show ?thesis
      proof
        assume "\<exists>i < length (addresses rc). x = (r, 0 + i) \<and> addresses rc ! i = la"
        then obtain i where "i < np" "x = (r + 0, i)" "addresses ((rc # rcs) ! 0) ! i = la" using len by auto
        then show ?thesis by blast
      qed simp
    next
      case 2
      then have "Suc i < length (rc # rcs) \<and> p < np \<and> x = (r + Suc i, p) \<and> addresses ((rc # rcs) ! Suc i) ! p = la"
        by simp
      then show ?thesis by blast
    qed
  qed
  with IH len show ?case by auto
qed simp

lemma nth_concat_uniform:
  assumes "\<forall>x \<in> set xss. length x = n" "i < length xss" "j < n"
  shows "concat xss ! (i * n + j) = xss ! i ! j"
  using assms
proof (induction xss arbitrary: i)
  case (Cons xs xss)
  then show ?case by (cases i) (auto simp: nth_append)
qed simp

lemma length_concat_uniform: "\<forall>x \<in> set xss. length x = n \<Longrightarrow> length (concat xss) = length xss * n"
  by (induction xss) auto

definition config_ok :: "configuration \<Rightarrow> bool" where
  "config_ok c \<longleftrightarrow>
     (\<forall>rc \<in> set (pc_replicas (proto_config c)). length (addresses rc) = num_partitions c) \<and>
     all_addresses c = concat (map addresses (pc_replicas (proto_config c))) \<and>
     (local_address c \<noteq> [] \<longrightarrow> local_replica c < num_replicas c \<and> local_partition c < num_partitions c \<and>
        address_of c (local_replica c) (local_partition c) = Some (local_address c)) \<and>
     pc_replication_factor (proto_config c) \<le> num_replicas c \<and>
     0 < length (pc_broker_ports (proto_config c)) \<and>
     kBrokerChannel + length (pc_broker_ports (proto_config c)) \<le> kMaxChannel"

lemma Configuration_ok:
  assumes "Configuration pc la = Inr c"
  shows "config_ok c" "proto_config c = pc" "local_address c = la"
proof -
  from assms obtain addrs found where
    scan: "scan_replicas la (pc_num_partitions pc) 0 (pc_replicas pc) [] None = Inr (addrs, found)"
    and valid: "la = [] \<or> found \<noteq> None"
    and rf: "pc_replication_factor pc \<le> length (pc_replicas pc)"
    and br: "length (pc_broker_ports pc) \<le> kMaxChannel - kBrokerChannel" "0 < length (pc_broker_ports pc)"
    and c: "proto_config c = pc" "local_address c = la" "all_addresses c = addrs"
      "(local_replica c, local_partition c) = (case found of None \<Rightarrow> (0, 0) | Some x \<Rightarrow> x)"
    unfolding Configuration_def Let_def
    by (auto split: if_splits sum.splits prod.splits option.splits)
  note S = scan_replicas_Inr [OF scan]
  have "local_replica c < num_replicas c \<and> local_partition c < num_partitions c \<and>
      address_of c (local_replica c) (local_partition c) = Some la" if la: "la \<noteq> []"
  proof -
    obtain x where x: "found = Some x" using la valid by auto
    with S obtain i p where ip: "i < length (pc_replicas pc)" "p < pc_num_partitions pc" "x = (i, p)"
      "addresses (pc_replicas pc ! i) ! p = la" by auto
    moreover have "length (addresses (pc_replicas pc ! i)) = pc_num_partitions pc" using S ip(1) by simp
    ultimately show ?thesis
      using x c by (simp add: num_replicas_def num_partitions_def address_of_def)
  qed
  with S c rf br show "config_ok c"
    by (auto simp: config_ok_def num_partitions_def num_replicas_def kMaxChannel_def kBrokerChannel_def)
  show "proto_config c = pc" "local_address c = la" using c by simp_all
qed

text \<open>Machine identifiers are pairs of replica and partition, packed into one number.\<close>

lemma mult_add_less: "r < R \<Longrightarrow> p < P \<Longrightarrow> r * P + p < R * (P :: nat)"
proof -
  assume "r < R" "p < P"
  then have "r * P + p < r * P + P" by simp
  also have "\<dots> = Suc r * P" by simp
  also have "\<dots> \<le> R * P" using \<open>r < R\<close> by (intro mult_le_mono1) simp
  finally show ?thesis .
qed

lemma MakeMachineId_eq:
  assumes "r * num_partitions c + p < 2 ^ 31"
  shows "MakeMachineId c r p = int (r * num_partitions c + p)"
  using assms by (simp add: MakeMachineId_def int32_of_uint32_def)

lemma Unpack_MakeMachineId:
  assumes "p < num_partitions c" "r * num_partitions c + p < 2 ^ 31"
  shows "UnpackMachineId c (MakeMachineId c r p) = (r, p)"
proof -
  have "uint32_of_int (MakeMachineId c r p) = r * num_partitions c + p"
    unfolding MakeMachineId_eq [OF assms(2)] using assms(2) by (intro uint32_of_int_int) simp
  then show ?thesis using assms(1) by (simp add: UnpackMachineId_def Let_def)
qed

lemma address_of_MakeMachineId:
  assumes "config_ok c" "r < num_replicas c" "p < num_partitions c"
    and "num_replicas c * num_partitions c \<le> 2 ^ 31"
  shows "address_of_machine c (MakeMachineId c r p) = address_of c r p"
proof -
  define k where "k = r * num_partitions c + p"
  have lt: "k < num_replicas c * num_partitions c"
    unfolding k_def using assms(2,3) by (rule mult_add_less)
  then have m: "MakeMachineId c r p = int k"
    unfolding k_def using assms(4) by (intro MakeMachineId_eq) simp
  let ?xss = "map addresses (pc_replicas (proto_config c))"
  have u: "\<forall>x \<in> set ?xss. length x = num_partitions c" using assms(1) by (auto simp: config_ok_def)
  have "concat ?xss ! k = ?xss ! r ! p"
    unfolding k_def using u assms(2,3) by (intro nth_concat_uniform) (simp_all add: num_replicas_def)
  moreover have "length (concat ?xss) = num_replicas c * num_partitions c"
    using length_concat_uniform [OF u] by (simp add: num_replicas_def)
  moreover have "length (addresses (pc_replicas (proto_config c) ! r)) = num_partitions c"
    using assms(1,2) by (simp add: config_ok_def num_replicas_def)
  moreover have "all_addresses c = concat ?xss" using assms(1) by (simp add: config_ok_def)
  ultimately show ?thesis
    using assms(2,3) lt by (simp add: address_of_machine_def address_of_def m num_replicas_def)
qed

lemma all_machine_ids_eq:
  assumes "num_replicas c * num_partitions c \<le> 2 ^ 31"
  shows "all_machine_ids c = map int [0..<num_replicas c * num_partitions c]"
proof -
  have row: "map (MakeMachineId c r) [0..<num_partitions c] =
      map int [r * num_partitions c..<Suc r * num_partitions c]" if "r < num_replicas c" for r
  proof (intro nth_equalityI)
    fix i assume "i < length (map (MakeMachineId c r) [0..<num_partitions c])"
    then have i: "i < num_partitions c" by simp
    have "r * num_partitions c + i < 2 ^ 31" using mult_add_less [OF that i] assms by simp
    from MakeMachineId_eq [OF this] i
    show "map (MakeMachineId c r) [0..<num_partitions c] ! i = map int [r * num_partitions c..<Suc r * num_partitions c] ! i"
      by simp
  qed simp
  have "concat (map (\<lambda>r. map int [r * P..<Suc r * P]) [0..<R]) = map int [0..<R * P]" for R P
  proof (induction R)
    case (Suc R)
    have "[0..<Suc R * P] = [0..<R * P] @ [R * P..<Suc R * P]"
      using upt_add_eq_append [of 0 "R * P" P] by (simp add: add.commute)
    with Suc show ?case by simp
  qed simp
  moreover have "map (\<lambda>r. map (MakeMachineId c r) [0..<num_partitions c]) [0..<num_replicas c] =
      map (\<lambda>r. map int [r * num_partitions c..<Suc r * num_partitions c]) [0..<num_replicas c]"
    by (rule map_cong [OF refl], rule row) simp
  ultimately show ?thesis by (simp only: all_machine_ids_def)
qed

lemma parse_order_bounds:
  assumes "parse_order nr lr ss = Inr rs" "r \<in> set rs"
    and "\<forall>s \<in> set ss. \<forall>v. stoll s = Inr v \<longrightarrow> 0 \<le> v" "nr < 2 ^ 31"
  shows "r < nr \<and> r \<noteq> lr"
  using assms(1-3)
proof (induction ss arbitrary: rs)
  case (Cons s ss)
  from Cons.prems(1) obtain v rs' where v: "stoll s = Inr v" "v < int nr" "parse_order nr lr ss = Inr rs'"
    "rs = (if v \<noteq> int lr then uint32_of_int v # rs' else rs')" by (auto split: sum.splits if_splits)
  from Cons.prems(3) v(1) have "0 \<le> v" by simp
  then obtain n where n: "v = int n" by (metis nonneg_int_cases)
  then have "uint32_of_int v = n" using v(2) assms(4) by simp
  with Cons.IH [OF v(3)] Cons.prems(2,3) v n show ?case by (auto split: if_splits)
qed simp

end
