(* ===== verification/Sharder_Model.thy ===== *)
theory Sharder_Model
  imports Slog_Config
begin

text \<open>
  \<^verbatim>\<open>common/sharder.{h,cpp}\<close>, which maps keys to partitions, and the metadata initializers
  (\<^verbatim>\<open>storage/metadata_initializer.{h,cpp}\<close>, \<^verbatim>\<open>execution/tpcc/metadata_initializer.{h,cpp}\<close>), which map
  keys to home regions. The lemmas show that partitions are in range and that the two maps lay the
  keys out the way \<^verbatim>\<open>proto/configuration.proto\<close> documents.
\<close>

unbundle bit_operations_syntax

section \<open>Model\<close>

text \<open>A \<^verbatim>\<open>char\<close> is signed: \<^verbatim>\<open>hash ^= *it\<close> extends its sign to 64 bits.\<close>

definition sext64_char :: "char \<Rightarrow> nat" where
  "sext64_char c = (let b = of_char c in if b < 128 then b else 2 ^ 64 - 256 + b)"

fun FNVHash_loop :: "nat \<Rightarrow> string \<Rightarrow> nat" where
  "FNVHash_loop hash [] = hash"
| "FNVHash_loop hash (c # cs) =
     FNVHash_loop ((((hash * 0x01000193) mod 2 ^ 64) mod 2 ^ 32) XOR sext64_char c) cs"

definition FNVHash :: "string \<Rightarrow> nat" where
  "FNVHash s = FNVHash_loop 0x811c9dc5 s mod 2 ^ 32"

datatype sharder_kind =
    HashSharder nat    \<comment> \<open>\<^verbatim>\<open>partition_key_num_bytes_\<close>\<close>
  | SimpleSharder
  | TPCCSharder

record sharder =
  sh_kind :: sharder_kind
  sh_local_partition :: nat
  sh_num_partitions :: nat

definition MakeSharder :: "configuration \<Rightarrow> sharder" where
  "MakeSharder config =
     (let kind = (case pc_partitioning (proto_config config) of
                    SimplePartitioning _ _ \<Rightarrow> SimpleSharder
                  | TPCCPartitioning _ \<Rightarrow> TPCCSharder
                  | HashPartitioning n \<Rightarrow> HashSharder n
                  | NoPartitioning \<Rightarrow> HashSharder 0)
      in \<lparr>sh_kind = kind, sh_local_partition = local_partition config,
          sh_num_partitions = num_partitions config\<rparr>)"

definition HashSharder_compute_partition :: "nat \<Rightarrow> nat \<Rightarrow> key \<Rightarrow> nat" where
  "HashSharder_compute_partition num_bytes np k =
     FNVHash (if num_bytes \<ge> length k then k else take num_bytes k) mod np"

text \<open>The remainder of C++: the sign of the dividend.\<close>

definition c_rem :: "int \<Rightarrow> int \<Rightarrow> int" where
  "c_rem a b = sgn a * (\<bar>a\<bar> mod \<bar>b\<bar>)"

definition SimpleSharder_compute_partition :: "nat \<Rightarrow> key \<Rightarrow> nat result" where
  "SimpleSharder_compute_partition np k =
     (case stoll k of Inl e \<Rightarrow> Inl e | Inr v \<Rightarrow> Inr (uint32_of_int (c_rem v (int np))))"

text \<open>\<^verbatim>\<open>*reinterpret_cast<const uint32_t*>(key.data())\<close> on a little-endian machine.\<close>

definition le_uint32 :: "string \<Rightarrow> nat" where
  "le_uint32 s = of_char (s ! 0) + 256 * of_char (s ! 1) + 65536 * of_char (s ! 2) + 16777216 * of_char (s ! 3)"

definition TPCCSharder_compute_partition :: "nat \<Rightarrow> key \<Rightarrow> nat result" where
  "TPCCSharder_compute_partition np k =
     (if length k < 4 then Inl (UndefinedBehaviour ''key.data()'')
      else let w_id = int32_of_uint32 (le_uint32 k) in Inr (uint32_of_int (w_id - 1) mod np))"

definition compute_partition :: "sharder \<Rightarrow> key \<Rightarrow> nat result" where
  "compute_partition sh k =
     (if sh_num_partitions sh = 0 then Inl (UndefinedBehaviour ''division by zero'')
      else case sh_kind sh of
             HashSharder n \<Rightarrow> Inr (HashSharder_compute_partition n (sh_num_partitions sh) k)
           | SimpleSharder \<Rightarrow> SimpleSharder_compute_partition (sh_num_partitions sh) k
           | TPCCSharder \<Rightarrow> TPCCSharder_compute_partition (sh_num_partitions sh) k)"

definition is_local_key :: "sharder \<Rightarrow> key \<Rightarrow> bool result" where
  "is_local_key sh k = (case compute_partition sh k of
     Inl e \<Rightarrow> Inl e | Inr p \<Rightarrow> Inr (p = sh_local_partition sh))"

definition SimpleMetadataInitializer_Compute :: "nat \<Rightarrow> nat \<Rightarrow> key \<Rightarrow> metadata result" where
  "SimpleMetadataInitializer_Compute nr np k =
     (if nr = 0 \<or> np = 0 then Inl (UndefinedBehaviour ''division by zero'')
      else case stoull k of
             Inl e \<Rightarrow> Inl e
           | Inr v \<Rightarrow> Inr \<lparr>master = (v div np) mod nr, counter = 0\<rparr>)"

definition ConstantMetadataInitializer_Compute :: "nat \<Rightarrow> key \<Rightarrow> metadata" where
  "ConstantMetadataInitializer_Compute hm k = \<lparr>master = hm, counter = 0\<rparr>"

definition TPCCMetadataInitializer_Compute :: "nat \<Rightarrow> nat \<Rightarrow> key \<Rightarrow> metadata result" where
  "TPCCMetadataInitializer_Compute nr np k =
     (if length k < 4 then Inl (CheckFailed ''Invalid key'')
      else if nr = 0 \<or> np = 0 then Inl (UndefinedBehaviour ''division by zero'')
      else Inr \<lparr>master = (((le_uint32 k + (2 ^ 32 - 1)) mod 2 ^ 32) div np) mod nr, counter = 0\<rparr>)"

section \<open>Ranges\<close>

text \<open>A sharder whose arithmetic is 32-bit: the number of partitions is a \<^verbatim>\<open>uint32\<close>.\<close>

definition sharder_ok :: "sharder \<Rightarrow> bool" where
  "sharder_ok sh \<longleftrightarrow> 0 < sh_num_partitions sh \<and> sh_num_partitions sh < 2 ^ 32"

lemma c_rem_nonneg: "0 \<le> a \<Longrightarrow> 0 < b \<Longrightarrow> c_rem a b = a mod b"
  by (cases "a = 0") (simp_all add: c_rem_def)

lemma compute_partition_in_range:
  assumes "sharder_ok sh" "compute_partition sh k = Inr p"
    and "sh_kind sh = SimpleSharder \<Longrightarrow> \<forall>v. stoll k = Inr v \<longrightarrow> 0 \<le> v"
  shows "p < sh_num_partitions sh"
proof (cases "sh_kind sh")
  case (HashSharder n)
  with assms show ?thesis
    by (auto simp: compute_partition_def sharder_ok_def HashSharder_compute_partition_def)
next
  case SimpleSharder
  with assms(2) obtain v where v: "stoll k = Inr v" "p = uint32_of_int (c_rem v (int (sh_num_partitions sh)))"
    by (auto simp: compute_partition_def SimpleSharder_compute_partition_def split: if_splits sum.splits)
  then have "0 \<le> v" using assms(3) SimpleSharder by simp
  then obtain n where n: "v = int n" by (metis nonneg_int_cases)
  have lt: "n mod sh_num_partitions sh < sh_num_partitions sh" using assms(1) by (simp add: sharder_ok_def)
  moreover from lt assms(1) have "n mod sh_num_partitions sh < 2 ^ 32" unfolding sharder_ok_def by linarith
  ultimately show ?thesis
    using v(2) n assms(1) by (simp add: c_rem_nonneg sharder_ok_def flip: zmod_int)
next
  case TPCCSharder
  with assms show ?thesis
    by (auto simp: compute_partition_def sharder_ok_def TPCCSharder_compute_partition_def Let_def split: if_splits)
qed

section \<open>The layout of numeric keys and of warehouses\<close>

lemma simple_partition_of_number:
  assumes "0 < np" "np < 2 ^ 32" "n < 2 ^ 63"
  shows "SimpleSharder_compute_partition np (to_string n) = Inr (n mod np)"
proof -
  have "n mod np < 2 ^ 32" using assms(1,2) by (meson mod_less_divisor order.strict_trans)
  then show ?thesis
    using assms by (simp add: SimpleSharder_compute_partition_def stoll_to_string c_rem_nonneg flip: zmod_int)
qed

lemma simple_home_of_number:
  assumes "0 < np" "0 < nr" "n < 2 ^ 64"
  shows "SimpleMetadataInitializer_Compute nr np (to_string n) = Inr \<lparr>master = (n div np) mod nr, counter = 0\<rparr>"
  using assms by (simp add: SimpleMetadataInitializer_Compute_def stoull_to_string)

definition le_bytes32 :: "nat \<Rightarrow> string" where
  "le_bytes32 w = [char_of (w mod 256), char_of (w div 256 mod 256), char_of (w div 65536 mod 256),
     char_of (w div 16777216 mod 256)]"

lemma div_digit: "(w::nat) div a = w div a mod 256 + 256 * (w div (a * 256))"
  by (simp add: div_mult2_eq)

lemma four_digits:
  "w = a + 256 * b \<Longrightarrow> b = c + 256 * d \<Longrightarrow> d = e + 256 * f \<Longrightarrow>
   a + 256 * c + 65536 * e + 16777216 * f = (w::nat)"
  by simp

lemma le_uint32_bytes:
  assumes "w < 2 ^ 32"
  shows "le_uint32 (le_bytes32 w @ rest) = w"
proof -
  have mod256: "w div 16777216 mod 256 = w div 16777216" using assms by (simp add: mod_less)
  moreover have "w = w mod 256 + 256 * (w div 256)" using div_digit [of w 1] by simp
  moreover have "w div 256 = w div 256 mod 256 + 256 * (w div 65536)" using div_digit [of w 256] by simp
  moreover have "w div 65536 = w div 65536 mod 256 + 256 * (w div 16777216)" using div_digit [of w 65536] by simp
  ultimately have "w mod 256 + 256 * (w div 256 mod 256) + 65536 * (w div 65536 mod 256)
      + 16777216 * (w div 16777216 mod 256) = w" by (metis four_digits)
  then show ?thesis using mod256 by (simp add: le_uint32_def le_bytes32_def)
qed

lemma tpcc_partition_of_warehouse:
  assumes "0 < np" "np < 2 ^ 32" "1 \<le> w" "w < 2 ^ 31"
  shows "TPCCSharder_compute_partition np (le_bytes32 w @ rest) = Inr ((w - 1) mod np)"
proof -
  have len: "\<not> length (le_bytes32 w @ rest) < 4" by (simp add: le_bytes32_def)
  have "le_uint32 (le_bytes32 w @ rest) = w" using assms by (simp add: le_uint32_bytes)
  moreover have "uint32_of_int (int w - 1) = w - 1"
    using assms by (simp add: uint32_of_int_def nat_diff_distrib flip: of_nat_diff)
  ultimately show ?thesis
    unfolding TPCCSharder_compute_partition_def Let_def if_not_P [OF len]
    using assms by (simp add: int32_of_uint32_def)
qed

lemma tpcc_home_of_warehouse:
  assumes "0 < np" "0 < nr" "1 \<le> w" "w < 2 ^ 32"
  shows "TPCCMetadataInitializer_Compute nr np (le_bytes32 w @ rest)
           = Inr \<lparr>master = ((w - 1) div np) mod nr, counter = 0\<rparr>"
proof -
  have len: "\<not> length (le_bytes32 w @ rest) < 4" by (simp add: le_bytes32_def)
  have "w + (2 ^ 32 - 1) = (w - 1) + 2 ^ 32" using assms(3) by simp
  then have "(w + (2 ^ 32 - 1)) mod 2 ^ 32 = (w - 1) mod 2 ^ 32" by (metis mod_add_self2)
  also have "\<dots> = w - 1" using assms by simp
  finally have "(w + (2 ^ 32 - 1)) mod 2 ^ 32 = w - 1" .
  then show ?thesis
    unfolding TPCCMetadataInitializer_Compute_def if_not_P [OF len] le_uint32_bytes [OF assms(4)]
    using assms(1,2) by simp
qed

text \<open>Every slot of the layout is used: the numbers \<^term>\<open>p + np * (r + nr * j)\<close> are exactly those of
  partition \<^term>\<open>p\<close> homed at region \<^term>\<open>r\<close>.\<close>

lemma simple_layout:
  assumes "p < np" "r < (nr::nat)"
  shows "(n mod np = p \<and> (n div np) mod nr = r) \<longleftrightarrow> (\<exists>j. n = p + np * (r + nr * j))"
proof
  assume h: "n mod np = p \<and> (n div np) mod nr = r"
  have "n = n mod np + np * (n div np)" "n div np = (n div np) mod nr + nr * ((n div np) div nr)" by simp_all
  with h show "\<exists>j. n = p + np * (r + nr * j)" by metis
qed (use assms in auto)

end
