(* ===== verification/Data_Properties.thy ===== *)
theory Data_Properties
  imports Batch_Log Local_Log Sharder_Model
begin

text \<open>
  Properties of the logs of the interleaver, of the string utilities, of the configuration and of
  the layout of keys over partitions and regions.
\<close>

section \<open>Logs\<close>

text \<open>C9. However the data, the slots and the replication acknowledgements of the batches of a
  region arrive, and whenever the log is drained in between, the \<^verbatim>\<open>BatchLog\<close> gives out exactly the
  batches of slots 0, 1, 2, ... up to the first slot that is unassigned, misses its data or is not
  yet replicated often enough.\<close>

theorem batch_log_emits_ready_prefix:
  assumes "bl_legal (inputs as)"
  shows "\<exists>n. ol_outputs bl_step BatchLog_drain (as @ [Drain]) BatchLog = Inr (emitted (bl_item (inputs as)) 0 n) \<and>
    emit_prefix (bl_item (inputs as)) n"
  using assms by (rule bl.drained_outputs)

definition sample_batch :: "batch_id \<Rightarrow> batch" where
  "sample_batch i = \<lparr>b_id = i, b_transactions = [], b_type = SINGLE_HOME, b_events = []\<rparr>"

definition sample_batch_actions :: "batch_log_op log_action list" where
  "sample_batch_actions =
     [Input (BL_Ack 900), Input (BL_AddSlot 1 100 0), Drain, Input (BL_AddBatch (sample_batch 900)),
      Input (BL_AddBatch (sample_batch 100)), Input (BL_AddSlot 0 900 1), Drain, Input (BL_AddSlot 2 700 1),
      Input (BL_AddBatch (sample_batch 700))]"

theorem batch_log_emits_ready_prefix_witness:
  "ol_outputs bl_step BatchLog_drain (sample_batch_actions @ [Drain]) BatchLog
     = Inr [(0, sample_batch 900), (1, sample_batch 100)] \<and>
   (\<exists>n. ol_outputs bl_step BatchLog_drain (sample_batch_actions @ [Drain]) BatchLog
          = Inr (emitted (bl_item (inputs sample_batch_actions)) 0 n) \<and>
        emit_prefix (bl_item (inputs sample_batch_actions)) n)"
proof
  show "ol_outputs bl_step BatchLog_drain (sample_batch_actions @ [Drain]) BatchLog
     = Inr [(0, sample_batch 900), (1, sample_batch 100)]" by code_simp
  show "\<exists>n. ol_outputs bl_step BatchLog_drain (sample_batch_actions @ [Drain]) BatchLog
          = Inr (emitted (bl_item (inputs sample_batch_actions)) 0 n) \<and>
        emit_prefix (bl_item (inputs sample_batch_actions)) n"
    by (rule batch_log_emits_ready_prefix) code_simp
qed

text \<open>C28. The order of a region's batches is a function of the batch ids of the queues and of the
  slots alone: two \<^verbatim>\<open>LocalLog\<close>s that received the same inputs in different orders, and were
  drained at different moments, give out the same sequence of (slot, batch, leader).\<close>

theorem local_log_order_independent:
  assumes "ll_legal (inputs as)" "mset (inputs as) = mset (inputs bs)"
  shows "ol_outputs ll_step LocalLog_drain (as @ [Drain]) LocalLog = ol_outputs ll_step LocalLog_drain (bs @ [Drain]) LocalLog"
  using assms by (rule ll.order_independent)

theorem local_log_order_independent_witness:
  "ol_outputs ll_step LocalLog_drain
     ([Input (LL_AddSlot 1 0 5), Input (LL_AddBatchId 0 0 100), Input (LL_AddBatchId 1 0 200), Drain, Input (LL_AddSlot 0 1 4)]
      @ [Drain]) LocalLog = Inr [(0, 200, 4), (1, 100, 5)]"
proof -
  have l: "ll_legal (inputs [Input (LL_AddSlot 0 1 4), Input (LL_AddSlot 1 0 5), Input (LL_AddBatchId 1 0 200),
      Input (LL_AddBatchId 0 0 100)])" by code_simp
  have m: "mset (inputs [Input (LL_AddSlot 0 1 4), Input (LL_AddSlot 1 0 5), Input (LL_AddBatchId 1 0 200),
      Input (LL_AddBatchId 0 0 100)]) = mset (inputs [Input (LL_AddSlot 1 0 5), Input (LL_AddBatchId 0 0 100),
        Input (LL_AddBatchId 1 0 200), Drain, Input (LL_AddSlot 0 1 4)])" by simp
  have r: "ol_outputs ll_step LocalLog_drain ([Input (LL_AddSlot 0 1 4), Input (LL_AddSlot 1 0 5),
      Input (LL_AddBatchId 1 0 200), Input (LL_AddBatchId 0 0 100)] @ [Drain]) LocalLog = Inr [(0, 200, 4), (1, 100, 5)]"
    by code_simp
  show ?thesis by (rule trans [OF local_log_order_independent [OF l m, symmetric] r])
qed

section \<open>Strings\<close>

text \<open>\<^verbatim>\<open>Split\<close> inverts \<^verbatim>\<open>Join\<close>: parts that are non-empty and free of the delimiter come back
  unchanged.\<close>

theorem Split_Join_roundtrip:
  assumes "\<forall>p \<in> set ps. p \<noteq> [] \<and> d \<notin> set p"
  shows "Split (Join ps d) [d] = ps"
  using tokens_of_Join_loop(1) [OF assms] by (simp add: Split_eq Join_def)

theorem Split_Join_roundtrip_witness:
  "Split (Join [''SET'', ''A'', ''newA''] CHR '' '') '' '' = [''SET'', ''A'', ''newA'']"
  by (rule Split_Join_roundtrip) simp

text \<open>\<^verbatim>\<open>Split\<close> loses nothing but delimiters and never returns an empty token.\<close>

theorem Split_tokens:
  "concat (Split str delims) = filter (\<lambda>c. c \<notin> set delims) str \<and>
   list_all (\<lambda>t. t \<noteq> [] \<and> list_all (\<lambda>c. c \<notin> set delims) t) (Split str delims)"
  using tokens_of_clean [of _ "set delims" str]
  by (fastforce simp: Split_eq concat_tokens_of list_all_iff)

section \<open>Configuration\<close>

text \<open>C33. In a configuration that the constructor accepts, machine ids are a bijective packing of
  (replica, partition): unpacking gives the pair back, and the address looked up by machine id is
  the address of that pair.\<close>

theorem machine_id_roundtrip:
  assumes "Configuration pc la = Inr c" "r < num_replicas c" "p < num_partitions c"
    and "num_replicas c * num_partitions c \<le> 2 ^ 31"
  shows "UnpackMachineId c (MakeMachineId c r p) = (r, p) \<and>
    address_of_machine c (MakeMachineId c r p) = address_of c r p \<and> address_of c r p \<noteq> None"
proof -
  have ok: "config_ok c" using Configuration_ok(1) [OF assms(1)] .
  have "r * num_partitions c + p < 2 ^ 31" using mult_add_less [OF assms(2,3)] assms(4) by simp
  then have "UnpackMachineId c (MakeMachineId c r p) = (r, p)" by (rule Unpack_MakeMachineId [OF assms(3)])
  moreover have "length (addresses (pc_replicas (proto_config c) ! r)) = num_partitions c"
    using ok assms(2) by (simp add: config_ok_def num_replicas_def)
  ultimately show ?thesis
    using address_of_MakeMachineId [OF ok assms(2-4)] assms(2,3) by (simp add: address_of_def)
qed

definition sample_proto_config :: proto_config where
  "sample_proto_config =
     \<lparr>pc_protocol = ''tcp'',
      pc_replicas = [\<lparr>addresses = [''10.0.0.1'', ''10.0.0.2''], distance_ranking = ''1''\<rparr>,
                     \<lparr>addresses = [''10.1.0.1'', ''10.1.0.2''], distance_ranking = ''0''\<rparr>],
      pc_broker_ports = [2020], pc_server_port = 5051, pc_forwarder_port = 2022, pc_sequencer_port = 2024,
      pc_num_partitions = 2, pc_partitioning = SimplePartitioning 1000 8, pc_num_workers = 3,
      pc_mh_orderer_batch_duration = 5, pc_forwarder_batch_duration = 5, pc_sequencer_batch_duration = 5,
      pc_sequencer_batch_size = 0, pc_sequencer_rrr = False, pc_replication_factor = 2,
      pc_replication_order = [''1'', ''0''], pc_delay_pct = 0, pc_delay_amount_ms = 0, pc_enabled_events = [],
      pc_bypass_mh_orderer = False, pc_cpu_pinnings = [], pc_return_dummy_txn = False, pc_recv_retries = 0,
      pc_execution_type = KEY_VALUE, pc_synchronized_batching = False, pc_sample_rate = 10,
      pc_broker_rcvbuf = 0, pc_long_sender_sndbuf = 0\<rparr>"

definition sample_config :: configuration where
  "sample_config =
     \<lparr>proto_config = sample_proto_config, local_address = ''10.1.0.1'', local_replica = 1, local_partition = 0,
      all_addresses = [''10.0.0.1'', ''10.0.0.2'', ''10.1.0.1'', ''10.1.0.2''], replication_order = [0]\<rparr>"

lemma sample_config: "Configuration sample_proto_config ''10.1.0.1'' = Inr sample_config"
  by code_simp

theorem machine_id_roundtrip_witness:
  "UnpackMachineId sample_config (MakeMachineId sample_config 1 1) = (1, 1) \<and>
   address_of_machine sample_config (MakeMachineId sample_config 1 1) = address_of sample_config 1 1 \<and>
   address_of sample_config 1 1 \<noteq> None"
  by (rule machine_id_roundtrip [OF sample_config]) code_simp+

text \<open>A configuration that is accepted for a local address locates it: the local replica and
  partition are in range and their address is the local one. The number of broker channels and the
  replication factor are within the limits the constructor checks.\<close>

theorem configuration_locates_machine:
  assumes "Configuration pc la = Inr c" "la \<noteq> []"
  shows "local_replica c < num_replicas c \<and> local_partition c < num_partitions c \<and>
    address_of c (local_replica c) (local_partition c) = Some la \<and>
    1 \<le> replication_factor c \<and> replication_factor c \<le> num_replicas c \<and>
    kBrokerChannel + length (pc_broker_ports pc) \<le> kMaxChannel"
  using Configuration_ok [OF assms(1)] assms(2)
  by (auto simp: config_ok_def replication_factor_def)

theorem configuration_locates_machine_witness:
  "local_replica sample_config < num_replicas sample_config \<and> local_partition sample_config < num_partitions sample_config \<and>
   address_of sample_config (local_replica sample_config) (local_partition sample_config) = Some ''10.1.0.1'' \<and>
   1 \<le> replication_factor sample_config \<and> replication_factor sample_config \<le> num_replicas sample_config \<and>
   kBrokerChannel + length (pc_broker_ports sample_proto_config) \<le> kMaxChannel"
  by (rule configuration_locates_machine [OF sample_config]) simp

section \<open>Layout of the keys\<close>

text \<open>C34. A sharder sends every key to an existing partition, provided that under simple
  partitioning the key is not a negative number.\<close>

theorem partition_in_range:
  assumes "sharder_ok sh" "compute_partition sh k = Inr p"
    and "sh_kind sh = SimpleSharder \<longrightarrow> (\<forall>v. stoll k = Inr v \<longrightarrow> 0 \<le> v)"
  shows "p < sh_num_partitions sh"
  using assms by (intro compute_partition_in_range) auto

theorem partition_in_range_witness:
  "compute_partition (MakeSharder sample_config) ''17'' = Inr 1 \<and> (1::nat) < sh_num_partitions (MakeSharder sample_config)"
proof
  show p: "compute_partition (MakeSharder sample_config) ''17'' = Inr 1" by code_simp
  have "stoll ''17'' = Inr 17" by code_simp
  then show "(1::nat) < sh_num_partitions (MakeSharder sample_config)"
    by (intro partition_in_range [OF _ p]) (code_simp, simp)
qed

text \<open>The layout of \<^verbatim>\<open>proto/configuration.proto\<close>: under simple partitioning the numeric keys
  of partition \<open>p\<close> homed at region \<open>r\<close> are exactly the numbers \<open>p + np * (r + nr * j)\<close>, so
  sharder and metadata initializer agree on one layout.\<close>

theorem simple_partitioning_layout:
  assumes "p < np" "r < nr" "np < 2 ^ 32" "n < 2 ^ 63"
  shows "SimpleSharder_compute_partition np (to_string n) = Inr p \<and>
      SimpleMetadataInitializer_Compute nr np (to_string n) = Inr \<lparr>master = r, counter = 0\<rparr>
    \<longleftrightarrow> (\<exists>j. n = p + np * (r + nr * j))"
proof -
  have pos: "0 < np" "0 < nr" using assms(1,2) by simp_all
  have "n < 2 ^ 64" using assms(4) by simp
  from simple_home_of_number [OF pos this] simple_partition_of_number [OF pos(1) assms(3,4)]
  show ?thesis using simple_layout [OF assms(1,2), of n] by simp
qed

theorem simple_partitioning_layout_witness:
  "SimpleSharder_compute_partition 2 (to_string 11) = Inr 1 \<and>
   SimpleMetadataInitializer_Compute 3 2 (to_string 11) = Inr \<lparr>master = 2, counter = 0\<rparr>"
proof -
  have "(11::nat) = 1 + 2 * (2 + 3 * 1)" by simp
  then have "\<exists>j. (11::nat) = 1 + 2 * (2 + 3 * j)" by blast
  then show ?thesis by (subst simple_partitioning_layout) simp_all
qed

text \<open>All keys of one warehouse live in one partition and are homed at one region, and both
  follow from the warehouse number alone.\<close>

theorem tpcc_warehouse_layout:
  assumes "0 < np" "np < 2 ^ 32" "0 < nr" "1 \<le> w" "w < 2 ^ 31"
  shows "TPCCSharder_compute_partition np (le_bytes32 w @ rest) = Inr ((w - 1) mod np) \<and>
    TPCCMetadataInitializer_Compute nr np (le_bytes32 w @ rest) = Inr \<lparr>master = ((w - 1) div np) mod nr, counter = 0\<rparr>"
  using tpcc_partition_of_warehouse [OF assms(1,2,4,5)] tpcc_home_of_warehouse [OF assms(1,3,4)] assms(5) by simp

theorem tpcc_warehouse_layout_witness:
  "TPCCSharder_compute_partition 2 (le_bytes32 4 @ ''district'') = Inr ((4 - 1) mod 2) \<and>
    TPCCMetadataInitializer_Compute 3 2 (le_bytes32 4 @ ''district'') = Inr \<lparr>master = ((4 - 1) div 2) mod 3, counter = 0\<rparr>"
  by (rule tpcc_warehouse_layout) simp_all

text \<open>A negative number is a valid key for \<^verbatim>\<open>SimpleSharder\<close> but has no partition: the signed
  remainder becomes a huge unsigned number.\<close>

theorem simple_sharder_negative_key:
  "SimpleSharder_compute_partition 2 ''-1'' = Inr (2 ^ 32 - 1)"
  by code_simp

end
