(* ===== verification/Proto_Utils.thy ===== *)
theory Proto_Utils
  imports Sharder_Model Batch_Log
begin

text \<open>
  \<^verbatim>\<open>common/proto_utils.{h,cpp}\<close>: building transactions, classifying them as single-home or multi-home,
  cutting them into one lock-only transaction per region and one sub-transaction per partition, and
  merging the results of sub-transactions. The protocol for remastering is chosen when the program is
  compiled (\<^verbatim>\<open>REMASTER_PROTOCOL_*\<close>); here it is an argument.
\<close>

section \<open>Model\<close>

datatype remaster_protocol = SIMPLE | PER_KEY | COUNTERLESS

record key_metadata =
  km_key :: key
  km_type :: key_type
  km_metadata :: "metadata option"

definition has_metadata :: "key_value \<Rightarrow> bool" where
  "has_metadata kv \<longleftrightarrow> ve_metadata (kv_entry kv) \<noteq> None"

definition set_internal :: "(transaction_internal \<Rightarrow> transaction_internal) \<Rightarrow> transaction \<Rightarrow> transaction" where
  "set_internal f txn = txn\<lparr>internal := f (internal txn)\<rparr>"

definition SetTransactionType :: "remaster_protocol \<Rightarrow> transaction \<Rightarrow> transaction" where
  "SetTransactionType rp txn =
     (let master_metadata_is_complete = (keys txn \<noteq> [] \<and> list_all has_metadata (keys txn))
      in if \<not> master_metadata_is_complete then set_internal (\<lambda>i. i\<lparr>txn_type := UNKNOWN\<rparr>) txn
         else
           let hm = kv_master (hd (keys txn));
               is_single_home = list_all (\<lambda>kv. kv_master kv = hm) (keys txn);
               is_single_home = (if rp = COUNTERLESS \<and> is_remaster (program txn) then False else is_single_home)
           in if is_single_home
              then set_internal (\<lambda>i. i\<lparr>txn_type := SINGLE_HOME, home := int32_of_uint32 hm\<rparr>) txn
              else set_internal (\<lambda>i. i\<lparr>txn_type := MULTI_HOME_OR_LOCK_ONLY, home := - 1\<rparr>) txn)"

fun remaster_new_master :: "program \<Rightarrow> nat" where
  "remaster_new_master (Remaster m _) = m"
| "remaster_new_master _ = 0"

definition GenerateLockOnlyTxn :: "remaster_protocol \<Rightarrow> transaction \<Rightarrow> nat \<Rightarrow> transaction" where
  "GenerateLockOnlyTxn rp txn lo_master =
     (let lock_only_txn = set_internal (\<lambda>i. i\<lparr>home := int32_of_uint32 lo_master\<rparr>) txn
      in if rp = COUNTERLESS \<and> is_remaster (program txn) \<and> remaster_new_master (program txn) = lo_master
         then lock_only_txn\<lparr>program := Remaster lo_master True\<rparr>
         else lock_only_txn)"

text \<open>\<^verbatim>\<open>vector<bool>\<close> of the involved replicas: grown on demand, then read in order.\<close>

definition mark_replica :: "nat \<Rightarrow> bool list \<Rightarrow> bool list" where
  "mark_replica m v = (if m \<ge> length v then v @ replicate (m + 1 - length v) False else v)[m := True]"

definition marked :: "bool list \<Rightarrow> nat list" where
  "marked v = filter (\<lambda>r. v ! r) [0..<length v]"

fun partition_keys ::
  "sharder \<Rightarrow> nat \<Rightarrow> int \<Rightarrow> key_value list \<Rightarrow> bool list \<Rightarrow> bool \<Rightarrow> (key_value list \<times> bool list \<times> bool) result" where
  "partition_keys sh p hm [] involved is_redundant = Inr ([], involved, is_redundant)"
| "partition_keys sh p hm (kv # kvs) involved is_redundant =
     (case compute_partition sh (kv_key kv) of
        Inl e \<Rightarrow> Inl e
      | Inr p' \<Rightarrow>
          if p' \<noteq> p then partition_keys sh p hm kvs involved is_redundant
          else if kv_master kv + 1 = 2 ^ 32 then Inl (UndefinedBehaviour ''involved_replicas'')
          else case partition_keys sh p hm kvs (mark_replica (kv_master kv) involved)
                      (is_redundant \<and> int32_of_uint32 (kv_master kv) \<noteq> hm) of
                 Inl e \<Rightarrow> Inl e
               | Inr (kept, v, r) \<Rightarrow> Inr (kv # kept, v, r))"

definition GeneratePartitionedTxn :: "sharder \<Rightarrow> transaction \<Rightarrow> nat \<Rightarrow> transaction option result" where
  "GeneratePartitionedTxn sh txn p =
     (case partition_keys sh p (home (internal txn)) (keys txn) (replicate 8 False) (\<not> is_remaster (program txn)) of
        Inl e \<Rightarrow> Inl e
      | Inr (kept, involved, is_redundant) \<Rightarrow>
          if kept = [] \<or> is_redundant then Inr None
          else if txn_type (internal txn) = MULTI_HOME_OR_LOCK_ONLY
          then Inr (Some (set_internal (\<lambda>i. i\<lparr>involved_replicas := marked involved\<rparr>) (txn\<lparr>keys := kept\<rparr>)))
          else Inr (Some (txn\<lparr>keys := kept\<rparr>)))"

definition PopulateInvolvedReplicas :: "remaster_protocol \<Rightarrow> transaction \<Rightarrow> transaction result" where
  "PopulateInvolvedReplicas rp txn =
     (case txn_type (internal txn) of
        UNKNOWN \<Rightarrow> Inr txn
      | SINGLE_HOME \<Rightarrow>
          (case keys txn of
             [] \<Rightarrow> Inl (UndefinedBehaviour ''keys().begin()'')
           | kv # _ \<Rightarrow>
               if \<not> has_metadata kv then Inl (CheckFailed ''has_metadata'')
               else Inr (set_internal (\<lambda>i. i\<lparr>involved_replicas := [kv_master kv]\<rparr>) txn))
      | MULTI_HOME_OR_LOCK_ONLY \<Rightarrow>
          if \<not> list_all has_metadata (keys txn) then Inl (CheckFailed ''has_metadata'')
          else
            let rs = map kv_master (keys txn);
                rs = (if rp = COUNTERLESS \<and> is_remaster (program txn)
                      then rs @ [remaster_new_master (program txn)] else rs)
            in Inr (set_internal (\<lambda>i. i\<lparr>involved_replicas := involved_replicas i @ remdups_adj (sort rs)\<rparr>) txn))"

fun mark_partitions :: "sharder \<Rightarrow> key_value list \<Rightarrow> bool list \<Rightarrow> bool list \<Rightarrow> (bool list \<times> bool list) result" where
  "mark_partitions sh [] involved act = Inr (involved, act)"
| "mark_partitions sh (kv # kvs) involved act =
     (case compute_partition sh (kv_key kv) of
        Inl e \<Rightarrow> Inl e
      | Inr p \<Rightarrow>
          if \<not> p < length involved then Inl (UndefinedBehaviour ''involved_partitions'')
          else mark_partitions sh kvs (involved[p := True]) (if kv_type kv = WRITE then act[p := True] else act))"

definition PopulateInvolvedPartitions :: "sharder \<Rightarrow> transaction \<Rightarrow> transaction result" where
  "PopulateInvolvedPartitions sh txn =
     (let np = sh_num_partitions sh
      in case mark_partitions sh (keys txn) (replicate np False) (replicate np False) of
           Inl e \<Rightarrow> Inl e
         | Inr (involved, act) \<Rightarrow>
             Inr (set_internal (\<lambda>i. i\<lparr>involved_partitions := involved_partitions i @ marked involved,
                                      active_partitions := active_partitions i @ marked act\<rparr>) txn))"

definition MakeTransaction ::
  "remaster_protocol \<Rightarrow> key_metadata list \<Rightarrow> string list list \<Rightarrow> int option \<Rightarrow> machine_id \<Rightarrow> transaction result" where
  "MakeTransaction rp key_metadatas code remaster coord =
     (let kvs = map (\<lambda>km. \<lparr>kv_key = km_key km,
                  kv_entry = \<lparr>ve_value = [], ve_new_value = [], ve_type = km_type km, ve_metadata = km_metadata km\<rparr>\<rparr>)
                  key_metadatas;
          prog = (case remaster of Some m \<Rightarrow> Remaster (uint32_of_int m) False
                  | None \<Rightarrow> if code = [] then NoProgram else Code code);
          intern = \<lparr>txn_id = 1000, txn_type = UNKNOWN, home = 0, coordinating_server = uint32_of_int coord,
                 sequencer_delay_ms = 0, involved_partitions = [], active_partitions = [], involved_replicas = [],
                 events = [], global_log_positions = []\<rparr>;
          txn = \<lparr>internal = intern, program = prog, keys = kvs, deleted_keys = [], status = NOT_STARTED,
                 abort_reason = []\<rparr>
      in PopulateInvolvedReplicas rp (SetTransactionType rp txn))"

definition MergeTransaction :: "transaction \<Rightarrow> transaction \<Rightarrow> transaction result" where
  "MergeTransaction txn other =
     (if tid txn \<noteq> tid other then Inl (RuntimeError ''Cannot merge transactions with different IDs'')
      else if txn_type (internal txn) \<noteq> txn_type (internal other)
      then Inl (RuntimeError ''Cannot merge transactions with different types'')
      else
        let txn1 = (if status other = ABORTED then txn\<lparr>status := ABORTED, abort_reason := abort_reason other\<rparr>
                    else if status txn \<noteq> ABORTED
                    then let existing_keys = map kv_key (keys txn)
                         in txn\<lparr>keys := keys txn @ filter (\<lambda>kv. kv_key kv \<notin> set existing_keys) (keys other)\<rparr>
                    else txn)
        in Inr (set_internal (\<lambda>i. i\<lparr>events := events i @ events (internal other),
                   global_log_positions := global_log_positions i @ [- 1] @ global_log_positions (internal other),
                   involved_replicas := remdups_adj (sort (involved_replicas i @ involved_replicas (internal other)))\<rparr>)
                 txn1))"

text \<open>\<^verbatim>\<open>Unbatch\<close> releases the last transaction first and fills the buffer from its end.\<close>

fun Unbatch_loop :: "txn_event list \<Rightarrow> transaction list \<Rightarrow> transaction list \<Rightarrow> transaction list" where
  "Unbatch_loop evs [] buffer = buffer"
| "Unbatch_loop evs (t # ts) buffer =
     Unbatch_loop evs ts (set_internal (\<lambda>i. i\<lparr>events := events i @ evs\<rparr>) t # buffer)"

definition Unbatch :: "batch \<Rightarrow> transaction list" where
  "Unbatch b = Unbatch_loop (b_events b) (rev (b_transactions b)) []"

subsection \<open>Comparison and printing\<close>

definition metadata_eq :: "metadata \<Rightarrow> metadata \<Rightarrow> bool" where
  "metadata_eq m1 m2 \<longleftrightarrow> master m1 = master m2 \<and> counter m1 = counter m2"

definition entry_metadata :: "value_entry \<Rightarrow> metadata" where
  "entry_metadata v = (case ve_metadata v of None \<Rightarrow> \<lparr>master = 0, counter = 0\<rparr> | Some m \<Rightarrow> m)"

definition value_entry_eq :: "value_entry \<Rightarrow> value_entry \<Rightarrow> bool" where
  "value_entry_eq v1 v2 \<longleftrightarrow> ve_value v1 = ve_value v2 \<and> ve_new_value v1 = ve_new_value v2 \<and> ve_type v1 = ve_type v2 \<and>
     metadata_eq (entry_metadata v1) (entry_metadata v2)"

definition key_value_eq :: "key_value \<Rightarrow> key_value \<Rightarrow> bool" where
  "key_value_eq a b \<longleftrightarrow> kv_key a = kv_key b \<and> value_entry_eq (kv_entry a) (kv_entry b)"

fun program_case :: "program \<Rightarrow> nat" where
  "program_case NoProgram = 0"
| "program_case (Code _) = 2"
| "program_case (Remaster _ _) = 3"

definition transaction_eq :: "transaction \<Rightarrow> transaction \<Rightarrow> bool" where
  "transaction_eq a b \<longleftrightarrow>
     status a = status b \<and> length (keys a) = length (keys b) \<and> program_case (program a) = program_case (program b) \<and>
     abort_reason a = abort_reason b \<and> tid a = tid b \<and> txn_type (internal a) = txn_type (internal b) \<and>
     list_all (\<lambda>i. key_value_eq (keys a ! i) (keys b ! i)) [0..<length (keys a)]"

definition isprint :: "char \<Rightarrow> bool" where
  "isprint c \<longleftrightarrow> 32 \<le> (of_char c :: nat) \<and> of_char c \<le> (126 :: nat)"

definition hex_digit :: "nat \<Rightarrow> char" where
  "hex_digit d = (if d < 10 then digit_char d else char_of (87 + d))"

definition hex_byte :: "nat \<Rightarrow> string" where
  "hex_byte b = (if b < 16 then [hex_digit b] else [hex_digit (b div 16), hex_digit (b mod 16)])"

definition ToReadable :: "string \<Rightarrow> string" where
  "ToReadable s = concat (map (\<lambda>c. if isprint c then [c] else CHR 0x5C # hex_byte (of_char c)) s)"

definition nl :: string where
  "nl = [CHR 0x0A]"

definition tab :: string where
  "tab = [CHR 0x09]"

fun status_name :: "transaction_status \<Rightarrow> string" where
  "status_name NOT_STARTED = ''NOT_STARTED''"
| "status_name COMMITTED = ''COMMITTED''"
| "status_name ABORTED = ''ABORTED''"

fun type_name :: "transaction_type \<Rightarrow> string" where
  "type_name UNKNOWN = ''UNKNOWN''"
| "type_name SINGLE_HOME = ''SINGLE_HOME''"
| "type_name MULTI_HOME_OR_LOCK_ONLY = ''MULTI_HOME_OR_LOCK_ONLY''"

fun key_type_name :: "key_type \<Rightarrow> string" where
  "key_type_name READ = ''READ''"
| "key_type_name WRITE = ''WRITE''"

definition print_procedures :: "string list list \<Rightarrow> string" where
  "print_procedures ps = concat (map (\<lambda>p. concat (map (\<lambda>arg. arg @ '' '') p) @ nl) ps)"

definition print_metadata :: "metadata \<Rightarrow> string" where
  "print_metadata m = ''('' @ to_string (master m) @ '', '' @ to_string (counter m) @ '')''"

definition print_key_value :: "key_value \<Rightarrow> string" where
  "print_key_value kv =
     ''['' @ key_type_name (kv_type kv) @ ''] '' @ ToReadable (kv_key kv) @ nl @
     tab @ ''Value: '' @ ToReadable (ve_value (kv_entry kv)) @ nl @
     (if kv_type kv = WRITE then tab @ ''New value: '' @ ToReadable (ve_new_value (kv_entry kv)) @ nl else []) @
     tab @ ''Metadata: '' @ print_metadata (entry_metadata (kv_entry kv)) @ nl"

definition print_transaction :: "transaction \<Rightarrow> string" where
  "print_transaction txn =
     ''Transaction ID: '' @ to_string (tid txn) @ nl @
     ''Status: '' @ status_name (status txn) @ nl @
     (if status txn = ABORTED then ''Abort reason: '' @ abort_reason txn @ nl else []) @
     ''Key set:'' @ nl @ concat (map print_key_value (keys txn)) @
     (if deleted_keys txn \<noteq> []
      then ''Deleted keys: '' @ concat (map (\<lambda>k. tab @ ToReadable k @ nl) (deleted_keys txn)) else []) @
     ''Type: '' @ type_name (txn_type (internal txn)) @ nl @
     (case program txn of
        Code ps \<Rightarrow> ''Code:'' @ nl @ print_procedures ps
      | p \<Rightarrow> ''New master: '' @ to_string (remaster_new_master p) @ nl) @
     ''Coordinating server: '' @ to_string (coordinating_server (internal txn)) @ nl @
     ''Involved partitions: '' @ concat (map (\<lambda>p. to_string p @ '' '') (involved_partitions (internal txn))) @ nl @
     ''Involved replicas: '' @ concat (map (\<lambda>r. to_string r @ '' '') (involved_replicas (internal txn))) @ nl"

section \<open>Marked replicas and partitions\<close>

lemma set_internal_simps [simp]:
  "internal (set_internal f t) = f (internal t)" "keys (set_internal f t) = keys t"
  "program (set_internal f t) = program t" "status (set_internal f t) = status t"
  "deleted_keys (set_internal f t) = deleted_keys t" "abort_reason (set_internal f t) = abort_reason t"
  by (simp_all add: set_internal_def)

lemma sorted_wrt_filter_upt: "sorted_wrt (<) (filter P [0..<n])"
  by (rule sorted_wrt_filter) (simp add: sorted_wrt_iff_nth_less)

lemma marked_ascending: "sorted_wrt (<) (marked v)"
  unfolding marked_def by (rule sorted_wrt_filter_upt)

lemma set_marked: "set (marked v) = {r. r < length v \<and> v ! r}"
  by (auto simp: marked_def)

lemma set_marked_replicate [simp]: "set (marked (replicate n False)) = {}"
  by (auto simp: set_marked)

lemma set_marked_mark_replica [simp]: "set (marked (mark_replica m v)) = insert m (set (marked v))"
proof -
  define w where "w = (if m \<ge> length v then v @ replicate (m + 1 - length v) False else v)"
  have len: "m < length w" by (simp add: w_def)
  have same: "r < length w \<and> w ! r \<longleftrightarrow> r < length v \<and> v ! r" for r
    by (auto simp: w_def nth_append)
  have "set (marked (w[m := True])) = insert m {r. r < length w \<and> w ! r}"
    using len by (auto simp: set_marked nth_list_update split: if_splits)
  also have "{r. r < length w \<and> w ! r} = set (marked v)" unfolding set_marked same ..
  finally show ?thesis by (simp only: mark_replica_def w_def)
qed

lemma set_marked_update [simp]: "p < length v \<Longrightarrow> set (marked (v[p := True])) = insert p (set (marked v))"
  by (auto simp: set_marked nth_list_update split: if_splits)

lemma ascending_set_eq:
  assumes "sorted_wrt (<) xs" "sorted_wrt (<) ys" "set xs = set (ys :: nat list)"
  shows "xs = ys"
  using assms strict_sorted_equal by blast

lemma remdups_adj_ascending: "sorted xs \<Longrightarrow> sorted_wrt (<) (remdups_adj xs)" for xs :: "nat list"
proof (induction xs rule: remdups_adj.induct)
  case (3 x y xs)
  then show ?case using le_neq_implies_less by (cases "x = y") fastforce+
qed simp_all

lemma remdups_adj_sort_ascending: "sorted_wrt (<) (remdups_adj (sort xs))" for xs :: "nat list"
  by (rule remdups_adj_ascending) simp

section \<open>Sub-transactions of a partition\<close>

definition in_partition :: "sharder \<Rightarrow> nat \<Rightarrow> key_value \<Rightarrow> bool" where
  "in_partition sh p kv \<longleftrightarrow> compute_partition sh (kv_key kv) = Inr p"

lemma partition_keys_Inr:
  assumes "partition_keys sh p hm kvs v r = Inr (kept, v', r')"
  shows "kept = filter (in_partition sh p) kvs \<and>
    set (marked v') = set (marked v) \<union> kv_master ` set kept \<and>
    (r' \<longleftrightarrow> r \<and> (\<forall>kv \<in> set kept. int32_of_uint32 (kv_master kv) \<noteq> hm))"
  using assms
proof (induction kvs arbitrary: v r kept)
  case (Cons kv kvs)
  show ?case
  proof (cases "compute_partition sh (kv_key kv) = Inr p")
    case True
    with Cons.prems obtain kept' where
      rest: "partition_keys sh p hm kvs (mark_replica (kv_master kv) v)
        (r \<and> int32_of_uint32 (kv_master kv) \<noteq> hm) = Inr (kept', v', r')" and kept: "kept = kv # kept'"
      by (auto split: sum.splits if_splits)
    from Cons.IH [OF rest] kept True show ?thesis by (auto simp: in_partition_def)
  next
    case False
    with Cons.prems have "partition_keys sh p hm kvs v r = Inr (kept, v', r')"
      by (auto split: sum.splits if_splits)
    from Cons.IH [OF this] False show ?thesis by (simp add: in_partition_def)
  qed
qed simp

lemma partition_keys_total:
  assumes "\<forall>kv \<in> set kvs. (\<exists>q. compute_partition sh (kv_key kv) = Inr q) \<and> kv_master kv + 1 < 2 ^ 32"
  shows "\<exists>x. partition_keys sh p hm kvs v r = Inr x"
  using assms
proof (induction kvs arbitrary: v r)
  case (Cons kv kvs)
  then obtain q where q: "compute_partition sh (kv_key kv) = Inr q" by auto
  have "\<forall>kv \<in> set kvs. (\<exists>q. compute_partition sh (kv_key kv) = Inr q) \<and> kv_master kv + 1 < 2 ^ 32"
    using Cons.prems by simp
  note IH = Cons.IH [OF this]
  from IH [of v r] IH [of "mark_replica (kv_master kv) v" "r \<and> int32_of_uint32 (kv_master kv) \<noteq> hm"]
  show ?case using q Cons.prems by (cases "q = p") (auto split: sum.splits)
qed simp

text \<open>The sub-transaction of a partition: absent when it has no key there, or when it is not a
  remaster and locks no key of its home.\<close>

definition partitioned_keys :: "sharder \<Rightarrow> transaction \<Rightarrow> nat \<Rightarrow> key_value list" where
  "partitioned_keys sh txn p = filter (in_partition sh p) (keys txn)"

lemma GeneratePartitionedTxn_eq:
  assumes "GeneratePartitionedTxn sh txn p = Inr t"
  shows "t = (if partitioned_keys sh txn p = [] \<or>
        (\<not> is_remaster (program txn) \<and>
         (\<forall>kv \<in> set (partitioned_keys sh txn p). int32_of_uint32 (kv_master kv) \<noteq> home (internal txn))) then None
      else if txn_type (internal txn) = MULTI_HOME_OR_LOCK_ONLY
      then Some (set_internal (\<lambda>i. i\<lparr>involved_replicas := sorted_list_of_set (kv_master ` set (partitioned_keys sh txn p))\<rparr>)
             (txn\<lparr>keys := partitioned_keys sh txn p\<rparr>))
      else Some (txn\<lparr>keys := partitioned_keys sh txn p\<rparr>))"
proof -
  from assms obtain kept v r where
    pk: "partition_keys sh p (home (internal txn)) (keys txn) (replicate 8 False) (\<not> is_remaster (program txn))
      = Inr (kept, v, r)"
    by (auto simp: GeneratePartitionedTxn_def split: sum.splits)
  note S = partition_keys_Inr [OF pk]
  then have kept: "kept = partitioned_keys sh txn p" by (simp add: partitioned_keys_def)
  have "set (marked v) = kv_master ` set (partitioned_keys sh txn p)" using S kept by simp
  then have mk: "marked v = sorted_list_of_set (kv_master ` set (partitioned_keys sh txn p))"
    by (metis List.finite_set marked_ascending sorted_list_of_set.idem_if_sorted_distinct strict_sorted_iff
        sorted_list_of_set.set_sorted_key_list_of_set)
  have r: "r \<longleftrightarrow> \<not> is_remaster (program txn) \<and>
      (\<forall>kv \<in> set (partitioned_keys sh txn p). int32_of_uint32 (kv_master kv) \<noteq> home (internal txn))"
    using S unfolding kept by blast
  from assms have "t = (if kept = [] \<or> r then None
      else if txn_type (internal txn) = MULTI_HOME_OR_LOCK_ONLY
      then Some (set_internal (\<lambda>i. i\<lparr>involved_replicas := marked v\<rparr>) (txn\<lparr>keys := kept\<rparr>))
      else Some (txn\<lparr>keys := kept\<rparr>))"
    unfolding GeneratePartitionedTxn_def pk by (auto split: if_splits)
  then show ?thesis unfolding kept r mk .
qed

lemma GeneratePartitionedTxn_total:
  assumes "\<forall>kv \<in> set (keys txn). (\<exists>q. compute_partition sh (kv_key kv) = Inr q) \<and> kv_master kv + 1 < 2 ^ 32"
  shows "\<exists>t. GeneratePartitionedTxn sh txn p = Inr t"
proof -
  obtain x where "partition_keys sh p (home (internal txn)) (keys txn) (replicate 8 False) (\<not> is_remaster (program txn)) = Inr x"
    using partition_keys_total [OF assms] by blast
  then show ?thesis by (cases x) (simp add: GeneratePartitionedTxn_def)
qed

section \<open>Involved replicas and partitions\<close>

lemma PopulateInvolvedReplicas_multi_home:
  assumes "txn_type (internal txn) = MULTI_HOME_OR_LOCK_ONLY" "involved_replicas (internal txn) = []"
    and "PopulateInvolvedReplicas rp txn = Inr txn'"
  shows "sorted_wrt (<) (involved_replicas (internal txn'))"
    and "set (involved_replicas (internal txn')) = kv_master ` set (keys txn) \<union>
      (if rp = COUNTERLESS \<and> is_remaster (program txn) then {remaster_new_master (program txn)} else {})"
  using assms by (auto simp: PopulateInvolvedReplicas_def Let_def remdups_adj_sort_ascending split: if_splits)

lemma mark_partitions_Inr:
  assumes "mark_partitions sh kvs v a = Inr (v', a')" "length a = length v"
  shows "set (marked v') = set (marked v) \<union> {p. \<exists>kv \<in> set kvs. in_partition sh p kv} \<and>
    set (marked a') = set (marked a) \<union> {p. \<exists>kv \<in> set kvs. in_partition sh p kv \<and> kv_type kv = WRITE}"
  using assms
proof (induction kvs arbitrary: v a)
  case (Cons kv kvs)
  from Cons.prems obtain q where q: "compute_partition sh (kv_key kv) = Inr q" "q < length v"
    and rest: "mark_partitions sh kvs (v[q := True]) (if kv_type kv = WRITE then a[q := True] else a) = Inr (v', a')"
    by (auto split: sum.splits if_splits)
  from Cons.IH [OF rest] q Cons.prems(2) show ?case
    by (cases "kv_type kv = WRITE") (auto simp: in_partition_def)
qed simp

section \<open>Merging results\<close>

lemma MergeTransaction_keys:
  assumes "MergeTransaction txn other = Inr t" "status txn \<noteq> ABORTED" "status other \<noteq> ABORTED"
  shows "keys t = keys txn @ filter (\<lambda>kv. kv_key kv \<notin> kv_key ` set (keys txn)) (keys other)" "status t = status txn"
  using assms by (auto simp: MergeTransaction_def Let_def split: if_splits)

lemma MergeTransaction_keep_abort:
  assumes "MergeTransaction txn other = Inr t"
  shows "status t = ABORTED \<longleftrightarrow> status txn = ABORTED \<or> status other = ABORTED"
  using assms by (auto simp: MergeTransaction_def Let_def split: if_splits)

lemma Unbatch_loop_eq:
  "Unbatch_loop evs ts buffer = map (set_internal (\<lambda>i. i\<lparr>events := events i @ evs\<rparr>)) (rev ts) @ buffer"
  by (induction ts arbitrary: buffer) auto

lemma Unbatch_eq: "Unbatch b = map (set_internal (\<lambda>i. i\<lparr>events := events i @ b_events b\<rparr>)) (b_transactions b)"
  by (simp add: Unbatch_def Unbatch_loop_eq)

section \<open>Printing\<close>

lemma isprint_hex_byte: "b < 256 \<Longrightarrow> list_all isprint (hex_byte b)"
proof -
  have d: "isprint (hex_digit x)" if "x < 16" for x
    using that by (cases "x < 10") (auto simp: hex_digit_def isprint_def digit_char_def)
  assume "b < 256"
  then have "b div 16 < 16" by auto
  with d show ?thesis by (auto simp: hex_byte_def)
qed

lemma ToReadable_printable: "list_all isprint (ToReadable s)"
proof -
  have "list_all isprint (if isprint c then [c] else CHR 0x5C # hex_byte (of_char c))" for c
    using isprint_hex_byte [of "of_char c"] by (auto simp: isprint_def)
  then show ?thesis unfolding ToReadable_def by (induction s) auto
qed

end
