(* ===== verification/Txn_Holder.thy ===== *)
theory Txn_Holder
  imports Proto_Utils
begin

text \<open>
  \<^verbatim>\<open>module/scheduler_components/txn_holder.{h,cpp}\<close>: the holder collects the lock-only parts of a
  transaction, one per region, and merges their events into the main part when the transaction ends.
\<close>

section \<open>Model\<close>

record txn_holder =
  th_txn_id :: txn_id
  main_txn_idx :: nat
  lo_txns :: "transaction option list"
  remaster_result :: "(key \<times> nat) option"
  aborting :: bool
  is_done :: bool
  num_lo_txns :: nat
  expected_num_lo_txns :: nat
  num_dispatches :: nat

text \<open>\<^verbatim>\<open>lo_txns_[main_txn_idx_]\<close> with an index outside of the vector is undefined; the home of a
  multi-home transaction that was not turned into lock-only ones is -1.\<close>

definition TxnHolder :: "nat \<Rightarrow> transaction \<Rightarrow> txn_holder result" where
  "TxnHolder nr txn =
     (let hm = home (internal txn)
      in if hm < 0 \<or> nat hm \<ge> nr then Inl (UndefinedBehaviour ''lo_txns_'')
         else Inr \<lparr>th_txn_id = tid txn, main_txn_idx = nat hm, lo_txns = (replicate nr None)[nat hm := Some txn],
                   remaster_result = None, aborting = False, is_done = False, num_lo_txns = 1,
                   expected_num_lo_txns = length (involved_replicas (internal txn)), num_dispatches = 0\<rparr>)"

definition AddLockOnlyTxn :: "transaction \<Rightarrow> txn_holder \<Rightarrow> (bool \<times> txn_holder) result" where
  "AddLockOnlyTxn txn h =
     (let hm = home (internal txn)
      in if \<not> hm < int (length (lo_txns h)) then Inl (CheckFailed ''home < lo_txns_.size()'')
         else if hm < 0 then Inl (UndefinedBehaviour ''lo_txns_'')
         else if lo_txns h ! nat hm \<noteq> None then Inr (False, h)
         else Inr (True, h\<lparr>lo_txns := (lo_txns h)[nat hm := Some txn], num_lo_txns := num_lo_txns h + 1\<rparr>))"

definition holder_txn :: "txn_holder \<Rightarrow> transaction result" where
  "holder_txn h = (case lo_txns h ! main_txn_idx h of
     None \<Rightarrow> Inl (CheckFailed ''lo_txns_[main_txn_idx_] != nullptr'') | Some t \<Rightarrow> Inr t)"

text \<open>A change of the main transaction through the reference that \<^verbatim>\<open>txn()\<close> returns.\<close>

definition update_txn :: "(transaction \<Rightarrow> transaction) \<Rightarrow> txn_holder \<Rightarrow> txn_holder" where
  "update_txn f h = h\<lparr>lo_txns := (lo_txns h)[main_txn_idx h := map_option f (lo_txns h ! main_txn_idx h)]\<rparr>"

definition is_ready_for_gc :: "txn_holder \<Rightarrow> bool" where
  "is_ready_for_gc h \<longleftrightarrow> is_done h \<and> num_lo_txns h = expected_num_lo_txns h"

text \<open>The first loop of \<^verbatim>\<open>FinalizeAndRelease\<close>. \<open>main\<close> are the events of the main transaction.\<close>

definition same_event :: "txn_event \<Rightarrow> txn_event \<Rightarrow> bool" where
  "same_event a b \<longleftrightarrow> ev_event a = ev_event b \<and> ev_time a = ev_time b \<and> ev_machine a = ev_machine b"

fun cutoff_events :: "txn_event list \<Rightarrow> nat \<Rightarrow> txn_event list \<Rightarrow> nat \<Rightarrow> nat" where
  "cutoff_events main i [] cutoff = cutoff"
| "cutoff_events main i (e # es) cutoff =
     cutoff_events main (Suc i) es (if i < cutoff \<and> \<not> same_event e (main ! i) then i else cutoff)"

fun cutoff_txns :: "txn_event list \<Rightarrow> transaction option list \<Rightarrow> nat \<Rightarrow> nat" where
  "cutoff_txns main [] cutoff = cutoff"
| "cutoff_txns main (None # ts) cutoff = cutoff_txns main ts cutoff"
| "cutoff_txns main (Some t # ts) cutoff =
     cutoff_txns main ts (cutoff_events main 0 (events (internal t)) cutoff)"

definition set_event_homes :: "transaction \<Rightarrow> transaction" where
  "set_event_homes t = set_internal (\<lambda>i. i\<lparr>events := map (\<lambda>e. e\<lparr>ev_home := home i\<rparr>) (events i)\<rparr>) t"

text \<open>The second loop: the events after the cutoff point of the other parts, in the order of regions.\<close>

fun transferred_events :: "nat \<Rightarrow> nat \<Rightarrow> nat \<Rightarrow> transaction option list \<Rightarrow> txn_event list" where
  "transferred_events cutoff main_idx i [] = []"
| "transferred_events cutoff main_idx i (t # ts) =
     (case t of
        None \<Rightarrow> []
      | Some t' \<Rightarrow> if i = main_idx then [] else drop cutoff (events (internal t')))
     @ transferred_events cutoff main_idx (Suc i) ts"

definition FinalizeAndRelease :: "txn_holder \<Rightarrow> (transaction \<times> txn_holder) result" where
  "FinalizeAndRelease h =
     (case lo_txns h ! main_txn_idx h of
        None \<Rightarrow> Inl (UndefinedBehaviour ''main_txn'')
      | Some main \<Rightarrow>
          let main_events = events (internal main);
              cutoff = cutoff_txns main_events (lo_txns h) (length main_events);
              los = map (map_option set_event_homes) (lo_txns h);
              moved = transferred_events cutoff (main_txn_idx h) 0 los;
              main' = set_internal (\<lambda>i. i\<lparr>events := events i @ moved\<rparr>) (set_event_homes main)
          in Inr (main', h\<lparr>lo_txns := replicate (length (lo_txns h)) None\<rparr>))"

section \<open>The number of parts\<close>

fun present :: "'a option \<Rightarrow> bool" where
  "present None = False"
| "present (Some _) = True"

definition parts :: "txn_holder \<Rightarrow> nat" where
  "parts h = length (filter present (lo_txns h))"

definition holder_ok :: "nat \<Rightarrow> txn_holder \<Rightarrow> bool" where
  "holder_ok nr h \<longleftrightarrow> length (lo_txns h) = nr \<and> main_txn_idx h < nr \<and> num_lo_txns h = parts h \<and>
     lo_txns h ! main_txn_idx h \<noteq> None \<and>
     (\<forall>i < nr. \<forall>t. lo_txns h ! i = Some t \<longrightarrow> tid t = th_txn_id h \<and> home (internal t) = int i)"

lemma holder_okD:
  assumes "holder_ok nr h"
  shows "length (lo_txns h) = nr" "main_txn_idx h < nr" "num_lo_txns h = parts h"
    "lo_txns h ! main_txn_idx h \<noteq> None"
    "\<And>i t. i < nr \<Longrightarrow> lo_txns h ! i = Some t \<Longrightarrow> tid t = th_txn_id h \<and> home (internal t) = int i"
  using assms unfolding holder_ok_def by blast+

lemma holder_okI:
  assumes "length (lo_txns h) = nr" "main_txn_idx h < nr" "num_lo_txns h = parts h"
    "lo_txns h ! main_txn_idx h \<noteq> None"
    "\<And>i t. i < nr \<Longrightarrow> lo_txns h ! i = Some t \<Longrightarrow> tid t = th_txn_id h \<and> home (internal t) = int i"
  shows "holder_ok nr h"
  using assms unfolding holder_ok_def by blast

lemma filter_update_None:
  "i < length xs \<Longrightarrow> xs ! i = None \<Longrightarrow>
   length (filter present (xs[i := Some t])) = Suc (length (filter present xs))"
proof (induction xs arbitrary: i)
  case (Cons x xs)
  then show ?case by (cases i) auto
qed simp

lemma TxnHolder_ok:
  assumes "TxnHolder nr txn = Inr h"
  shows "holder_ok nr h" "num_lo_txns h = 1" "expected_num_lo_txns h = length (involved_replicas (internal txn))"
    "th_txn_id h = tid txn" "\<not> is_done h" "\<not> aborting h"
proof -
  from assms have hm: "0 \<le> home (internal txn)" "nat (home (internal txn)) < nr"
    and h: "h = \<lparr>th_txn_id = tid txn, main_txn_idx = nat (home (internal txn)),
      lo_txns = (replicate nr None)[nat (home (internal txn)) := Some txn],
      remaster_result = None, aborting = False, is_done = False, num_lo_txns = 1,
      expected_num_lo_txns = length (involved_replicas (internal txn)), num_dispatches = 0\<rparr>"
    by (auto simp: TxnHolder_def Let_def split: if_splits)
  have "parts h = 1"
    unfolding parts_def h txn_holder.simps using hm by (subst filter_update_None) simp_all
  with hm show "holder_ok nr h" by (auto simp: holder_ok_def h nth_list_update split: if_splits)
qed (use assms in \<open>auto simp: TxnHolder_def Let_def split: if_splits\<close>)

lemma AddLockOnlyTxn_ok:
  assumes "holder_ok nr h" "tid txn = th_txn_id h" "AddLockOnlyTxn txn h = Inr (b, h')"
  shows "holder_ok nr h' \<and> (b \<longleftrightarrow> lo_txns h ! nat (home (internal txn)) = None) \<and>
    num_lo_txns h' = num_lo_txns h + (if b then 1 else 0)"
proof -
  let ?hm = "home (internal txn)"
  from assms(3) have hm: "0 \<le> ?hm" "nat ?hm < length (lo_txns h)"
    by (auto simp: AddLockOnlyTxn_def Let_def split: if_splits)
  show ?thesis
  proof (cases "lo_txns h ! nat ?hm")
    case None
    with assms(3) hm have b: "b" and h': "h' = h\<lparr>lo_txns := (lo_txns h)[nat ?hm := Some txn], num_lo_txns := num_lo_txns h + 1\<rparr>"
      by (auto simp: AddLockOnlyTxn_def Let_def split: if_splits)
    have parts: "parts h' = Suc (parts h)" unfolding parts_def h' using None hm by (simp add: filter_update_None)
    have ne: "main_txn_idx h \<noteq> nat ?hm" using holder_okD(4) [OF assms(1)] None by metis
    have each: "tid t = th_txn_id h \<and> home (internal t) = int i"
      if "i < nr" "(lo_txns h)[nat ?hm := Some txn] ! i = Some t" for i t
      using that holder_okD(1) [OF assms(1)] holder_okD(5) [OF assms(1), of i t] assms(2) hm
      by (cases "i = nat ?hm") auto
    have "holder_ok nr h'"
    proof (rule holder_okI)
      show "tid t = th_txn_id h' \<and> home (internal t) = int i" if "i < nr" "lo_txns h' ! i = Some t" for i t
        using each [of i t] that by (simp add: h')
    qed (use holder_okD(1-4) [OF assms(1)] parts ne in \<open>simp_all add: h'\<close>)
    with b None h' show ?thesis by simp
  next
    case (Some t)
    with assms(3) hm have "b = False" "h' = h" by (auto simp: AddLockOnlyTxn_def Let_def split: if_splits)
    with Some assms(1) show ?thesis by simp
  qed
qed

lemma update_txn_ok:
  assumes "holder_ok nr h" "\<And>t. tid (f t) = tid t \<and> home (internal (f t)) = home (internal t)"
  shows "holder_ok nr (update_txn f h)"
proof -
  let ?m = "main_txn_idx h"
  obtain t where t: "lo_txns h ! ?m = Some t" "?m < length (lo_txns h)"
    using holder_okD(1,2,4) [OF assms(1)] by auto
  have len: "length (filter present (xs[i := Some y])) = length (filter present xs)"
    if "i < length xs" "xs ! i = Some x" for xs and i and x y :: transaction
    using that
  proof (induction xs arbitrary: i)
    case (Cons z zs)
    then show ?case by (cases i) auto
  qed simp
  have parts: "parts (update_txn f h) = parts h"
    unfolding parts_def update_txn_def using t by (simp add: len)
  have each: "tid u = th_txn_id h \<and> home (internal u) = int i"
    if "i < nr" "(lo_txns h)[?m := map_option f (lo_txns h ! ?m)] ! i = Some u" for i u
    using that holder_okD(1,2) [OF assms(1)] holder_okD(5) [OF assms(1), of i u]
      holder_okD(5) [OF assms(1), of ?m t] assms(2) t by (cases "i = ?m") auto
  show ?thesis
  proof (rule holder_okI)
    show "tid u = th_txn_id (update_txn f h) \<and> home (internal u) = int i"
      if "i < nr" "lo_txns (update_txn f h) ! i = Some u" for i u
      using each [of i u] that by (simp add: update_txn_def)
  qed (use holder_okD(1-4) [OF assms(1)] t parts in \<open>simp_all add: update_txn_def\<close>)
qed

section \<open>Events\<close>

text \<open>The cutoff point is the first position where a part has another event than the main one.\<close>

definition agree_upto :: "txn_event list \<Rightarrow> txn_event list \<Rightarrow> nat \<Rightarrow> bool" where
  "agree_upto main es n \<longleftrightarrow> (\<forall>i < n. i < length es \<longrightarrow> same_event (es ! i) (main ! i))"

lemma cutoff_events_le: "cutoff_events main i es c \<le> c"
proof (induction main i es c rule: cutoff_events.induct)
  case (2 main i e es c)
  then show ?case by (cases "i < c \<and> \<not> same_event e (main ! i)") auto
qed simp

lemma cutoff_events_ge: "cutoff_events main i es c < c \<Longrightarrow> i \<le> cutoff_events main i es c"
proof (induction main i es c rule: cutoff_events.induct)
  case (2 main i e es c)
  show ?case
  proof (cases "i < c \<and> \<not> same_event e (main ! i)")
    case True
    then have e: "cutoff_events main i (e # es) c = cutoff_events main (Suc i) es i" by simp
    have "cutoff_events main (Suc i) es i = i"
      using "2.IH" True cutoff_events_le [of main "Suc i" es i]
      by (cases "cutoff_events main (Suc i) es i < i") auto
    with e show ?thesis by simp
  next
    case False
    with 2 show ?thesis by auto
  qed
qed simp

lemma cutoff_events_agree:
  "j < length es \<Longrightarrow> i + j < cutoff_events main i es c \<Longrightarrow> same_event (es ! j) (main ! (i + j))"
proof (induction main i es c arbitrary: j rule: cutoff_events.induct)
  case (2 main i e es c)
  show ?case
  proof (cases j)
    case 0
    show ?thesis
    proof (rule ccontr)
      assume n: "\<not> same_event ((e # es) ! j) (main ! (i + j))"
      have "i < c" using "2.prems"(2) cutoff_events_le [of main i "e # es" c] 0 by simp
      then have "cutoff_events main i (e # es) c = cutoff_events main (Suc i) es i" using n 0 by simp
      also have "\<dots> \<le> i" by (rule cutoff_events_le)
      finally show False using "2.prems"(2) 0 by simp
    qed
  next
    case (Suc k)
    with 2 show ?thesis by simp
  qed
qed simp

lemma cutoff_txns_le: "cutoff_txns main ts c \<le> c"
proof (induction main ts c rule: cutoff_txns.induct)
  case (3 main t ts c)
  then show ?case using cutoff_events_le [of main 0 "events (internal t)" c] by simp
qed simp_all

lemma cutoff_txns_agree:
  "Some t \<in> set ts \<Longrightarrow> agree_upto main (events (internal t)) (cutoff_txns main ts c)"
proof (induction main ts c rule: cutoff_txns.induct)
  case (3 main t' ts c)
  show ?case
  proof (cases "t = t'")
    case True
    have "same_event (events (internal t) ! i) (main ! i)"
      if "i < cutoff_txns main (Some t' # ts) c" "i < length (events (internal t))" for i
      using cutoff_events_agree [of i "events (internal t)" 0 main c] that True
        cutoff_txns_le [of main ts "cutoff_events main 0 (events (internal t')) c"] by simp
    then show ?thesis by (simp add: agree_upto_def)
  next
    case False
    with 3 show ?thesis by simp
  qed
qed simp_all

text \<open>No event is lost: an event of another part is either transferred, or the main part has the
  same event.\<close>

lemma transferred_complete:
  assumes "j < length ts" "ts ! j = Some t" "i + j \<noteq> m" "e \<in> set (drop c (events (internal t)))"
  shows "e \<in> set (transferred_events c m i ts)"
  using assms
proof (induction ts arbitrary: i j)
  case (Cons x xs)
  then show ?case by (cases j) auto
qed simp

lemma FinalizeAndRelease_events:
  assumes "FinalizeAndRelease h = Inr (txn, h')" "lo_txns h ! main_txn_idx h = Some main"
    and "i < length (lo_txns h)" "lo_txns h ! i = Some t" "e \<in> set (events (internal t))"
    and "main_txn_idx h < length (lo_txns h)"
  shows "\<exists>e' \<in> set (events (internal txn)). same_event e' e"
proof -
  let ?me = "events (internal main)"
  let ?c = "cutoff_txns ?me (lo_txns h) (length ?me)"
  let ?los = "map (map_option set_event_homes) (lo_txns h)"
  have ev: "events (internal txn) = events (internal (set_event_homes main)) @ transferred_events ?c (main_txn_idx h) 0 ?los"
    using assms(1) unfolding FinalizeAndRelease_def assms(2) Let_def by auto
  have homes: "events (internal (set_event_homes u)) = map (\<lambda>e. e\<lparr>ev_home := home (internal u)\<rparr>) (events (internal u))" for u
    by (simp add: set_event_homes_def)
  have same: "same_event (e\<lparr>ev_home := x\<rparr>) e" for e x by (simp add: same_event_def)
  obtain k where k: "k < length (events (internal t))" "e = events (internal t) ! k"
    using assms(5) by (auto simp: in_set_conv_nth)
  show ?thesis
  proof (cases "i = main_txn_idx h")
    case True
    then have "t = main" using assms(2,4) by simp
    then show ?thesis using assms(5) same by (fastforce simp: ev homes)
  next
    case False
    show ?thesis
    proof (cases "k < ?c")
      case True
      have "Some t \<in> set (lo_txns h)" using assms(3,4) by (metis nth_mem)
      from cutoff_txns_agree [OF this, of ?me "length ?me"] True k have s: "same_event e (?me ! k)"
        by (simp add: agree_upto_def)
      have "k < length ?me" using True cutoff_txns_le [of ?me "lo_txns h" "length ?me"] by simp
      then have "(?me ! k)\<lparr>ev_home := home (internal main)\<rparr> \<in> set (events (internal txn))" by (simp add: ev homes)
      moreover have "same_event ((?me ! k)\<lparr>ev_home := home (internal main)\<rparr>) e" using s by (simp add: same_event_def)
      ultimately show ?thesis by blast
    next
      case False
      let ?e = "e\<lparr>ev_home := home (internal t)\<rparr>"
      have "?e = events (internal (set_event_homes t)) ! k" using k by (simp add: homes)
      then have "?e = drop ?c (events (internal (set_event_homes t))) ! (k - ?c)"
        "k - ?c < length (drop ?c (events (internal (set_event_homes t))))"
        using False k by (auto simp: homes)
      then have "?e \<in> set (drop ?c (events (internal (set_event_homes t))))" by (metis nth_mem)
      then have "?e \<in> set (transferred_events ?c (main_txn_idx h) 0 ?los)"
        using assms(3,4) \<open>i \<noteq> main_txn_idx h\<close> by (intro transferred_complete [of i]) simp_all
      with same show ?thesis by (auto simp: ev)
    qed
  qed
qed

end
