(* ===== verification/Scheduler_Model.thy ===== *)
theory Scheduler_Model
  imports Lock_Spec Txn_Holder
begin

text \<open>
  \<^verbatim>\<open>module/scheduler.{h,cpp}\<close> as compiled by default, with the counterless remaster protocol: the scheduler
  collects the parts of each transaction, asks the lock manager for their locks, dispatches a
  transaction to the workers when it holds all of them and releases them when a worker is done. The
  lock manager is chosen at compile time: which one it is and its operations are arguments.

  The locale \<open>scheduler_locks\<close> proves what the scheduler does with any lock manager that meets the
  contract of \<open>Lock_Spec\<close>.
\<close>

section \<open>Model\<close>

text \<open>The macro that selects the lock manager. The type \<open>'m\<close> of the lock manager and its operations go with it.\<close>

datatype lock_manager_kind = LOCK_MANAGER_OLD | LOCK_MANAGER_RMA | LOCK_MANAGER_DDR

record 'm scheduler =
  sc_lock_manager :: 'm
  active_txns :: "txn_id \<rightharpoonup> txn_holder"
  global_log_counter :: int
  dispatched :: "txn_id list"     \<comment> \<open>sent to the workers, in order\<close>

type_synonym 'm acquire_fn = "transaction \<Rightarrow> 'm \<Rightarrow> (acquire_result \<times> 'm) result"
type_synonym 'm release_fn = "txn_id \<Rightarrow> 'm \<Rightarrow> (txn_id list \<times> 'm) result"

definition Scheduler :: "'m \<Rightarrow> 'm scheduler" where
  "Scheduler lm = \<lparr>sc_lock_manager = lm, active_txns = Map.empty, global_log_counter = 0, dispatched = []\<rparr>"

definition Dispatch :: "txn_id \<Rightarrow> 'm scheduler \<Rightarrow> 'm scheduler result" where
  "Dispatch t s =
     (case active_txns s t of
        None \<Rightarrow> Inl (UndefinedBehaviour ''active_txns_.find'')
      | Some h \<Rightarrow> Inr (s\<lparr>active_txns := (active_txns s)(t \<mapsto> h\<lparr>num_dispatches := num_dispatches h + 1\<rparr>),
                         dispatched := dispatched s @ [t]\<rparr>))"

fun dispatch_all :: "txn_id list \<Rightarrow> 'm scheduler \<Rightarrow> 'm scheduler result" where
  "dispatch_all [] s = Inr s"
| "dispatch_all (t # ts) s = (case Dispatch t s of Inl e \<Rightarrow> Inl e | Inr s' \<Rightarrow> dispatch_all ts s')"

text \<open>With the DDR lock manager \<^verbatim>\<open>TriggerPreDispatchAbort\<close> has an empty body.\<close>

definition TriggerPreDispatchAbort :: "lock_manager_kind \<Rightarrow> 'm release_fn \<Rightarrow> txn_id \<Rightarrow> 'm scheduler \<Rightarrow> 'm scheduler result" where
  "TriggerPreDispatchAbort kind release t s =
     (if kind = LOCK_MANAGER_DDR then Inr s
      else case active_txns s t of
        None \<Rightarrow> Inl (CheckFailed ''active_txn_it != active_txns_.end()'')
      | Some h \<Rightarrow>
          if aborting h then Inl (CheckFailed ''Abort was triggered twice'')
          else case holder_txn h of
                 Inl e \<Rightarrow> Inl e
               | Inr _ \<Rightarrow>
                   (case release t (sc_lock_manager s) of
                      Inl e \<Rightarrow> Inl e
                    | Inr (unblocked, lm) \<Rightarrow>
                        (case dispatch_all unblocked (s\<lparr>sc_lock_manager := lm, active_txns := (active_txns s)(t \<mapsto> h\<lparr>aborting := True\<rparr>)\<rparr>) of
                           Inl e \<Rightarrow> Inl e
                         | Inr s1 \<Rightarrow>
                             Dispatch t (s1\<lparr>active_txns := (active_txns s1)(t := map_option
                               (update_txn (\<lambda>x. x\<lparr>status := ABORTED\<rparr>)) (active_txns s1 t))\<rparr>))))"

definition SendToLockManager ::
  "lock_manager_kind \<Rightarrow> 'm acquire_fn \<Rightarrow> 'm release_fn \<Rightarrow> transaction \<Rightarrow> 'm scheduler \<Rightarrow> 'm scheduler result" where
  "SendToLockManager kind acquire release txn s =
     (case acquire txn (sc_lock_manager s) of
        Inl e \<Rightarrow> Inl e
      | Inr (r, lm) \<Rightarrow>
          (case r of
             ACQUIRED \<Rightarrow> Dispatch (tid txn) (s\<lparr>sc_lock_manager := lm\<rparr>)
           | ABORT \<Rightarrow> TriggerPreDispatchAbort kind release (tid txn) (s\<lparr>sc_lock_manager := lm\<rparr>)
           | WAITING \<Rightarrow> Inr (s\<lparr>sc_lock_manager := lm\<rparr>)))"

definition add_log_position :: "int \<Rightarrow> int \<Rightarrow> transaction \<Rightarrow> transaction" where
  "add_log_position hm c = set_internal (\<lambda>i. i\<lparr>global_log_positions := global_log_positions i @ [hm, c]\<rparr>)"

text \<open>\<^verbatim>\<open>ProcessTransaction\<close>. The transaction that goes to the lock manager is the object the holder
  points to: when it is the main part it has the log position that was just added.\<close>

definition ProcessTransaction ::
  "lock_manager_kind \<Rightarrow> 'm acquire_fn \<Rightarrow> 'm release_fn \<Rightarrow> nat \<Rightarrow> transaction \<Rightarrow> 'm scheduler \<Rightarrow> 'm scheduler result" where
  "ProcessTransaction kind acquire release nr txn s =
     (let t = tid txn; c = global_log_counter s + 1; s0 = s\<lparr>global_log_counter := c\<rparr>;
          hm = home (internal txn)
      in case (case active_txns s t of
                 None \<Rightarrow> map_sum id (\<lambda>h. (True, h)) (TxnHolder nr txn)
               | Some h \<Rightarrow> AddLockOnlyTxn txn h) of
           Inl e \<Rightarrow> Inl e
         | Inr (False, h) \<Rightarrow> Inr s0
         | Inr (True, h) \<Rightarrow>
             (case holder_txn h of
                Inl e \<Rightarrow> Inl e
              | Inr _ \<Rightarrow>
                  let h1 = update_txn (add_log_position hm c) h;
                      s1 = s0\<lparr>active_txns := (active_txns s)(t \<mapsto> h1)\<rparr>;
                      txn' = (if active_txns s t = None then add_log_position hm c txn else txn)
                  in if aborting h1
                     then Inr (if is_ready_for_gc h1 then s1\<lparr>active_txns := (active_txns s1)(t := None)\<rparr> else s1)
                     else SendToLockManager kind acquire release txn' s1))"

text \<open>One turn of the loop of \<^verbatim>\<open>OnCustomSocket\<close>: a worker is done with a transaction.\<close>

definition worker_done :: "'m release_fn \<Rightarrow> txn_id \<Rightarrow> 'm scheduler \<Rightarrow> 'm scheduler result" where
  "worker_done release t s =
     (case release t (sc_lock_manager s) of
        Inl e \<Rightarrow> Inl e
      | Inr (unblocked, lm) \<Rightarrow>
          (case dispatch_all unblocked (s\<lparr>sc_lock_manager := lm\<rparr>) of
             Inl e \<Rightarrow> Inl e
           | Inr s1 \<Rightarrow>
               (case active_txns s1 t of
                  None \<Rightarrow> Inl (CheckFailed ''it != active_txns_.end()'')
                | Some h \<Rightarrow>
                    let h1 = h\<lparr>is_done := True\<rparr>
                    in Inr (s1\<lparr>active_txns := (active_txns s1)(t := if is_ready_for_gc h1 then None else Some h1)\<rparr>))))"

fun Scheduler_OnCustomSocket :: "'m release_fn \<Rightarrow> txn_id list \<Rightarrow> 'm scheduler \<Rightarrow> 'm scheduler result" where
  "Scheduler_OnCustomSocket release [] s = Inr s"
| "Scheduler_OnCustomSocket release (t # ts) s =
     (case worker_done release t s of Inl e \<Rightarrow> Inl e | Inr s' \<Rightarrow> Scheduler_OnCustomSocket release ts s')"

section \<open>Runs\<close>

datatype sched_event = Arrive transaction | WorkerDone txn_id

fun sched_step :: "lock_manager_kind \<Rightarrow> 'm acquire_fn \<Rightarrow> 'm release_fn \<Rightarrow> nat \<Rightarrow> sched_event \<Rightarrow> 'm scheduler \<Rightarrow> 'm scheduler result" where
  "sched_step kind acquire release nr (Arrive x) s = ProcessTransaction kind acquire release nr x s"
| "sched_step kind acquire release nr (WorkerDone t) s = Scheduler_OnCustomSocket release [t] s"

fun sched_run :: "lock_manager_kind \<Rightarrow> 'm acquire_fn \<Rightarrow> 'm release_fn \<Rightarrow> nat \<Rightarrow> sched_event list \<Rightarrow> 'm scheduler \<Rightarrow> 'm scheduler result" where
  "sched_run kind acquire release nr [] s = Inr s"
| "sched_run kind acquire release nr (x # xs) s =
     (case sched_step kind acquire release nr x s of Inl e \<Rightarrow> Inl e | Inr s' \<Rightarrow> sched_run kind acquire release nr xs s')"

fun op_of :: "sched_event \<Rightarrow> lock_op" where
  "op_of (Arrive x) = AcquireOp x"
| "op_of (WorkerDone t) = ReleaseOp t"

fun arrived_part :: "sched_event \<Rightarrow> (txn_id \<times> int) set" where
  "arrived_part (Arrive x) = {(tid x, home (internal x))}"
| "arrived_part (WorkerDone t) = {}"

fun done_part :: "sched_event \<Rightarrow> txn_id set" where
  "done_part (Arrive x) = {}"
| "done_part (WorkerDone t) = {t}"

definition arrived :: "sched_event list \<Rightarrow> (txn_id \<times> int) set" where
  "arrived evs = (\<Union>e \<in> set evs. arrived_part e)"

definition finished :: "sched_event list \<Rightarrow> txn_id set" where
  "finished evs = (\<Union>e \<in> set evs. done_part e)"

text \<open>Each part of a transaction arrives once, in the queue of an existing region, and no part
  arrives after a worker is done with the transaction.\<close>

fun parts_legal :: "nat \<Rightarrow> (txn_id \<times> int) set \<Rightarrow> txn_id set \<Rightarrow> sched_event list \<Rightarrow> bool" where
  "parts_legal nr P D [] = True"
| "parts_legal nr P D (Arrive x # xs) =
     (0 \<le> home (internal x) \<and> home (internal x) < int nr \<and> (tid x, home (internal x)) \<notin> P \<and> tid x \<notin> D \<and>
      parts_legal nr (insert (tid x, home (internal x)) P) D xs)"
| "parts_legal nr P D (WorkerDone t # xs) = parts_legal nr P (insert t D) xs"

lemma tid_add_log_position [simp]: "tid (add_log_position h c x) = tid x"
  and home_add_log_position [simp]: "home (internal (add_log_position h c x)) = home (internal x)"
  by (simp_all add: add_log_position_def)

section \<open>Dispatching\<close>

lemma dispatch_all_ok:
  assumes "\<forall>t \<in> set ts. active_txns s t \<noteq> None"
  shows "\<exists>s'. dispatch_all ts s = Inr s' \<and> sc_lock_manager s' = sc_lock_manager s \<and> dispatched s' = dispatched s @ ts \<and>
    (\<forall>t. case active_txns s t of None \<Rightarrow> active_txns s' t = None
      | Some h \<Rightarrow> \<exists>n. active_txns s' t = Some (h\<lparr>num_dispatches := n\<rparr>))"
  using assms
proof (induction ts arbitrary: s)
  case Nil
  have "\<exists>n. h = h\<lparr>num_dispatches := n\<rparr>" for h :: txn_holder by (intro exI [of _ "num_dispatches h"]) simp
  then show ?case by (auto split: option.splits)
next
  case (Cons t ts)
  then obtain h where h: "active_txns s t = Some h" by auto
  let ?s = "s\<lparr>active_txns := (active_txns s)(t \<mapsto> h\<lparr>num_dispatches := num_dispatches h + 1\<rparr>), dispatched := dispatched s @ [t]\<rparr>"
  have "\<forall>u \<in> set ts. active_txns ?s u \<noteq> None" using Cons.prems by simp
  from Cons.IH [OF this] obtain s' where s': "dispatch_all ts ?s = Inr s'" "sc_lock_manager s' = sc_lock_manager s"
    "dispatched s' = dispatched s @ t # ts"
    and a: "\<And>u. case active_txns ?s u of None \<Rightarrow> active_txns s' u = None
      | Some h \<Rightarrow> \<exists>n. active_txns s' u = Some (h\<lparr>num_dispatches := n\<rparr>)" by auto
  have "case active_txns s u of None \<Rightarrow> active_txns s' u = None
      | Some h \<Rightarrow> \<exists>n. active_txns s' u = Some (h\<lparr>num_dispatches := n\<rparr>)" for u
    using a [of u] h by (cases "u = t") auto
  with s' h show ?case by (simp add: Dispatch_def)
qed

section \<open>With a lock manager that meets its contract\<close>

locale scheduler_locks = lock_manager requests required init acquire release sim
  for requests :: "transaction \<Rightarrow> ('k \<times> key_type) list"
    and required :: "transaction \<Rightarrow> int" and init :: 'm and acquire :: "'m acquire_fn" and release :: "'m release_fn"
    and sim :: "'k lock_spec \<Rightarrow> 'm \<Rightarrow> bool" +
  assumes requests_log_position: "requests (add_log_position h c x) = requests x"
    and required_log_position: "required (add_log_position h c x) = required x"
begin

definition sched_inv :: "nat \<Rightarrow> (txn_id \<times> int) set \<Rightarrow> txn_id set \<Rightarrow> 'k lock_spec \<Rightarrow> 'm scheduler \<Rightarrow> bool" where
  "sched_inv nr P D S s \<longleftrightarrow>
     sim S (sc_lock_manager s) \<and> distinct (dispatched s) \<and> set (dispatched s) = {u. spec_ready S u} \<union> D \<and>
     D \<inter> active S = {} \<and> dom (active_txns s) \<subseteq> active S \<union> D \<and>
     (\<forall>t \<in> active S. \<exists>h. active_txns s t = Some h \<and> holder_ok nr h \<and> th_txn_id h = t \<and> \<not> aborting h \<and>
        (\<forall>i < nr. lo_txns h ! i \<noteq> None \<longrightarrow> (t, int i) \<in> P))"

lemma sched_invD:
  assumes "sched_inv nr P D S s"
  shows "sim S (sc_lock_manager s)" "distinct (dispatched s)" "set (dispatched s) = {u. spec_ready S u} \<union> D"
    "D \<inter> active S = {}" "dom (active_txns s) \<subseteq> active S \<union> D"
    "\<And>t. t \<in> active S \<Longrightarrow> \<exists>h. active_txns s t = Some h \<and> holder_ok nr h \<and> th_txn_id h = t \<and> \<not> aborting h \<and>
        (\<forall>i < nr. lo_txns h ! i \<noteq> None \<longrightarrow> (t, int i) \<in> P)"
  using assms unfolding sched_inv_def by blast+

lemma sched_inv_init: "sched_inv nr {} {} spec_init (Scheduler init)"
  using sim_init by (auto simp: sched_inv_def Scheduler_def spec_init_def spec_ready_def)

text \<open>A part arrives.\<close>

lemma new_part:
  assumes inv: "sched_inv nr P D S s" and hm: "0 \<le> home (internal x)" "home (internal x) < int nr"
    and new: "(tid x, home (internal x)) \<notin> P" "tid x \<notin> D"
  shows "\<exists>h. (case active_txns s (tid x) of None \<Rightarrow> map_sum id (\<lambda>h. (True, h)) (TxnHolder nr x)
      | Some h \<Rightarrow> AddLockOnlyTxn x h) = Inr (True, h) \<and>
    holder_ok nr h \<and> th_txn_id h = tid x \<and> \<not> aborting h \<and>
    (\<forall>i < nr. lo_txns h ! i \<noteq> None \<longrightarrow> (tid x, int i) \<in> insert (tid x, home (internal x)) P)"
proof (cases "active_txns s (tid x)")
  case None
  have "\<not> (home (internal x) < 0 \<or> nat (home (internal x)) \<ge> nr)" using hm by auto
  then obtain h where h: "TxnHolder nr x = Inr h"
    and lo: "lo_txns h = (replicate nr None)[nat (home (internal x)) := Some x]"
    by (auto simp: TxnHolder_def Let_def)
  from TxnHolder_ok [OF h] lo hm None h show ?thesis
    by (auto simp: nth_list_update split: if_splits)
next
  case (Some h)
  then have "tid x \<in> active S" using sched_invD(5) [OF inv] new(2) by blast
  from sched_invD(6) [OF inv this] Some have h: "holder_ok nr h" "th_txn_id h = tid x" "\<not> aborting h"
    "\<And>i. i < nr \<Longrightarrow> lo_txns h ! i \<noteq> None \<Longrightarrow> (tid x, int i) \<in> P" by auto
  let ?i = "nat (home (internal x))"
  have i: "?i < nr" "int ?i = home (internal x)" using hm by auto
  then have none: "lo_txns h ! ?i = None" using h(4) [of ?i] new(1) by metis
  let ?h = "h\<lparr>lo_txns := (lo_txns h)[?i := Some x], num_lo_txns := num_lo_txns h + 1\<rparr>"
  have e: "AddLockOnlyTxn x h = Inr (True, ?h)"
    using none i hm holder_okD(1) [OF h(1)] by (simp add: AddLockOnlyTxn_def Let_def)
  from AddLockOnlyTxn_ok [OF h(1) h(2) [symmetric] e] have "holder_ok nr ?h" by blast
  moreover have "(tid x, int j) \<in> insert (tid x, home (internal x)) P"
    if "j < nr" "lo_txns ?h ! j \<noteq> None" for j
    using that h(4) [of j] i holder_okD(1) [OF h(1)] by (cases "j = ?i") auto
  ultimately show ?thesis using Some e h(2,3) by auto
qed

lemma holder_txn_ok: "holder_ok nr h \<Longrightarrow> \<exists>t. holder_txn h = Inr t"
  using holder_okD(4) [of nr h] by (auto simp: holder_txn_def)

lemma update_txn_simps [simp]:
  "aborting (update_txn f h) = aborting h" "th_txn_id (update_txn f h) = th_txn_id h"
  by (simp_all add: update_txn_def)

lemma update_txn_present:
  "i < length (lo_txns h) \<Longrightarrow> lo_txns (update_txn f h) ! i \<noteq> None \<longleftrightarrow> lo_txns h ! i \<noteq> None"
  by (cases "i = main_txn_idx h") (auto simp: update_txn_def)

lemma arrive_step:
  assumes inv: "sched_inv nr P D S s" and legal: "legal_acquire S (tid x) (required x) (requests x)"
    and hm: "0 \<le> home (internal x)" "home (internal x) < int nr"
    and new: "(tid x, home (internal x)) \<notin> P" "tid x \<notin> D"
  shows "\<exists>s'. ProcessTransaction kind acquire release nr x s = Inr s' \<and>
    sched_inv nr (insert (tid x, home (internal x)) P) D (spec_acquire (tid x) (required x) (requests x) S) s'"
proof -
  note I = sched_invD [OF inv]
  let ?t = "tid x" and ?S = "spec_acquire (tid x) (required x) (requests x) S"
  let ?P = "insert (tid x, home (internal x)) P"
  obtain h where h: "(case active_txns s ?t of None \<Rightarrow> map_sum id (\<lambda>h. (True, h)) (TxnHolder nr x)
      | Some h \<Rightarrow> AddLockOnlyTxn x h) = Inr (True, h)"
    and hok: "holder_ok nr h" "th_txn_id h = ?t" "\<not> aborting h" "\<And>i. i < nr \<Longrightarrow> lo_txns h ! i \<noteq> None \<Longrightarrow> (?t, int i) \<in> ?P"
    using new_part [OF inv hm new] by blast
  obtain ht where ht: "holder_txn h = Inr ht" using holder_txn_ok [OF hok(1)] by blast
  define c where "c = global_log_counter s + 1"
  define h1 where "h1 = update_txn (add_log_position (home (internal x)) c) h"
  define s1 where "s1 = s\<lparr>global_log_counter := c, active_txns := (active_txns s)(?t \<mapsto> h1)\<rparr>"
  define x' where "x' = (if active_txns s ?t = None then add_log_position (home (internal x)) c x else x)"
  have x': "tid x' = ?t" "requests x' = requests x" "required x' = required x"
    by (simp_all add: x'_def requests_log_position required_log_position)
  have h1: "holder_ok nr h1" "th_txn_id h1 = ?t" "\<not> aborting h1" "\<And>i. i < nr \<Longrightarrow> lo_txns h1 ! i \<noteq> None \<Longrightarrow> (?t, int i) \<in> ?P"
    using update_txn_ok [OF hok(1)] hok update_txn_present holder_okD(1) [OF hok(1)] by (auto simp: h1_def)
  have pt: "ProcessTransaction kind acquire release nr x s = SendToLockManager kind acquire release x' s1"
    using h ht h1(3) unfolding ProcessTransaction_def Let_def s1_def h1_def x'_def c_def by simp
  from sim_acquire [OF I(1), of x'] legal obtain lm where
    lm: "acquire x' (sc_lock_manager s) = Inr (if spec_ready ?S ?t then ACQUIRED else WAITING, lm)" "sim ?S lm"
    unfolding x' by blast
  have act: "active ?S = insert ?t (active S)" by (auto simp: spec_acquire_def)
  have ready: "{u. spec_ready ?S u} = {u. spec_ready S u} \<union> (if spec_ready ?S ?t then {?t} else {})"
    using spec_ready_step [of requests required S "AcquireOp x"] legal by simp
  have nr: "\<not> spec_ready S ?t" using legal by (rule legal_acquire_not_ready)
  have s1_active: "active_txns s1 = (active_txns s)(?t \<mapsto> h1)" by (simp add: s1_def)
  show ?thesis
  proof (cases "spec_ready ?S ?t")
    case True
    let ?s = "s1\<lparr>sc_lock_manager := lm, active_txns := (active_txns s)(?t \<mapsto> h1\<lparr>num_dispatches := num_dispatches h1 + 1\<rparr>),
      dispatched := dispatched s @ [?t]\<rparr>"
    have e: "SendToLockManager kind acquire release x' s1 = Inr ?s"
      using True lm by (simp add: SendToLockManager_def Dispatch_def s1_def x')
    have "holder_ok nr (h1\<lparr>num_dispatches := n\<rparr>)" for n using h1(1) by (simp add: holder_ok_def parts_def)
    with h1 have "sched_inv nr ?P D ?S ?s"
      unfolding sched_inv_def using I True lm(2) new(2) nr by (auto simp: act ready)
    with e pt show ?thesis by auto
  next
    case False
    let ?s = "s1\<lparr>sc_lock_manager := lm\<rparr>"
    have e: "SendToLockManager kind acquire release x' s1 = Inr ?s"
      using False lm by (simp add: SendToLockManager_def s1_def)
    have "dispatched ?s = dispatched s" "sc_lock_manager ?s = lm" "active_txns ?s = (active_txns s)(?t \<mapsto> h1)"
      by (simp_all add: s1_def)
    with h1 have "sched_inv nr ?P D ?S ?s"
      unfolding sched_inv_def using I False lm(2) new(2) by (auto simp: act ready)
    with e pt show ?thesis by auto
  qed
qed

text \<open>A worker is done.\<close>

lemma done_step:
  assumes inv: "sched_inv nr P D S s" and rdy: "spec_ready S t"
  shows "\<exists>s'. Scheduler_OnCustomSocket release [t] s = Inr s' \<and> sched_inv nr P (insert t D) (spec_release t S) s'"
proof -
  note I = sched_invD [OF inv]
  let ?S = "spec_release t S"
  obtain ts lm where r: "release t (sc_lock_manager s) = Inr (ts, lm)" "sim ?S lm" "distinct ts" "set ts = newly_ready S t"
    using sim_release [OF I(1) rdy] by blast
  have act: "active ?S = active S - {t}" by (auto simp: spec_release_def)
  have ready: "{u. spec_ready ?S u} = {u. spec_ready S u} - {t} \<union> newly_ready S t"
    using spec_ready_step [of requests required S "ReleaseOp t"] rdy by simp
  have nrd: "newly_ready S t \<inter> {u. spec_ready S u} = {}" "t \<notin> newly_ready S t"
    by (auto simp: newly_ready_def spec_ready_def spec_release_def)
  have ta: "t \<in> active S" using rdy by (rule spec_ready_active)
  have sub: "set ts \<subseteq> active S"
  proof
    fix u assume "u \<in> set ts"
    then have "u \<in> {u. spec_ready ?S u}" unfolding ready r(4) by (rule UnI2)
    then have "u \<in> active ?S" by (simp only: mem_Collect_eq spec_ready_active)
    then show "u \<in> active S" unfolding act by (rule DiffD1)
  qed
  have "active_txns (s\<lparr>sc_lock_manager := lm\<rparr>) u \<noteq> None" if "u \<in> set ts" for u
    using I(6) [OF subsetD [OF sub that]] by auto
  then have "\<forall>u \<in> set ts. active_txns (s\<lparr>sc_lock_manager := lm\<rparr>) u \<noteq> None" by blast
  from dispatch_all_ok [OF this] obtain s1 where
    s1: "dispatch_all ts (s\<lparr>sc_lock_manager := lm\<rparr>) = Inr s1" "sc_lock_manager s1 = lm" "dispatched s1 = dispatched s @ ts"
    and a1: "\<And>u. case active_txns s u of None \<Rightarrow> active_txns s1 u = None
      | Some h \<Rightarrow> \<exists>n. active_txns s1 u = Some (h\<lparr>num_dispatches := n\<rparr>)" by auto
  obtain h where h: "active_txns s1 t = Some h" using I(6) [OF ta] a1 [of t] by (auto split: option.splits)
  let ?h = "h\<lparr>is_done := True\<rparr>"
  let ?s = "s1\<lparr>active_txns := (active_txns s1)(t := if is_ready_for_gc ?h then None else Some ?h)\<rparr>"
  have e: "Scheduler_OnCustomSocket release [t] s = Inr ?s"
    using r(1) s1(1) h by (simp add: worker_done_def Let_def)
  have hold: "\<exists>h. active_txns ?s u = Some h \<and> holder_ok nr h \<and> th_txn_id h = u \<and> \<not> aborting h \<and>
        (\<forall>i < nr. lo_txns h ! i \<noteq> None \<longrightarrow> (u, int i) \<in> P)" if u: "u \<in> active S - {t}" for u
  proof -
    obtain k where k: "active_txns s u = Some k" "holder_ok nr k" "th_txn_id k = u" "\<not> aborting k"
        "\<forall>i < nr. lo_txns k ! i \<noteq> None \<longrightarrow> (u, int i) \<in> P" using I(6) u by blast
    with a1 [of u] obtain n where "active_txns s1 u = Some (k\<lparr>num_dispatches := n\<rparr>)" by auto
    with k u show ?thesis by (auto simp: holder_ok_def parts_def)
  qed
  have dom: "dom (active_txns ?s) \<subseteq> active S \<union> D"
  proof
    fix u assume "u \<in> dom (active_txns ?s)"
    then have "u = t \<or> active_txns s1 u \<noteq> None" by (auto split: if_splits)
    with a1 [of u] ta I(5) show "u \<in> active S \<union> D" by (auto split: option.splits)
  qed
  have "distinct (dispatched s @ ts)"
    using I(2,3,4) r(3,4) nrd sub by auto
  moreover have "set (dispatched s @ ts) = {u. spec_ready ?S u} \<union> insert t D"
    using I(3) r(4) rdy unfolding ready by auto
  moreover have "insert t D \<inter> (active S - {t}) = {}" using I(4) by blast
  moreover have "dom (active_txns ?s) \<subseteq> (active S - {t}) \<union> insert t D" using dom by blast
  ultimately have "sched_inv nr P (insert t D) ?S ?s"
    unfolding sched_inv_def act using r(2) s1(2,3) hold by simp
  with e show ?thesis by blast
qed

lemma sched_run_inv:
  assumes "sched_inv nr P D S s" "legal_run requests required S (map op_of evs)" "parts_legal nr P D evs"
  shows "\<exists>s'. sched_run kind acquire release nr evs s = Inr s' \<and>
    sched_inv nr (P \<union> arrived evs) (D \<union> finished evs) (spec_run requests required (map op_of evs) S) s'"
  using assms
proof (induction evs arbitrary: P D S s)
  case Nil
  then show ?case by (simp add: arrived_def finished_def)
next
  case (Cons e evs)
  show ?case
  proof (cases e)
    case (Arrive x)
    have l: "legal_acquire S (tid x) (required x) (requests x)" using Cons.prems(2) Arrive by simp
    have p: "0 \<le> home (internal x)" "home (internal x) < int nr" "(tid x, home (internal x)) \<notin> P" "tid x \<notin> D"
      using Cons.prems(3) Arrive by simp_all
    from arrive_step [OF Cons.prems(1) l p] obtain s1 where
      s1: "ProcessTransaction kind acquire release nr x s = Inr s1"
        "sched_inv nr (insert (tid x, home (internal x)) P) D (spec_acquire (tid x) (required x) (requests x) S) s1" by blast
    have "legal_run requests required (spec_acquire (tid x) (required x) (requests x) S) (map op_of evs)"
      "parts_legal nr (insert (tid x, home (internal x)) P) D evs"
      using Cons.prems(2,3) Arrive by simp_all
    from Cons.IH [OF s1(2) this] s1(1) Arrive show ?thesis by (auto simp: arrived_def finished_def)
  next
    case (WorkerDone t)
    have l: "spec_ready S t" using Cons.prems(2) WorkerDone by simp
    from done_step [OF Cons.prems(1) l] obtain s1 where
      s1: "Scheduler_OnCustomSocket release [t] s = Inr s1" "sched_inv nr P (insert t D) (spec_release t S) s1" by blast
    have "legal_run requests required (spec_release t S) (map op_of evs)" "parts_legal nr P (insert t D) evs"
      using Cons.prems(2,3) WorkerDone by simp_all
    from Cons.IH [OF s1(2) this] s1(1) WorkerDone show ?thesis by (auto simp: arrived_def finished_def)
  qed
qed

text \<open>The transactions the workers run, dispatched and not done, are exactly the ready ones; each is
  dispatched once.\<close>

lemma scheduler_dispatches_ready:
  assumes "legal_run requests required spec_init (map op_of evs)" "parts_legal nr {} {} evs"
  shows "\<exists>s. sched_run kind acquire release nr evs (Scheduler init) = Inr s \<and> distinct (dispatched s) \<and>
    set (dispatched s) - finished evs = {u. spec_ready (spec_run requests required (map op_of evs) spec_init) u} \<and>
    finished evs \<subseteq> set (dispatched s)"
proof -
  let ?S = "spec_run requests required (map op_of evs) spec_init"
  obtain s where s: "sched_run kind acquire release nr evs (Scheduler init) = Inr s"
    "sched_inv nr (arrived evs) (finished evs) ?S s"
    using sched_run_inv [OF sched_inv_init assms] by auto
  note I = sched_invD [OF s(2)]
  have "finished evs \<inter> {u. spec_ready ?S u} = {}" using I(4) spec_ready_active [of ?S] by blast
  then have "set (dispatched s) - finished evs = {u. spec_ready ?S u}" unfolding I(3) by blast
  with s(1) I(2,3) show ?thesis by blast
qed

lemma scheduler_isolation:
  assumes "legal_run requests required spec_init (map op_of evs)" "parts_legal nr {} {} evs"
    and "sched_run kind acquire release nr evs (Scheduler init) = Inr s"
    and "Arrive x \<in> set evs" "Arrive y \<in> set evs" "tid x \<noteq> tid y"
    and "tid x \<in> set (dispatched s) - finished evs" "tid y \<in> set (dispatched s) - finished evs"
    and "(k, m1) \<in> set (requests x)" "(k, m2) \<in> set (requests y)"
  shows "m1 = READ \<and> m2 = READ"
proof -
  let ?S = "spec_run requests required (map op_of evs) spec_init"
  have "set (dispatched s) - finished evs = {u. spec_ready ?S u}"
    using scheduler_dispatches_ready [OF assms(1,2), of kind] assms(3) by auto
  with assms(7,8) have rdy: "spec_ready ?S (tid x)" "spec_ready ?S (tid y)" by auto
  have in_ops: "AcquireOp z \<in> set (map op_of evs)" if "Arrive z \<in> set evs" for z
    using imageI [OF that, of op_of] by simp
  show ?thesis
    using rdy assms(6) spec_run_hist [where req = requests, OF in_ops [OF assms(4)] assms(9)]
      spec_run_hist [where req = requests, OF in_ops [OF assms(5)] assms(10)] by (rule spec_ready_exclusive)
qed

end

section \<open>Entries of the scheduler\<close>

text \<open>What a holder knows of the parts of its transaction: how many came, how many it expects and from which regions.\<close>

definition parts_seen :: "txn_holder \<Rightarrow> nat \<times> nat \<times> bool list" where
  "parts_seen h = (num_lo_txns h, expected_num_lo_txns h, map (\<lambda>x. x \<noteq> None) (lo_txns h))"

abbreviation seen :: "'m scheduler \<Rightarrow> txn_id \<Rightarrow> (nat \<times> nat \<times> bool list) option" where
  "seen s t \<equiv> map_option parts_seen (active_txns s t)"

fun about :: "sched_event \<Rightarrow> txn_id" where
  "about (Arrive x) = tid x"
| "about (WorkerDone t) = t"

lemma parts_seen_update:
  "parts_seen (update_txn f h) = parts_seen h" "parts_seen (h\<lparr>num_dispatches := n\<rparr>) = parts_seen h"
  "parts_seen (h\<lparr>aborting := b\<rparr>) = parts_seen h" "parts_seen (h\<lparr>is_done := b\<rparr>) = parts_seen h"
proof -
  have "map (\<lambda>x. x \<noteq> None) (l[i := map_option f (l ! i)]) = map (\<lambda>x. x \<noteq> None) l" for l i
  proof (rule nth_equalityI)
    fix j
    assume "j < length (map (\<lambda>x. x \<noteq> None) (l[i := map_option f (l ! i)]))"
    then show "map (\<lambda>x. x \<noteq> None) (l[i := map_option f (l ! i)]) ! j = map (\<lambda>x. x \<noteq> None) l ! j"
      by (cases "j = i") simp_all
  qed simp
  then show "parts_seen (update_txn f h) = parts_seen h" by (simp add: parts_seen_def update_txn_def)
qed (simp_all add: parts_seen_def)

lemma Dispatch_seen: "Dispatch u s = Inr s' \<Longrightarrow> seen s' t = seen s t"
  by (auto simp: Dispatch_def parts_seen_update split: option.splits)

lemma dispatch_all_seen: "dispatch_all us s = Inr s' \<Longrightarrow> seen s' t = seen s t"
proof (induction us arbitrary: s)
  case (Cons u us)
  then obtain s1 where s1: "Dispatch u s = Inr s1" "dispatch_all us s1 = Inr s'" by (auto split: sum.splits)
  from Dispatch_seen [OF s1(1)] Cons.IH [OF s1(2)] show ?case by simp
qed simp

lemma TriggerPreDispatchAbort_seen:
  assumes "TriggerPreDispatchAbort kind release u s = Inr s'"
  shows "seen s' t = seen s t"
proof (cases "kind = LOCK_MANAGER_DDR")
  case True
  with assms show ?thesis by (simp add: TriggerPreDispatchAbort_def)
next
  case False
  with assms obtain h ts lm s1 where h: "active_txns s u = Some h"
    and d: "dispatch_all ts (s\<lparr>sc_lock_manager := lm, active_txns := (active_txns s)(u \<mapsto> h\<lparr>aborting := True\<rparr>)\<rparr>) = Inr s1"
      "Dispatch u (s1\<lparr>active_txns := (active_txns s1)(u := map_option (update_txn (\<lambda>x. x\<lparr>status := ABORTED\<rparr>)) (active_txns s1 u))\<rparr>) = Inr s'"
    by (auto simp: TriggerPreDispatchAbort_def split: option.splits if_splits sum.splits)
  have "seen s1 t = seen s t" using dispatch_all_seen [OF d(1), of t] h by (auto simp: parts_seen_update)
  moreover have "seen (s1\<lparr>active_txns := (active_txns s1)(u := map_option (update_txn f) (active_txns s1 u))\<rparr>) t = seen s1 t" for f
    by (simp add: option.map_comp comp_def parts_seen_update)
  ultimately show ?thesis using Dispatch_seen [OF d(2), of t] by simp
qed

lemma SendToLockManager_seen: "SendToLockManager kind acquire release x s = Inr s' \<Longrightarrow> seen s' t = seen s t"
  by (auto simp: SendToLockManager_def split: sum.splits acquire_result.splits
      dest!: Dispatch_seen [where t = t] TriggerPreDispatchAbort_seen [where t = t])

text \<open>The first part, another part, and the end of a transaction.\<close>

lemma ProcessTransaction_seen:
  assumes "ProcessTransaction kind acquire release nr x s = Inr s'"
  shows "t \<noteq> tid x \<Longrightarrow> seen s' t = seen s t"
    "active_txns s (tid x) = None \<Longrightarrow> \<exists>h. TxnHolder nr x = Inr h \<and> seen s' (tid x) = Some (parts_seen h)"
    "active_txns s (tid x) = Some h \<Longrightarrow> \<exists>b h1. AddLockOnlyTxn x h = Inr (b, h1) \<and>
       (seen s' (tid x) = Some (parts_seen (if b then h1 else h)) \<or> seen s' (tid x) = None \<and> num_lo_txns h1 = expected_num_lo_txns h1)"
proof -
  let ?t = "tid x"
  let ?r = "case active_txns s ?t of None \<Rightarrow> map_sum id (\<lambda>h. (True, h)) (TxnHolder nr x) | Some h \<Rightarrow> AddLockOnlyTxn x h"
  define c where "c = global_log_counter s + 1"
  from assms obtain b h1 where r: "?r = Inr (b, h1)"
    by (auto simp: ProcessTransaction_def Let_def split: sum.splits)
  have new: "b \<and> \<not> aborting h1" if "active_txns s ?t = None"
    using r that by (auto simp: TxnHolder_def Let_def split: sum.splits if_splits)
  have old: "\<not> b \<Longrightarrow> active_txns s ?t = Some h1"
    using r by (cases "TxnHolder nr x") (auto simp: AddLockOnlyTxn_def Let_def split: option.splits if_splits)
  have res: "(\<forall>u. u \<noteq> ?t \<longrightarrow> seen s' u = seen s u) \<and>
    (if \<not> b then seen s' ?t = seen s ?t
     else seen s' ?t = Some (parts_seen h1) \<or> aborting h1 \<and> seen s' ?t = None \<and> num_lo_txns h1 = expected_num_lo_txns h1)"
  proof (cases b)
    case False
    with assms r have "s' = s\<lparr>global_log_counter := c\<rparr>" by (simp add: ProcessTransaction_def Let_def c_def)
    with False show ?thesis by simp
  next
    case True
    let ?h = "update_txn (add_log_position (home (internal x)) c) h1"
    let ?s = "s\<lparr>global_log_counter := c, active_txns := (active_txns s)(?t \<mapsto> ?h)\<rparr>"
    have f: "aborting ?h = aborting h1" "is_ready_for_gc ?h = is_ready_for_gc h1" by (simp_all add: update_txn_def is_ready_for_gc_def)
    have s0: "seen ?s u = (if u = ?t then Some (parts_seen h1) else seen s u)" for u by (simp add: parts_seen_update)
    show ?thesis
    proof (cases "aborting h1")
      case a: True
      with True assms r f have "s' = (if is_ready_for_gc h1 then ?s\<lparr>active_txns := (active_txns ?s)(?t := None)\<rparr> else ?s)"
        by (auto simp: ProcessTransaction_def Let_def c_def split: sum.splits)
      with True a s0 show ?thesis by (auto simp: is_ready_for_gc_def parts_seen_update split: if_splits)
    next
      case False
      with True assms r f obtain x' where "SendToLockManager kind acquire release x' ?s = Inr s'"
        by (auto simp: ProcessTransaction_def Let_def c_def split: sum.splits)
      from SendToLockManager_seen [OF this] s0 True show ?thesis by simp
    qed
  qed
  show "t \<noteq> ?t \<Longrightarrow> seen s' t = seen s t" using res by blast
  show "\<exists>h. TxnHolder nr x = Inr h \<and> seen s' ?t = Some (parts_seen h)" if "active_txns s ?t = None"
    using res new [OF that] r that by (cases "TxnHolder nr x") auto
  show "\<exists>b h1. AddLockOnlyTxn x h = Inr (b, h1) \<and>
      (seen s' ?t = Some (parts_seen (if b then h1 else h)) \<or> seen s' ?t = None \<and> num_lo_txns h1 = expected_num_lo_txns h1)"
    if "active_txns s ?t = Some h"
    using res r that old by (cases b) auto
qed

lemma worker_done_seen:
  assumes "worker_done release u s = Inr s'"
  shows "t \<noteq> u \<Longrightarrow> seen s' t = seen s t" "seen s' u = seen s u \<or> (\<exists>n l. seen s u = Some (n, n, l))"
proof -
  from assms obtain ts lm s1 h where d: "dispatch_all ts (s\<lparr>sc_lock_manager := lm\<rparr>) = Inr s1" and h: "active_txns s1 u = Some h"
    and s': "s' = s1\<lparr>active_txns := (active_txns s1)(u := if is_ready_for_gc (h\<lparr>is_done := True\<rparr>) then None else Some (h\<lparr>is_done := True\<rparr>))\<rparr>"
    by (auto simp: worker_done_def Let_def split: sum.splits option.splits)
  have e: "seen s1 v = seen s v" for v using dispatch_all_seen [OF d, of v] by simp
  show "t \<noteq> u \<Longrightarrow> seen s' t = seen s t" using e s' by simp
  show "seen s' u = seen s u \<or> (\<exists>n l. seen s u = Some (n, n, l))"
  proof (cases "is_ready_for_gc (h\<lparr>is_done := True\<rparr>)")
    case True
    then have "seen s1 u = Some (num_lo_txns h, num_lo_txns h, map (\<lambda>x. x \<noteq> None) (lo_txns h))"
      using h by (simp add: is_ready_for_gc_def parts_seen_def)
    with e [of u] show ?thesis by (metis (no_types, lifting))
  next
    case False
    then have "seen s' u = seen s1 u" using h s' by (simp add: parts_seen_update)
    with e [of u] show ?thesis by simp
  qed
qed

lemma sched_step_other:
  assumes "sched_step kind acquire release nr e s = Inr s'" "about e \<noteq> t"
  shows "seen s' t = seen s t"
proof (cases e)
  case (Arrive x)
  with assms ProcessTransaction_seen(1) [of kind acquire release nr x s s' t] show ?thesis by simp
next
  case (WorkerDone u)
  with assms worker_done_seen(1) [of release u s s' t] show ?thesis by (auto split: sum.splits)
qed

lemma sched_run_other:
  assumes "sched_run kind acquire release nr evs s = Inr s'" "t \<notin> about ` set evs"
  shows "seen s' t = seen s t"
  using assms
proof (induction evs arbitrary: s)
  case (Cons e evs)
  then obtain s1 where s1: "sched_step kind acquire release nr e s = Inr s1" "sched_run kind acquire release nr evs s1 = Inr s'"
    by (auto split: sum.splits)
  from Cons.prems(2) have "about e \<noteq> t" "t \<notin> about ` set evs" by auto
  with sched_step_other [OF s1(1)] Cons.IH [OF s1(2)] show ?case by simp
qed simp

text \<open>An entry that got more parts than it expects is never erased, whatever follows.\<close>

lemma sched_step_overfull:
  assumes "sched_step kind acquire release nr e s = Inr s'" "seen s t = Some (n, m, l)" "m < n"
  shows "\<exists>n' l'. seen s' t = Some (n', m, l') \<and> n \<le> n'"
proof (cases "about e = t")
  case False
  from sched_step_other [OF assms(1) this] assms(2) have "seen s' t = Some (n, m, l)" by (simp only:)
  then show ?thesis by blast
next
  case True
  obtain h where h: "active_txns s t = Some h" "num_lo_txns h = n" "expected_num_lo_txns h = m" using assms(2) by (auto simp: parts_seen_def)
  show ?thesis
  proof (cases e)
    case (Arrive x)
    with True assms(1) h(1) have p: "ProcessTransaction kind acquire release nr x s = Inr s'" "active_txns s (tid x) = Some h" by simp_all
    from ProcessTransaction_seen(3) [OF p] obtain b h1 where b: "AddLockOnlyTxn x h = Inr (b, h1)"
      "seen s' t = Some (parts_seen (if b then h1 else h)) \<or> seen s' t = None \<and> num_lo_txns h1 = expected_num_lo_txns h1"
      using True Arrive by auto
    from b(1) h(2,3) have "n \<le> num_lo_txns h1" "expected_num_lo_txns h1 = m"
      by (auto simp: AddLockOnlyTxn_def Let_def split: if_splits)
    with b(2) h(2,3) assms(3) show ?thesis by (cases b) (auto simp: parts_seen_def)
  next
    case (WorkerDone u)
    with True assms(1) have "worker_done release t s = Inr s'" by (auto split: sum.splits)
    from worker_done_seen(2) [OF this] assms(2,3) show ?thesis by auto
  qed
qed

lemma sched_run_overfull:
  assumes "sched_run kind acquire release nr evs s = Inr s'" "seen s t = Some (n, m, l)" "m < n"
  shows "\<exists>n' l'. seen s' t = Some (n', m, l') \<and> n \<le> n'"
  using assms
proof (induction evs arbitrary: s n l)
  case (Cons e evs)
  then obtain s1 where s1: "sched_step kind acquire release nr e s = Inr s1" "sched_run kind acquire release nr evs s1 = Inr s'"
    by (auto split: sum.splits)
  from sched_step_overfull [OF s1(1) Cons.prems(2,3)] obtain n1 l1 where "seen s1 t = Some (n1, m, l1)" "n \<le> n1" by blast
  with Cons.IH [OF s1(2) this(1)] Cons.prems(3) show ?case by force
qed auto

lemma sched_run_append:
  "sched_run kind acquire release nr (xs @ ys) s =
     (case sched_run kind acquire release nr xs s of Inl e \<Rightarrow> Inl e | Inr s' \<Rightarrow> sched_run kind acquire release nr ys s')"
  by (induction xs arbitrary: s) (auto split: sum.splits)

lemma two_parts_one_expected:
  assumes run: "sched_run kind acquire release nr (evs0 @ Arrive x # evs1 @ Arrive y # evs2) (Scheduler lm) = Inr s"
    and t: "tid x = t" "tid y = t" "home (internal x) \<noteq> home (internal y)" "length (involved_replicas (internal x)) = 1"
    and quiet: "t \<notin> about ` set (evs0 @ evs1)"
  shows "\<exists>h. active_txns s t = Some h \<and> expected_num_lo_txns h = 1 \<and> 2 \<le> num_lo_txns h"
proof -
  from run obtain s0 s1 s2 s3 where
    s: "sched_run kind acquire release nr evs0 (Scheduler lm) = Inr s0" "ProcessTransaction kind acquire release nr x s0 = Inr s1"
      "sched_run kind acquire release nr evs1 s1 = Inr s2" "ProcessTransaction kind acquire release nr y s2 = Inr s3"
      "sched_run kind acquire release nr evs2 s3 = Inr s"
    by (auto simp: sched_run_append split: sum.splits)
  have q: "t \<notin> about ` set evs0" "t \<notin> about ` set evs1" using quiet by auto
  have "active_txns s0 (tid x) = None" using sched_run_other [OF s(1) q(1)] t(1) by (simp add: Scheduler_def)
  from ProcessTransaction_seen(2) [OF s(2) this] t(1) obtain h where h: "TxnHolder nr x = Inr h" "seen s1 t = Some (parts_seen h)" by auto
  have "seen s2 t = Some (parts_seen h)" using sched_run_other [OF s(3) q(2)] h(2) by simp
  then obtain h2 where h2: "active_txns s2 t = Some h2" "parts_seen h2 = parts_seen h" by auto
  let ?i = "nat (home (internal x))"
  have hm: "\<not> home (internal x) < 0" "?i < nr" and hh: "lo_txns h = (replicate nr None)[?i := Some x]" "num_lo_txns h = 1" "expected_num_lo_txns h = 1"
    using h(1) t(4) by (auto simp: TxnHolder_def Let_def split: if_splits)
  from h2(2) have e2: "num_lo_txns h2 = 1" "expected_num_lo_txns h2 = 1" and m2: "map (\<lambda>x. x \<noteq> None) (lo_txns h2) = map (\<lambda>x. x \<noteq> None) (lo_txns h)"
    by (simp_all add: parts_seen_def hh(2,3))
  have len: "length (lo_txns h2) = nr" using arg_cong [OF m2, of length] by (simp add: hh(1))
  have none: "lo_txns h2 ! j = None" if "j < nr" "j \<noteq> ?i" for j
    using arg_cong [OF m2, of "\<lambda>l. l ! j"] that len by (simp add: hh(1))
  have a: "active_txns s2 (tid y) = Some h2" using h2(1) t(2) by simp
  from ProcessTransaction_seen(3) [OF s(4) a] t(2) obtain b h3 where b: "AddLockOnlyTxn y h2 = Inr (b, h3)"
    "seen s3 t = Some (parts_seen (if b then h3 else h2)) \<or> seen s3 t = None \<and> num_lo_txns h3 = expected_num_lo_txns h3" by auto
  from b(1) have hy: "0 \<le> home (internal y)" "nat (home (internal y)) < nr" by (auto simp: AddLockOnlyTxn_def Let_def len split: if_splits)
  have "nat (home (internal y)) \<noteq> ?i" using hy(1) hm(1) t(3) by auto
  with none [OF hy(2)] b(1) e2 have "b \<and> num_lo_txns h3 = 2 \<and> expected_num_lo_txns h3 = 1"
    by (auto simp: AddLockOnlyTxn_def Let_def split: if_splits)
  with b(2) obtain l where "seen s3 t = Some (2, 1, l)" by (auto simp: parts_seen_def)
  from sched_run_overfull [OF s(5) this] show ?thesis by (auto simp: parts_seen_def)
qed

end
