(* ===== verification/Execution_Kv.thy ===== *)
theory Execution_Kv
  imports Proto_Utils
begin

text \<open>
  \<^verbatim>\<open>execution/execution.{h,cpp}\<close> and \<^verbatim>\<open>execution/key_value.cpp\<close>: running the procedures of a transaction
  and applying its writes. The storage is the map that the hash map implements (theory
  \<open>Concurrent_Hash_Map\<close>).
\<close>

section \<open>Model\<close>

type_synonym storage = "key \<rightharpoonup> stored_record"

definition entry_record :: "value_entry \<Rightarrow> stored_record" where
  "entry_record v = SetValue (ve_new_value v) (SetMetadata (entry_metadata v) default_record)"

fun apply_keys :: "sharder \<Rightarrow> key_value list \<Rightarrow> storage \<Rightarrow> storage result" where
  "apply_keys sh [] st = Inr st"
| "apply_keys sh (kv # kvs) st =
     (case is_local_key sh (kv_key kv) of
        Inl e \<Rightarrow> Inl e
      | Inr is_local \<Rightarrow>
          if \<not> is_local \<or> kv_type kv = READ then apply_keys sh kvs st
          else apply_keys sh kvs (st(kv_key kv \<mapsto> entry_record (kv_entry kv))))"

fun delete_keys :: "key list \<Rightarrow> storage \<Rightarrow> storage" where
  "delete_keys [] st = st"
| "delete_keys (k # ks) st = delete_keys ks (st(k := None))"

definition ApplyWrites :: "transaction \<Rightarrow> sharder \<Rightarrow> storage \<Rightarrow> storage result" where
  "ApplyWrites txn sh st = map_sum id (delete_keys (deleted_keys txn)) (apply_keys sh (keys txn) st)"

definition NoopExecution_Execute :: "transaction \<Rightarrow> transaction" where
  "NoopExecution_Execute txn = txn\<lparr>status := COMMITTED\<rparr>"

text \<open>\<^verbatim>\<open>key_index.emplace\<close> keeps the first index of a key.\<close>

fun build_key_index :: "key_value list \<Rightarrow> nat \<Rightarrow> (key \<rightharpoonup> nat) \<Rightarrow> (key \<rightharpoonup> nat)" where
  "build_key_index [] i m = m"
| "build_key_index (kv # kvs) i m =
     build_key_index kvs (Suc i) (case m (kv_key kv) of None \<Rightarrow> m(kv_key kv \<mapsto> i) | Some _ \<Rightarrow> m)"

record kv_run =
  kr_keys :: "key_value list"
  kr_deleted :: "key list"
  kr_aborted :: bool
  kr_reason :: string

definition set_new_value :: "nat \<Rightarrow> string \<Rightarrow> kv_run \<Rightarrow> kv_run" where
  "set_new_value i v r =
     (let kv = kr_keys r ! i
      in r\<lparr>kr_keys := (kr_keys r)[i := kv\<lparr>kv_entry := (kv_entry kv)\<lparr>ve_new_value := v\<rparr>\<rparr>]\<rparr>)"

text \<open>\<^verbatim>\<open>args[i]\<close> outside of the repeated field and a dereferenced end iterator are undefined.\<close>

definition arg :: "string list \<Rightarrow> nat \<Rightarrow> string result" where
  "arg args i = (if i < length args then Inr (args ! i) else Inl (UndefinedBehaviour ''args''))"

definition eq_reason :: "string \<Rightarrow> string \<Rightarrow> string \<Rightarrow> string" where
  "eq_reason k expected actual = ''Key = '' @ k @ ''. Expected value = '' @ expected @ ''. Actual value = '' @ actual"

definition run_SET :: "(key \<rightharpoonup> nat) \<Rightarrow> string list \<Rightarrow> kv_run \<Rightarrow> kv_run result" where
  "run_SET key_index args r =
     (case arg args 1 of Inl e \<Rightarrow> Inl e | Inr k \<Rightarrow>
        (case key_index k of
           None \<Rightarrow> Inr r
         | Some i \<Rightarrow>
             if kv_type (kr_keys r ! i) \<noteq> WRITE then Inr r
             else case arg args 2 of Inl e \<Rightarrow> Inl e | Inr v \<Rightarrow> Inr (set_new_value i v r)))"

definition run_DEL :: "(key \<rightharpoonup> nat) \<Rightarrow> string list \<Rightarrow> kv_run \<Rightarrow> kv_run result" where
  "run_DEL key_index args r =
     (case arg args 1 of Inl e \<Rightarrow> Inl e | Inr k \<Rightarrow>
        (case key_index k of
           Some _ \<Rightarrow> Inr r
         | None \<Rightarrow> Inl (UndefinedBehaviour ''key_index.end()'')))"

definition run_COPY :: "(key \<rightharpoonup> nat) \<Rightarrow> string list \<Rightarrow> kv_run \<Rightarrow> kv_run result" where
  "run_COPY key_index args r =
     (case arg args 1 of Inl e \<Rightarrow> Inl e | Inr src \<Rightarrow>
      (case arg args 2 of Inl e \<Rightarrow> Inl e | Inr dst \<Rightarrow>
        (case (key_index src, key_index dst) of
           (Some i, Some j) \<Rightarrow>
             if kv_type (kr_keys r ! j) \<noteq> WRITE then Inr r
             else Inr (set_new_value j (ve_value (kv_entry (kr_keys r ! i))) r)
         | _ \<Rightarrow> Inr r)))"

definition run_EQ :: "(key \<rightharpoonup> nat) \<Rightarrow> string list \<Rightarrow> kv_run \<Rightarrow> kv_run result" where
  "run_EQ key_index args r =
     (case arg args 1 of Inl e \<Rightarrow> Inl e | Inr k \<Rightarrow>
        (case key_index k of
           None \<Rightarrow> Inr r
         | Some i \<Rightarrow>
             (case arg args 2 of Inl e \<Rightarrow> Inl e | Inr expected \<Rightarrow>
                let actual = ve_value (kv_entry (kr_keys r ! i))
                in if actual \<noteq> expected
                   then Inr (r\<lparr>kr_aborted := True, kr_reason := kr_reason r @ eq_reason k expected actual\<rparr>)
                   else Inr r)))"

text \<open>\<^verbatim>\<open>std::stoi\<close>; the pause itself changes nothing.\<close>

definition run_SLEEP :: "string list \<Rightarrow> kv_run \<Rightarrow> kv_run result" where
  "run_SLEEP args r =
     (case arg args 1 of Inl e \<Rightarrow> Inl e | Inr s \<Rightarrow>
        (case stoll s of
           Inl e \<Rightarrow> Inl e
         | Inr v \<Rightarrow> if - (2 ^ 31) \<le> v \<and> v < 2 ^ 31 then Inr r else Inl (RuntimeError ''out_of_range'')))"

definition run_procedure :: "(key \<rightharpoonup> nat) \<Rightarrow> string list \<Rightarrow> kv_run \<Rightarrow> kv_run result" where
  "run_procedure key_index args r =
     (if args = [] then Inr r
      else if hd args = ''SET'' then run_SET key_index args r
      else if hd args = ''DEL'' then run_DEL key_index args r
      else if hd args = ''COPY'' then run_COPY key_index args r
      else if hd args = ''EQ'' then run_EQ key_index args r
      else if hd args = ''SLEEP'' then run_SLEEP args r
      else Inr r)"

fun run_procedures :: "(key \<rightharpoonup> nat) \<Rightarrow> string list list \<Rightarrow> kv_run \<Rightarrow> kv_run result" where
  "run_procedures key_index [] r = Inr r"
| "run_procedures key_index (p # ps) r =
     (case run_procedure key_index p r of Inl e \<Rightarrow> Inl e | Inr r' \<Rightarrow> run_procedures key_index ps r')"

fun procedures :: "program \<Rightarrow> string list list" where
  "procedures (Code ps) = ps"
| "procedures _ = []"

definition KeyValueExecution_Execute :: "sharder \<Rightarrow> transaction \<Rightarrow> storage \<Rightarrow> (transaction \<times> storage) result" where
  "KeyValueExecution_Execute sh txn st =
     (let key_index = build_key_index (keys txn) 0 Map.empty
      in case run_procedures key_index (procedures (program txn))
                \<lparr>kr_keys = keys txn, kr_deleted = deleted_keys txn, kr_aborted = False, kr_reason = []\<rparr> of
           Inl e \<Rightarrow> Inl e
         | Inr r \<Rightarrow>
             let txn1 = txn\<lparr>keys := kr_keys r, deleted_keys := kr_deleted r\<rparr>
             in if kr_aborted r then Inr (txn1\<lparr>status := ABORTED, abort_reason := kr_reason r\<rparr>, st)
                else case ApplyWrites (txn1\<lparr>status := COMMITTED\<rparr>) sh st of
                       Inl e \<Rightarrow> Inl e
                     | Inr st' \<Rightarrow> Inr (txn1\<lparr>status := COMMITTED\<rparr>, st'))"

section \<open>What a transaction means\<close>

text \<open>The entries by key, the value a procedure assigns to a key and the value a key has after a list
  of procedures; \<open>eq_fails\<close> says that a procedure is an \<^verbatim>\<open>EQ\<close> that does not hold.\<close>

definition entries :: "key_value list \<Rightarrow> key \<rightharpoonup> value_entry" where
  "entries kvs = map_of (map (\<lambda>kv. (kv_key kv, kv_entry kv)) kvs)"

definition assigned :: "(key \<rightharpoonup> value_entry) \<Rightarrow> string list \<Rightarrow> key \<Rightarrow> string option" where
  "assigned es p k =
     (if length p < 3 then None
      else if p ! 0 = ''SET'' then (if p ! 1 = k then Some (p ! 2) else None)
      else if p ! 0 = ''COPY'' then (if p ! 2 = k then map_option ve_value (es (p ! 1)) else None)
      else None)"

definition final_value :: "(key \<rightharpoonup> value_entry) \<Rightarrow> string list list \<Rightarrow> key \<Rightarrow> string \<Rightarrow> string" where
  "final_value es ps k v = fold (\<lambda>p v. case assigned es p k of None \<Rightarrow> v | Some w \<Rightarrow> w) ps v"

definition eq_fails :: "(key \<rightharpoonup> value_entry) \<Rightarrow> string list \<Rightarrow> bool" where
  "eq_fails es p \<longleftrightarrow> 3 \<le> length p \<and> p ! 0 = ''EQ'' \<and>
     (case es (p ! 1) of None \<Rightarrow> False | Some e \<Rightarrow> ve_value e \<noteq> p ! 2)"

section \<open>The key index\<close>

lemma build_key_index_Some:
  assumes "distinct (map kv_key kvs)" "\<forall>kv \<in> set kvs. m (kv_key kv) = None"
  shows "build_key_index kvs n m k = Some i \<longleftrightarrow>
    m k = Some i \<or> (\<exists>j < length kvs. kv_key (kvs ! j) = k \<and> i = n + j)"
  using assms
proof (induction kvs arbitrary: n m)
  case (Cons kv kvs)
  have m: "m (kv_key kv) = None" using Cons.prems by simp
  have "\<forall>kv' \<in> set kvs. (m(kv_key kv \<mapsto> n)) (kv_key kv') = None"
    using Cons.prems by (auto simp: image_iff)
  from Cons.IH [OF _ this, of "Suc n"] Cons.prems(1)
  have "build_key_index (kv # kvs) n m k = Some i \<longleftrightarrow>
      (m(kv_key kv \<mapsto> n)) k = Some i \<or> (\<exists>j < length kvs. kv_key (kvs ! j) = k \<and> i = Suc n + j)"
    by (simp only: build_key_index.simps m option.case list.simps distinct.simps)
  also have "\<dots> \<longleftrightarrow> m k = Some i \<or> (\<exists>j < length (kv # kvs). kv_key ((kv # kvs) ! j) = k \<and> i = n + j)"
    using m by (cases "k = kv_key kv") (auto simp: Ex_less_Suc2)
  finally show ?case .
qed simp

definition key_index_of :: "key_value list \<Rightarrow> key \<rightharpoonup> nat" where
  "key_index_of kvs = build_key_index kvs 0 Map.empty"

lemma key_index_Some:
  assumes "distinct (map kv_key kvs)"
  shows "key_index_of kvs k = Some i \<longleftrightarrow> i < length kvs \<and> kv_key (kvs ! i) = k"
  unfolding key_index_of_def by (subst build_key_index_Some [OF assms]) auto

lemma key_index_entries:
  assumes "distinct (map kv_key kvs)"
  shows "entries kvs k = map_option (\<lambda>i. kv_entry (kvs ! i)) (key_index_of kvs k)"
proof (cases "key_index_of kvs k")
  case None
  then have "\<forall>i < length kvs. kv_key (kvs ! i) \<noteq> k" using key_index_Some [OF assms, of k] by auto
  then have "k \<notin> kv_key ` set kvs" by (metis imageE in_set_conv_nth)
  with None show ?thesis by (auto simp: entries_def map_of_eq_None_iff image_iff)
next
  case (Some i)
  then have i: "i < length kvs" "kv_key (kvs ! i) = k" using key_index_Some [OF assms] by auto
  then have "(k, kv_entry (kvs ! i)) \<in> set (map (\<lambda>kv. (kv_key kv, kv_entry kv)) kvs)" by force
  moreover have "distinct (map fst (map (\<lambda>kv. (kv_key kv, kv_entry kv)) kvs))" using assms by (simp add: comp_def)
  ultimately have "entries kvs k = Some (kv_entry (kvs ! i))" unfolding entries_def by (rule map_of_is_SomeI [rotated])
  with Some show ?thesis by simp
qed

section \<open>Procedures\<close>

text \<open>Procedures change only the new values.\<close>

definition frame :: "key_value \<Rightarrow> key_value" where
  "frame kv = kv\<lparr>kv_entry := (kv_entry kv)\<lparr>ve_new_value := []\<rparr>\<rparr>"

lemma frame_eqD:
  assumes "frame a = frame b"
  shows "kv_key a = kv_key b" "ve_value (kv_entry a) = ve_value (kv_entry b)"
    "kv_type a = kv_type b" "ve_metadata (kv_entry a) = ve_metadata (kv_entry b)"
  using arg_cong [OF assms, of kv_key] arg_cong [OF assms, of "\<lambda>x. ve_value (kv_entry x)"]
    arg_cong [OF assms, of kv_type] arg_cong [OF assms, of "\<lambda>x. ve_metadata (kv_entry x)"]
  by (simp_all add: frame_def)

definition new_value_at :: "kv_run \<Rightarrow> nat \<Rightarrow> string" where
  "new_value_at r i = ve_new_value (kv_entry (kr_keys r ! i))"

lemma set_new_value_simps:
  assumes "i < length (kr_keys r)"
  shows "map frame (kr_keys (set_new_value i v r)) = map frame (kr_keys r)"
    "kr_deleted (set_new_value i v r) = kr_deleted r" "kr_aborted (set_new_value i v r) = kr_aborted r"
    "new_value_at (set_new_value i v r) j = (if j = i then v else new_value_at r j)"
proof -
  show "map frame (kr_keys (set_new_value i v r)) = map frame (kr_keys r)"
    using assms by (intro nth_equalityI) (auto simp: set_new_value_def Let_def nth_list_update frame_def)
qed (use assms in \<open>auto simp: set_new_value_def new_value_at_def Let_def\<close>)

text \<open>What one procedure does to a run whose entries are \<open>kvs\<close> up to their new values.\<close>

definition proc_ok :: "key_value list \<Rightarrow> string list \<Rightarrow> kv_run \<Rightarrow> kv_run \<Rightarrow> bool" where
  "proc_ok kvs p r r' \<longleftrightarrow>
     map frame (kr_keys r') = map frame kvs \<and> kr_deleted r' = kr_deleted r \<and>
     (kr_aborted r' \<longleftrightarrow> kr_aborted r \<or> eq_fails (entries kvs) p) \<and>
     (\<forall>i < length kvs. new_value_at r' i =
        (case assigned (entries kvs) p (kv_key (kvs ! i)) of
           Some v \<Rightarrow> if kv_type (kvs ! i) = WRITE then v else new_value_at r i
         | None \<Rightarrow> new_value_at r i))"

lemma arg_Inr: "arg args i = Inr a \<longleftrightarrow> i < length args \<and> a = args ! i"
  by (auto simp: arg_def)

lemma nth_frame:
  assumes "map frame xs = map frame ys" "i < length ys"
  shows "frame (xs ! i) = frame (ys ! i)"
  using assms by (metis length_map nth_map)

lemma len_keys: "map frame (kr_keys r) = map frame kvs \<Longrightarrow> length (kr_keys r) = length kvs"
  by (metis length_map)

lemma at:
  assumes fr: "map frame (kr_keys r) = map frame kvs" and "i < length kvs"
  shows "kv_key (kr_keys r ! i) = kv_key (kvs ! i)" "ve_value (kv_entry (kr_keys r ! i)) = ve_value (kv_entry (kvs ! i))"
    "kv_type (kr_keys r ! i) = kv_type (kvs ! i)"
  using frame_eqD [OF nth_frame [OF fr assms(2)]] by simp_all

lemma proc_ok_same:
  assumes fr: "map frame (kr_keys r) = map frame kvs" and "\<not> eq_fails (entries kvs) p"
    and "\<And>i. i < length kvs \<Longrightarrow> kv_type (kvs ! i) = WRITE \<Longrightarrow> assigned (entries kvs) p (kv_key (kvs ! i)) = None"
  shows "proc_ok kvs p r r"
  using assms by (auto simp: proc_ok_def split: option.splits)

lemma proc_ok_set:
  assumes distinct: "distinct (map kv_key kvs)" and fr: "map frame (kr_keys r) = map frame kvs"
    and i: "i < length kvs" "kv_type (kvs ! i) = WRITE" and e: "\<not> eq_fails (entries kvs) p"
    and a: "assigned (entries kvs) p (kv_key (kvs ! i)) = Some v"
    and o: "\<And>k. k \<noteq> kv_key (kvs ! i) \<Longrightarrow> assigned (entries kvs) p k = None"
  shows "proc_ok kvs p r (set_new_value i v r)"
proof -
  have il: "i < length (kr_keys r)" using i(1) by (simp add: len_keys [OF fr])
  have "kv_key (kvs ! j) \<noteq> kv_key (kvs ! i)" if "j < length kvs" "j \<noteq> i" for j
    using distinct that i(1) by (metis length_map nth_eq_iff_index_eq nth_map)
  with o a i(2) e fr show ?thesis by (auto simp: proc_ok_def set_new_value_simps [OF il])
qed

lemma run_SET_ok:
  assumes distinct: "distinct (map kv_key kvs)" and fr: "map frame (kr_keys r) = map frame kvs"
    and run: "run_SET (key_index_of kvs) p r = Inr r'" and hd: "p \<noteq> []" "hd p = ''SET''"
  shows "proc_ok kvs p r r'"
proof -
  have h: "p ! 0 = ''SET''" using hd by (simp add: hd_conv_nth)
  then have ne: "\<not> eq_fails (entries kvs) p" by (simp add: eq_fails_def)
  from run have p1: "1 < length p" by (auto simp: run_SET_def arg_def split: if_splits)
  have asg: "assigned (entries kvs) p k = (if 3 \<le> length p \<and> p ! 1 = k then Some (p ! 2) else None)" for k
    by (simp add: assigned_def h)
  show ?thesis
  proof (cases "key_index_of kvs (p ! 1)")
    case None
    then have "kv_key (kvs ! i) \<noteq> p ! 1" if "i < length kvs" for i
      using key_index_Some [OF distinct, of "p ! 1" i] that by auto
    then have "assigned (entries kvs) p (kv_key (kvs ! i)) = None" if "i < length kvs" for i
      using that unfolding asg by metis
    moreover have "r' = r" using run None p1 by (simp add: run_SET_def arg_def)
    ultimately show ?thesis using proc_ok_same [OF fr ne] by blast
  next
    case (Some i)
    then have i: "i < length kvs" "kv_key (kvs ! i) = p ! 1" using key_index_Some [OF distinct] by auto
    show ?thesis
    proof (cases "kv_type (kvs ! i) = WRITE")
      case True
      with run Some p1 i(1) have "3 \<le> length p" "r' = set_new_value i (p ! 2) r"
        by (auto simp: run_SET_def arg_def at [OF fr] split: if_splits)
      moreover have "assigned (entries kvs) p (kv_key (kvs ! i)) = Some (p ! 2)"
        "k \<noteq> kv_key (kvs ! i) \<Longrightarrow> assigned (entries kvs) p k = None" for k
        using i(2) \<open>3 \<le> length p\<close> unfolding asg by simp_all
      ultimately show ?thesis using proc_ok_set [OF distinct fr i(1) True ne] by blast
    next
      case False
      with run Some p1 i(1) have "r' = r" by (simp add: run_SET_def arg_def at [OF fr])
      moreover have "kv_key (kvs ! j) \<noteq> p ! 1" if "j < length kvs" "kv_type (kvs ! j) = WRITE" for j
        using that False i distinct by (metis length_map nth_eq_iff_index_eq nth_map)
      then have "assigned (entries kvs) p (kv_key (kvs ! j)) = None" if "j < length kvs" "kv_type (kvs ! j) = WRITE" for j
        using that unfolding asg by metis
      ultimately show ?thesis using proc_ok_same [OF fr ne] by blast
    qed
  qed
qed

lemma run_COPY_ok:
  assumes distinct: "distinct (map kv_key kvs)" and fr: "map frame (kr_keys r) = map frame kvs"
    and run: "run_COPY (key_index_of kvs) p r = Inr r'" and hd: "p \<noteq> []" "hd p = ''COPY''"
  shows "proc_ok kvs p r r'"
proof -
  have h: "p ! 0 = ''COPY''" using hd by (simp add: hd_conv_nth)
  then have ne: "\<not> eq_fails (entries kvs) p" by (simp add: eq_fails_def)
  from run have p2: "3 \<le> length p" by (auto simp: run_COPY_def arg_def split: if_splits)
  have asg: "assigned (entries kvs) p k =
      (if p ! 2 = k then map_option (\<lambda>i. ve_value (kv_entry (kvs ! i))) (key_index_of kvs (p ! 1)) else None)" for k
    using p2 by (simp add: assigned_def h key_index_entries [OF distinct] option.map_comp comp_def)
  show ?thesis
  proof (cases "\<exists>i j. key_index_of kvs (p ! 1) = Some i \<and> key_index_of kvs (p ! 2) = Some j \<and> kv_type (kvs ! j) = WRITE")
    case True
    then obtain i j where ij: "key_index_of kvs (p ! 1) = Some i" "key_index_of kvs (p ! 2) = Some j"
      "kv_type (kvs ! j) = WRITE" by blast
    then have lt: "i < length kvs" "j < length kvs" "kv_key (kvs ! j) = p ! 2"
      using key_index_Some [OF distinct] by auto
    have "r' = set_new_value j (ve_value (kv_entry (kvs ! i))) r"
      using run p2 ij lt by (simp add: run_COPY_def arg_def at [OF fr])
    with ij lt ne show ?thesis by (auto intro!: proc_ok_set [OF distinct fr] simp: asg)
  next
    case False
    have "kv_type (kr_keys r ! j) \<noteq> WRITE" if "key_index_of kvs (p ! 1) = Some i" "key_index_of kvs (p ! 2) = Some j" for i j
      using False that key_index_Some [OF distinct, of "p ! 2" j] at(3) [OF fr, of j] by auto
    then have "r' = r"
      using run p2 by (auto simp: run_COPY_def arg_def split: option.splits if_splits)
    moreover have "assigned (entries kvs) p (kv_key (kvs ! j)) = None" if j: "j < length kvs" "kv_type (kvs ! j) = WRITE" for j
      using False j key_index_Some [OF distinct, of "kv_key (kvs ! j)" j] by (auto simp: asg)
    ultimately show ?thesis using proc_ok_same [OF fr ne] by blast
  qed
qed

lemma run_EQ_ok:
  assumes distinct: "distinct (map kv_key kvs)" and fr: "map frame (kr_keys r) = map frame kvs"
    and run: "run_EQ (key_index_of kvs) p r = Inr r'" and hd: "p \<noteq> []" "hd p = ''EQ''"
  shows "proc_ok kvs p r r'"
proof -
  have h: "p ! 0 = ''EQ''" using hd by (simp add: hd_conv_nth)
  have asg: "assigned (entries kvs) p k = None" for k by (simp add: assigned_def h)
  from run have p1: "1 < length p" by (auto simp: run_EQ_def arg_def split: if_splits)
  show ?thesis
  proof (cases "key_index_of kvs (p ! 1)")
    case None
    with run p1 have "r' = r" by (simp add: run_EQ_def arg_def)
    moreover have "\<not> eq_fails (entries kvs) p"
      unfolding eq_fails_def key_index_entries [OF distinct] None by simp
    ultimately show ?thesis using proc_ok_same [OF fr _ asg] by simp
  next
    case (Some i)
    then have i: "i < length kvs" using key_index_Some [OF distinct] by auto
    from run Some p1 have p2: "3 \<le> length p" by (auto simp: run_EQ_def arg_def split: if_splits)
    have "eq_fails (entries kvs) p \<longleftrightarrow> ve_value (kv_entry (kvs ! i)) \<noteq> p ! 2"
      using p2 unfolding eq_fails_def key_index_entries [OF distinct] Some h by simp
    with run p1 p2 Some fr show ?thesis
      by (auto simp: run_EQ_def arg_def at [OF fr i] proc_ok_def Let_def asg new_value_at_def split: if_splits)
  qed
qed

lemma run_procedure_ok:
  assumes distinct: "distinct (map kv_key kvs)" and fr: "map frame (kr_keys r) = map frame kvs"
    and run: "run_procedure (key_index_of kvs) p r = Inr r'"
  shows "proc_ok kvs p r r'"
proof -
  have other: "proc_ok kvs p r r" if "p = [] \<or> hd p \<notin> {''SET'', ''COPY'', ''EQ''}"
  proof (rule proc_ok_same [OF fr])
    show "\<not> eq_fails (entries kvs) p" using that by (cases p) (auto simp: eq_fails_def)
    show "assigned (entries kvs) p k = None" for k using that by (cases p) (auto simp: assigned_def)
  qed
  have del: "r' = r" if "run_DEL (key_index_of kvs) p r = Inr r'"
    using that by (auto simp: run_DEL_def split: sum.splits option.splits)
  have sleep: "r' = r" if "run_SLEEP p r = Inr r'"
    using that by (auto simp: run_SLEEP_def split: sum.splits if_splits)
  show ?thesis
  proof (cases "p \<noteq> [] \<and> hd p \<in> {''SET'', ''COPY'', ''EQ''}")
    case True
    with run run_SET_ok [OF distinct fr] run_COPY_ok [OF distinct fr] run_EQ_ok [OF distinct fr] show ?thesis by (auto simp: run_procedure_def)
  next
    case False
    then have "r' = r" using run del sleep by (auto simp: run_procedure_def split: if_splits)
    with False other show ?thesis by blast
  qed
qed

lemma run_procedures_ok:
  assumes "distinct (map kv_key kvs)" "map frame (kr_keys r) = map frame kvs"
    and "run_procedures (key_index_of kvs) ps r = Inr r'"
  shows "map frame (kr_keys r') = map frame kvs \<and> kr_deleted r' = kr_deleted r \<and>
    (kr_aborted r' \<longleftrightarrow> kr_aborted r \<or> (\<exists>p \<in> set ps. eq_fails (entries kvs) p)) \<and>
    (\<forall>i < length kvs. new_value_at r' i =
       (if kv_type (kvs ! i) = WRITE then final_value (entries kvs) ps (kv_key (kvs ! i)) (new_value_at r i)
        else new_value_at r i))"
  using assms(2,3)
proof (induction ps arbitrary: r)
  case Nil
  then show ?case by (auto simp: final_value_def)
next
  case (Cons p ps)
  from Cons.prems(2) obtain r1 where r1: "run_procedure (key_index_of kvs) p r = Inr r1"
    "run_procedures (key_index_of kvs) ps r1 = Inr r'" by (auto split: sum.splits)
  note P = run_procedure_ok [OF assms(1) Cons.prems(1) r1(1), unfolded proc_ok_def]
  from Cons.IH [OF conjunct1 [OF P] r1(2)] P show ?case
    by (auto simp: final_value_def split: option.splits)
qed

section \<open>Writes\<close>

lemma apply_keys_ok:
  assumes "apply_keys sh kvs st = Inr st'" "distinct (map kv_key kvs)"
  shows "st' k = (case entries kvs k of
     None \<Rightarrow> st k
   | Some e \<Rightarrow> if ve_type e = WRITE \<and> is_local_key sh k = Inr True then Some (entry_record e) else st k)"
  using assms
proof (induction kvs arbitrary: st)
  case (Cons kv kvs)
  from Cons.prems(1) obtain b where b: "is_local_key sh (kv_key kv) = Inr b"
    and rest: "apply_keys sh kvs (if \<not> b \<or> kv_type kv = READ then st
      else st(kv_key kv \<mapsto> entry_record (kv_entry kv))) = Inr st'" by (auto split: sum.splits if_splits)
  have IH: "st' k = (case entries kvs k of
      None \<Rightarrow> (if \<not> b \<or> kv_type kv = READ then st else st(kv_key kv \<mapsto> entry_record (kv_entry kv))) k
    | Some e \<Rightarrow> if ve_type e = WRITE \<and> is_local_key sh k = Inr True then Some (entry_record e)
        else (if \<not> b \<or> kv_type kv = READ then st else st(kv_key kv \<mapsto> entry_record (kv_entry kv))) k)"
    using Cons.IH [OF rest] Cons.prems(2) by simp
  have none: "entries kvs (kv_key kv) = None"
    using Cons.prems(2) by (auto simp: entries_def map_of_eq_None_iff image_iff)
  have e: "entries (kv # kvs) = (entries kvs)(kv_key kv \<mapsto> kv_entry kv)" by (simp add: entries_def)
  have "kv_type kv = READ \<longleftrightarrow> kv_type kv \<noteq> WRITE" by (cases "kv_type kv") simp_all
  with IH none b show ?case by (cases "k = kv_key kv") (auto simp: e split: option.splits)
qed (simp add: entries_def)

lemma delete_keys_eq: "delete_keys ks st k = (if k \<in> set ks then None else st k)"
  by (induction ks arbitrary: st) auto

section \<open>Execution\<close>

lemma Execute_run:
  assumes "KeyValueExecution_Execute sh txn st = Inr (txn', st')"
  obtains r where
    "run_procedures (key_index_of (keys txn)) (procedures (program txn))
       \<lparr>kr_keys = keys txn, kr_deleted = deleted_keys txn, kr_aborted = False, kr_reason = []\<rparr> = Inr r"
    "keys txn' = kr_keys r" "deleted_keys txn' = kr_deleted r"
    "kr_aborted r \<Longrightarrow> status txn' = ABORTED \<and> st' = st"
    "\<not> kr_aborted r \<Longrightarrow> status txn' = COMMITTED \<and> ApplyWrites txn' sh st = Inr st'"
  using assms unfolding KeyValueExecution_Execute_def Let_def key_index_of_def
  by (auto split: sum.splits if_splits)

lemma entries_frame:
  assumes "map frame kvs' = map frame kvs"
  shows "map_option (\<lambda>e. e\<lparr>ve_new_value := []\<rparr>) (entries kvs' k) = map_option (\<lambda>e. e\<lparr>ve_new_value := []\<rparr>) (entries kvs k)"
  using assms
proof (induction kvs arbitrary: kvs')
  case (Cons kv kvs)
  then obtain x xs where x: "kvs' = x # xs" "frame x = frame kv" "map frame xs = map frame kvs" by auto
  have "kv_key x = kv_key kv" "(kv_entry x)\<lparr>ve_new_value := []\<rparr> = (kv_entry kv)\<lparr>ve_new_value := []\<rparr>"
    using arg_cong [OF x(2), of kv_key] arg_cong [OF x(2), of kv_entry] by (simp_all add: frame_def)
  with Cons.IH [OF x(3)] show ?case by (simp add: x(1) entries_def)
qed simp

text \<open>The effect of a transaction with distinct keys.\<close>

lemma Execute_effect:
  assumes "KeyValueExecution_Execute sh txn st = Inr (txn', st')"
    and d: "distinct (map kv_key (keys txn))" and nd: "deleted_keys txn = []"
  defines "es \<equiv> entries (keys txn)" and "ps \<equiv> procedures (program txn)"
  shows "status txn' = (if \<exists>p \<in> set ps. eq_fails es p then ABORTED else COMMITTED)"
    and "deleted_keys txn' = []"
    and "st' k = (case es k of
        None \<Rightarrow> st k
      | Some e \<Rightarrow>
          if status txn' = COMMITTED \<and> ve_type e = WRITE \<and> is_local_key sh k = Inr True
          then Some \<lparr>rec_value = final_value es ps k (ve_new_value e), rec_metadata = entry_metadata e\<rparr> else st k)"
proof -
  obtain r where
    run: "run_procedures (key_index_of (keys txn)) ps
       \<lparr>kr_keys = keys txn, kr_deleted = deleted_keys txn, kr_aborted = False, kr_reason = []\<rparr> = Inr r"
    and t': "keys txn' = kr_keys r" "deleted_keys txn' = kr_deleted r"
    and ab: "kr_aborted r \<Longrightarrow> status txn' = ABORTED \<and> st' = st"
    and cm: "\<not> kr_aborted r \<Longrightarrow> status txn' = COMMITTED \<and> ApplyWrites txn' sh st = Inr st'"
    unfolding ps_def using Execute_run [OF assms(1)] by metis
  note R = run_procedures_ok [OF d _ run, simplified, folded es_def]
  from R have fr: "map frame (kr_keys r) = map frame (keys txn)" by simp
  show "deleted_keys txn' = []" using R t' nd by simp
  from R ab cm show "status txn' = (if \<exists>p \<in> set ps. eq_fails es p then ABORTED else COMMITTED)"
    by (cases "kr_aborted r") auto
  have dk: "distinct (map kv_key (kr_keys r))"
  proof -
    have "map kv_key xs = map kv_key (map frame xs)" for xs by (simp add: frame_def)
    then have "map kv_key (kr_keys r) = map kv_key (keys txn)" using fr by metis
    with d show ?thesis by simp
  qed
  show "st' k = (case es k of None \<Rightarrow> st k | Some e \<Rightarrow>
          if status txn' = COMMITTED \<and> ve_type e = WRITE \<and> is_local_key sh k = Inr True
          then Some \<lparr>rec_value = final_value es ps k (ve_new_value e), rec_metadata = entry_metadata e\<rparr> else st k)"
  proof (cases "kr_aborted r")
    case True
    with ab show ?thesis by (simp split: option.splits)
  next
    case False
    with cm have "status txn' = COMMITTED" "ApplyWrites txn' sh st = Inr st'" by simp_all
    then obtain ak: "apply_keys sh (kr_keys r) st = Inr st'" and com: "status txn' = COMMITTED"
      using R t' nd by (auto simp: ApplyWrites_def map_sum_def split: sum.splits)
    note A = apply_keys_ok [OF ak dk, of k]
    show ?thesis
    proof (cases "es k")
      case None
      then have "entries (kr_keys r) k = None" using entries_frame [OF fr, of k] by (simp add: es_def)
      with A None show ?thesis by simp
    next
      case (Some e)
      then obtain i where i: "key_index_of (keys txn) k = Some i" "e = kv_entry (keys txn ! i)"
        using key_index_entries [OF d, of k] by (auto simp: es_def)
      then have il: "i < length (keys txn)" "kv_key (keys txn ! i) = k" using key_index_Some [OF d] by auto
      note F = frame_eqD [OF nth_frame [OF fr il(1)]]
      have "key_index_of (kr_keys r) k = Some i"
        using key_index_Some [OF dk, of k i] il F(1) fr by (metis length_map)
      then have e': "entries (kr_keys r) k = Some (kv_entry (kr_keys r ! i))"
        by (simp add: key_index_entries [OF dk])
      have nv: "ve_type e = WRITE \<Longrightarrow> ve_new_value (kv_entry (kr_keys r ! i)) = final_value es ps k (ve_new_value e)"
        using R il i(2) by (auto simp: new_value_at_def)
      show ?thesis
        using A e' Some com F nv i(2)
        by (auto simp: entry_record_def SetValue_def SetMetadata_def default_record_def entry_metadata_def)
    qed
  qed
qed

end
