(* ===== verification/Remaster_Manager.thy ===== *)
theory Remaster_Manager
  imports Execution_Kv
begin

text \<open>
  \<^verbatim>\<open>module/scheduler_components/remaster_manager.h\<close> and \<^verbatim>\<open>simple_remaster_manager.{h,cpp}\<close>: comparing the
  counters of a transaction with those in the storage, and the queues of the transactions that wait
  for a remaster, one per home. The hash map of queues is an association list, whose order stands
  for the unspecified order of iteration.
\<close>

section \<open>Model\<close>

datatype verify_master_result = VM_VALID | VM_WAITING | VM_ABORT

record remaster_occurred_result =
  ror_unblocked :: "transaction list"
  ror_should_abort :: "transaction list"

definition RemasterOccurredResult :: remaster_occurred_result where
  "RemasterOccurredResult = \<lparr>ror_unblocked = [], ror_should_abort = []\<rparr>"

fun check_counters_loop ::
  "int \<Rightarrow> bool \<Rightarrow> storage \<Rightarrow> key_value list \<Rightarrow> bool \<Rightarrow> verify_master_result result" where
  "check_counters_loop hm filter_by_home st [] waiting = Inr (if waiting then VM_WAITING else VM_VALID)"
| "check_counters_loop hm filter_by_home st (kv # kvs) waiting =
     (if filter_by_home \<and> int32_of_uint32 (kv_master kv) \<noteq> hm
      then check_counters_loop hm filter_by_home st kvs waiting
      else
        let record = (case st (kv_key kv) of Some r \<Rightarrow> r | None \<Rightarrow> default_record);
            storage_counter = counter (rec_metadata record)
        in if kv_counter kv < storage_counter then Inr VM_ABORT
           else if kv_counter kv > storage_counter then check_counters_loop hm filter_by_home st kvs True
           else if kv_master kv \<noteq> master (rec_metadata record)
           then Inl (CheckFailed ''Masters do not match for same key'')
           else check_counters_loop hm filter_by_home st kvs waiting)"

definition CheckCounters :: "transaction \<Rightarrow> bool \<Rightarrow> storage \<Rightarrow> verify_master_result result" where
  "CheckCounters txn filter_by_home st =
     check_counters_loop (home (internal txn)) filter_by_home st (keys txn) False"

type_synonym simple_queues = "(nat \<times> transaction list) list"

definition queue_at :: "nat \<Rightarrow> simple_queues \<Rightarrow> transaction list" where
  "queue_at r qs = (case map_of qs r of None \<Rightarrow> [] | Some q \<Rightarrow> q)"

fun set_queue :: "nat \<Rightarrow> transaction list \<Rightarrow> simple_queues \<Rightarrow> simple_queues" where
  "set_queue r q [] = [(r, q)]"
| "set_queue r q ((r', q') # qs) = (if r = r' then (r, q) # qs else (r', q') # set_queue r q qs)"

text \<open>The home of a transaction as the key of a queue.\<close>

definition home_key :: "transaction \<Rightarrow> nat" where
  "home_key txn = uint32_of_int (home (internal txn))"

definition Simple_VerifyMaster ::
  "storage \<Rightarrow> transaction \<Rightarrow> simple_queues \<Rightarrow> (verify_master_result \<times> simple_queues) result" where
  "Simple_VerifyMaster st txn qs =
     (if keys txn = [] then Inr (VM_VALID, qs)
      else
        let q = queue_at (home_key txn) qs
        in if q \<noteq> [] then Inr (VM_WAITING, set_queue (home_key txn) (q @ [txn]) qs)
           else case CheckCounters txn True st of
                  Inl e \<Rightarrow> Inl e
                | Inr r \<Rightarrow> Inr (r, if r = VM_WAITING then set_queue (home_key txn) (q @ [txn]) qs else qs))"

text \<open>\<^verbatim>\<open>TryToUnblock\<close> on the transactions of one queue: what it adds to the result and what is left.\<close>

fun unblock_queue ::
  "storage \<Rightarrow> transaction list \<Rightarrow> remaster_occurred_result \<Rightarrow> (transaction list \<times> remaster_occurred_result) result" where
  "unblock_queue st [] res = Inr ([], res)"
| "unblock_queue st (lo_txn # q) res =
     (case CheckCounters lo_txn True st of
        Inl e \<Rightarrow> Inl e
      | Inr VM_WAITING \<Rightarrow> Inr (lo_txn # q, res)
      | Inr VM_VALID \<Rightarrow> unblock_queue st q (res\<lparr>ror_unblocked := ror_unblocked res @ [lo_txn]\<rparr>)
      | Inr VM_ABORT \<Rightarrow> unblock_queue st q (res\<lparr>ror_should_abort := ror_should_abort res @ [lo_txn]\<rparr>))"

definition Simple_TryToUnblock ::
  "storage \<Rightarrow> nat \<Rightarrow> simple_queues \<times> remaster_occurred_result \<Rightarrow> (simple_queues \<times> remaster_occurred_result) result" where
  "Simple_TryToUnblock st r qr =
     (case qr of (qs, res) \<Rightarrow>
        if queue_at r qs = [] then Inr (qs, res)
        else case unblock_queue st (queue_at r qs) res of
               Inl e \<Rightarrow> Inl e
             | Inr (q, res') \<Rightarrow> Inr (set_queue r q qs, res'))"

text \<open>The loop over the queues of \<^verbatim>\<open>RemasterOccured\<close>.\<close>

definition waits_for_key :: "key \<Rightarrow> transaction \<Rightarrow> bool" where
  "waits_for_key k txn \<longleftrightarrow>
     list_ex (\<lambda>kv. int32_of_uint32 (kv_master kv) = home (internal txn) \<and> kv_key kv = k) (keys txn)"

fun remaster_queues ::
  "storage \<Rightarrow> key \<Rightarrow> nat list \<Rightarrow> simple_queues \<times> remaster_occurred_result \<Rightarrow> (simple_queues \<times> remaster_occurred_result) result" where
  "remaster_queues st k [] qr = Inr qr"
| "remaster_queues st k (r # rs) qr =
     (case queue_at r (fst qr) of
        [] \<Rightarrow> remaster_queues st k rs qr
      | txn # _ \<Rightarrow>
          if waits_for_key k txn
          then (case Simple_TryToUnblock st r qr of Inl e \<Rightarrow> Inl e | Inr qr' \<Rightarrow> remaster_queues st k rs qr')
          else remaster_queues st k rs qr)"

definition Simple_RemasterOccured ::
  "storage \<Rightarrow> key \<Rightarrow> nat \<Rightarrow> simple_queues \<Rightarrow> (remaster_occurred_result \<times> simple_queues) result" where
  "Simple_RemasterOccured st k remaster_counter qs =
     map_sum id prod.swap (remaster_queues st k (map fst qs) (qs, RemasterOccurredResult))"

fun remove_first :: "txn_id \<Rightarrow> transaction list \<Rightarrow> transaction list" where
  "remove_first t [] = []"
| "remove_first t (x # q) = (if tid x = t then q else x # remove_first t q)"

fun release_from :: "txn_id \<Rightarrow> nat list \<Rightarrow> simple_queues \<Rightarrow> simple_queues" where
  "release_from t [] qs = qs"
| "release_from t (r # rs) qs =
     release_from t rs (if queue_at r qs = [] then qs else set_queue r (remove_first t (queue_at r qs)) qs)"

fun unblock_replicas ::
  "storage \<Rightarrow> nat list \<Rightarrow> simple_queues \<times> remaster_occurred_result \<Rightarrow> (simple_queues \<times> remaster_occurred_result) result" where
  "unblock_replicas st [] qr = Inr qr"
| "unblock_replicas st (r # rs) qr =
     (case Simple_TryToUnblock st r qr of Inl e \<Rightarrow> Inl e | Inr qr' \<Rightarrow> unblock_replicas st rs qr')"

definition Simple_ReleaseTransaction ::
  "storage \<Rightarrow> transaction \<Rightarrow> simple_queues \<Rightarrow> (remaster_occurred_result \<times> simple_queues) result" where
  "Simple_ReleaseTransaction st txn qs =
     (let rs = involved_replicas (internal txn)
      in map_sum id prod.swap (unblock_replicas st rs (release_from (tid txn) rs qs, RemasterOccurredResult)))"

section \<open>Counters\<close>

text \<open>The verdict on a transaction: its counters on the keys of its home against the storage.\<close>

definition counter_in :: "storage \<Rightarrow> key \<Rightarrow> nat" where
  "counter_in st k = (case st k of None \<Rightarrow> 0 | Some r \<Rightarrow> counter (rec_metadata r))"

definition checked_keys :: "transaction \<Rightarrow> key_value list" where
  "checked_keys txn = filter (\<lambda>kv. int32_of_uint32 (kv_master kv) = home (internal txn)) (keys txn)"

lemma check_counters_loop_eq:
  assumes "check_counters_loop hm fl st kvs w = Inr r"
  defines "ks \<equiv> filter (\<lambda>kv. \<not> fl \<or> int32_of_uint32 (kv_master kv) = hm) kvs"
  shows "(r = VM_ABORT \<longleftrightarrow> (\<exists>kv \<in> set ks. kv_counter kv < counter_in st (kv_key kv))) \<and>
    (r = VM_VALID \<longleftrightarrow> \<not> w \<and> (\<forall>kv \<in> set ks. kv_counter kv = counter_in st (kv_key kv)))"
  using assms(1) unfolding ks_def
proof (induction kvs arbitrary: w)
  case (Cons kv kvs)
  show ?case
  proof (cases "fl \<and> int32_of_uint32 (kv_master kv) \<noteq> hm")
    case True
    with Cons show ?thesis by simp
  next
    case False
    then have in_ks: "\<not> fl \<or> int32_of_uint32 (kv_master kv) = hm" by blast
    have c: "counter (rec_metadata (case st (kv_key kv) of Some r \<Rightarrow> r | None \<Rightarrow> default_record)) = counter_in st (kv_key kv)"
      by (simp add: counter_in_def default_record_def default_metadata_def split: option.splits)
    show ?thesis
    proof (cases "kv_counter kv < counter_in st (kv_key kv)")
      case True
      with Cons.prems False have "r = VM_ABORT" by (simp add: Let_def c)
      with True in_ks show ?thesis by auto
    next
      case F: False
      with Cons.prems False have loop: "check_counters_loop hm fl st kvs (w \<or> kv_counter kv > counter_in st (kv_key kv)) = Inr r"
        by (auto simp: Let_def c split: if_splits)
      from Cons.IH [OF this] F in_ks show ?thesis by auto
    qed
  qed
qed (auto split: if_splits)

lemma CheckCounters_eq:
  assumes "CheckCounters txn True st = Inr r"
  shows "r = (if \<exists>kv \<in> set (checked_keys txn). kv_counter kv < counter_in st (kv_key kv) then VM_ABORT
    else if \<forall>kv \<in> set (checked_keys txn). kv_counter kv = counter_in st (kv_key kv) then VM_VALID else VM_WAITING)"
  using check_counters_loop_eq [of "home (internal txn)" True st "keys txn" False r] assms
  by (cases r) (auto simp: CheckCounters_def checked_keys_def)

section \<open>Queues\<close>

lemma queue_at_set_queue [simp]: "queue_at r (set_queue r' q qs) = (if r = r' then q else queue_at r qs)"
  by (induction qs) (auto simp: queue_at_def)

definition verdict :: "storage \<Rightarrow> transaction \<Rightarrow> verify_master_result" where
  "verdict st txn = (case CheckCounters txn True st of Inr r \<Rightarrow> r | Inl _ \<Rightarrow> VM_ABORT)"

text \<open>Unblocking takes the longest prefix of the queue that does not wait any more.\<close>

lemma unblock_queue_eq:
  assumes "unblock_queue st q res = Inr (q', res')"
  shows "q' = dropWhile (\<lambda>t. verdict st t \<noteq> VM_WAITING) q \<and>
    ror_unblocked res' = ror_unblocked res @ filter (\<lambda>t. verdict st t = VM_VALID) (takeWhile (\<lambda>t. verdict st t \<noteq> VM_WAITING) q) \<and>
    ror_should_abort res' = ror_should_abort res @ filter (\<lambda>t. verdict st t = VM_ABORT) (takeWhile (\<lambda>t. verdict st t \<noteq> VM_WAITING) q)"
  using assms
proof (induction q arbitrary: res)
  case (Cons t q)
  then obtain r where r: "CheckCounters t True st = Inr r" by (auto split: sum.splits)
  with Cons show ?case by (cases r) (auto simp: verdict_def)
qed simp

lemma unblock_queue_total:
  assumes "\<forall>t \<in> set q. \<exists>r. CheckCounters t True st = Inr r"
  shows "\<exists>x. unblock_queue st q res = Inr x"
  using assms
proof (induction q arbitrary: res)
  case (Cons t q)
  then obtain r where "CheckCounters t True st = Inr r" by auto
  with Cons show ?case by (cases r) auto
qed simp

text \<open>A transaction is never let through before an earlier one of the same home.\<close>

lemma Simple_VerifyMaster_valid:
  assumes "Simple_VerifyMaster st txn qs = Inr (VM_VALID, qs')" "keys txn \<noteq> []"
  shows "queue_at (home_key txn) qs = [] \<and> qs' = qs \<and>
    (\<forall>kv \<in> set (checked_keys txn). kv_counter kv = counter_in st (kv_key kv))"
proof -
  from assms have q: "queue_at (home_key txn) qs = []" "CheckCounters txn True st = Inr VM_VALID" "qs' = qs"
    by (auto simp: Simple_VerifyMaster_def Let_def split: if_splits sum.splits)
  from CheckCounters_eq [OF q(2)] q show ?thesis by (auto split: if_splits)
qed

lemma Simple_VerifyMaster_waiting:
  assumes "Simple_VerifyMaster st txn qs = Inr (VM_WAITING, qs')"
  shows "queue_at r qs' = queue_at r qs @ (if r = home_key txn then [txn] else [])"
  using assms by (auto simp: Simple_VerifyMaster_def Let_def split: if_splits sum.splits)

end
