(* ===== verification/Slog_Messages.thy ===== *)
theory Slog_Messages
  imports Batch_Log
begin

text \<open>
  The messages of \<^verbatim>\<open>proto/internal.proto\<close> that the modules exchange, the channels of
  \<^verbatim>\<open>common/constants.h\<close> and the outputs of a handler: what it passes to \<^verbatim>\<open>NetworkedModule::Send\<close>, in
  the order of the calls.
\<close>

datatype request =
    Ping int nat nat                                          \<comment> \<open>time, target, from channel\<close>
  | Signal
  | BrokerRedirect txn_id channel bool                        \<comment> \<open>tag, channel, stop\<close>
  | ForwardTxn transaction
  | LookupMaster "txn_id list" "key list"
  | ForwardBatchData "batch list" nat nat                     \<comment> \<open>batches, home, home position\<close>
  | LocalBatchOrder nat slot_id nat                           \<comment> \<open>queue, slot, leader\<close>
  | RemoteBatchOrder batch_id slot_id nat bool                \<comment> \<open>batch, slot, home, need ack\<close>
  | BatchReplicationAck batch_id
  | PaxosPropose nat
  | PaxosAccept nat nat nat                                   \<comment> \<open>ballot, slot, value\<close>
  | PaxosCommit nat nat nat                                   \<comment> \<open>slot, value, leader\<close>
  | RemoteReadResult txn_id nat "key_value list" bool string  \<comment> \<open>txn, partition, reads, will abort, reason\<close>
  | FinishedSubtxn transaction nat
  | StatsReq nat nat                                          \<comment> \<open>id, level\<close>

datatype response =
    Pong int nat
  | LookupMasterResult "txn_id list" "(key \<times> metadata) list"
  | PaxosAccepted nat nat                                     \<comment> \<open>ballot, slot\<close>
  | PaxosCommitted nat                                        \<comment> \<open>slot\<close>
  | StatsResp nat string

datatype envelope = Request request | Response response

datatype send =
    SendTo envelope "machine_id list" channel   \<comment> \<open>to these machines, in this order\<close>
  | SendLocal envelope channel                  \<comment> \<open>to a channel of this machine\<close>

definition kServerChannel :: channel where "kServerChannel = 1"
definition kForwarderChannel :: channel where "kForwarderChannel = 2"
definition kSequencerChannel :: channel where "kSequencerChannel = 3"
definition kMultiHomeOrdererChannel :: channel where "kMultiHomeOrdererChannel = 4"
definition kInterleaverChannel :: channel where "kInterleaverChannel = 5"
definition kSchedulerChannel :: channel where "kSchedulerChannel = 7"
definition kLocalPaxos :: channel where "kLocalPaxos = 8"
definition kGlobalPaxos :: channel where "kGlobalPaxos = 9"
definition kLocalLogChannel :: channel where "kLocalLogChannel = 6"
definition kWorkerChannel :: channel where "kWorkerChannel = 10"

end
