(* ===== verification/Batch_Stats.thy ===== *)
theory Batch_Stats
  imports Slog_Messages
begin

text \<open>
  Statistics as JSON values (\<^verbatim>\<open>common/json_utils.h\<close>) and the counters that the batching modules
  (forwarder, multi-home orderer and sequencer) keep. The values of RapidJSON are a datatype; its writer
  is a function argument of the definitions that send statistics. A duration is kept in nanoseconds,
  of which the code stores the quotient by \<open>1000000\<close> as a floating point number of milliseconds.
\<close>

section \<open>JSON values\<close>

datatype json =
    JInt int
  | JMs int          \<comment> \<open>a number of nanoseconds, shown in milliseconds\<close>
  | JBool bool
  | JString string
  | JArray "json list"
  | JObject "(string \<times> json) list"

definition ToJsonArray :: "('a \<Rightarrow> json) \<Rightarrow> 'a list \<Rightarrow> json" where
  "ToJsonArray fn xs = JArray (map fn xs)"

definition ToJsonArrayOfKeyValue :: "('v \<Rightarrow> json) \<Rightarrow> (nat \<times> 'v) list \<Rightarrow> json" where
  "ToJsonArrayOfKeyValue fn xs = JArray (map (\<lambda>(k, v). JArray [JInt (int k), fn v]) xs)"

definition kPctlLevels :: "nat list" where
  "kPctlLevels = [0, 10, 20, 30, 40, 50, 60, 70, 80, 90, 100]"

text \<open>\<^verbatim>\<open>Percentiles\<close> sorts its container in place; every caller clears it afterwards.\<close>

definition Percentiles :: "(int \<Rightarrow> json) \<Rightarrow> int list \<Rightarrow> json" where
  "Percentiles fn xs =
     (if xs = [] then JArray []
      else let ys = sort xs in JArray (map (\<lambda>p. fn (ys ! (p * (length ys - 1) div 100))) kPctlLevels))"

section \<open>Counters of a batching module\<close>

record batch_stats =
  collecting_stats :: bool
  batch_starting_time :: int
  stat_batch_sizes :: "int list"
  stat_batch_durations :: "int list"

definition no_stats :: batch_stats where
  "no_stats = \<lparr>collecting_stats = False, batch_starting_time = 0, stat_batch_sizes = [], stat_batch_durations = []\<rparr>"

definition start_batch :: "int \<Rightarrow> batch_stats \<Rightarrow> batch_stats" where
  "start_batch now st = st\<lparr>batch_starting_time := now\<rparr>"

definition record_batch :: "int \<Rightarrow> nat \<Rightarrow> batch_stats \<Rightarrow> batch_stats" where
  "record_batch now n st =
     (if collecting_stats st
      then st\<lparr>stat_batch_sizes := stat_batch_sizes st @ [int n],
              stat_batch_durations := stat_batch_durations st @ [now - batch_starting_time st]\<rparr>
      else st)"

definition ProcessBatchStats ::
  "(json \<Rightarrow> string) \<Rightarrow> string \<Rightarrow> string \<Rightarrow> nat \<Rightarrow> nat \<Rightarrow> batch_stats \<Rightarrow> batch_stats \<times> send list" where
  "ProcessBatchStats write_json size_key duration_key req_id level st =
     (let doc = JObject [(size_key, Percentiles JInt (stat_batch_sizes st)),
                         (duration_key, Percentiles JMs (stat_batch_durations st))]
      in (st\<lparr>collecting_stats := (let lvl = int32_of_uint32 level in if lvl = 0 then False else if lvl > 0 then True else collecting_stats st),
             stat_batch_sizes := [], stat_batch_durations := []\<rparr>,
          [SendLocal (Response (StatsResp req_id (write_json doc))) kServerChannel]))"

section \<open>Percentiles are elements of the container, in order\<close>

lemma percentile_index: "p \<le> 100 \<Longrightarrow> xs \<noteq> [] \<Longrightarrow> p * (length xs - 1) div 100 < length xs"
proof -
  assume "p \<le> 100" "xs \<noteq> []"
  then have "p * (length xs - 1) div 100 \<le> 100 * (length xs - 1) div 100" by (intro div_le_mono mult_le_mono1)
  with \<open>xs \<noteq> []\<close> show ?thesis by (simp add: less_Suc_eq_le [symmetric])
qed

lemma Percentiles_values:
  assumes "xs \<noteq> []"
  shows "\<exists>vs. Percentiles fn xs = JArray (map fn vs) \<and> length vs = 11 \<and> sorted vs \<and> set vs \<subseteq> set xs \<and>
    hd vs = Min (set xs) \<and> last vs = Max (set xs)"
proof -
  let ?ys = "sort xs"
  define f where "f p = ?ys ! (p * (length ?ys - 1) div 100)" for p
  have ys: "?ys \<noteq> []" using assms by (metis length_0_conv length_sort)
  have idx: "p * (length ?ys - 1) div 100 < length ?ys" if "p \<le> 100" for p using percentile_index [OF that ys] .
  have mono: "f p \<le> f q" if "p \<le> q" "q \<le> 100" for p q
    unfolding f_def using that idx [OF that(2)]
    by (intro sorted_nth_mono div_le_mono mult_le_mono1 sorted_sort) auto
  have levels: "sorted kPctlLevels" "p \<in> set kPctlLevels \<Longrightarrow> p \<le> 100" for p by (auto simp: kPctlLevels_def)
  have "sorted (map f kPctlLevels)"
    unfolding sorted_wrt_map by (rule sorted_wrt_mono_rel [OF _ levels(1)]) (simp add: mono levels(2))
  moreover have "set (map f kPctlLevels) \<subseteq> set xs"
  proof
    fix v
    assume "v \<in> set (map f kPctlLevels)"
    then obtain p where "p \<in> set kPctlLevels" and v: "v = f p" unfolding set_map by (rule imageE)
    then have "p \<le> 100" by (simp add: levels(2))
    from idx [OF this] show "v \<in> set xs" unfolding v f_def by (metis nth_mem set_sort)
  qed
  moreover have "hd (map f kPctlLevels) = Min (set xs)"
  proof -
    have "f 0 = Min (set ?ys)" using ys sorted_sort [of xs]
      by (cases ?ys) (auto simp: f_def intro!: Min_eqI [symmetric])
    then show ?thesis by (simp add: kPctlLevels_def)
  qed
  moreover have "last (map f kPctlLevels) = Max (set xs)"
  proof -
    have "f 100 = last ?ys" using ys by (simp add: f_def last_conv_nth)
    also have "\<dots> = Max (set ?ys)"
    proof (rule Max_eqI [symmetric])
      fix y
      assume "y \<in> set ?ys"
      then have "y \<in> set (butlast ?ys @ [last ?ys])" using ys by simp
      moreover have "sorted (butlast ?ys @ [last ?ys])" using ys by simp
      ultimately show "y \<le> last ?ys" unfolding sorted_append set_append by auto
    qed (use ys in \<open>simp, blast intro: last_in_set\<close>)
    finally show ?thesis by (simp add: kPctlLevels_def)
  qed
  moreover have "Percentiles fn xs = JArray (map fn (map f kPctlLevels))"
    using assms by (simp add: Percentiles_def Let_def f_def comp_def)
  moreover have "length (map f kPctlLevels) = 11" by (simp add: kPctlLevels_def)
  ultimately show ?thesis by blast
qed

end
