(* ===== verification/Lock_Stats.thy ===== *)
theory Lock_Stats
  imports Batch_Stats Scheduler_Model Rma_Lock_Manager Ddr_Lock_Manager Old_Lock_Manager
begin

text \<open>
  The statistics of the scheduler and of its lock managers: \<^verbatim>\<open>GetStats\<close> of
  \<^verbatim>\<open>module/scheduler_components/{rma,ddr,old}_lock_manager.cpp\<close> and \<^verbatim>\<open>ProcessStatsRequest\<close> of \<^verbatim>\<open>module/scheduler.cpp\<close>. The keys of a
  hash map in the order of its iteration are arguments: \<open>ts\<close> those of \<^verbatim>\<open>txn_info_\<close> or \<^verbatim>\<open>active_txns_\<close>, and \<open>ks\<close> those of
  \<^verbatim>\<open>lock_table_\<close>.
\<close>

section \<open>Model\<close>

fun entries_of :: "'k list \<Rightarrow> ('k \<rightharpoonup> 'v) \<Rightarrow> ('k \<times> 'v) list" where
  "entries_of [] m = []"
| "entries_of (k # ks) m = (case m k of None \<Rightarrow> entries_of ks m | Some v \<Rightarrow> (k, v) # entries_of ks m)"

text \<open>A JSON string made from \<^verbatim>\<open>c_str()\<close> ends at the first null character.\<close>

definition json_c_str :: "string \<Rightarrow> json" where
  "json_c_str s = JString (takeWhile (\<lambda>c. c \<noteq> CHR 0x00) s)"

fun lock_mode_number :: "lock_mode \<Rightarrow> nat" where
  "lock_mode_number LM_UNLOCKED = 0"
| "lock_mode_number LM_READ = 1"
| "lock_mode_number LM_WRITE = 2"

definition lock_entry :: "string \<Rightarrow> lock_mode \<Rightarrow> txn_id list \<Rightarrow> (txn_id \<times> lock_mode) list \<Rightarrow> json" where
  "lock_entry k mode hs ws =
     JArray [json_c_str k, JInt (int (lock_mode_number mode)), ToJsonArray (\<lambda>t. JInt (int t)) hs,
             ToJsonArrayOfKeyValue (\<lambda>m. JInt (int (lock_mode_number m))) ws]"

definition RMA_GetStats :: "txn_id list \<Rightarrow> key_replica list \<Rightarrow> nat \<Rightarrow> rma_lock_manager \<Rightarrow> (string \<times> json) list" where
  "RMA_GetStats ts ks level s =
     [(''lock_manager_type'', JInt 0), (''num_txns_waiting_for_lock'', JInt (int (length (entries_of ts (rma_infos s)))))] @
     (if level \<ge> 1
      then [(''num_waiting_for_per_txn'', ToJsonArrayOfKeyValue (\<lambda>i. JInt (num_waiting_for i)) (entries_of ts (rma_infos s)))] else []) @
     [(''num_locked_keys'', JInt (int (num_locked_keys s)))] @
     (if level \<ge> 2
      then [(''lock_table'', JArray (map (\<lambda>(k, ls). lock_entry k (ls_mode ls) (holders ls) (waiter_queue ls))
              (filter (\<lambda>(k, ls). ls_mode ls \<noteq> LM_UNLOCKED) (entries_of ks (rma_lock_table s)))))] else [])"

definition Old_GetStats :: "txn_id list \<Rightarrow> nat \<Rightarrow> old_lock_manager \<Rightarrow> (string \<times> json) list" where
  "Old_GetStats ts level s =
     [(''lock_manager_type'', JInt 0), (''num_txns_waiting_for_lock'', JInt (int (length (entries_of ts (old_infos s)))))] @
     (if level \<ge> 1
      then [(''num_waiting_for_per_txn'', ToJsonArrayOfKeyValue (\<lambda>i. JInt (old_num_waiting_for i)) (entries_of ts (old_infos s)))] else []) @
     [(''num_locked_keys'', JInt (int (old_num_locked_keys s)))] @
     (if level \<ge> 2
      then [(''lock_table'', JArray (map (\<lambda>(k, ls). lock_entry k (old_mode ls) (old_holders ls) (old_waiter_queue ls))
              (filter (\<lambda>(k, ls). old_mode ls \<noteq> LM_UNLOCKED) (old_lock_table s))))] else [])"

definition DDR_GetStats :: "txn_id list \<Rightarrow> key_replica list \<Rightarrow> nat \<Rightarrow> ddr_lock_manager \<Rightarrow> (string \<times> json) list" where
  "DDR_GetStats ts ks level s =
     [(''lock_manager_type'', JInt 1), (''num_txns_waiting_for_lock'', JInt (int (length (entries_of ts (ddr_infos s)))))] @
     (if level \<ge> 1
      then [(''waited_by_graph'', JArray (map (\<lambda>(t, i). JArray [JInt (int t), ToJsonArray (\<lambda>u. JInt (int u)) (waited_by i)])
              (entries_of ts (ddr_infos s))))] else []) @
     (if level \<ge> 2
      then [(''lock_table'', JArray (map (\<lambda>(k, q). JArray [json_c_str k,
                JInt (case write_lock_requester q of None \<Rightarrow> 0 | Some t \<Rightarrow> int t),
                ToJsonArray (\<lambda>t. JInt (int t)) (read_lock_requesters q)])
              (entries_of ks (ddr_lock_table s))))] else [])"

text \<open>\<open>txn()\<close> checks that the main part is there; \<open>lm_stats\<close> is \<^verbatim>\<open>GetStats\<close> of the lock manager.\<close>

fun txn_objects :: "(txn_id \<times> txn_holder) list \<Rightarrow> json list result" where
  "txn_objects [] = Inr []"
| "txn_objects ((t, h) # hs) =
     (case holder_txn h of
        Inl e \<Rightarrow> Inl e
      | Inr txn \<Rightarrow>
          (case txn_objects hs of
             Inl e \<Rightarrow> Inl e
           | Inr js \<Rightarrow>
               Inr (JObject [(''id'', JInt (int t)), (''done'', JBool (is_done h)), (''aborting'', JBool (aborting h)),
                      (''num_lo'', JInt (int (num_lo_txns h))), (''expected_num_lo'', JInt (int (expected_num_lo_txns h))),
                      (''num_dispatches'', JInt (int (num_dispatches h))),
                      (''multi_home'', JBool (txn_type (internal txn) = MULTI_HOME_OR_LOCK_ONLY)),
                      (''multi_partition'', JBool (length (involved_partitions (internal txn)) > 1))] # js)))"

definition Scheduler_ProcessStatsRequest ::
  "(json \<Rightarrow> string) \<Rightarrow> (nat \<Rightarrow> 'm \<Rightarrow> (string \<times> json) list) \<Rightarrow> txn_id list \<Rightarrow> nat \<Rightarrow> nat \<Rightarrow> 'm scheduler \<Rightarrow> send list result" where
  "Scheduler_ProcessStatsRequest write_json lm_stats ts req_id level s =
     (let lvl = int32_of_uint32 level; hs = entries_of ts (active_txns s);
          num = [(''num_all_txns'', JInt (int (length hs)))];
          ids = (if lvl = 0 then [(''all_txns'', ToJsonArray (\<lambda>p. JInt (int (fst p))) hs)] else []);
          answer = (\<lambda>txns. [SendLocal (Response (StatsResp req_id (write_json (JObject
             (num @ ids @ txns @ lm_stats (uint32_of_int lvl) (sc_lock_manager s)))))) kServerChannel])
      in if lvl \<ge> 1
         then (case txn_objects hs of Inl e \<Rightarrow> Inl e | Inr js \<Rightarrow> Inr (answer [(''all_txns'', JArray js)]))
         else Inr (answer []))"

text \<open>\<^verbatim>\<open>OnInternalRequestReceived\<close>: an unexpected request is only logged.\<close>

definition Scheduler_OnInternalRequestReceived ::
  "(json \<Rightarrow> string) \<Rightarrow> (nat \<Rightarrow> 'm \<Rightarrow> (string \<times> json) list) \<Rightarrow> lock_manager_kind \<Rightarrow> 'm acquire_fn \<Rightarrow> 'm release_fn \<Rightarrow> nat \<Rightarrow> txn_id list \<Rightarrow> Slog_Messages.request \<Rightarrow>
   'm scheduler \<Rightarrow> ('m scheduler \<times> send list) result" where
  "Scheduler_OnInternalRequestReceived write_json lm_stats kind acquire release nr ts req s =
     (case req of
        ForwardTxn txn \<Rightarrow> map_sum id (\<lambda>s'. (s', [])) (ProcessTransaction kind acquire release nr txn s)
      | StatsReq req_id level \<Rightarrow> map_sum id (Pair s) (Scheduler_ProcessStatsRequest write_json lm_stats ts req_id level s)
      | _ \<Rightarrow> Inr (s, []))"

section \<open>The numbers are those of the lock manager\<close>

lemma entries_of_eq: "entries_of ks m = map (\<lambda>k. (k, the (m k))) (filter (\<lambda>k. m k \<noteq> None) ks)"
  by (induction ks) (auto split: option.splits)

lemma entries_of_total: "set ks = dom m \<Longrightarrow> entries_of ks m = map (\<lambda>k. (k, the (m k))) ks"
  by (auto simp: entries_of_eq dom_def intro!: filter_id_conv [THEN iffD2] arg_cong [of _ _ "map _"])

text \<open>
  What the statistics must say, in terms of the contract of the lock managers and written out as JSON. On the queue of the
  requests for a key by transactions in the manager, in the order of the requests, the holders are the first one when
  it writes and otherwise all that read up to the first that writes, and the others wait in order. A transaction waits for
  the requests that have not arrived and for those it has made and does not hold.
\<close>

definition holders_in :: "(txn_id \<times> key_type) list \<Rightarrow> txn_id list" where
  "holders_in q = (case q of [] \<Rightarrow> [] | (t, WRITE) # _ \<Rightarrow> [t] | (t, READ) # _ \<Rightarrow> map fst (takeWhile (\<lambda>p. snd p = READ) q))"

definition mode_json :: "key_type \<Rightarrow> json" where
  "mode_json m = JInt (case m of READ \<Rightarrow> 1 | WRITE \<Rightarrow> 2)"

definition queue_json :: "string \<Rightarrow> (txn_id \<times> key_type) list \<Rightarrow> json" where
  "queue_json k q = JArray [JString (takeWhile (\<lambda>c. c \<noteq> CHR 0x00) k), mode_json (snd (hd q)),
     JArray (map (\<lambda>t. JInt (int t)) (holders_in q)),
     JArray (map (\<lambda>(t, m). JArray [JInt (int t), mode_json m]) (drop (length (holders_in q)) q))]"

definition waits_for :: "'k lock_spec \<Rightarrow> txn_id \<Rightarrow> int" where
  "waits_for S t = the (need S t) +
     int (length (filter (\<lambda>(u, k, _). u = t \<and> t \<notin> set (holders_in (queue_of (hist S) (active S) k))) (hist S)))"

definition stats_agree :: "key_replica lock_spec \<Rightarrow> (string \<times> json) list \<Rightarrow> bool" where
  "stats_agree S stats \<longleftrightarrow> (\<exists>ts ks.
     distinct ts \<and> set ts = active S \<and> distinct ks \<and> set ks = {k. queue_of (hist S) (active S) k \<noteq> []} \<and>
     stats = [(''lock_manager_type'', JInt 0), (''num_txns_waiting_for_lock'', JInt (int (length ts))),
       (''num_waiting_for_per_txn'', JArray (map (\<lambda>t. JArray [JInt (int t), JInt (waits_for S t)]) ts)),
       (''num_locked_keys'', JInt (int (length ks mod 2 ^ 32))),
       (''lock_table'', JArray (map (\<lambda>k. queue_json k (queue_of (hist S) (active S) k)) ks))] \<and>
     (\<forall>t \<in> active S. waits_for S t = 0 \<longleftrightarrow> spec_ready S t))"

lemma holders_ls_of: "holders (ls_of q) = holders_in q"
  by (cases q rule: ls_of.cases) (simp_all add: holders_in_def LockState_def)

lemma lock_mode_lm_of: "int (lock_mode_number (lm_of m)) = (case m of READ \<Rightarrow> 1 | WRITE \<Rightarrow> 2)"
  by (cases m) simp_all

lemma lock_entry_ls_of:
  assumes "q \<noteq> []"
  shows "lock_entry k (ls_mode (ls_of q)) (holders (ls_of q)) (waiter_queue (ls_of q)) = queue_json k q"
proof -
  have w: "ToJsonArrayOfKeyValue (\<lambda>m. JInt (int (lock_mode_number m))) (wq xs) = JArray (map (\<lambda>(t, m). JArray [JInt (int t), mode_json m]) xs)" for xs
    by (induction xs) (auto simp: ToJsonArrayOfKeyValue_def mode_json_def lock_mode_lm_of)
  have d: "drop (length (takeWhile P xs)) xs = dropWhile P xs" for P and xs :: "(txn_id \<times> key_type) list"
    by (simp add: dropWhile_eq_drop)
  show ?thesis
    using assms by (cases q rule: ls_of.cases)
      (simp_all add: lock_entry_def queue_json_def json_c_str_def mode_json_def holders_in_def ToJsonArray_def w d)
qed

lemma ls_of_free: "ls_mode (ls_of q) = LM_UNLOCKED \<longleftrightarrow> q = []"
  by (cases q rule: ls_of.cases) (simp_all add: LockState_def)

lemma RMA_GetStats_agree:
  assumes sim: "rma_sim S s" and ts: "distinct ts" "set ts = dom (rma_infos s)" and ks: "distinct ks" "set ks = dom (rma_lock_table s)"
  shows "stats_agree S (RMA_GetStats ts ks 2 s)"
proof -
  let ?tab = "rma_lock_table s" and ?q = "queue_of (hist S) (active S)"
  have inv: "rma_inv (hist S) (need S) (rma_infos s) ?tab" using sim by (simp add: rma_sim_def)
  note D = rma_invD [OF inv]
  have at: "the (?tab k) = ls_of (?q k)" if "k \<in> set ks" for k
    using D(3) [of k] that ks(2) by (auto simp: ls_at_def dom_def split: option.splits)
  have out: "?q k = []" if "k \<notin> set ks" for k
  proof -
    have "?tab k = None" using that ks(2) by blast
    then have "ls_of (?q k) = LockState" using D(3) [of k] by (simp add: ls_at_def)
    then show ?thesis using ls_of_free [of "?q k"] by (simp add: LockState_def)
  qed
  define ks' where "ks' = filter (\<lambda>k. ?q k \<noteq> []) ks"
  have ks': "distinct ks'" "set ks' = {k. ?q k \<noteq> []}" using ks(1) out by (auto simp: ks'_def)
  have "{k. ls_mode (ls_at ?tab k) \<noteq> LM_UNLOCKED} = set ks'" by (simp add: D(3) ls_of_free ks'(2))
  then have n: "num_locked_keys s = length ks' mod 2 ^ 32"
    using sim distinct_card [OF ks'(1)] by (simp add: rma_sim_def locked_ok_def)
  have locks: "map (\<lambda>(k, ls). lock_entry k (ls_mode ls) (holders ls) (waiter_queue ls))
      (filter (\<lambda>(k, ls). ls_mode ls \<noteq> LM_UNLOCKED) (map (\<lambda>k. (k, the (?tab k))) ks)) = map (\<lambda>k. queue_json k (?q k)) ks'"
    unfolding ks'_def using at by (induction ks) (auto simp: ls_of_free lock_entry_ls_of)
  have num: "num_waiting_for (the (rma_infos s t)) = waits_for S t" if "t \<in> set ts" for t
  proof -
    from that ts(2) obtain i where i: "rma_infos s t = Some i" by blast
    with D(5) [OF i] show ?thesis by (simp add: waits_for_def wcount_def D(3) holders_ls_of)
  qed
  have act: "set ts = active S" using ts(2) D(1) by simp
  have ready: "waits_for S t = 0 \<longleftrightarrow> spec_ready S t" if "t \<in> active S" for t
  proof -
    from that act ts(2) obtain i where i: "rma_infos s t = Some i" by blast
    with rma_sim_ready [OF sim i] num [of t] that act show ?thesis by (simp add: RMA_is_ready_def)
  qed
  have "RMA_GetStats ts ks 2 s = [(''lock_manager_type'', JInt 0), (''num_txns_waiting_for_lock'', JInt (int (length ts))),
       (''num_waiting_for_per_txn'', JArray (map (\<lambda>t. JArray [JInt (int t), JInt (waits_for S t)]) ts)),
       (''num_locked_keys'', JInt (int (length ks' mod 2 ^ 32))), (''lock_table'', JArray (map (\<lambda>k. queue_json k (?q k)) ks'))]"
    unfolding RMA_GetStats_def n entries_of_total [OF ts(2)] entries_of_total [OF ks(2)] locks
    by (simp add: ToJsonArrayOfKeyValue_def num)
  with ts(1) act ks' ready show ?thesis unfolding stats_agree_def by blast
qed

end
