(* ===== verification/Scheduler_Properties.thy ===== *)
theory Scheduler_Properties
  imports Lock_Manager_Properties Scheduler_Model Remaster_Manager Lock_Stats
begin

text \<open>
  The scheduler on top of its lock managers: the three managers meet the contract \<open>scheduler_locks\<close>, so
  that what is proved once in that locale holds for the scheduler with each of them.
\<close>

section \<open>The lock managers under the scheduler\<close>

lemma lock_requests_log_position: "lock_requests (add_log_position h c x) = lock_requests x"
  by (simp add: lock_requests_def add_log_position_def)

lemma num_required_locks_log_position: "num_required_locks (add_log_position h c x) = num_required_locks x"
  by (simp add: num_required_locks_def add_log_position_def)

interpretation rma_sched: scheduler_locks lock_requests num_required_locks RMALockManager RMA_AcquireLocks
  RMA_ReleaseLocks rma_sim
  by unfold_locales (simp_all add: lock_requests_log_position num_required_locks_log_position)

interpretation ddr_sched: scheduler_locks lock_requests num_required_locks DDRLockManager DDR_AcquireLocks
  DDR_ReleaseLocks ddr_sim
  by unfold_locales (simp_all add: lock_requests_log_position num_required_locks_log_position)

lemma old_lock_requests_log_position: "old_lock_requests (add_log_position h c x) = old_lock_requests x"
  by (simp add: old_lock_requests_def add_log_position_def)

lemma old_num_required_locks_log_position: "old_num_required_locks (add_log_position h c x) = old_num_required_locks x"
  by (simp add: old_num_required_locks_def add_log_position_def)

interpretation old_sched: scheduler_locks old_lock_requests old_num_required_locks OldLockManager Old_AcquireLocks
  Old_ReleaseLocks old_sim
  by unfold_locales (simp_all add: old_lock_requests_log_position old_num_required_locks_log_position)

section \<open>Concrete events\<close>

definition mh_part :: "txn_id \<Rightarrow> nat \<Rightarrow> key_value list \<Rightarrow> transaction" where
  "mh_part t r kvs = set_internal (\<lambda>i. i\<lparr>involved_replicas := [0, 1]\<rparr>)
     (mk_txn t MULTI_HOME_OR_LOCK_ONLY (int r) (Code []) kvs)"

definition sample_keys :: "key_value list" where
  "sample_keys = [mk_kv ''A'' 0 0 WRITE, mk_kv ''B'' 1 0 WRITE]"

definition sample_events :: "sched_event list" where
  "sample_events = [Arrive (mh_part 500 0 sample_keys), Arrive (writer 100 [''A'']), Arrive (mh_part 500 1 sample_keys),
     Arrive (reader 200 [''C'']), WorkerDone 500, Arrive (reader 300 [''C''])]"

lemma sample_events_legal:
  "legal_run lock_requests num_required_locks spec_init (map op_of sample_events)" "parts_legal 2 {} {} sample_events"
  by code_simp+

lemma sample_events_rma:
  "map_sum id dispatched (sched_run LOCK_MANAGER_RMA RMA_AcquireLocks RMA_ReleaseLocks 2 sample_events (Scheduler RMALockManager)) =
     Inr [500, 200, 100, 300]"
  by code_simp

lemma sample_events_ddr:
  "map_sum id dispatched (sched_run LOCK_MANAGER_DDR DDR_AcquireLocks DDR_ReleaseLocks 2 sample_events (Scheduler DDRLockManager)) =
     Inr [500, 200, 100, 300]"
  by code_simp

section \<open>Properties\<close>

text \<open>C11. With the RMA lock manager the scheduler handles every legal sequence of arrivals and of results
  of the workers without failing a check. Each transaction is dispatched once, and the ones that are
  dispatched and not done are exactly those whose parts have all arrived and that no earlier
  conflicting request precedes.\<close>

theorem scheduler_dispatches_ready_once:
  assumes "legal_run lock_requests num_required_locks spec_init (map op_of evs)" "parts_legal nr {} {} evs"
  shows "\<exists>s. sched_run LOCK_MANAGER_RMA RMA_AcquireLocks RMA_ReleaseLocks nr evs (Scheduler RMALockManager) = Inr s \<and>
    distinct (dispatched s) \<and> finished evs \<subseteq> set (dispatched s) \<and>
    set (dispatched s) - finished evs =
      {u. spec_ready (spec_run lock_requests num_required_locks (map op_of evs) spec_init) u}"
  using rma_sched.scheduler_dispatches_ready [OF assms] by blast

theorem scheduler_dispatches_ready_once_witness:
  "{u. spec_ready (spec_run lock_requests num_required_locks (map op_of sample_events) spec_init) u} = {100, 200, 300}"
proof -
  from scheduler_dispatches_ready_once [OF sample_events_legal] obtain s where
    s: "sched_run LOCK_MANAGER_RMA RMA_AcquireLocks RMA_ReleaseLocks 2 sample_events (Scheduler RMALockManager) = Inr s"
      "set (dispatched s) - finished sample_events =
        {u. spec_ready (spec_run lock_requests num_required_locks (map op_of sample_events) spec_init) u}" by blast
  have "dispatched s = [500, 200, 100, 300]" using sample_events_rma s(1) by simp
  moreover have "finished sample_events = {500}" by code_simp
  ultimately show ?thesis using s(2) by auto
qed

text \<open>C4. Isolation under the DDR lock manager: two transactions that the scheduler has dispatched and that
  are not done share a pair of key and region only when both of them read it.\<close>

theorem scheduler_isolates_conflicts:
  assumes "legal_run lock_requests num_required_locks spec_init (map op_of evs)" "parts_legal nr {} {} evs"
    and "sched_run LOCK_MANAGER_DDR DDR_AcquireLocks DDR_ReleaseLocks nr evs (Scheduler DDRLockManager) = Inr s"
    and "Arrive x \<in> set evs" "Arrive y \<in> set evs" "tid x \<noteq> tid y"
    and "tid x \<in> set (dispatched s) - finished evs" "tid y \<in> set (dispatched s) - finished evs"
    and "(k, m1) \<in> set (lock_requests x)" "(k, m2) \<in> set (lock_requests y)"
  shows "m1 = READ \<and> m2 = READ"
  using assms by (rule ddr_sched.scheduler_isolation)

theorem scheduler_isolates_conflicts_witness:
  "(''C:0'', READ) \<in> set (lock_requests (reader 200 [''C''])) \<and> (''C:0'', READ) \<in> set (lock_requests (reader 300 [''C''])) \<and>
   (\<exists>s. sched_run LOCK_MANAGER_DDR DDR_AcquireLocks DDR_ReleaseLocks 2 sample_events (Scheduler DDRLockManager) = Inr s \<and>
      {200, 300} \<subseteq> set (dispatched s) - finished sample_events) \<and> READ = READ \<and> READ = READ"
proof -
  obtain s where s: "sched_run LOCK_MANAGER_DDR DDR_AcquireLocks DDR_ReleaseLocks 2 sample_events (Scheduler DDRLockManager) = Inr s"
    "dispatched s = [500, 200, 100, 300]"
    using sample_events_ddr by (cases "sched_run LOCK_MANAGER_DDR DDR_AcquireLocks DDR_ReleaseLocks 2 sample_events (Scheduler DDRLockManager)") auto
  have f: "finished sample_events = {500}" by code_simp
  have r: "(''C:0'', READ) \<in> set (lock_requests (reader 200 [''C'']))" "(''C:0'', READ) \<in> set (lock_requests (reader 300 [''C'']))"
    by code_simp+
  have t: "tid (reader 200 [''C'']) = 200" "tid (reader 300 [''C'']) = 300" by code_simp+
  have "READ = READ \<and> READ = READ"
    by (rule scheduler_isolates_conflicts [OF sample_events_legal s(1), of "reader 200 [''C'']" "reader 300 [''C'']" "''C:0''"])
       (unfold t s(2) f, simp_all add: sample_events_def r [simplified])
  with r s f show ?thesis by auto
qed

text \<open>C35. Remastering without counters leaves the bookkeeping of the scheduler behind. A remaster gives a lock-only
  transaction to the region of its key and one to the new region, and each has a part for the partition of the key. The
  involved regions of these parts are recomputed from the key, so that the holder expects one part. In every run of a
  scheduler, with any lock manager, in which both parts arrive, in either order, before a worker is done with the
  transaction, the entry of the transaction is there to the end with more parts than expected, whatever happens
  afterwards: it is never erased.\<close>

theorem remaster_entry_is_never_collected:
  assumes "program txn = Remaster new_master lock_only" "keys txn = [kv]" "kv_master kv \<noteq> new_master"
    and "txn_type (internal txn) = MULTI_HOME_OR_LOCK_ONLY" "kv_master kv < 2 ^ 32" "new_master < 2 ^ 32"
    and "GeneratePartitionedTxn sh (GenerateLockOnlyTxn COUNTERLESS txn (kv_master kv)) p = Inr (Some p0)"
    and "GeneratePartitionedTxn sh (GenerateLockOnlyTxn COUNTERLESS txn new_master) p = Inr (Some p1)"
    and "(x, y) = (p0, p1) \<or> (x, y) = (p1, p0)" "tid txn \<notin> about ` set (evs0 @ evs1)"
    and "sched_run kind acquire release nr (evs0 @ Arrive x # evs1 @ Arrive y # evs2) (Scheduler lm) = Inr s"
  shows "\<exists>h. active_txns s (tid txn) = Some h \<and> expected_num_lo_txns h = 1 \<and> 2 \<le> num_lo_txns h"
proof -
  have part: "tid q = tid txn \<and> home (internal q) = int32_of_uint32 r \<and> length (involved_replicas (internal q)) = 1"
    if q: "GeneratePartitionedTxn sh (GenerateLockOnlyTxn COUNTERLESS txn r) p = Inr (Some q)" for r q
  proof -
    let ?lo = "GenerateLockOnlyTxn COUNTERLESS txn r"
    have lo: "keys ?lo = [kv]" "tid ?lo = tid txn" "home (internal ?lo) = int32_of_uint32 r"
      "txn_type (internal ?lo) = MULTI_HOME_OR_LOCK_ONLY"
      using assms(2,4) by (simp_all add: GenerateLockOnlyTxn_def set_internal_def Let_def)
    have ks: "partitioned_keys sh ?lo p = [kv] \<or> partitioned_keys sh ?lo p = []" by (simp add: partitioned_keys_def lo)
    from GeneratePartitionedTxn_eq [OF q] have "partitioned_keys sh ?lo p \<noteq> []"
      and e: "q = set_internal (\<lambda>i. i\<lparr>involved_replicas := sorted_list_of_set (kv_master ` set (partitioned_keys sh ?lo p))\<rparr>)
        (?lo\<lparr>keys := partitioned_keys sh ?lo p\<rparr>)" unfolding lo by (auto split: if_splits)
    with ks have "partitioned_keys sh ?lo p = [kv]" by blast
    then show ?thesis using lo unfolding e by (simp add: set_internal_def)
  qed
  have "int32_of_uint32 (kv_master kv) \<noteq> int32_of_uint32 new_master"
    using assms(3,5,6) by (auto simp: int32_of_uint32_def split: if_splits)
  with part [OF assms(7)] part [OF assms(8)] assms(9)
  have "tid x = tid txn" "tid y = tid txn" "home (internal x) \<noteq> home (internal y)" "length (involved_replicas (internal x)) = 1" by auto
  from two_parts_one_expected [OF assms(11) this assms(10)] show ?thesis .
qed

definition remaster_A :: transaction where
  "remaster_A = mk_txn 700 MULTI_HOME_OR_LOCK_ONLY (- 1) (Remaster 1 False) [mk_kv ''A'' 0 0 WRITE]"

definition single_partition :: sharder where
  "single_partition = \<lparr>sh_kind = HashSharder 0, sh_local_partition = 0, sh_num_partitions = 1\<rparr>"

definition part_of_A :: "nat \<Rightarrow> transaction" where
  "part_of_A r = (case GeneratePartitionedTxn single_partition (GenerateLockOnlyTxn COUNTERLESS remaster_A r) 0 of
     Inr (Some q) \<Rightarrow> q | _ \<Rightarrow> remaster_A)"

theorem remaster_entry_is_never_collected_witness:
  "\<exists>s h. sched_run LOCK_MANAGER_RMA RMA_AcquireLocks RMA_ReleaseLocks 2
       ([Arrive (reader 100 [''B''])] @ Arrive (part_of_A 0) # [] @ Arrive (part_of_A 1) # [WorkerDone 100, WorkerDone 700])
       (Scheduler RMALockManager) = Inr s \<and>
     dispatched s = [100, 700] \<and> active_txns s 700 = Some h \<and> is_done h \<and> expected_num_lo_txns h = 1 \<and> 2 \<le> num_lo_txns h"
proof -
  let ?run = "sched_run LOCK_MANAGER_RMA RMA_AcquireLocks RMA_ReleaseLocks 2
    ([Arrive (reader 100 [''B''])] @ Arrive (part_of_A 0) # [] @ Arrive (part_of_A 1) # [WorkerDone 100, WorkerDone 700])
    (Scheduler RMALockManager)"
  have parts: "GeneratePartitionedTxn single_partition (GenerateLockOnlyTxn COUNTERLESS remaster_A r) 0 = Inr (Some (part_of_A r))"
    if "(case GeneratePartitionedTxn single_partition (GenerateLockOnlyTxn COUNTERLESS remaster_A r) 0 of
      Inr (Some q) \<Rightarrow> True | _ \<Rightarrow> False)" for r
    using that by (auto simp: part_of_A_def split: sum.splits option.splits)
  have m: "kv_master (mk_kv ''A'' 0 0 WRITE) = 0" "tid remaster_A = 700" by code_simp+
  have a: "program remaster_A = Remaster 1 False" "keys remaster_A = [mk_kv ''A'' 0 0 WRITE]" "txn_type (internal remaster_A) = MULTI_HOME_OR_LOCK_ONLY"
    "kv_master (mk_kv ''A'' 0 0 WRITE) \<noteq> 1" "kv_master (mk_kv ''A'' 0 0 WRITE) < 2 ^ 32" "(1::nat) < 2 ^ 32"
    by (simp_all add: remaster_A_def mk_txn_def mk_kv_def kv_master_def)
  have "(case GeneratePartitionedTxn single_partition (GenerateLockOnlyTxn COUNTERLESS remaster_A 0) 0 of Inr (Some q) \<Rightarrow> True | _ \<Rightarrow> False)"
    "(case GeneratePartitionedTxn single_partition (GenerateLockOnlyTxn COUNTERLESS remaster_A 1) 0 of Inr (Some q) \<Rightarrow> True | _ \<Rightarrow> False)"
    by code_simp+
  note p = parts [OF this(1)] parts [OF this(2)]
  have q: "tid remaster_A \<notin> about ` set ([Arrive (reader 100 [''B''])] @ [])" by code_simp
  have r: "map_sum id (\<lambda>s. (dispatched s, map_option is_done (active_txns s 700))) ?run = Inr ([100, 700], Some True)" by code_simp
  then obtain s where s: "?run = Inr s" by (cases ?run) auto
  have 0: "GeneratePartitionedTxn single_partition (GenerateLockOnlyTxn COUNTERLESS remaster_A (kv_master (mk_kv ''A'' 0 0 WRITE))) 0 =
    Inr (Some (part_of_A 0))" using p(1) by (simp add: m(1))
  from remaster_entry_is_never_collected [OF a(1,2,4,3,5,6) 0 p(2) _ q s] m(2) r s show ?thesis by auto
qed

section \<open>Statistics\<close>

text \<open>C32. After every legal sequence of calls the statistics of the RMA lock manager agree with its contract. They list the
  transactions in the manager once, each with the number of locks it still waits for, which is 0 exactly when it is ready to be
  dispatched, and once every key with a request of such a transaction, with its mode, its holders and the waiting
  requests in order; the counts are the numbers of both, that of the keys as an unsigned 32-bit number.\<close>

theorem rma_statistics_agree:
  assumes "legal_run lock_requests num_required_locks spec_init ops"
    and "lm_run RMA_AcquireLocks RMA_ReleaseLocks ops RMALockManager = Inr (gs, s)"
    and "distinct ts" "set ts = dom (rma_infos s)" "distinct ks" "set ks = dom (rma_lock_table s)"
  shows "stats_agree (spec_run lock_requests num_required_locks ops spec_init) (RMA_GetStats ts ks 2 s)"
  using rma.legal_run_sim [OF assms(1,2)] assms(3-6) by (rule RMA_GetStats_agree)

definition reader_ops :: "lock_op list" where
  "reader_ops = [AcquireOp (reader 100 [''A'']), AcquireOp (writer 200 [''A''])]"

theorem rma_statistics_agree_witness:
  "\<exists>gs s. lm_run RMA_AcquireLocks RMA_ReleaseLocks reader_ops RMALockManager = Inr (gs, s) \<and>
     RMA_GetStats [100, 200] [''A:0''] 2 s =
       [(''lock_manager_type'', JInt 0), (''num_txns_waiting_for_lock'', JInt 2),
        (''num_waiting_for_per_txn'', JArray [JArray [JInt 100, JInt 0], JArray [JInt 200, JInt 1]]),
        (''num_locked_keys'', JInt 1),
        (''lock_table'', JArray [JArray [JString ''A:0'', JInt 1, JArray [JInt 100], JArray [JArray [JInt 200, JInt 2]]]])] \<and>
     stats_agree (spec_run lock_requests num_required_locks reader_ops spec_init) (RMA_GetStats [100, 200] [''A:0''] 2 s)"
proof -
  have legal: "legal_run lock_requests num_required_locks spec_init reader_ops" by code_simp
  have key: "MakeKeyReplica ''A'' (uint32_of_int 0) = ''A:0''" by code_simp
  obtain gs s where run: "lm_run RMA_AcquireLocks RMA_ReleaseLocks reader_ops RMALockManager = Inr (gs, s)"
    and s: "s = \<lparr>rma_infos = [100 \<mapsto> \<lparr>num_waiting_for = 0, info_keys = [''A:0'']\<rparr>, 200 \<mapsto> \<lparr>num_waiting_for = 1, info_keys = [''A:0'']\<rparr>],
      rma_lock_table = [''A:0'' \<mapsto> \<lparr>ls_mode = LM_READ, holders = [100], waiter_queue = [(200, LM_WRITE)]\<rparr>], num_locked_keys = 1\<rparr>"
    by (simp add: reader_ops_def reader_def writer_def mk_txn_def mk_kv_def RMA_AcquireLocks_def RMALockManager_def try_emplace_def
      RMA_TxnInfo_def RMA_acquire_key_def Let_def kv_master_def int32_of_uint32_def ls_at_def LockState_def
      LockState_Contains_def LockState_AcquireReadLock_def LockState_AcquireWriteLock_def RMA_is_ready_def key)
  have d: "set [100, 200] = dom (rma_infos s)" "set [''A:0''] = dom (rma_lock_table s)" by (auto simp: s)
  from rma_statistics_agree [OF legal run _ d(1) _ d(2)]
  have "stats_agree (spec_run lock_requests num_required_locks reader_ops spec_init) (RMA_GetStats [100, 200] [''A:0''] 2 s)" by simp
  moreover have "RMA_GetStats [100, 200] [''A:0''] 2 s =
       [(''lock_manager_type'', JInt 0), (''num_txns_waiting_for_lock'', JInt 2),
        (''num_waiting_for_per_txn'', JArray [JArray [JInt 100, JInt 0], JArray [JInt 200, JInt 1]]),
        (''num_locked_keys'', JInt 1),
        (''lock_table'', JArray [JArray [JString ''A:0'', JInt 1, JArray [JInt 100], JArray [JArray [JInt 200, JInt 2]]]])]"
    unfolding s by code_simp
  ultimately show ?thesis using run by blast
qed

section \<open>Waiting for a remaster\<close>

text \<open>C25. \<^verbatim>\<open>TryToUnblock\<close> returns on every queue on whose transactions no check of the masters fails: the recursion lets the transactions at
  the front through, or aborts them, until the head of the queue has to wait or the queue is empty, each transaction
  once and in order, and leaves the other queues alone.\<close>

theorem try_to_unblock_terminates:
  assumes "\<forall>t \<in> set (queue_at r qs). \<exists>v. CheckCounters t True st = Inr v"
  shows "\<exists>qs' res'. Simple_TryToUnblock st r (qs, res) = Inr (qs', res') \<and>
    queue_at r qs' = dropWhile (\<lambda>t. CheckCounters t True st \<noteq> Inr VM_WAITING) (queue_at r qs) \<and>
    ror_unblocked res' = ror_unblocked res @ filter (\<lambda>t. CheckCounters t True st = Inr VM_VALID)
      (takeWhile (\<lambda>t. CheckCounters t True st \<noteq> Inr VM_WAITING) (queue_at r qs)) \<and>
    ror_should_abort res' = ror_should_abort res @ filter (\<lambda>t. CheckCounters t True st = Inr VM_ABORT)
      (takeWhile (\<lambda>t. CheckCounters t True st \<noteq> Inr VM_WAITING) (queue_at r qs)) \<and>
    (\<forall>r'. r' \<noteq> r \<longrightarrow> queue_at r' qs' = queue_at r' qs)"
proof -
  let ?q = "queue_at r qs"
  have v: "verdict st t = x \<longleftrightarrow> CheckCounters t True st = Inr x" if "t \<in> set ?q" for t x
    using assms that by (auto simp: verdict_def)
  have w: "dropWhile (\<lambda>t. verdict st t \<noteq> VM_WAITING) ?q = dropWhile (\<lambda>t. CheckCounters t True st \<noteq> Inr VM_WAITING) ?q"
    "takeWhile (\<lambda>t. verdict st t \<noteq> VM_WAITING) ?q = takeWhile (\<lambda>t. CheckCounters t True st \<noteq> Inr VM_WAITING) ?q"
    by (auto intro!: dropWhile_cong takeWhile_cong simp: v)
  have f: "filter (\<lambda>t. verdict st t = x) (takeWhile P ?q) = filter (\<lambda>t. CheckCounters t True st = Inr x) (takeWhile P ?q)" for x P
    by (intro filter_cong refl v) (erule set_takeWhileD [THEN conjunct1])
  from unblock_queue_total [OF assms] obtain q' res' where u: "unblock_queue st ?q res = Inr (q', res')" by force
  note e = unblock_queue_eq [OF u, unfolded w f]
  show ?thesis
  proof (cases "?q = []")
    case True
    then show ?thesis by (simp add: Simple_TryToUnblock_def)
  next
    case False
    with u e show ?thesis by (simp add: Simple_TryToUnblock_def)
  qed
qed

definition waiting_queues :: "simple_queues" where
  "waiting_queues = [(0, [mk_txn 1 SINGLE_HOME 0 NoProgram [mk_kv ''A'' 0 1 WRITE], mk_txn 2 SINGLE_HOME 0 NoProgram [mk_kv ''A'' 0 0 WRITE],
     mk_txn 3 SINGLE_HOME 0 NoProgram [mk_kv ''A'' 0 2 WRITE]])]"

definition remastered_store :: storage where
  "remastered_store = [''A'' \<mapsto> SetMetadata \<lparr>master = 0, counter = 1\<rparr> default_record]"

theorem try_to_unblock_terminates_witness:
  "\<exists>qs' res'. Simple_TryToUnblock remastered_store 0 (waiting_queues, RemasterOccurredResult) = Inr (qs', res') \<and>
     map tid (queue_at 0 qs') = [3] \<and> map tid (ror_unblocked res') = [1] \<and> map tid (ror_should_abort res') = [2]"
proof -
  let ?c = "\<lambda>t. CheckCounters t True remastered_store" and ?q = "queue_at 0 waiting_queues"
  have "list_all (\<lambda>t. case ?c t of Inr _ \<Rightarrow> True | Inl _ \<Rightarrow> False) ?q" by code_simp
  then have "\<exists>v. ?c t = Inr v" if "t \<in> set ?q" for t using that by (cases "?c t") (auto simp: list_all_iff)
  then have "\<forall>t \<in> set ?q. \<exists>v. ?c t = Inr v" by blast
  from try_to_unblock_terminates [OF this, of RemasterOccurredResult] obtain qs' res' where
    "Simple_TryToUnblock remastered_store 0 (waiting_queues, RemasterOccurredResult) = Inr (qs', res')"
    "queue_at 0 qs' = dropWhile (\<lambda>t. ?c t \<noteq> Inr VM_WAITING) ?q"
    "ror_unblocked res' = ror_unblocked RemasterOccurredResult @ filter (\<lambda>t. ?c t = Inr VM_VALID) (takeWhile (\<lambda>t. ?c t \<noteq> Inr VM_WAITING) ?q)"
    "ror_should_abort res' = ror_should_abort RemasterOccurredResult @ filter (\<lambda>t. ?c t = Inr VM_ABORT) (takeWhile (\<lambda>t. ?c t \<noteq> Inr VM_WAITING) ?q)"
    by blast
  moreover have "map tid (dropWhile (\<lambda>t. ?c t \<noteq> Inr VM_WAITING) ?q) = [3]"
    "map tid (ror_unblocked RemasterOccurredResult @ filter (\<lambda>t. ?c t = Inr VM_VALID) (takeWhile (\<lambda>t. ?c t \<noteq> Inr VM_WAITING) ?q)) = [1]"
    "map tid (ror_should_abort RemasterOccurredResult @ filter (\<lambda>t. ?c t = Inr VM_ABORT) (takeWhile (\<lambda>t. ?c t \<noteq> Inr VM_WAITING) ?q)) = [2]"
    by code_simp+
  ultimately show ?thesis by metis
qed

end
