(* ===== verification/Kv_Store.thy ===== *)
theory Kv_Store
  imports Slog_Types
begin

text \<open>
  The contract of a key-value table: what \<^verbatim>\<open>Get\<close>, \<^verbatim>\<open>InsertOrUpdate\<close> and \<^verbatim>\<open>Erase\<close> of
  \<^verbatim>\<open>ConcurrentHashMap\<close> promise to \<^verbatim>\<open>MemOnlyStorage\<close>. The table is a finite map; \<^verbatim>\<open>InsertOrUpdate\<close> and
  \<^verbatim>\<open>Erase\<close> return whether the key existed.
\<close>

datatype ('k, 'v) kv_op = KvGet 'k | KvPut 'k 'v | KvErase 'k

datatype 'v kv_reply = Found 'v | NotFound | Existed bool

fun map_step :: "('k, 'v) kv_op \<Rightarrow> ('k \<rightharpoonup> 'v) \<Rightarrow> 'v kv_reply \<times> ('k \<rightharpoonup> 'v)" where
  "map_step (KvGet k) m = ((case m k of None \<Rightarrow> NotFound | Some v \<Rightarrow> Found v), m)"
| "map_step (KvPut k v) m = (Existed (m k \<noteq> None), m(k \<mapsto> v))"
| "map_step (KvErase k) m = (Existed (m k \<noteq> None), m(k := None))"

fun map_run :: "('k, 'v) kv_op list \<Rightarrow> ('k \<rightharpoonup> 'v) \<Rightarrow> 'v kv_reply list" where
  "map_run [] m = []"
| "map_run (x # xs) m = (case map_step x m of (r, m') \<Rightarrow> r # map_run xs m')"

fun table_step ::
  "('k \<Rightarrow> 's \<Rightarrow> 'v option \<times> 's) \<Rightarrow> ('k \<Rightarrow> 'v \<Rightarrow> 's \<Rightarrow> bool \<times> 's) \<Rightarrow> ('k \<Rightarrow> 's \<Rightarrow> bool \<times> 's) \<Rightarrow>
   ('k, 'v) kv_op \<Rightarrow> 's \<Rightarrow> 'v kv_reply \<times> 's" where
  "table_step get put erase (KvGet k) s =
     (case get k s of (r, s') \<Rightarrow> ((case r of None \<Rightarrow> NotFound | Some v \<Rightarrow> Found v), s'))"
| "table_step get put erase (KvPut k v) s = (case put k v s of (b, s') \<Rightarrow> (Existed b, s'))"
| "table_step get put erase (KvErase k) s = (case erase k s of (b, s') \<Rightarrow> (Existed b, s'))"

fun table_run ::
  "('k \<Rightarrow> 's \<Rightarrow> 'v option \<times> 's) \<Rightarrow> ('k \<Rightarrow> 'v \<Rightarrow> 's \<Rightarrow> bool \<times> 's) \<Rightarrow> ('k \<Rightarrow> 's \<Rightarrow> bool \<times> 's) \<Rightarrow>
   ('k, 'v) kv_op list \<Rightarrow> 's \<Rightarrow> 'v kv_reply list" where
  "table_run get put erase [] s = []"
| "table_run get put erase (x # xs) s =
     (case table_step get put erase x s of (r, s') \<Rightarrow> r # table_run get put erase xs s')"

locale kv_table =
  fixes init :: 's
    and get :: "'k \<Rightarrow> 's \<Rightarrow> 'v option \<times> 's"
    and put :: "'k \<Rightarrow> 'v \<Rightarrow> 's \<Rightarrow> bool \<times> 's"
    and erase :: "'k \<Rightarrow> 's \<Rightarrow> bool \<times> 's"
    and inv :: "'s \<Rightarrow> bool"
    and contents :: "'s \<Rightarrow> 'k \<rightharpoonup> 'v"
  assumes init: "inv init" "contents init = Map.empty"
    and get_ok: "inv s \<Longrightarrow> get k s = (r, s') \<Longrightarrow> r = contents s k \<and> inv s' \<and> contents s' = contents s"
    and put_ok: "inv s \<Longrightarrow> put k v s = (b, s') \<Longrightarrow>
      b = (contents s k \<noteq> None) \<and> inv s' \<and> contents s' = (contents s)(k \<mapsto> v)"
    and erase_ok: "inv s \<Longrightarrow> erase k s = (b, s') \<Longrightarrow>
      b = (contents s k \<noteq> None) \<and> inv s' \<and> contents s' = (contents s)(k := None)"
begin

lemma step_ok:
  assumes "inv s" "table_step get put erase x s = (r, s')"
  shows "map_step x (contents s) = (r, contents s') \<and> inv s'"
proof (cases x)
  case (KvGet k)
  obtain q t where g: "get k s = (q, t)" by (rule prod.exhaust)
  from get_ok [OF assms(1) g] g assms(2) KvGet show ?thesis by simp
next
  case (KvPut k v)
  obtain q t where g: "put k v s = (q, t)" by (rule prod.exhaust)
  from put_ok [OF assms(1) g] g assms(2) KvPut show ?thesis by simp
next
  case (KvErase k)
  obtain q t where g: "erase k s = (q, t)" by (rule prod.exhaust)
  from erase_ok [OF assms(1) g] g assms(2) KvErase show ?thesis by simp
qed

lemma run_from_ok: "inv s \<Longrightarrow> table_run get put erase xs s = map_run xs (contents s)"
proof (induction xs arbitrary: s)
  case (Cons x xs)
  obtain r s' where st: "table_step get put erase x s = (r, s')" by (rule prod.exhaust)
  from step_ok [OF Cons.prems st] have m: "map_step x (contents s) = (r, contents s')" and i: "inv s'" by simp_all
  show ?case by (simp only: table_run.simps map_run.simps st m prod.case Cons.IH [OF i])
qed simp

lemma run_ok: "table_run get put erase xs init = map_run xs Map.empty"
  using run_from_ok [OF init(1)] by (simp add: init(2))

end

end
