(* ===== verification/Concurrent_Hash_Map.thy ===== *)
theory Concurrent_Hash_Map
  imports Kv_Store "HOL-Library.Word"
begin

text \<open>
  \<^verbatim>\<open>data_structure/concurrent_hash_map.h\<close>: 256 lazily created segments, each a chained hash table
  that doubles its buckets when it is full. The hash function (\<^verbatim>\<open>std::hash\<close>) is an argument of
  every operation and arbitrary. A chain of nodes is a list of pairs. The operations of a segment run
  under its latch, which \<^verbatim>\<open>Rw_Latch\<close> treats, and are modelled as atomic.
\<close>

unbundle bit_operations_syntax

section \<open>Model\<close>

record ('k, 'v) segment =
  sg_buckets :: "('k \<times> 'v) list list"
  sg_load_factor_max_size :: nat
  sg_size :: nat

definition kShardBits :: nat where "kShardBits = 8"

definition NumShards :: nat where "NumShards = 2 ^ kShardBits"

text \<open>\<^verbatim>\<open>static_cast<size_t>(kLoadFactor * n)\<close>: the float nearest to 1.05 is \<open>8808038 / 2 ^ 23\<close>, and its
  product with a power of two is exact.\<close>

definition load_factor_max :: "nat \<Rightarrow> nat" where
  "load_factor_max n = (8808038 * n) div 2 ^ 23"

definition CreateBuckets :: "nat \<Rightarrow> ('k \<times> 'v) list list" where
  "CreateBuckets n = replicate n []"

definition Segment :: "('k, 'v) segment" where
  "Segment = \<lparr>sg_buckets = CreateBuckets 8, sg_load_factor_max_size = load_factor_max 8, sg_size = 0\<rparr>"

definition GetIndex :: "nat \<Rightarrow> nat \<Rightarrow> nat" where
  "GetIndex nbuckets h = (drop_bit kShardBits h) AND (nbuckets - 1)"

fun chain_find :: "'k \<Rightarrow> ('k \<times> 'v) list \<Rightarrow> 'v option" where
  "chain_find k [] = None"
| "chain_find k ((k', v) # node) = (if k = k' then Some v else chain_find k node)"

definition Segment_Get :: "('k \<Rightarrow> nat) \<Rightarrow> 'k \<Rightarrow> ('k, 'v) segment \<Rightarrow> 'v option" where
  "Segment_Get hf k s = chain_find k (sg_buckets s ! GetIndex (length (sg_buckets s)) (hf k))"

text \<open>The search loop of \<^verbatim>\<open>InsertOrUpdate\<close>: the chain with the node replaced, if the key is there.\<close>

fun chain_replace :: "'k \<Rightarrow> 'v \<Rightarrow> ('k \<times> 'v) list \<Rightarrow> ('k \<times> 'v) list option" where
  "chain_replace k v [] = None"
| "chain_replace k v ((k', v') # node) =
     (if k = k' then Some ((k, v) # node) else map_option (\<lambda>c. (k', v') # c) (chain_replace k v node))"

fun chain_erase :: "'k \<Rightarrow> ('k \<times> 'v) list \<Rightarrow> ('k \<times> 'v) list option" where
  "chain_erase k [] = None"
| "chain_erase k ((k', v') # node) =
     (if k = k' then Some node else map_option (\<lambda>c. (k', v') # c) (chain_erase k node))"

fun rehash_chain :: "('k \<Rightarrow> nat) \<Rightarrow> nat \<Rightarrow> ('k \<times> 'v) list \<Rightarrow> ('k \<times> 'v) list list \<Rightarrow> ('k \<times> 'v) list list" where
  "rehash_chain hf n [] new_buckets = new_buckets"
| "rehash_chain hf n (node # next_node) new_buckets =
     (let idx = GetIndex n (hf (fst node))
      in rehash_chain hf n next_node (new_buckets[idx := node # new_buckets ! idx]))"

definition Rehash :: "('k \<Rightarrow> nat) \<Rightarrow> ('k, 'v) segment \<Rightarrow> ('k, 'v) segment" where
  "Rehash hf s =
     (let new_bucket_count = 2 * length (sg_buckets s);
          new_buckets = fold (rehash_chain hf new_bucket_count) (sg_buckets s) (CreateBuckets new_bucket_count)
      in s\<lparr>sg_buckets := new_buckets, sg_load_factor_max_size := load_factor_max new_bucket_count\<rparr>)"

definition Segment_InsertOrUpdate ::
  "('k \<Rightarrow> nat) \<Rightarrow> 'k \<Rightarrow> 'v \<Rightarrow> ('k, 'v) segment \<Rightarrow> bool \<times> ('k, 'v) segment" where
  "Segment_InsertOrUpdate hf k v s =
     (let idx = GetIndex (length (sg_buckets s)) (hf k);
          root = sg_buckets s ! idx;
          (key_exists, s1) =
            (case chain_replace k v root of
               Some c \<Rightarrow> (True, s\<lparr>sg_buckets := (sg_buckets s)[idx := c]\<rparr>)
             | None \<Rightarrow> (False, s\<lparr>sg_buckets := (sg_buckets s)[idx := (k, v) # root], sg_size := sg_size s + 1\<rparr>))
      in (key_exists, if sg_size s1 \<ge> sg_load_factor_max_size s1 then Rehash hf s1 else s1))"

definition Segment_Erase :: "('k \<Rightarrow> nat) \<Rightarrow> 'k \<Rightarrow> ('k, 'v) segment \<Rightarrow> bool \<times> ('k, 'v) segment" where
  "Segment_Erase hf k s =
     (let idx = GetIndex (length (sg_buckets s)) (hf k)
      in case chain_erase k (sg_buckets s ! idx) of
           None \<Rightarrow> (False, s)
         | Some c \<Rightarrow> (True, s\<lparr>sg_buckets := (sg_buckets s)[idx := c]\<rparr>))"

type_synonym ('k, 'v) hash_map = "('k, 'v) segment option list"

definition ConcurrentHashMap :: "('k, 'v) hash_map" where
  "ConcurrentHashMap = replicate NumShards None"

definition PickSegment :: "('k \<Rightarrow> nat) \<Rightarrow> 'k \<Rightarrow> nat" where
  "PickSegment hf k = hf k AND (NumShards - 1)"

definition EnsureSegment :: "nat \<Rightarrow> ('k, 'v) hash_map \<Rightarrow> ('k, 'v) segment \<times> ('k, 'v) hash_map" where
  "EnsureSegment idx h = (case h ! idx of Some s \<Rightarrow> (s, h) | None \<Rightarrow> (Segment, h[idx := Some Segment]))"

definition HashMap_Get :: "('k \<Rightarrow> nat) \<Rightarrow> 'k \<Rightarrow> ('k, 'v) hash_map \<Rightarrow> 'v option \<times> ('k, 'v) hash_map" where
  "HashMap_Get hf k h = (case EnsureSegment (PickSegment hf k) h of (s, h') \<Rightarrow> (Segment_Get hf k s, h'))"

definition HashMap_InsertOrUpdate ::
  "('k \<Rightarrow> nat) \<Rightarrow> 'k \<Rightarrow> 'v \<Rightarrow> ('k, 'v) hash_map \<Rightarrow> bool \<times> ('k, 'v) hash_map" where
  "HashMap_InsertOrUpdate hf k v h =
     (let idx = PickSegment hf k; (s, h') = EnsureSegment idx h; (b, s') = Segment_InsertOrUpdate hf k v s
      in (b, h'[idx := Some s']))"

definition HashMap_Erase :: "('k \<Rightarrow> nat) \<Rightarrow> 'k \<Rightarrow> ('k, 'v) hash_map \<Rightarrow> bool \<times> ('k, 'v) hash_map" where
  "HashMap_Erase hf k h =
     (let idx = PickSegment hf k; (s, h') = EnsureSegment idx h; (b, s') = Segment_Erase hf k s
      in (b, h'[idx := Some s']))"

section \<open>Chains\<close>

lemma chain_find_map_of: "chain_find k c = map_of c k"
  by (induction c) auto

lemma chain_replace_Some:
  "chain_replace k v c = Some c' \<Longrightarrow>
   map fst c' = map fst c \<and> map_of c k \<noteq> None \<and> map_of c' = (map_of c)(k \<mapsto> v)"
  by (induction c arbitrary: c') (auto split: if_splits simp: fun_eq_iff)

lemma chain_replace_None: "chain_replace k v c = None \<longleftrightarrow> map_of c k = None"
  by (induction c) auto

lemma chain_erase_Some:
  "chain_erase k c = Some c' \<Longrightarrow> distinct (map fst c) \<Longrightarrow>
   distinct (map fst c') \<and> set c' \<subseteq> set c \<and> map_of c k \<noteq> None \<and> map_of c' = (map_of c)(k := None)"
proof (induction c arbitrary: c')
  case (Cons x c)
  show ?case
  proof (cases "k = fst x")
    case True
    then have "k \<notin> fst ` set c" using Cons.prems(2) by simp
    then have "map_of c k = None" by (simp add: map_of_eq_None_iff)
    with True Cons.prems show ?thesis by (cases x) (auto simp: fun_eq_iff)
  next
    case False
    with Cons.prems(1) obtain c1 where c1: "chain_erase k c = Some c1" "c' = x # c1" by (cases x) auto
    from Cons.IH [OF c1(1)] Cons.prems(2) False c1(2) show ?thesis
      by (cases x) (auto simp: fun_eq_iff)
  qed
qed simp

lemma chain_erase_None: "chain_erase k c = None \<longleftrightarrow> map_of c k = None"
  by (induction c) auto

section \<open>Segments\<close>

definition power_of_2 :: "nat \<Rightarrow> bool" where
  "power_of_2 n \<longleftrightarrow> (\<exists>b. n = 2 ^ b)"

lemma and_mask: "x AND (2 ^ b - 1) = x mod 2 ^ b" for x :: nat
  unfolding take_bit_eq_mod [symmetric] take_bit_eq_mask mask_eq_exp_minus_1 ..

lemma GetIndex_less: "power_of_2 n \<Longrightarrow> GetIndex n h < n"
  unfolding power_of_2_def GetIndex_def by (auto simp only: and_mask) simp

definition buckets_ok :: "('k \<Rightarrow> nat) \<Rightarrow> ('k \<times> 'v) list list \<Rightarrow> bool" where
  "buckets_ok hf bs \<longleftrightarrow> power_of_2 (length bs) \<and>
     (\<forall>i < length bs. distinct (map fst (bs ! i)) \<and> (\<forall>x \<in> set (bs ! i). GetIndex (length bs) (hf (fst x)) = i))"

definition bucket_lookup :: "('k \<Rightarrow> nat) \<Rightarrow> ('k \<times> 'v) list list \<Rightarrow> 'k \<rightharpoonup> 'v" where
  "bucket_lookup hf bs k = map_of (bs ! GetIndex (length bs) (hf k)) k"

lemma buckets_ok_update:
  assumes "buckets_ok hf bs" "i < length bs" "distinct (map fst c)"
    and "\<And>x. x \<in> set c \<Longrightarrow> GetIndex (length bs) (hf (fst x)) = i"
  shows "buckets_ok hf (bs[i := c])"
  using assms by (auto simp: buckets_ok_def nth_list_update)

lemma bucket_lookup_update:
  assumes "i = GetIndex (length bs) (hf k)" "i < length bs"
    and "map_of c = (map_of (bs ! i))(k := w)"
  shows "bucket_lookup hf (bs[i := c]) = (bucket_lookup hf bs)(k := w)"
  using assms by (auto simp: bucket_lookup_def fun_eq_iff nth_list_update)

text \<open>Moving the nodes of the old buckets into the new ones. Only nodes with fresh keys are moved.\<close>

definition nodes :: "('k \<times> 'v) list list \<Rightarrow> ('k \<times> 'v) list" where
  "nodes bs = concat bs"

lemma in_nodes: "x \<in> set (nodes bs) \<longleftrightarrow> (\<exists>j < length bs. x \<in> set (bs ! j))"
  by (metis UN_iff in_set_conv_nth nodes_def set_concat)

lemma buckets_lookup_iff:
  assumes "buckets_ok hf bs"
  shows "bucket_lookup hf bs k = Some v \<longleftrightarrow> (k, v) \<in> set (nodes bs)"
proof
  let ?i = "GetIndex (length bs) (hf k)"
  have i: "?i < length bs" using assms by (auto simp: buckets_ok_def intro: GetIndex_less)
  show "(k, v) \<in> set (nodes bs)" if "bucket_lookup hf bs k = Some v"
    using that i unfolding bucket_lookup_def in_nodes by (auto dest!: map_of_SomeD)
  show "bucket_lookup hf bs k = Some v" if kv: "(k, v) \<in> set (nodes bs)"
  proof -
    from kv obtain j where j: "j < length bs" "(k, v) \<in> set (bs ! j)"
      unfolding in_nodes by blast
    with assms have "j = ?i" "distinct (map fst (bs ! j))" by (fastforce simp: buckets_ok_def)+
    with j(2) show ?thesis by (auto simp: bucket_lookup_def)
  qed
qed

lemma distinct_nodes:
  assumes "buckets_ok hf bs"
  shows "distinct (map fst (nodes bs))"
proof -
  have "distinct (concat (map (map fst) bs'))"
    if d: "\<forall>i < length bs'. distinct (map fst (bs' ! i)) \<and> (\<forall>x \<in> set (bs' ! i). g (fst x) = f i)"
      and inj: "inj_on f {..<length bs'}" for bs' :: "('a \<times> 'b) list list" and g and f :: "nat \<Rightarrow> nat"
    using d inj
  proof (induction bs' arbitrary: f)
    case (Cons b bs')
    have "distinct (concat (map (map fst) bs'))"
    proof (rule Cons.IH [of "f \<circ> Suc"])
      show "\<forall>i < length bs'. distinct (map fst (bs' ! i)) \<and> (\<forall>x \<in> set (bs' ! i). g (fst x) = (f \<circ> Suc) i)"
        using Cons.prems(1) by auto
      show "inj_on (f \<circ> Suc) {..<length bs'}" using Cons.prems(2) by (auto simp: inj_on_def)
    qed
    moreover have "fst x \<noteq> fst y" if x: "x \<in> set b" and y: "y \<in> set (bs' ! i)" and i: "i < length bs'" for x y i
    proof -
      have "g (fst x) = f 0" using Cons.prems(1) x by auto
      moreover have "g (fst y) = f (Suc i)" using Cons.prems(1) y i by auto
      moreover have "f 0 \<noteq> f (Suc i)" using Cons.prems(2) i by (auto simp: inj_on_def)
      ultimately show ?thesis by auto
    qed
    then have "set (map fst b) \<inter> set (concat (map (map fst) bs')) = {}"
      by (fastforce simp: in_set_conv_nth [of _ bs'])
    moreover have "distinct (map fst b)" using Cons.prems(1) by auto
    ultimately show ?case by simp
  qed simp
  from this [of bs "\<lambda>k. GetIndex (length bs) (hf k)" id] assms show ?thesis
    by (auto simp: buckets_ok_def nodes_def map_concat)
qed

lemma rehash_chain_ok:
  assumes "buckets_ok hf nb" "distinct (map fst c)" "fst ` set c \<inter> fst ` set (nodes nb) = {}"
  defines "nb' \<equiv> rehash_chain hf (length nb) c nb"
  shows "buckets_ok hf nb' \<and> length nb' = length nb \<and> set (nodes nb') = set (nodes nb) \<union> set c"
  using assms(1-3) unfolding nb'_def
proof (induction c arbitrary: nb)
  case (Cons x c)
  define i where "i = GetIndex (length nb) (hf (fst x))"
  define nb1 where "nb1 = nb[i := x # nb ! i]"
  have i: "i < length nb" using Cons.prems(1) by (auto simp: i_def buckets_ok_def intro: GetIndex_less)
  have "fst x \<notin> fst ` set (nb ! i)"
    using Cons.prems(3) i by (fastforce simp: in_nodes)
  then have ok: "buckets_ok hf nb1"
    unfolding nb1_def using Cons.prems(1) i
    by (intro buckets_ok_update) (auto simp: buckets_ok_def i_def)
  have len: "length nb1 = length nb" by (simp add: nb1_def)
  have "set (nodes nb1) = insert x (set (nodes nb))"
    using i by (auto simp: in_nodes nb1_def nth_list_update split: if_splits)
  with Cons.IH [OF ok] Cons.prems(2,3) len show ?case
    by (auto simp: Let_def i_def [symmetric] nb1_def [symmetric])
qed simp

lemma fold_rehash_ok:
  assumes "buckets_ok hf nb" "length nb = n" "distinct (map fst (concat bs))"
    "fst ` set (concat bs) \<inter> fst ` set (nodes nb) = {}"
  shows "buckets_ok hf (fold (rehash_chain hf n) bs nb) \<and> length (fold (rehash_chain hf n) bs nb) = n \<and>
    set (nodes (fold (rehash_chain hf n) bs nb)) = set (nodes nb) \<union> set (concat bs)"
  using assms
proof (induction bs arbitrary: nb)
  case (Cons b bs)
  define nb1 where "nb1 = rehash_chain hf n b nb"
  have "fst ` set b \<inter> fst ` set (nodes nb) = {}" using Cons.prems(4) by auto
  with Cons.prems have 1: "buckets_ok hf nb1" "length nb1 = n" "set (nodes nb1) = set (nodes nb) \<union> set b"
    using rehash_chain_ok [of hf nb b] by (auto simp: nb1_def)
  have "fst ` set (concat bs) \<inter> fst ` set (nodes nb1) = {}"
  proof -
    have "fst ` set b \<inter> fst ` set (concat bs) = {}" using Cons.prems(3) by simp
    with Cons.prems(4) show ?thesis unfolding 1(3) by (simp add: image_Un Int_Un_distrib Int_Un_distrib2) blast
  qed
  with Cons.IH [OF 1(1,2)] Cons.prems(3) 1(3) show ?case by (auto simp: nb1_def)
qed simp

definition segment_ok :: "('k \<Rightarrow> nat) \<Rightarrow> ('k, 'v) segment \<Rightarrow> bool" where
  "segment_ok hf s \<longleftrightarrow> buckets_ok hf (sg_buckets s)"

definition segment_map :: "('k \<Rightarrow> nat) \<Rightarrow> ('k, 'v) segment \<Rightarrow> 'k \<rightharpoonup> 'v" where
  "segment_map hf s = bucket_lookup hf (sg_buckets s)"

lemma Rehash_ok:
  fixes s :: "('k, 'v) segment"
  assumes "segment_ok hf s"
  shows "segment_ok hf (Rehash hf s)" "segment_map hf (Rehash hf s) = segment_map hf s"
proof -
  let ?n = "2 * length (sg_buckets s)"
  let ?nb = "CreateBuckets ?n :: ('k \<times> 'v) list list"
  have ok: "buckets_ok hf (sg_buckets s)" using assms by (simp add: segment_ok_def)
  have "power_of_2 ?n"
  proof -
    obtain b where "length (sg_buckets s) = 2 ^ b" using ok by (auto simp: buckets_ok_def power_of_2_def)
    then have "?n = 2 ^ Suc b" by simp
    then show ?thesis unfolding power_of_2_def by blast
  qed
  then have nb: "buckets_ok hf ?nb" "length ?nb = ?n" "set (nodes ?nb) = {}"
    by (auto simp: buckets_ok_def CreateBuckets_def nodes_def)
  have d1: "distinct (map fst (concat (sg_buckets s)))" using distinct_nodes [OF ok] by (simp only: nodes_def)
  have d2: "fst ` set (concat (sg_buckets s)) \<inter> fst ` set (nodes ?nb) = {}" unfolding nb(3) by simp
  note G = fold_rehash_ok [OF nb(1,2) d1 d2, unfolded nb(3)]
  then have F: "buckets_ok hf (fold (rehash_chain hf ?n) (sg_buckets s) ?nb)"
    "set (nodes (fold (rehash_chain hf ?n) (sg_buckets s) ?nb)) = set (nodes (sg_buckets s))"
    unfolding nodes_def [of "sg_buckets s"] by (simp_all only: Un_empty_left)
  have sg: "sg_buckets (Rehash hf s) = fold (rehash_chain hf ?n) (sg_buckets s) ?nb"
    by (simp add: Rehash_def Let_def)
  from F have new: "buckets_ok hf (sg_buckets (Rehash hf s))" "set (nodes (sg_buckets (Rehash hf s))) = set (nodes (sg_buckets s))"
    unfolding sg .
  then show "segment_ok hf (Rehash hf s)" by (simp add: segment_ok_def)
  show "segment_map hf (Rehash hf s) = segment_map hf s"
  proof
    fix k
    have "bucket_lookup hf (sg_buckets (Rehash hf s)) k = Some v \<longleftrightarrow> bucket_lookup hf (sg_buckets s) k = Some v" for v
      using buckets_lookup_iff [OF new(1)] buckets_lookup_iff [OF ok] new(2) by blast
    then show "segment_map hf (Rehash hf s) k = segment_map hf s k"
      unfolding segment_map_def by (metis not_None_eq)
  qed
qed

lemma Segment_ok: "segment_ok hf Segment" "segment_map hf Segment = Map.empty"
proof -
  have "power_of_2 8" unfolding power_of_2_def by (intro exI [of _ 3]) simp
  then show "segment_ok hf Segment" by (auto simp: segment_ok_def buckets_ok_def Segment_def CreateBuckets_def)
  from GetIndex_less [OF \<open>power_of_2 8\<close>] show "segment_map hf Segment = Map.empty"
    by (auto simp: segment_map_def bucket_lookup_def Segment_def CreateBuckets_def)
qed

lemma Segment_Get_ok: "Segment_Get hf k s = segment_map hf s k"
  by (simp add: Segment_Get_def segment_map_def bucket_lookup_def chain_find_map_of)

lemma Segment_InsertOrUpdate_ok:
  assumes "segment_ok hf s" "Segment_InsertOrUpdate hf k v s = (b, s')"
  shows "b = (segment_map hf s k \<noteq> None) \<and> segment_ok hf s' \<and> segment_map hf s' = (segment_map hf s)(k \<mapsto> v)"
proof -
  let ?bs = "sg_buckets s"
  define i where "i = GetIndex (length ?bs) (hf k)"
  have bs: "buckets_ok hf ?bs" using assms(1) by (simp add: segment_ok_def)
  have i: "i < length ?bs" using bs by (auto simp: buckets_ok_def i_def intro: GetIndex_less)
  have at_i: "distinct (map fst (?bs ! i))" "\<And>x. x \<in> set (?bs ! i) \<Longrightarrow> GetIndex (length ?bs) (hf (fst x)) = i"
    using bs i by (auto simp: buckets_ok_def)
  define c where c: "c = (case chain_replace k v (?bs ! i) of Some c \<Rightarrow> c | None \<Rightarrow> (k, v) # ?bs ! i)"
  define s1 where "s1 = (case chain_replace k v (?bs ! i) of Some c \<Rightarrow> s\<lparr>sg_buckets := ?bs[i := c]\<rparr>
      | None \<Rightarrow> s\<lparr>sg_buckets := ?bs[i := (k, v) # ?bs ! i], sg_size := sg_size s + 1\<rparr>)"
  have s1: "sg_buckets s1 = ?bs[i := c]" by (simp add: s1_def c split: option.splits)
  have b: "b = (chain_replace k v (?bs ! i) \<noteq> None)"
    and s': "s' = (if sg_size s1 \<ge> sg_load_factor_max_size s1 then Rehash hf s1 else s1)"
  proof -
    have "Segment_InsertOrUpdate hf k v s = (chain_replace k v (?bs ! i) \<noteq> None,
        if sg_size s1 \<ge> sg_load_factor_max_size s1 then Rehash hf s1 else s1)"
      unfolding Segment_InsertOrUpdate_def Let_def i_def [symmetric] s1_def
      by (cases "chain_replace k v (?bs ! i)") (simp_all only: option.case prod.case simp_thms option.distinct)
    with assms(2) show "b = (chain_replace k v (?bs ! i) \<noteq> None)"
      "s' = (if sg_size s1 \<ge> sg_load_factor_max_size s1 then Rehash hf s1 else s1)" by (simp_all only: prod.inject)
  qed
  have cm: "distinct (map fst c)" "fst ` set c = insert k (fst ` set (?bs ! i))" "map_of c = (map_of (?bs ! i))(k \<mapsto> v)"
  proof -
    have "distinct (map fst c) \<and> fst ` set c = insert k (fst ` set (?bs ! i)) \<and> map_of c = (map_of (?bs ! i))(k \<mapsto> v)"
    proof (cases "chain_replace k v (?bs ! i)")
      case None
      then have "k \<notin> fst ` set (?bs ! i)" by (simp add: chain_replace_None map_of_eq_None_iff)
      with None c at_i(1) show ?thesis by auto
    next
      case (Some c')
      note R = chain_replace_Some [OF Some]
      then have "k \<in> fst ` set (?bs ! i)" by (metis map_of_eq_None_iff)
      moreover have "fst ` set c' = fst ` set (?bs ! i)" using R by (metis list.set_map)
      ultimately show ?thesis using Some c R at_i(1) by auto
    qed
    then show "distinct (map fst c)" "fst ` set c = insert k (fst ` set (?bs ! i))" "map_of c = (map_of (?bs ! i))(k \<mapsto> v)"
      by simp_all
  qed
  have "GetIndex (length ?bs) (hf (fst x)) = i" if "x \<in> set c" for x
  proof -
    have "fst x \<in> insert k (fst ` set (?bs ! i))" using that cm(2) by blast
    with at_i(2) show ?thesis by (auto simp: i_def)
  qed
  from buckets_ok_update [OF bs i cm(1) this] have ok1: "segment_ok hf s1" by (simp add: segment_ok_def s1)
  have m1: "segment_map hf s1 = (segment_map hf s)(k \<mapsto> v)"
    unfolding segment_map_def s1 by (rule bucket_lookup_update [of i ?bs hf k c "Some v", OF i_def i cm(3)])
  have "b = (segment_map hf s k \<noteq> None)"
    unfolding b by (simp add: chain_replace_None segment_map_def bucket_lookup_def i_def)
  with ok1 m1 Rehash_ok [OF ok1] show ?thesis by (simp add: s')
qed

lemma Segment_Erase_ok:
  assumes "segment_ok hf s" "Segment_Erase hf k s = (b, s')"
  shows "b = (segment_map hf s k \<noteq> None) \<and> segment_ok hf s' \<and> segment_map hf s' = (segment_map hf s)(k := None)"
proof -
  let ?bs = "sg_buckets s"
  define i where "i = GetIndex (length ?bs) (hf k)"
  have bs: "buckets_ok hf ?bs" using assms(1) by (simp add: segment_ok_def)
  have i: "i < length ?bs" using bs by (auto simp: buckets_ok_def i_def intro: GetIndex_less)
  have lk: "segment_map hf s k = map_of (?bs ! i) k" by (simp add: segment_map_def bucket_lookup_def i_def)
  show ?thesis
  proof (cases "chain_erase k (?bs ! i)")
    case None
    with assms(2) have "b = False" "s' = s" by (simp_all add: Segment_Erase_def Let_def i_def)
    with None assms(1) lk show ?thesis by (auto simp: chain_erase_None fun_eq_iff)
  next
    case (Some c)
    with assms(2) have e: "b = True" "sg_buckets s' = ?bs[i := c]"
      by (auto simp: Segment_Erase_def Let_def i_def)
    have d: "distinct (map fst (?bs ! i))" using bs i by (simp add: buckets_ok_def)
    note E = chain_erase_Some [OF Some d]
    have "GetIndex (length ?bs) (hf (fst x)) = i" if "x \<in> set c" for x
      using that E bs i by (auto simp: buckets_ok_def)
    from buckets_ok_update [OF bs i _ this] E have "segment_ok hf s'" by (simp add: segment_ok_def e)
    moreover have "segment_map hf s' = (segment_map hf s)(k := None)"
      unfolding segment_map_def e using E by (intro bucket_lookup_update [of i ?bs hf k c None, OF i_def i]) simp
    ultimately show ?thesis using E e(1) lk by simp
  qed
qed

section \<open>The map\<close>

definition hash_map_ok :: "('k \<Rightarrow> nat) \<Rightarrow> ('k, 'v) hash_map \<Rightarrow> bool" where
  "hash_map_ok hf h \<longleftrightarrow> length h = NumShards \<and> (\<forall>i < NumShards. \<forall>s. h ! i = Some s \<longrightarrow> segment_ok hf s)"

definition hash_map_contents :: "('k \<Rightarrow> nat) \<Rightarrow> ('k, 'v) hash_map \<Rightarrow> 'k \<rightharpoonup> 'v" where
  "hash_map_contents hf h k = (case h ! PickSegment hf k of None \<Rightarrow> None | Some s \<Rightarrow> segment_map hf s k)"

lemma contents_at: "h ! PickSegment hf k = Some sg \<Longrightarrow> hash_map_contents hf h k = segment_map hf sg k"
  by (simp add: hash_map_contents_def)

lemma PickSegment_less: "PickSegment hf k < NumShards"
  unfolding PickSegment_def NumShards_def and_mask by simp

lemma EnsureSegment_ok:
  assumes "hash_map_ok hf h" "EnsureSegment i h = (s, h')" "i < NumShards"
  shows "segment_ok hf s \<and> h' ! i = Some s \<and> hash_map_ok hf h' \<and> hash_map_contents hf h' = hash_map_contents hf h"
proof (cases "h ! i")
  case None
  with assms have e: "s = Segment" "h' = h[i := Some Segment]" "length h = NumShards"
    by (auto simp: EnsureSegment_def hash_map_ok_def)
  have "hash_map_contents hf h' k = hash_map_contents hf h k" for k
    using None e assms(3) by (cases "PickSegment hf k = i") (auto simp: hash_map_contents_def Segment_ok)
  with e assms show ?thesis by (auto simp: hash_map_ok_def Segment_ok nth_list_update)
next
  case (Some s0)
  with assms show ?thesis by (auto simp: EnsureSegment_def hash_map_ok_def)
qed

lemma update_segment_ok:
  assumes "hash_map_ok hf h" "h ! i = Some s" "segment_ok hf s'" "i = PickSegment hf k"
    and "segment_map hf s' = (segment_map hf s)(k := w)"
  shows "hash_map_ok hf (h[i := Some s'])" "hash_map_contents hf (h[i := Some s']) = (hash_map_contents hf h)(k := w)"
proof -
  have i: "i < length h" using assms(1,4) PickSegment_less by (simp add: hash_map_ok_def)
  from assms(1,3) i show "hash_map_ok hf (h[i := Some s'])" by (auto simp: hash_map_ok_def nth_list_update)
  show "hash_map_contents hf (h[i := Some s']) = (hash_map_contents hf h)(k := w)"
  proof
    fix k'
    show "hash_map_contents hf (h[i := Some s']) k' = ((hash_map_contents hf h)(k := w)) k'"
      using assms(2,4,5) i by (cases "PickSegment hf k' = i") (auto simp: hash_map_contents_def)
  qed
qed

interpretation chm: kv_table ConcurrentHashMap "HashMap_Get hf" "HashMap_InsertOrUpdate hf" "HashMap_Erase hf"
  "hash_map_ok hf" "hash_map_contents hf"
  for hf :: "'k \<Rightarrow> nat"
proof unfold_locales
  fix s s' :: "('k, 'v) hash_map" and k v b r
  let ?i = "PickSegment hf k"
  obtain sg h where en: "EnsureSegment ?i s = (sg, h)" by fastforce
  show "hash_map_ok hf ConcurrentHashMap" by (simp add: hash_map_ok_def ConcurrentHashMap_def)
  show "hash_map_contents hf ConcurrentHashMap = Map.empty"
    by (simp add: fun_eq_iff hash_map_contents_def ConcurrentHashMap_def PickSegment_less)
  show "r = hash_map_contents hf s k \<and> hash_map_ok hf s' \<and> hash_map_contents hf s' = hash_map_contents hf s"
    if a1: "hash_map_ok hf s" and a2: "HashMap_Get hf k s = (r, s')"
  proof -
    note E = EnsureSegment_ok [OF a1 en PickSegment_less]
    have "r = segment_map hf sg k" "s' = h" using a2 en by (auto simp: HashMap_Get_def Segment_Get_ok)
    moreover have "hash_map_contents hf h k = segment_map hf sg k" using E by (blast intro: contents_at)
    ultimately show ?thesis using E by simp
  qed
  show "b = (hash_map_contents hf s k \<noteq> None) \<and> hash_map_ok hf s' \<and> hash_map_contents hf s' = (hash_map_contents hf s)(k \<mapsto> v)"
    if a1: "hash_map_ok hf s" and a2: "HashMap_InsertOrUpdate hf k v s = (b, s')"
  proof -
    note E = EnsureSegment_ok [OF a1 en PickSegment_less]
    obtain sg' where i: "Segment_InsertOrUpdate hf k v sg = (b, sg')" "s' = h[?i := Some sg']"
      using a2 en by (auto simp: HashMap_InsertOrUpdate_def split: prod.splits)
    note S = Segment_InsertOrUpdate_ok [OF conjunct1 [OF E] i(1)]
    have "hash_map_contents hf h k = segment_map hf sg k" using E by (blast intro: contents_at)
    with S E i(2) update_segment_ok [of hf h ?i sg sg' k "Some v"] show ?thesis by auto
  qed
  show "b = (hash_map_contents hf s k \<noteq> None) \<and> hash_map_ok hf s' \<and> hash_map_contents hf s' = (hash_map_contents hf s)(k := None)"
    if a1: "hash_map_ok hf s" and a2: "HashMap_Erase hf k s = (b, s')"
  proof -
    note E = EnsureSegment_ok [OF a1 en PickSegment_less]
    obtain sg' where i: "Segment_Erase hf k sg = (b, sg')" "s' = h[?i := Some sg']"
      using a2 en by (auto simp: HashMap_Erase_def split: prod.splits)
    note S = Segment_Erase_ok [OF conjunct1 [OF E] i(1)]
    have "hash_map_contents hf h k = segment_map hf sg k" using E by (blast intro: contents_at)
    with S E i(2) update_segment_ok [of hf h ?i sg sg' k None] show ?thesis by auto
  qed
qed

end
