(* ===== verification/Rw_Latch.thy ===== *)
theory Rw_Latch
  imports Slog_Prelude
begin

text \<open>
  \<^verbatim>\<open>data_structure/rwlatch.h\<close>: the reader-writer latch of the hash map's segments. Threads interleave
  at the points where the code gives the mutex away: the entry of an operation and the waits on the
  two condition variables. A waiting thread sleeps until it is notified (or wakes up spuriously) and
  then tests its condition again.
\<close>

section \<open>Model\<close>

datatype latch_pc =
    Idle
  | RTry | RSleep | RHold            \<comment> \<open>about to test the condition of \<^verbatim>\<open>RLock\<close>, waiting on \<^verbatim>\<open>reader_\<close>, holding\<close>
  | WTry | WSleep                    \<comment> \<open>the first loop of \<^verbatim>\<open>WLock\<close>, waiting on \<^verbatim>\<open>reader_\<close>\<close>
  | WDrain | WDrainSleep | WHold     \<comment> \<open>the second loop of \<^verbatim>\<open>WLock\<close>, waiting on \<^verbatim>\<open>writer_\<close>, holding\<close>

record latch =
  reader_count :: nat
  writer_entered :: bool
  pc :: "nat \<Rightarrow> latch_pc"

definition MAX_READERS :: nat where
  "MAX_READERS = 2 ^ 32 - 1"

definition ReaderWriterLatch :: latch where
  "ReaderWriterLatch = \<lparr>reader_count = 0, writer_entered = False, pc = (\<lambda>_. Idle)\<rparr>"

definition set_pc :: "nat \<Rightarrow> latch_pc \<Rightarrow> latch \<Rightarrow> latch" where
  "set_pc t p l = l\<lparr>pc := (pc l)(t := p)\<rparr>"

text \<open>The second loop of \<^verbatim>\<open>WLock\<close>.\<close>

definition WLock_drain :: "nat \<Rightarrow> latch \<Rightarrow> latch" where
  "WLock_drain t l = set_pc t (if reader_count l > 0 then WDrainSleep else WHold) l"

definition WLock :: "nat \<Rightarrow> latch \<Rightarrow> latch" where
  "WLock t l = (if writer_entered l then set_pc t WSleep l else WLock_drain t (l\<lparr>writer_entered := True\<rparr>))"

text \<open>\<^verbatim>\<open>reader_.notify_all()\<close>\<close>

definition wake_all :: "latch \<Rightarrow> latch" where
  "wake_all l = l\<lparr>pc := (\<lambda>t. case pc l t of RSleep \<Rightarrow> RTry | WSleep \<Rightarrow> WTry | p \<Rightarrow> p)\<rparr>"

definition WUnlock :: "nat \<Rightarrow> latch \<Rightarrow> latch" where
  "WUnlock t l = wake_all (set_pc t Idle (l\<lparr>writer_entered := False\<rparr>))"

definition RLock :: "nat \<Rightarrow> latch \<Rightarrow> latch" where
  "RLock t l =
     (if writer_entered l \<or> reader_count l = MAX_READERS then set_pc t RSleep l
      else set_pc t RHold (l\<lparr>reader_count := reader_count l + 1\<rparr>))"

text \<open>\<^verbatim>\<open>notify_one\<close> wakes thread \<open>w\<close>, one of those that wait on the variable, if there is any.\<close>

definition wake :: "nat \<Rightarrow> latch \<Rightarrow> latch" where
  "wake w l = set_pc w (case pc l w of RSleep \<Rightarrow> RTry | WSleep \<Rightarrow> WTry | WDrainSleep \<Rightarrow> WDrain | p \<Rightarrow> p) l"

definition waits_on_writer :: "latch \<Rightarrow> nat \<Rightarrow> bool" where
  "waits_on_writer l t \<longleftrightarrow> pc l t = WDrainSleep"

definition waits_on_reader :: "latch \<Rightarrow> nat \<Rightarrow> bool" where
  "waits_on_reader l t \<longleftrightarrow> pc l t \<in> {RSleep, WSleep}"

definition RUnlock :: "nat \<Rightarrow> nat \<Rightarrow> latch \<Rightarrow> latch" where
  "RUnlock t w l =
     (let l1 = set_pc t Idle (l\<lparr>reader_count := (reader_count l + (2 ^ 32 - 1)) mod 2 ^ 32\<rparr>)
      in if writer_entered l1
         then (if reader_count l1 = 0 \<and> waits_on_writer l1 w then wake w l1 else l1)
         else (if reader_count l1 = MAX_READERS - 1 \<and> waits_on_reader l1 w then wake w l1 else l1))"

text \<open>\<^verbatim>\<open>notify_one\<close> does not ignore a waiting thread: \<open>w\<close> waits if any thread does.\<close>

inductive latch_step :: "nat \<Rightarrow> latch \<Rightarrow> latch \<Rightarrow> bool" for N where
  rlock: "t < N \<Longrightarrow> pc l t \<in> {Idle, RTry} \<Longrightarrow> latch_step N l (RLock t l)"
| wlock: "t < N \<Longrightarrow> pc l t \<in> {Idle, WTry} \<Longrightarrow> latch_step N l (WLock t l)"
| drain: "t < N \<Longrightarrow> pc l t = WDrain \<Longrightarrow> latch_step N l (WLock_drain t l)"
| wunlock: "t < N \<Longrightarrow> pc l t = WHold \<Longrightarrow> latch_step N l (WUnlock t l)"
| runlock: "t < N \<Longrightarrow> pc l t = RHold \<Longrightarrow>
    (\<exists>u < N. waits_on_writer l u) \<longrightarrow> waits_on_writer l w \<Longrightarrow>
    (\<exists>u < N. waits_on_reader l u) \<and> \<not> writer_entered l \<longrightarrow> waits_on_reader l w \<Longrightarrow> w < N \<Longrightarrow>
    latch_step N l (RUnlock t w l)"
| spurious: "t < N \<Longrightarrow> latch_step N l (wake t l)"

inductive latch_reachable :: "nat \<Rightarrow> latch \<Rightarrow> bool" for N where
  init: "latch_reachable N ReaderWriterLatch"
| step: "latch_reachable N l \<Longrightarrow> latch_step N l l' \<Longrightarrow> latch_reachable N l'"

section \<open>Invariant\<close>

definition writers :: "latch \<Rightarrow> nat set" where
  "writers l = {t. pc l t \<in> {WDrain, WDrainSleep, WHold}}"

definition readers :: "latch \<Rightarrow> nat set" where
  "readers l = {t. pc l t = RHold}"

definition latch_inv :: "nat \<Rightarrow> latch \<Rightarrow> bool" where
  "latch_inv N l \<longleftrightarrow>
     (\<forall>t \<ge> N. pc l t = Idle) \<and> reader_count l = card (readers l) \<and>
     (\<forall>t u. t \<in> writers l \<longrightarrow> u \<in> writers l \<longrightarrow> t = u) \<and>
     (writer_entered l \<longleftrightarrow> writers l \<noteq> {}) \<and>
     (\<forall>t. pc l t = WHold \<longrightarrow> readers l = {}) \<and>
     (\<forall>t. pc l t = WDrainSleep \<longrightarrow> readers l \<noteq> {}) \<and>
     (\<forall>t. pc l t \<in> {RSleep, WSleep} \<longrightarrow> writer_entered l)"

lemma latch_invD:
  assumes "latch_inv N l"
  shows "\<And>t. t \<ge> N \<Longrightarrow> pc l t = Idle" "reader_count l = card (readers l)"
    "\<And>t u. t \<in> writers l \<Longrightarrow> u \<in> writers l \<Longrightarrow> t = u"
    "writer_entered l \<longleftrightarrow> writers l \<noteq> {}" "\<And>t. pc l t = WHold \<Longrightarrow> readers l = {}"
    "\<And>t. pc l t = WDrainSleep \<Longrightarrow> readers l \<noteq> {}" "\<And>t. pc l t \<in> {RSleep, WSleep} \<Longrightarrow> writer_entered l"
  using assms unfolding latch_inv_def by blast+

lemma readers_bounded: "latch_inv N l \<Longrightarrow> readers l \<subseteq> {..<N}"
  unfolding latch_inv_def readers_def by (auto simp: not_le [symmetric])

lemma finite_readers: "latch_inv N l \<Longrightarrow> finite (readers l)"
  using readers_bounded finite_subset by blast

lemma pc_set_pc [simp]: "pc (set_pc t p l) = (pc l)(t := p)" "reader_count (set_pc t p l) = reader_count l"
  "writer_entered (set_pc t p l) = writer_entered l"
  by (simp_all add: set_pc_def)

lemma latch_inv_init: "latch_inv N ReaderWriterLatch"
  by (simp add: latch_inv_def ReaderWriterLatch_def readers_def writers_def)

text \<open>Setting a thread to a state in which it neither holds nor has entered, from such a state.\<close>

lemma readers_set_pc: "readers (set_pc t p l) = (if p = RHold then insert t (readers l) else readers l - {t})"
  by (auto simp: readers_def)

lemma writers_set_pc:
  "writers (set_pc t p l) = (if p \<in> {WDrain, WDrainSleep, WHold} then insert t (writers l) else writers l - {t})"
  by (auto simp: writers_def)

lemma inv_RLock:
  assumes inv: "latch_inv N l" and t: "t < N" "pc l t \<in> {Idle, RTry}" and N: "N \<le> MAX_READERS"
  shows "latch_inv N (RLock t l)"
proof (cases "writer_entered l")
  case True
  then have "RLock t l = set_pc t RSleep l" by (simp add: RLock_def)
  moreover have "readers (set_pc t RSleep l) = readers l" "writers (set_pc t RSleep l) = writers l"
    using t(2) by (auto simp: readers_def writers_def)
  ultimately show ?thesis using latch_invD [OF inv] True t(1) by (auto simp: latch_inv_def)
next
  case False
  have nr: "t \<notin> readers l" using t(2) by (auto simp: readers_def)
  have "readers l \<subseteq> {..<N} - {t}" using readers_bounded [OF inv] nr by blast
  then have "card (readers l) \<le> card ({..<N} - {t})" by (intro card_mono) auto
  then have "card (readers l) < N" using t(1) by simp
  then have "reader_count l \<noteq> MAX_READERS" using latch_invD(2) [OF inv] N by simp
  then have e: "RLock t l = set_pc t RHold (l\<lparr>reader_count := reader_count l + 1\<rparr>)" using False by (simp add: RLock_def)
  have r: "readers (RLock t l) = insert t (readers l)" "writers (RLock t l) = writers l" "writers l = {}"
    using t(2) False latch_invD(4) [OF inv] by (auto simp: e readers_def writers_def)
  then have "pc l u \<noteq> WHold" "pc l u \<noteq> WDrainSleep" "pc l u \<noteq> RSleep" "pc l u \<noteq> WSleep" for u
    using latch_invD(7) [OF inv, of u] False by (auto simp: writers_def)
  then show ?thesis
    unfolding latch_inv_def r using latch_invD(1,2) [OF inv] t(1) nr finite_readers [OF inv] False r(3) by (auto simp: e)
qed

lemma inv_drain:
  assumes "\<forall>t \<ge> N. pc l t = Idle" "reader_count l = card (readers l)" "writers l \<subseteq> {t}" "t < N" "pc l t \<noteq> RHold"
    and "finite (readers l)" "writer_entered l"
  shows "latch_inv N (WLock_drain t l)"
proof -
  have r: "readers (WLock_drain t l) = readers l" "writers (WLock_drain t l) = {t}"
    using assms(3,5) by (auto simp: WLock_drain_def readers_def writers_def)
  have "pc l u \<noteq> WHold" "pc l u \<noteq> WDrainSleep" if "u \<noteq> t" for u
    using assms(3) that by (auto simp: writers_def)
  then show ?thesis
    unfolding latch_inv_def r using assms by (auto simp: WLock_drain_def split: if_splits)
qed

lemma inv_WLock:
  assumes inv: "latch_inv N l" and t: "t < N" "pc l t \<in> {Idle, WTry}"
  shows "latch_inv N (WLock t l)"
proof (cases "writer_entered l")
  case True
  have r: "readers (set_pc t WSleep l) = readers l" "writers (set_pc t WSleep l) = writers l"
    using t(2) by (auto simp: readers_def writers_def)
  show ?thesis
    using latch_invD [OF inv] True t(1) unfolding latch_inv_def WLock_def by (simp add: r) fastforce
next
  case False
  have r: "readers (l\<lparr>writer_entered := True\<rparr>) = readers l" "writers (l\<lparr>writer_entered := True\<rparr>) = {}"
    using False latch_invD(4) [OF inv] by (auto simp: readers_def writers_def)
  show ?thesis
    unfolding WLock_def if_not_P [OF False]
    using latch_invD [OF inv] t by (intro inv_drain) (auto simp: r finite_readers [OF inv])
qed

lemma inv_WUnlock:
  assumes inv: "latch_inv N l" and t: "t < N" "pc l t = WHold"
  shows "latch_inv N (WUnlock t l)"
proof -
  have w: "writers l = {t}" using latch_invD(3) [OF inv, of _ t] t(2) by (auto simp: writers_def)
  have r: "readers l = {}" using latch_invD(5) [OF inv t(2)] .
  have "pc (WUnlock t l) u \<in> {Idle, RTry, WTry}" for u
  proof (cases "u = t")
    case False
    then have "u \<notin> writers l" "u \<notin> readers l" using w r by auto
    with False show ?thesis
      by (cases "pc l u") (auto simp: WUnlock_def wake_all_def writers_def readers_def)
  qed (simp add: WUnlock_def wake_all_def)
  then have "pc (WUnlock t l) u \<noteq> RHold" "pc (WUnlock t l) u \<notin> {WDrain, WDrainSleep, WHold}"
    "pc (WUnlock t l) u \<notin> {RSleep, WSleep}" for u by (metis insertE latch_pc.distinct empty_iff)+
  moreover have "pc (WUnlock t l) u = Idle" if "N \<le> u" for u
    using latch_invD(1) [OF inv that] by (simp add: WUnlock_def wake_all_def)
  moreover have "reader_count (WUnlock t l) = 0" "\<not> writer_entered (WUnlock t l)"
    using latch_invD(2) [OF inv] r by (simp_all add: WUnlock_def wake_all_def)
  ultimately show ?thesis
    by (simp add: latch_inv_def readers_def writers_def)
qed

lemma inv_wake:
  assumes inv: "latch_inv N l" and t: "t < N"
  shows "latch_inv N (wake t l)"
proof -
  have r: "readers (wake t l) = readers l" "writers (wake t l) = writers l"
    by (auto simp: wake_def readers_def writers_def split: latch_pc.splits)
  have p: "pc (wake t l) u = WHold \<Longrightarrow> pc l u = WHold" "pc (wake t l) u = WDrainSleep \<Longrightarrow> pc l u = WDrainSleep"
    "pc (wake t l) u \<in> {RSleep, WSleep} \<Longrightarrow> pc l u \<in> {RSleep, WSleep}" for u
    by (auto simp: wake_def split: latch_pc.splits if_splits)
  have w: "writer_entered (wake t l) = writer_entered l" "reader_count (wake t l) = reader_count l"
    by (simp_all add: wake_def)
  have "pc (wake t l) u = Idle" if "N \<le> u" for u
    using latch_invD(1) [OF inv that] t that by (simp add: wake_def)
  with latch_invD [OF inv] p show ?thesis unfolding latch_inv_def r w by blast
qed

lemma inv_RUnlock:
  assumes inv: "latch_inv N l" and t: "t < N" "pc l t = RHold" and w: "w < N"
    and ww: "(\<exists>u < N. waits_on_writer l u) \<longrightarrow> waits_on_writer l w" and N: "N \<le> MAX_READERS"
  shows "latch_inv N (RUnlock t w l)"
proof -
  define l1 where "l1 = set_pc t Idle (l\<lparr>reader_count := (reader_count l + (2 ^ 32 - 1)) mod 2 ^ 32\<rparr>)"
  have tr: "t \<in> readers l" using t(2) by (simp add: readers_def)
  have "card (readers l) \<le> card {..<N}" by (intro card_mono readers_bounded [OF inv]) simp
  then have le: "reader_count l \<le> N" using latch_invD(2) [OF inv] by simp
  have pos: "0 < reader_count l" using tr finite_readers [OF inv] latch_invD(2) [OF inv] by (auto simp: card_gt_0_iff)
  have "reader_count l + (2 ^ 32 - 1) = (reader_count l - 1) + 2 ^ 32" using pos by simp
  moreover have "reader_count l - 1 < 2 ^ 32" using le N by (simp add: MAX_READERS_def)
  ultimately have rc: "(reader_count l + (2 ^ 32 - 1)) mod 2 ^ 32 = reader_count l - 1"
    by (metis mod_add_self2 mod_less)
  have r1: "readers l1 = readers l - {t}" "writers l1 = writers l"
    using t(2) by (auto simp: l1_def readers_def writers_def)
  have c1: "reader_count l1 = card (readers l1)"
  proof -
    have "reader_count l1 = reader_count l - 1" unfolding l1_def rc by simp
    then show ?thesis unfolding r1 using latch_invD(2) [OF inv] tr finite_readers [OF inv] by simp
  qed
  have pc1: "pc l1 u = (if u = t then Idle else pc l u)" "writer_entered l1 = writer_entered l" for u
    by (simp_all add: l1_def)
  have fin: "finite (readers l1)" using finite_readers [OF inv] by (simp add: r1)
  have uw: "RUnlock t w l = (if writer_entered l1
      then (if reader_count l1 = 0 \<and> waits_on_writer l1 w then wake w l1 else l1)
      else (if reader_count l1 = MAX_READERS - 1 \<and> waits_on_reader l1 w then wake w l1 else l1))"
    unfolding RUnlock_def Let_def l1_def ..
  have nh: "pc l1 u \<noteq> WHold" for u using latch_invD(5) [OF inv] tr by (auto simp: pc1)
  have sl: "pc l1 u \<in> {RSleep, WSleep} \<Longrightarrow> writer_entered l1" for u
    using latch_invD(7) [OF inv, of u] by (auto simp: pc1 split: if_splits)
  have base: "latch_inv N l1" if ds: "\<And>u. pc l1 u = WDrainSleep \<Longrightarrow> readers l1 \<noteq> {}"
    unfolding latch_inv_def using latch_invD(1,3,4) [OF inv] c1 nh sl ds t(1) by (auto simp: pc1 r1(2))
  show ?thesis
  proof (cases "readers l1 = {} \<and> (\<exists>u. pc l1 u = WDrainSleep)")
    case False
    then have "latch_inv N l1" by (intro base) blast
    with inv_wake [OF this w] show ?thesis by (simp add: uw)
  next
    case True
    then obtain u where u: "pc l u = WDrainSleep" by (auto simp: pc1 split: if_splits)
    then have "u < N" using latch_invD(1) [OF inv, of u] by (metis latch_pc.distinct(13) not_le)
    with u ww have wd: "pc l w = WDrainSleep" by (auto simp: waits_on_writer_def)
    have we: "writer_entered l" using latch_invD(4) [OF inv] u by (auto simp: writers_def)
    have wt: "w \<noteq> t" using wd t(2) by auto
    have e: "RUnlock t w l = wake w l1"
      using True we wd wt c1 by (simp add: uw pc1 waits_on_writer_def)
    have rw: "readers (wake w l1) = {}" "writers (wake w l1) = writers l1"
      using True by (auto simp: wake_def readers_def writers_def split: latch_pc.splits)
    have "v = w" if "v \<in> writers l1" for v
      using latch_invD(3) [OF inv, of v w] that wd unfolding r1(2) by (simp add: writers_def)
    then have "pc (wake w l1) v \<noteq> WDrainSleep" for v
      using wd wt by (cases "v = w") (auto simp: wake_def pc1 writers_def)
    moreover have "pc (wake w l1) v \<noteq> WHold" for v
      using nh [of v] wd wt by (auto simp: wake_def pc1)
    moreover have "pc (wake w l1) v = Idle" if "N \<le> v" for v
      using latch_invD(1) [OF inv that] w that by (auto simp: wake_def pc1)
    moreover have "writer_entered (wake w l1)" "reader_count (wake w l1) = 0"
      using we c1 True by (simp_all add: wake_def pc1)
    moreover have "writers l1 \<noteq> {}" using wd unfolding r1(2) by (auto simp: writers_def)
    ultimately show ?thesis
      unfolding e latch_inv_def rw r1(2) using latch_invD(3) [OF inv] by simp
  qed
qed

lemma latch_inv_step:
  assumes "latch_step N l l'" "latch_inv N l" "N \<le> MAX_READERS"
  shows "latch_inv N l'"
  using assms
proof (cases rule: latch_step.cases)
  case (drain t)
  have "writers l \<subseteq> {t}" using latch_invD(3) [OF assms(2), of _ t] drain(3) by (auto simp: writers_def)
  moreover have "writer_entered l" using latch_invD(4) [OF assms(2)] drain(3) by (auto simp: writers_def)
  ultimately show ?thesis
    unfolding drain(1) using latch_invD(1,2) [OF assms(2)] drain finite_readers [OF assms(2)] by (intro inv_drain) auto
qed (use assms inv_RLock inv_WLock inv_WUnlock inv_RUnlock inv_wake in \<open>blast+\<close>)

lemma latch_inv_reachable: "latch_reachable N l \<Longrightarrow> N \<le> MAX_READERS \<Longrightarrow> latch_inv N l"
  by (induction rule: latch_reachable.induct) (auto intro: latch_inv_init latch_inv_step)

end
