(* ===== verification/Worker_Model.thy ===== *)
theory Worker_Model
  imports Remaster_Manager Txn_Holder Slog_Messages
begin

text \<open>
  \<^verbatim>\<open>module/scheduler_components/worker.{h,cpp}\<close>: the phases of a transaction in a worker. A worker gets
  the address of a holder that the scheduler owns, so the holders are a store that both share,
  indexed by transaction id. The storage is shared by the workers of a machine. What a worker sends
  over the network and reports to the scheduler is collected in the order of the calls. The
  execution engine is an argument, chosen by \<open>Worker_execution\<close>.
\<close>

section \<open>Model\<close>

datatype phase = READ_LOCAL_STORAGE | WAIT_REMOTE_READ | EXECUTE | FINISH

record txn_state =
  remote_reads_waiting_on :: nat
  ts_phase :: phase

record worker =
  wk_channel :: channel
  wk_states :: "txn_id \<rightharpoonup> txn_state"
  wk_holders :: "txn_id \<rightharpoonup> txn_holder"
  wk_storage :: storage
  wk_sent :: "send list"
  wk_finished :: "txn_id list"

type_synonym execution = "transaction \<Rightarrow> storage \<Rightarrow> (transaction \<times> storage) result"

definition Worker_execution :: "configuration \<Rightarrow> (sharder \<Rightarrow> execution) \<Rightarrow> execution" where
  "Worker_execution config tpcc =
     (case pc_execution_type (proto_config config) of
        KEY_VALUE \<Rightarrow> KeyValueExecution_Execute (MakeSharder config)
      | TPC_C \<Rightarrow> tpcc (MakeSharder config)
      | NOOP \<Rightarrow> (\<lambda>txn st. Inr (NoopExecution_Execute txn, st)))"

definition Worker :: "nat \<Rightarrow> storage \<Rightarrow> (txn_id \<rightharpoonup> txn_holder) \<Rightarrow> worker" where
  "Worker wid st holders = \<lparr>wk_channel = kMaxChannel + wid, wk_states = Map.empty, wk_holders = holders,
     wk_storage = st, wk_sent = [], wk_finished = []\<rparr>"

definition wk_txn :: "txn_id \<Rightarrow> worker \<Rightarrow> transaction result" where
  "wk_txn t w = (case wk_holders w t of None \<Rightarrow> Inl (UndefinedBehaviour ''txn_holder'') | Some h \<Rightarrow> holder_txn h)"

definition wk_set_txn :: "txn_id \<Rightarrow> transaction \<Rightarrow> worker \<Rightarrow> worker" where
  "wk_set_txn t txn w = w\<lparr>wk_holders := (wk_holders w)(t := map_option (update_txn (\<lambda>_. txn)) (wk_holders w t))\<rparr>"

definition wk_set_state :: "txn_id \<Rightarrow> txn_state \<Rightarrow> worker \<Rightarrow> worker" where
  "wk_set_state t s w = w\<lparr>wk_states := (wk_states w)(t \<mapsto> s)\<rparr>"

definition wk_send :: "send \<Rightarrow> worker \<Rightarrow> worker" where
  "wk_send m w = w\<lparr>wk_sent := wk_sent w @ [m]\<rparr>"

definition TxnState :: "txn_id \<Rightarrow> worker \<Rightarrow> txn_state result" where
  "TxnState t w = (case wk_states w t of None \<Rightarrow> Inl (CheckFailed ''state_it != txn_states_.end()'') | Some s \<Rightarrow> Inr s)"

text \<open>\<^verbatim>\<open>Broker::MakeChannel(config()->broker_ports_size() - 1)\<close>\<close>

definition last_broker_channel :: "configuration \<Rightarrow> channel" where
  "last_broker_channel config = kBrokerChannel + (length (pc_broker_ports (proto_config config)) - 1)"

text \<open>The loop of \<^verbatim>\<open>ReadLocalStorage\<close> over the keys: the keys with their values, and the reason of
  an abort.\<close>

fun read_keys :: "bool \<Rightarrow> storage \<Rightarrow> key_value list \<Rightarrow> key_value list \<times> string option" where
  "read_keys remaster st [] = ([], None)"
| "read_keys remaster st (kv # kvs) =
     (case st (kv_key kv) of
        Some record \<Rightarrow>
          if kv_master kv \<noteq> master (rec_metadata record) then (kv # kvs, Some ''Outdated master'')
          else (case read_keys remaster st kvs of (kvs', a) \<Rightarrow>
                  (kv\<lparr>kv_entry := (kv_entry kv)\<lparr>ve_value := rec_value record\<rparr>\<rparr> # kvs', a))
      | None \<Rightarrow>
          if remaster then (kv # kvs, Some (''Remaster non-existent key '' @ kv_key kv))
          else (case read_keys remaster st kvs of (kvs', a) \<Rightarrow> (kv # kvs', a)))"

definition read_local :: "remaster_protocol \<Rightarrow> storage \<Rightarrow> transaction \<Rightarrow> transaction result" where
  "read_local rp st txn =
     (if status txn = ABORTED then Inr txn
      else
        case (if rp = COUNTERLESS then Inr txn
              else case CheckCounters txn False st of
                     Inl e \<Rightarrow> Inl e
                   | Inr VM_VALID \<Rightarrow> Inr txn
                   | Inr VM_ABORT \<Rightarrow> Inr (txn\<lparr>status := ABORTED, abort_reason := ''Outdated counter''\<rparr>)
                   | Inr VM_WAITING \<Rightarrow> Inl (FatalLog ''Transaction was sent to worker with a high counter'')) of
          Inl e \<Rightarrow> Inl e
        | Inr txn1 \<Rightarrow>
            (case read_keys (is_remaster (program txn)) st (keys txn1) of
               (kvs, None) \<Rightarrow> Inr (txn1\<lparr>keys := kvs\<rparr>)
             | (kvs, Some reason) \<Rightarrow> Inr (txn1\<lparr>keys := kvs, status := ABORTED, abort_reason := reason\<rparr>)))"

definition NotifyOtherPartitions :: "configuration \<Rightarrow> txn_id \<Rightarrow> worker \<Rightarrow> worker result" where
  "NotifyOtherPartitions config t w =
     (case wk_txn t w of
        Inl e \<Rightarrow> Inl e
      | Inr txn \<Rightarrow>
          if active_partitions (internal txn) = [] then Inr w
          else
            let aborted = (status txn = ABORTED);
                rrr = RemoteReadResult t (local_partition config) (if aborted then [] else keys txn) aborted (abort_reason txn);
                destinations = map (MakeMachineId config (local_replica config))
                                 (filter (\<lambda>p. p \<noteq> local_partition config) (active_partitions (internal txn)))
            in Inr (wk_send (SendTo (Request rrr) destinations t) w))"

definition ReadLocalStorage :: "remaster_protocol \<Rightarrow> configuration \<Rightarrow> txn_id \<Rightarrow> worker \<Rightarrow> worker result" where
  "ReadLocalStorage rp config t w =
     (case TxnState t w of Inl e \<Rightarrow> Inl e | Inr state \<Rightarrow>
      (case wk_txn t w of Inl e \<Rightarrow> Inl e | Inr txn \<Rightarrow>
       (case read_local rp (wk_storage w) txn of Inl e \<Rightarrow> Inl e | Inr txn' \<Rightarrow>
        (case NotifyOtherPartitions config t (wk_set_txn t txn' w) of Inl e \<Rightarrow> Inl e | Inr w1 \<Rightarrow>
           let waiting = (if local_partition config \<in> set (active_partitions (internal txn'))
                          then (length (involved_partitions (internal txn')) + (2 ^ 32 - 1)) mod 2 ^ 32 else 0)
           in if waiting = 0
              then Inr (wk_set_state t \<lparr>remote_reads_waiting_on = 0, ts_phase = EXECUTE\<rparr> w1)
              else Inr (wk_set_state t \<lparr>remote_reads_waiting_on = waiting, ts_phase = WAIT_REMOTE_READ\<rparr>
                     (wk_send (SendLocal (Request (BrokerRedirect t (wk_channel w) False)) (last_broker_channel config)) w1))))))"

definition Execute :: "execution \<Rightarrow> txn_id \<Rightarrow> worker \<Rightarrow> worker result" where
  "Execute exec t w =
     (case TxnState t w of Inl e \<Rightarrow> Inl e | Inr state \<Rightarrow>
      (case wk_txn t w of Inl e \<Rightarrow> Inl e | Inr txn \<Rightarrow>
       (case program txn of
          Code _ \<Rightarrow>
            (if status txn = ABORTED then Inr (wk_set_state t (state\<lparr>ts_phase := FINISH\<rparr>) w)
             else case exec txn (wk_storage w) of
                    Inl e \<Rightarrow> Inl e
                  | Inr (txn', st') \<Rightarrow>
                      Inr (wk_set_state t (state\<lparr>ts_phase := FINISH\<rparr>) ((wk_set_txn t txn' w)\<lparr>wk_storage := st'\<rparr>)))
        | Remaster new_master _ \<Rightarrow>
            (case keys txn of
               [] \<Rightarrow> Inl (UndefinedBehaviour ''txn.keys().begin()'')
             | kv # _ \<Rightarrow>
                 let record = (case wk_storage w (kv_key kv) of Some r \<Rightarrow> r | None \<Rightarrow> default_record);
                     new_counter = (kv_counter kv + 1) mod 2 ^ 32;
                     record' = SetMetadata \<lparr>master = new_master, counter = new_counter\<rparr> record;
                     w1 = wk_set_txn t (txn\<lparr>status := COMMITTED\<rparr>) w;
                     w2 = w1\<lparr>wk_storage := (wk_storage w1)(kv_key kv \<mapsto> record'),
                             wk_holders := (wk_holders w1)(t := map_option
                               (\<lambda>h. h\<lparr>remaster_result := Some (kv_key kv, new_counter)\<rparr>) (wk_holders w1 t))\<rparr>
                 in Inr (wk_set_state t (state\<lparr>ts_phase := FINISH\<rparr>) w2))
        | NoProgram \<Rightarrow> Inl (FatalLog ''Procedure is not set''))))"

definition dummy_txn :: "transaction \<Rightarrow> transaction" where
  "dummy_txn txn = txn\<lparr>keys := [], program := Remaster 0 False\<rparr>"

definition Finish :: "configuration \<Rightarrow> txn_id \<Rightarrow> worker \<Rightarrow> worker result" where
  "Finish config t w =
     (case TxnState t w of Inl e \<Rightarrow> Inl e | Inr state \<Rightarrow>
      (case wk_holders w t of None \<Rightarrow> Inl (UndefinedBehaviour ''txn_holder'') | Some h \<Rightarrow>
       (case FinalizeAndRelease h of Inl e \<Rightarrow> Inl e | Inr (txn, h') \<Rightarrow>
          let w1 = w\<lparr>wk_holders := (wk_holders w)(t \<mapsto> h')\<rparr>;
              coordinator = int32_of_uint32 (coordinating_server (internal txn));
              w2 = (if fst (UnpackMachineId config coordinator) = local_replica config
                    then let txn' = (if pc_return_dummy_txn (proto_config config) then dummy_txn txn else txn)
                         in wk_send (SendTo (Request (FinishedSubtxn txn' (local_partition config))) [coordinator] kServerChannel) w1
                    else w1)
          in Inr (w2\<lparr>wk_finished := wk_finished w2 @ [t], wk_states := (wk_states w2)(t := None)\<rparr>))))"

definition AdvanceTransaction ::
  "remaster_protocol \<Rightarrow> configuration \<Rightarrow> execution \<Rightarrow> txn_id \<Rightarrow> worker \<Rightarrow> worker result" where
  "AdvanceTransaction rp config exec t w =
     (case TxnState t w of Inl e \<Rightarrow> Inl e | Inr state \<Rightarrow>
      (case (if ts_phase state = READ_LOCAL_STORAGE then ReadLocalStorage rp config t w else Inr w) of
         Inl e \<Rightarrow> Inl e
       | Inr w1 \<Rightarrow>
           (case TxnState t w1 of Inl e \<Rightarrow> Inl e | Inr state1 \<Rightarrow>
              if ts_phase state1 = WAIT_REMOTE_READ then Inr w1
              else case (if ts_phase state1 = EXECUTE then Execute exec t w1 else Inr w1) of
                     Inl e \<Rightarrow> Inl e
                   | Inr w2 \<Rightarrow> Finish config t w2)))"

text \<open>\<^verbatim>\<open>OnInternalRequestReceived\<close>; results of transactions that the worker does not know are dropped.\<close>

definition apply_remote_read :: "key_value list \<Rightarrow> bool \<Rightarrow> string \<Rightarrow> transaction \<Rightarrow> transaction" where
  "apply_remote_read reads will_abort reason txn =
     (if status txn = ABORTED then txn
      else if will_abort then txn\<lparr>status := ABORTED, abort_reason := reason\<rparr>
      else txn\<lparr>keys := keys txn @ reads\<rparr>)"

definition Worker_OnInternalRequestReceived ::
  "remaster_protocol \<Rightarrow> configuration \<Rightarrow> execution \<Rightarrow> request \<Rightarrow> worker \<Rightarrow> worker result" where
  "Worker_OnInternalRequestReceived rp config exec req w =
     (case req of
        RemoteReadResult t _ reads will_abort reason \<Rightarrow>
          (case wk_states w t of
             None \<Rightarrow> Inr w
           | Some state \<Rightarrow>
               (case wk_txn t w of Inl e \<Rightarrow> Inl e | Inr txn \<Rightarrow>
                  let w1 = wk_set_txn t (apply_remote_read reads will_abort reason txn) w;
                      left = (remote_reads_waiting_on state + (2 ^ 32 - 1)) mod 2 ^ 32
                  in if left = 0
                     then (if ts_phase state = WAIT_REMOTE_READ
                           then AdvanceTransaction rp config exec t
                                  (wk_send (SendLocal (Request (BrokerRedirect t 0 True)) (last_broker_channel config))
                                    (wk_set_state t \<lparr>remote_reads_waiting_on = 0, ts_phase = EXECUTE\<rparr> w1))
                           else Inl (FatalLog ''Invalid phase''))
                     else AdvanceTransaction rp config exec t
                            (wk_set_state t (state\<lparr>remote_reads_waiting_on := left\<rparr>) w1)))
      | _ \<Rightarrow> Inl (FatalLog ''Invalid request for worker''))"

text \<open>A holder arrives from the scheduler.\<close>

definition Worker_OnCustomSocket ::
  "remaster_protocol \<Rightarrow> configuration \<Rightarrow> execution \<Rightarrow> txn_id \<Rightarrow> worker \<Rightarrow> worker result" where
  "Worker_OnCustomSocket rp config exec t w =
     (case wk_txn t w of Inl e \<Rightarrow> Inl e | Inr txn \<Rightarrow>
        if wk_states w t \<noteq> None then Inl (CheckFailed ''Transaction has already been dispatched to this worker'')
        else AdvanceTransaction rp config exec t
               (wk_set_state t \<lparr>remote_reads_waiting_on = 0, ts_phase = READ_LOCAL_STORAGE\<rparr> w))"

section \<open>Basic facts\<close>

lemma wk_simps [simp]:
  "wk_states (wk_set_txn t x w) = wk_states w" "wk_storage (wk_set_txn t x w) = wk_storage w"
  "wk_sent (wk_set_txn t x w) = wk_sent w" "wk_finished (wk_set_txn t x w) = wk_finished w"
  "wk_channel (wk_set_txn t x w) = wk_channel w"
  "wk_states (wk_set_state t s w) = (wk_states w)(t \<mapsto> s)" "wk_storage (wk_set_state t s w) = wk_storage w"
  "wk_sent (wk_set_state t s w) = wk_sent w" "wk_finished (wk_set_state t s w) = wk_finished w"
  "wk_holders (wk_set_state t s w) = wk_holders w" "wk_channel (wk_set_state t s w) = wk_channel w"
  "wk_states (wk_send m w) = wk_states w" "wk_storage (wk_send m w) = wk_storage w"
  "wk_sent (wk_send m w) = wk_sent w @ [m]" "wk_finished (wk_send m w) = wk_finished w"
  "wk_holders (wk_send m w) = wk_holders w" "wk_channel (wk_send m w) = wk_channel w"
  by (simp_all add: wk_set_txn_def wk_set_state_def wk_send_def)

lemma wk_txn_cong: "wk_holders w t = wk_holders w' t \<Longrightarrow> wk_txn t w = wk_txn t w'"
  by (simp add: wk_txn_def)

lemma wk_txn_set_state [simp]: "wk_txn t (wk_set_state u s w) = wk_txn t w" "wk_txn t (wk_send m w) = wk_txn t w"
  by (simp_all add: wk_txn_def)

lemma TxnState_set_state [simp]: "TxnState t (wk_set_state t s w) = Inr s"
  by (simp add: TxnState_def)

definition holder_live :: "txn_id \<Rightarrow> worker \<Rightarrow> bool" where
  "holder_live t w \<longleftrightarrow> (\<exists>h. wk_holders w t = Some h \<and> main_txn_idx h < length (lo_txns h) \<and>
     lo_txns h ! main_txn_idx h \<noteq> None)"

lemma wk_txn_set_txn:
  assumes "holder_live t w"
  shows "wk_txn t (wk_set_txn t x w) = Inr x"
  using assms by (auto simp: holder_live_def wk_txn_def wk_set_txn_def holder_txn_def update_txn_def)

lemma holder_live_set_txn: "holder_live t w \<Longrightarrow> holder_live t (wk_set_txn t x w)"
  by (auto simp: holder_live_def wk_set_txn_def update_txn_def)

section \<open>Reading and waiting do not write\<close>

lemma NotifyOtherPartitions_frame:
  assumes "NotifyOtherPartitions config t w = Inr w'"
  shows "wk_storage w' = wk_storage w \<and> wk_states w' = wk_states w \<and> wk_holders w' = wk_holders w \<and>
    wk_finished w' = wk_finished w"
  using assms by (auto simp: NotifyOtherPartitions_def Let_def split: sum.splits if_splits)

lemma ReadLocalStorage_frame:
  assumes "ReadLocalStorage rp config t w = Inr w'"
  shows "wk_storage w' = wk_storage w \<and> wk_finished w' = wk_finished w \<and>
    (\<exists>s. wk_states w' t = Some s \<and> ts_phase s = (if remote_reads_waiting_on s = 0 then EXECUTE else WAIT_REMOTE_READ))"
  using assms unfolding ReadLocalStorage_def Let_def
  by (auto dest!: NotifyOtherPartitions_frame split: sum.splits if_splits)

text \<open>The number of remote reads that an active partition waits for.\<close>

definition reads_needed :: "configuration \<Rightarrow> transaction \<Rightarrow> nat" where
  "reads_needed config txn = (if local_partition config \<in> set (active_partitions (internal txn))
     then (length (involved_partitions (internal txn)) + (2 ^ 32 - 1)) mod 2 ^ 32 else 0)"

lemma reads_needed_eq:
  assumes "local_partition config \<in> set (active_partitions (internal txn))"
    "0 < length (involved_partitions (internal txn))" "length (involved_partitions (internal txn)) < 2 ^ 32"
  shows "reads_needed config txn = length (involved_partitions (internal txn)) - 1"
proof -
  let ?n = "length (involved_partitions (internal txn))"
  have "?n + (2 ^ 32 - 1) = (?n - 1) + 2 ^ 32" using assms(2) by simp
  then have "(?n + (2 ^ 32 - 1)) mod 2 ^ 32 = (?n - 1) mod 2 ^ 32" by (metis mod_add_self2)
  then show ?thesis using assms by (simp add: reads_needed_def)
qed

section \<open>A waiting transaction\<close>

text \<open>A worker in which transaction \<open>t\<close> waits for \<open>n\<close> more remote reads.\<close>

definition waits :: "txn_id \<Rightarrow> nat \<Rightarrow> worker \<Rightarrow> bool" where
  "waits t n w \<longleftrightarrow> wk_states w t = Some \<lparr>remote_reads_waiting_on = n, ts_phase = WAIT_REMOTE_READ\<rparr> \<and>
     0 < n \<and> n < 2 ^ 32 \<and> holder_live t w"

lemma holder_live_wk_txn: "holder_live t w \<Longrightarrow> \<exists>txn. wk_txn t w = Inr txn"
  by (auto simp: holder_live_def wk_txn_def holder_txn_def)

lemma pred_mod: "0 < n \<Longrightarrow> n < 2 ^ 32 \<Longrightarrow> (n + (2 ^ 32 - 1)) mod 2 ^ 32 = (n - 1 :: nat)"
proof -
  assume n: "0 < n" "n < 2 ^ 32"
  then have "n + (2 ^ 32 - 1) = (n - 1) + 2 ^ 32" by simp
  then have "(n + (2 ^ 32 - 1)) mod 2 ^ 32 = (n - 1) mod 2 ^ 32" by (metis mod_add_self2)
  with n show ?thesis by simp
qed

text \<open>A remote read that is not the last one.\<close>

lemma remote_read_waits:
  assumes w: "waits t n w" and n: "1 < n" and txn: "wk_txn t w = Inr txn"
  shows "\<exists>w'. Worker_OnInternalRequestReceived rp config exec (RemoteReadResult t p reads ab reason) w = Inr w' \<and>
    waits t (n - 1) w' \<and> wk_storage w' = wk_storage w \<and> wk_finished w' = wk_finished w \<and> wk_sent w' = wk_sent w \<and>
    (wk_states w')(t := None) = (wk_states w)(t := None) \<and> wk_txn t w' = Inr (apply_remote_read reads ab reason txn)"
proof -
  let ?w1 = "wk_set_txn t (apply_remote_read reads ab reason txn) w"
  let ?s = "\<lparr>remote_reads_waiting_on = n - 1, ts_phase = WAIT_REMOTE_READ\<rparr>"
  have st: "wk_states w t = Some \<lparr>remote_reads_waiting_on = n, ts_phase = WAIT_REMOTE_READ\<rparr>"
    and b: "0 < n" "n < 2 ^ 32" and live: "holder_live t w" using w by (auto simp: waits_def)
  have "Worker_OnInternalRequestReceived rp config exec (RemoteReadResult t p reads ab reason) w =
      AdvanceTransaction rp config exec t (wk_set_state t ?s ?w1)"
    using st txn n pred_mod [OF b] unfolding Worker_OnInternalRequestReceived_def by (simp add: Let_def)
  also have "\<dots> = Inr (wk_set_state t ?s ?w1)" by (simp add: AdvanceTransaction_def)
  finally have e: "Worker_OnInternalRequestReceived rp config exec (RemoteReadResult t p reads ab reason) w =
      Inr (wk_set_state t ?s ?w1)" .
  have "holder_live t (wk_set_state t ?s ?w1)"
    using holder_live_set_txn [OF live] by (simp add: holder_live_def)
  with e b n wk_txn_set_txn [OF live] show ?thesis by (simp add: waits_def)
qed

text \<open>The last remote read executes the transaction and finishes it.\<close>

lemma Finish_finishes:
  assumes "Finish config t w = Inr w'"
  shows "wk_finished w' = wk_finished w @ [t] \<and> wk_states w' = (wk_states w)(t := None) \<and> wk_storage w' = wk_storage w"
  using assms unfolding Finish_def Let_def
  by (auto split: sum.splits option.splits if_splits)

lemma Execute_frame:
  assumes "Execute exec t w = Inr w'"
  shows "wk_finished w' = wk_finished w \<and> (\<forall>u. u \<noteq> t \<longrightarrow> wk_states w' u = wk_states w u)"
  using assms unfolding Execute_def Let_def
  by (auto split: sum.splits program.splits list.splits if_splits)

text \<open>An aborted transaction with code does not touch the storage.\<close>

lemma Execute_aborted:
  assumes "Execute exec t w = Inr w'" "wk_txn t w = Inr txn" "status txn = ABORTED" "program txn = Code ps"
  shows "wk_storage w' = wk_storage w"
  using assms by (auto simp: Execute_def split: sum.splits)

text \<open>Finishing a transaction that is present always succeeds.\<close>

lemma Finish_total:
  assumes "holder_live t w" "wk_states w t = Some s"
  shows "\<exists>w'. Finish config t w = Inr w'"
proof -
  obtain h main where h: "wk_holders w t = Some h" "lo_txns h ! main_txn_idx h = Some main"
    using assms(1) by (auto simp: holder_live_def)
  then obtain x where "FinalizeAndRelease h = Inr x" by (auto simp: FinalizeAndRelease_def Let_def)
  with h(1) assms(2) show ?thesis by (cases x) (simp add: Finish_def TxnState_def Let_def)
qed

text \<open>A sequence of remote reads of one transaction.\<close>

type_synonym remote_read = "nat \<times> key_value list \<times> bool \<times> string"

fun read_request :: "txn_id \<Rightarrow> remote_read \<Rightarrow> request" where
  "read_request t (p, reads, ab, reason) = RemoteReadResult t p reads ab reason"

fun feed_reads ::
  "remaster_protocol \<Rightarrow> configuration \<Rightarrow> execution \<Rightarrow> txn_id \<Rightarrow> remote_read list \<Rightarrow> worker \<Rightarrow> worker result" where
  "feed_reads rp config exec t [] w = Inr w"
| "feed_reads rp config exec t (m # ms) w =
     (case Worker_OnInternalRequestReceived rp config exec (read_request t m) w of
        Inl e \<Rightarrow> Inl e | Inr w' \<Rightarrow> feed_reads rp config exec t ms w')"

text \<open>What the remote reads of a transaction say together.\<close>

definition will_abort :: "transaction \<Rightarrow> remote_read list \<Rightarrow> bool" where
  "will_abort txn ms \<longleftrightarrow> status txn = ABORTED \<or> list_ex (\<lambda>(p, reads, ab, reason). ab) ms"

definition remote_keys :: "remote_read list \<Rightarrow> key_value list" where
  "remote_keys ms = concat (map (\<lambda>(p, reads, ab, reason). reads) ms)"

fun after_reads :: "remote_read list \<Rightarrow> transaction \<Rightarrow> transaction" where
  "after_reads [] txn = txn"
| "after_reads ((p, reads, ab, reason) # ms) txn = after_reads ms (apply_remote_read reads ab reason txn)"

lemma after_reads_append: "after_reads (xs @ ys) txn = after_reads ys (after_reads xs txn)"
  by (induction xs txn rule: after_reads.induct) simp_all

lemma after_reads_eq:
  "program (after_reads ms txn) = program txn" "status (after_reads ms txn) = ABORTED \<longleftrightarrow> will_abort txn ms"
  "\<not> will_abort txn ms \<Longrightarrow> after_reads ms txn = txn\<lparr>keys := keys txn @ remote_keys ms\<rparr>"
  by (induction ms txn rule: after_reads.induct) (auto simp: will_abort_def remote_keys_def apply_remote_read_def)

text \<open>The last remote read, for a transaction with code: the execution engine need only return on the
  transaction with all the reads.\<close>

lemma last_remote_read:
  assumes w: "waits t 1 w" and txn: "wk_txn t w = Inr txn" and code: "program txn = Code ps"
    and x_def: "x = apply_remote_read reads ab reason txn"
    and ex: "status x \<noteq> ABORTED \<Longrightarrow> exec x (wk_storage w) = Inr (y, st')"
  shows "\<exists>w'. Worker_OnInternalRequestReceived rp config exec (RemoteReadResult t p reads ab reason) w = Inr w' \<and>
    wk_finished w' = wk_finished w @ [t] \<and> wk_states w' = (wk_states w)(t := None) \<and>
    wk_storage w' = (if status x = ABORTED then wk_storage w else st')"
proof -
  let ?s = "\<lparr>remote_reads_waiting_on = 0, ts_phase = EXECUTE\<rparr>"
  let ?m = "SendLocal (Request (BrokerRedirect t 0 True)) (last_broker_channel config)"
  define w1 where "w1 = wk_send ?m (wk_set_state t ?s (wk_set_txn t x w))"
  have st: "wk_states w t = Some \<lparr>remote_reads_waiting_on = 1, ts_phase = WAIT_REMOTE_READ\<rparr>"
    and live: "holder_live t w" using w by (auto simp: waits_def)
  have e: "Worker_OnInternalRequestReceived rp config exec (RemoteReadResult t p reads ab reason) w =
      AdvanceTransaction rp config exec t w1"
    using st txn unfolding Worker_OnInternalRequestReceived_def w1_def x_def by (simp add: Let_def)
  have s1: "TxnState t w1 = Inr ?s" by (simp add: w1_def TxnState_def)
  have t1: "wk_txn t w1 = Inr x" using wk_txn_set_txn [OF live] by (simp add: w1_def)
  have live1: "holder_live t w1" using holder_live_set_txn [OF live] by (simp add: w1_def holder_live_def)
  have f1: "wk_storage w1 = wk_storage w" "wk_finished w1 = wk_finished w" "wk_states w1 = (wk_states w)(t \<mapsto> ?s)" by (simp_all add: w1_def)
  have px: "program x = Code ps" using code by (simp add: x_def apply_remote_read_def)
  define w2 where "w2 = wk_set_state t (?s\<lparr>ts_phase := FINISH\<rparr>)
    (if status x = ABORTED then w1 else (wk_set_txn t y w1)\<lparr>wk_storage := st'\<rparr>)"
  have E: "Execute exec t w1 = Inr w2" using ex by (simp add: Execute_def s1 t1 px f1(1) w2_def)
  have "holder_live t w2" using live1 holder_live_set_txn [OF live1, of y] by (simp add: w2_def holder_live_def)
  moreover have s2: "wk_states w2 = (wk_states w)(t \<mapsto> ?s\<lparr>ts_phase := FINISH\<rparr>)" by (simp add: w2_def f1(3))
  ultimately obtain w3 where w3: "Finish config t w2 = Inr w3" using Finish_total by (metis fun_upd_same)
  have "AdvanceTransaction rp config exec t w1 = Inr w3"
    using E w3 by (simp add: AdvanceTransaction_def s1)
  moreover have "wk_finished w2 = wk_finished w" "wk_storage w2 = (if status x = ABORTED then wk_storage w else st')"
    by (simp_all add: w2_def f1)
  ultimately show ?thesis using e Finish_finishes [OF w3] s2 by simp
qed

lemma feed_reads_waits:
  assumes "waits t n w" "length ms < n" "wk_txn t w = Inr txn"
  shows "\<exists>w'. feed_reads rp config exec t ms w = Inr w' \<and> waits t (n - length ms) w' \<and>
    wk_storage w' = wk_storage w \<and> wk_finished w' = wk_finished w \<and> (wk_states w')(t := None) = (wk_states w)(t := None) \<and>
    wk_txn t w' = Inr (after_reads ms txn)"
  using assms
proof (induction ms arbitrary: n w txn)
  case (Cons m ms)
  obtain p rs ab r where m: "m = (p, rs, ab, r)" by (cases m)
  have n: "1 < n" using Cons.prems(2) by simp
  from remote_read_waits [OF Cons.prems(1) n Cons.prems(3), of rp config exec p rs ab r] obtain w1 where
    w1: "Worker_OnInternalRequestReceived rp config exec (read_request t m) w = Inr w1" "waits t (n - 1) w1"
      "wk_storage w1 = wk_storage w" "wk_finished w1 = wk_finished w" "(wk_states w1)(t := None) = (wk_states w)(t := None)"
      "wk_txn t w1 = Inr (apply_remote_read rs ab r txn)" by (auto simp: m)
  have "length ms < n - 1" using Cons.prems(2) by simp
  from Cons.IH [OF w1(2) this w1(6)] w1 show ?case by (auto simp: m)
qed auto

lemma feed_all_reads:
  assumes "waits t n w" "length ms = n" "wk_txn t w = Inr txn" "program txn = Code ps"
    and "\<not> will_abort txn ms \<Longrightarrow> exec (txn\<lparr>keys := keys txn @ remote_keys ms\<rparr>) (wk_storage w) = Inr (txn', st')"
  shows "\<exists>w'. feed_reads rp config exec t ms w = Inr w' \<and> wk_finished w' = wk_finished w @ [t] \<and>
    wk_states w' = (wk_states w)(t := None) \<and> wk_storage w' = (if will_abort txn ms then wk_storage w else st')"
proof -
  have n: "0 < n" using assms(1) by (simp add: waits_def)
  then obtain ms1 m where ms: "ms = ms1 @ [m]" using assms(2) by (metis length_greater_0_conv rev_exhaust)
  obtain p rs ab r where m: "m = (p, rs, ab, r)" by (cases m)
  have "length ms1 < n" using assms(2) ms by simp
  from feed_reads_waits [OF assms(1) this assms(3), of rp config exec] obtain w1 where
    w1: "feed_reads rp config exec t ms1 w = Inr w1" "waits t (n - length ms1) w1" "wk_storage w1 = wk_storage w"
      "wk_finished w1 = wk_finished w" "(wk_states w1)(t := None) = (wk_states w)(t := None)" "wk_txn t w1 = Inr (after_reads ms1 txn)" by blast
  have "n - length ms1 = 1" using assms(2) ms by auto
  then have 1: "waits t 1 w1" using w1(2) by simp
  have code: "program (after_reads ms1 txn) = Code ps" using assms(4) by (simp add: after_reads_eq(1))
  have x: "apply_remote_read rs ab r (after_reads ms1 txn) = after_reads ms txn" by (simp add: ms m after_reads_append)
  have ex: "exec (after_reads ms txn) (wk_storage w1) = Inr (txn', st')" if "status (after_reads ms txn) \<noteq> ABORTED"
    using that assms(5) after_reads_eq(3) [of txn ms] unfolding after_reads_eq(2) w1(3) by simp
  from last_remote_read [where exec = exec and reads = rs and ab = ab and reason = r, OF 1 w1(6) code x [symmetric] ex,
      of rp config p] obtain w2 where
    w2: "Worker_OnInternalRequestReceived rp config exec (RemoteReadResult t p rs ab r) w1 = Inr w2"
      "wk_finished w2 = wk_finished w1 @ [t]" "wk_states w2 = (wk_states w1)(t := None)"
      "wk_storage w2 = (if status (after_reads ms txn) = ABORTED then wk_storage w1 else st')" by blast
  have app: "feed_reads rp config exec t (xs @ ys) v = (case feed_reads rp config exec t xs v of Inl e \<Rightarrow> Inl e
      | Inr v' \<Rightarrow> feed_reads rp config exec t ys v')" for xs ys v
    by (induction xs arbitrary: v) (auto split: sum.splits)
  have "feed_reads rp config exec t ms w = Inr w2" by (simp add: ms m app w1(1) w2(1))
  with w1(3-5) w2(2-4) show ?thesis by (simp add: after_reads_eq(2))
qed

section \<open>Remaster transactions\<close>

lemma read_local_missing:
  assumes "read_local rp st txn = Inr txn'" "is_remaster (program txn)" "keys txn = kv # kvs" "st (kv_key kv) = None"
  shows "status txn' = ABORTED" "keys txn' = keys txn" "program txn' = program txn" "internal txn' = internal txn"
  using assms by (auto simp: read_local_def split: if_splits sum.splits verify_master_result.splits)

lemma Execute_remaster:
  assumes "TxnState t w = Inr s" "wk_txn t w = Inr txn" "program txn = Remaster new_master lock_only" "keys txn = kv # kvs"
    and "wk_storage w (kv_key kv) = None" "holder_live t w"
  shows "\<exists>w'. Execute exec t w = Inr w' \<and> holder_live t w' \<and> wk_states w' t = Some (s\<lparr>ts_phase := FINISH\<rparr>) \<and>
    wk_finished w' = wk_finished w \<and> wk_txn t w' = Inr (txn\<lparr>status := COMMITTED\<rparr>) \<and>
    wk_storage w' = (wk_storage w)(kv_key kv \<mapsto>
      \<lparr>rec_value = [], rec_metadata = \<lparr>master = new_master, counter = (kv_counter kv + 1) mod 2 ^ 32\<rparr>\<rparr>)"
proof -
  let ?w1 = "wk_set_txn t (txn\<lparr>status := COMMITTED\<rparr>) w"
  have "\<exists>w'. Execute exec t w = Inr w' \<and> wk_states w' t = Some (s\<lparr>ts_phase := FINISH\<rparr>) \<and> wk_finished w' = wk_finished w \<and>
      wk_holders w' t = map_option (\<lambda>h. h\<lparr>remaster_result := Some (kv_key kv, (kv_counter kv + 1) mod 2 ^ 32)\<rparr>) (wk_holders ?w1 t) \<and>
      wk_storage w' = (wk_storage w)(kv_key kv \<mapsto>
        \<lparr>rec_value = [], rec_metadata = \<lparr>master = new_master, counter = (kv_counter kv + 1) mod 2 ^ 32\<rparr>\<rparr>)"
    using assms by (simp add: Execute_def Let_def SetMetadata_def default_record_def)
  then obtain w' where w': "Execute exec t w = Inr w'" "wk_states w' t = Some (s\<lparr>ts_phase := FINISH\<rparr>)" "wk_finished w' = wk_finished w"
    "wk_holders w' t = map_option (\<lambda>h. h\<lparr>remaster_result := Some (kv_key kv, (kv_counter kv + 1) mod 2 ^ 32)\<rparr>) (wk_holders ?w1 t)"
    "wk_storage w' = (wk_storage w)(kv_key kv \<mapsto>
      \<lparr>rec_value = [], rec_metadata = \<lparr>master = new_master, counter = (kv_counter kv + 1) mod 2 ^ 32\<rparr>\<rparr>)" by blast
  from holder_live_set_txn [OF assms(6), of "txn\<lparr>status := COMMITTED\<rparr>"] wk_txn_set_txn [OF assms(6), of "txn\<lparr>status := COMMITTED\<rparr>"] w'(4)
  have "holder_live t w' \<and> wk_txn t w' = Inr (txn\<lparr>status := COMMITTED\<rparr>)"
    by (auto simp: holder_live_def wk_txn_def holder_txn_def)
  with w' show ?thesis by blast
qed

lemma Finish_reports:
  assumes "holder_live t w" "wk_states w t = Some s" "wk_txn t w = Inr txn"
  shows "\<exists>w' txn'. Finish config t w = Inr w' \<and> wk_finished w' = wk_finished w @ [t] \<and> wk_storage w' = wk_storage w \<and>
    status txn' = status txn \<and>
    (fst (UnpackMachineId config (int32_of_uint32 (coordinating_server (internal txn)))) = local_replica config \<longrightarrow>
      last (wk_sent w') = SendTo (Request (FinishedSubtxn txn' (local_partition config)))
        [int32_of_uint32 (coordinating_server (internal txn))] kServerChannel)"
proof -
  obtain h where h: "wk_holders w t = Some h" "lo_txns h ! main_txn_idx h = Some txn"
    using assms(1,3) by (auto simp: holder_live_def wk_txn_def holder_txn_def split: option.splits)
  then obtain main h' where r: "FinalizeAndRelease h = Inr (main, h')" "status main = status txn"
    "coordinating_server (internal main) = coordinating_server (internal txn)"
    by (auto simp: FinalizeAndRelease_def Let_def set_event_homes_def set_internal_def)
  let ?txn' = "if pc_return_dummy_txn (proto_config config) then dummy_txn main else main"
  have "status ?txn' = status txn" using r(2) by (simp add: dummy_txn_def)
  with h r assms(2) show ?thesis
    by (intro exI [of _ "projr (Finish config t w)"] exI [of _ ?txn']) (simp add: Finish_def TxnState_def Let_def)
qed

lemma worker_remaster_missing:
  assumes "holder_live t w" "wk_txn t w = Inr txn" "wk_states w t = None" "program txn = Remaster new_master lock_only"
    and "keys txn = kv # kvs" "wk_storage w (kv_key kv) = None" "read_local rp (wk_storage w) txn = Inr txn'" "reads_needed config txn = 0"
  shows "\<exists>w' txn2. Worker_OnCustomSocket rp config exec t w = Inr w' \<and> wk_finished w' = wk_finished w @ [t] \<and>
    wk_storage w' = (wk_storage w)(kv_key kv \<mapsto>
      \<lparr>rec_value = [], rec_metadata = \<lparr>master = new_master, counter = (kv_counter kv + 1) mod 2 ^ 32\<rparr>\<rparr>) \<and>
    status txn2 = COMMITTED \<and>
    (fst (UnpackMachineId config (int32_of_uint32 (coordinating_server (internal txn)))) = local_replica config \<longrightarrow>
      last (wk_sent w') = SendTo (Request (FinishedSubtxn txn2 (local_partition config)))
        [int32_of_uint32 (coordinating_server (internal txn))] kServerChannel)"
proof -
  have rem: "is_remaster (program txn)" using assms(4) by simp
  note R = read_local_missing [OF assms(7) rem assms(5,6)]
  let ?s0 = "\<lparr>remote_reads_waiting_on = 0, ts_phase = READ_LOCAL_STORAGE\<rparr>"
  let ?s1 = "\<lparr>remote_reads_waiting_on = 0, ts_phase = EXECUTE\<rparr>"
  let ?w0 = "wk_set_state t ?s0 w"
  let ?wa = "wk_set_txn t txn' ?w0"
  have live0: "holder_live t ?w0" using assms(1) by (simp add: holder_live_def)
  have ta: "wk_txn t ?wa = Inr txn'" by (rule wk_txn_set_txn [OF live0])
  then obtain wb where wb: "NotifyOtherPartitions config t ?wa = Inr wb"
    by (cases "active_partitions (internal txn') = []") (auto simp: NotifyOtherPartitions_def Let_def)
  note F = NotifyOtherPartitions_frame [OF wb]
  define w1 where "w1 = wk_set_state t ?s1 wb"
  have rn: "reads_needed config txn' = 0" using assms(8) by (simp only: reads_needed_def R(4))
  have rd: "ReadLocalStorage rp config t ?w0 = Inr w1"
    using assms(2,7) wb rn unfolding ReadLocalStorage_def w1_def reads_needed_def by (simp add: Let_def TxnState_def)
  have "wk_holders wb t = wk_holders ?wa t" using F by simp
  then have t1: "wk_txn t w1 = Inr txn'" "holder_live t w1"
    using ta holder_live_set_txn [OF live0, of txn'] unfolding w1_def by (simp_all add: wk_txn_def holder_live_def)
  have f1: "wk_storage w1 = wk_storage w" "wk_finished w1 = wk_finished w" using F by (simp_all add: w1_def)
  have s1: "TxnState t w1 = Inr ?s1" by (simp add: w1_def)
  from Execute_remaster [OF s1 t1(1) _ _ _ t1(2), of new_master lock_only kv kvs exec] R assms(4-6) f1 obtain w2 where
    w2: "Execute exec t w1 = Inr w2" "holder_live t w2" "wk_states w2 t = Some (?s1\<lparr>ts_phase := FINISH\<rparr>)"
      "wk_finished w2 = wk_finished w" "wk_txn t w2 = Inr (txn'\<lparr>status := COMMITTED\<rparr>)"
      "wk_storage w2 = (wk_storage w)(kv_key kv \<mapsto>
        \<lparr>rec_value = [], rec_metadata = \<lparr>master = new_master, counter = (kv_counter kv + 1) mod 2 ^ 32\<rparr>\<rparr>)" by auto
  from Finish_reports [OF w2(2,3,5), of config] R(4) obtain w3 txn2 where
    w3: "Finish config t w2 = Inr w3" "wk_finished w3 = wk_finished w2 @ [t]" "wk_storage w3 = wk_storage w2" "status txn2 = COMMITTED"
      "fst (UnpackMachineId config (int32_of_uint32 (coordinating_server (internal txn)))) = local_replica config \<longrightarrow>
        last (wk_sent w3) = SendTo (Request (FinishedSubtxn txn2 (local_partition config)))
          [int32_of_uint32 (coordinating_server (internal txn))] kServerChannel" by auto
  have "Worker_OnCustomSocket rp config exec t w = Inr w3"
    using assms(2,3) rd w2(1) w3(1) s1 by (simp add: Worker_OnCustomSocket_def AdvanceTransaction_def)
  with w3 w2(4,6) show ?thesis by (intro exI [of _ w3] exI [of _ txn2]) simp
qed

end
