(* ===== verification/Execution_Properties.thy ===== *)
theory Execution_Properties
  imports Concurrent_Hash_Map Rw_Latch Worker_Model Data_Properties
begin

text \<open>
  What storage, execution and workers guarantee: the hash table behind the storage is a map, its latch
  excludes writers, key-value transactions have the effect their procedures say, and a worker applies a
  transaction only when every partition agrees.
\<close>

section \<open>Storage\<close>

text \<open>C7. The segmented hash table with its chains and rehashing answers every sequence of \<^verbatim>\<open>Get\<close>,
  \<^verbatim>\<open>InsertOrUpdate\<close> and \<^verbatim>\<open>Erase\<close> as a finite map does, whatever the hash function is.\<close>

theorem hash_map_refines_map:
  "table_run (HashMap_Get hf) (HashMap_InsertOrUpdate hf) (HashMap_Erase hf) ops ConcurrentHashMap = map_run ops Map.empty"
  by (rule chm.run_ok)

text \<open>The latch with a writer that holds it and a reader that waits.\<close>

definition latched :: latch where
  "latched = RLock 1 (WLock 0 ReaderWriterLatch)"

lemma latched_reachable: "latch_reachable 2 latched"
proof -
  have "latch_step 2 ReaderWriterLatch (WLock 0 ReaderWriterLatch)"
    by (rule wlock) (simp_all add: ReaderWriterLatch_def)
  moreover have "latch_step 2 (WLock 0 ReaderWriterLatch) latched"
    unfolding latched_def by (rule rlock) (simp_all add: ReaderWriterLatch_def WLock_def WLock_drain_def set_pc_def)
  ultimately show ?thesis by (blast intro: latch_reachable.intros)
qed

lemma latched_pc: "pc latched 0 = WHold" "pc latched 1 = RSleep"
  by (simp_all add: latched_def ReaderWriterLatch_def WLock_def WLock_drain_def RLock_def set_pc_def)

text \<open>C12. Whatever the interleaving of at most \<^verbatim>\<open>MAX_READERS\<close> threads, and with spurious wakeups, a thread that holds the
  latch for writing is alone: no other thread holds it, for writing or for reading.\<close>

theorem latch_excludes_writers:
  assumes "latch_reachable N l" "N \<le> MAX_READERS" "pc l t = WHold" "u \<noteq> t"
  shows "pc l u \<noteq> WHold \<and> pc l u \<noteq> RHold"
proof -
  note inv = latch_inv_reachable [OF assms(1,2)]
  have "readers l = {}" using inv assms(3) unfolding latch_inv_def by blast
  moreover have "t \<in> writers l" using assms(3) by (simp add: writers_def)
  then have "u \<notin> writers l" using inv assms(4) unfolding latch_inv_def by blast
  ultimately show ?thesis by (auto simp: readers_def writers_def)
qed

theorem latch_excludes_writers_witness: "pc latched 1 \<noteq> WHold \<and> pc latched 1 \<noteq> RHold"
  by (rule latch_excludes_writers [OF latched_reachable _ latched_pc(1)]) (simp_all add: MAX_READERS_def)

text \<open>C27. No wakeup is lost among at most \<^verbatim>\<open>MAX_READERS\<close> threads: as long as a thread sleeps, some thread that is awake is inside of the latch or on
  its way to it, and will wake the sleeper when it leaves.\<close>

theorem latch_no_lost_wakeup:
  assumes "latch_reachable N l" "N \<le> MAX_READERS" "pc l t \<in> {RSleep, WSleep, WDrainSleep}"
  shows "\<exists>u < N. pc l u \<in> {WDrain, WHold, RHold}"
proof -
  note inv = latch_inv_reachable [OF assms(1,2)]
  have bound: "u < N" if "pc l u \<noteq> Idle" for u
    using that inv unfolding latch_inv_def by (meson not_less)
  have "\<exists>u. pc l u \<in> {WDrain, WHold, RHold}"
  proof (cases "\<exists>u. pc l u = WDrainSleep")
    case True
    then have "readers l \<noteq> {}" using inv unfolding latch_inv_def by blast
    then show ?thesis by (auto simp: readers_def)
  next
    case False
    with assms(3) have "writer_entered l" using inv unfolding latch_inv_def by blast
    then have "writers l \<noteq> {}" using inv unfolding latch_inv_def by blast
    then obtain u where "pc l u \<in> {WDrain, WDrainSleep, WHold}" by (auto simp: writers_def)
    moreover have "pc l u \<noteq> WDrainSleep" using False by blast
    ultimately show ?thesis by auto
  qed
  then obtain u where u: "pc l u \<in> {WDrain, WHold, RHold}" by blast
  then have "u < N" by (intro bound) auto
  with u show ?thesis by blast
qed

theorem latch_no_lost_wakeup_witness: "\<exists>u < 2. pc latched u \<in> {WDrain, WHold, RHold}"
  by (rule latch_no_lost_wakeup [OF latched_reachable, of 1]) (simp_all add: MAX_READERS_def latched_pc [simplified])

section \<open>Key-value transactions\<close>

definition entry :: "key \<Rightarrow> string \<Rightarrow> key_type \<Rightarrow> key_value" where
  "entry k v ty = \<lparr>kv_key = k, kv_entry = \<lparr>ve_value = v, ve_new_value = [], ve_type = ty,
     ve_metadata = Some \<lparr>master = 0, counter = 0\<rparr>\<rparr>\<rparr>"

definition one_partition :: sharder where
  "one_partition = \<lparr>sh_kind = HashSharder 0, sh_local_partition = 0, sh_num_partitions = 1\<rparr>"

definition stored :: "string \<Rightarrow> stored_record" where
  "stored v = \<lparr>rec_value = v, rec_metadata = \<lparr>master = 0, counter = 0\<rparr>\<rparr>"

definition copy_txn :: transaction where
  "copy_txn = mk_txn 1 SINGLE_HOME 0 (Code [[''EQ'', ''A'', ''old''], [''COPY'', ''A'', ''B''], [''SET'', ''A'', ''new'']])
     [entry ''A'' ''old'' WRITE, entry ''B'' ''x'' WRITE, entry ''C'' ''y'' READ]"

text \<open>C17. The effect of a key-value transaction: it aborts exactly when one of its \<^verbatim>\<open>EQ\<close> procedures does not
  hold, and then changes nothing; otherwise every key of this partition that it writes gets the value of
  the last \<^verbatim>\<open>SET\<close> or \<^verbatim>\<open>COPY\<close> to it, with the metadata of the transaction, and no other key changes.\<close>

theorem key_value_execution_effect:
  assumes "KeyValueExecution_Execute sh txn st = Inr (txn', st')"
    and "distinct (map kv_key (keys txn))" "deleted_keys txn = []"
  shows "status txn' = (if \<exists>p \<in> set (procedures (program txn)). eq_fails (entries (keys txn)) p then ABORTED else COMMITTED) \<and>
    st' k = (case entries (keys txn) k of
        None \<Rightarrow> st k
      | Some e \<Rightarrow>
          if status txn' = COMMITTED \<and> ve_type e = WRITE \<and> is_local_key sh k = Inr True
          then Some \<lparr>rec_value = final_value (entries (keys txn)) (procedures (program txn)) k (ve_new_value e),
                     rec_metadata = entry_metadata e\<rparr>
          else st k)"
  using Execute_effect(1,3) [OF assms] by blast

theorem key_value_execution_effect_witness:
  "\<exists>txn' st'. KeyValueExecution_Execute one_partition copy_txn [''A'' \<mapsto> stored ''old'', ''B'' \<mapsto> stored ''x''] = Inr (txn', st') \<and>
     status txn' = COMMITTED \<and> st' ''B'' = Some (stored ''old'') \<and> st' ''C'' = None"
proof -
  let ?st = "[''A'' \<mapsto> stored ''old'', ''B'' \<mapsto> stored ''x'']"
  have "map_sum id (\<lambda>_. ()) (KeyValueExecution_Execute one_partition copy_txn ?st) = Inr ()" by code_simp
  then obtain txn' st' where e: "KeyValueExecution_Execute one_partition copy_txn ?st = Inr (txn', st')"
    by (cases "KeyValueExecution_Execute one_partition copy_txn ?st") auto
  have d: "distinct (map kv_key (keys copy_txn))" "deleted_keys copy_txn = []" by code_simp+
  have noeq: "(\<exists>p \<in> set (procedures (program copy_txn)). eq_fails (entries (keys copy_txn)) p) \<longleftrightarrow> False" by code_simp
  have es: "entries (keys copy_txn) ''B'' = Some (kv_entry (entry ''B'' ''x'' WRITE))"
    "entries (keys copy_txn) ''C'' = Some (kv_entry (entry ''C'' ''y'' READ))" by code_simp+
  have ty: "ve_type (kv_entry (entry ''C'' ''y'' READ)) = READ" "ve_type (kv_entry (entry ''B'' ''x'' WRITE)) = WRITE" by code_simp+
  have lo: "is_local_key one_partition ''B'' = Inr True" by code_simp
  have fv: "\<lparr>rec_value = final_value (entries (keys copy_txn)) (procedures (program copy_txn)) ''B''
      (ve_new_value (kv_entry (entry ''B'' ''x'' WRITE))), rec_metadata = entry_metadata (kv_entry (entry ''B'' ''x'' WRITE))\<rparr> = stored ''old''"
    by code_simp
  note B = key_value_execution_effect [OF e d, of "''B''", unfolded noeq es option.case ty lo fv]
  note C = key_value_execution_effect [OF e d, of "''C''", unfolded noeq es option.case ty]
  from B C e show ?thesis by auto
qed

text \<open>\<^verbatim>\<open>DEL\<close> of a key that the transaction writes deletes nothing: the condition that should skip unknown
  keys is inverted, and the key keeps an entry, overwritten with the empty value.\<close>

theorem key_value_DEL_keeps_key:
  "map_sum id (\<lambda>(t, st). (status t, deleted_keys t, st ''A''))
     (KeyValueExecution_Execute one_partition
        (mk_txn 1 SINGLE_HOME 0 (Code [[''DEL'', ''A'']]) [entry ''A'' ''old'' WRITE]) [''A'' \<mapsto> stored ''old'']) =
   Inr (COMMITTED, [], Some (stored []))"
  by code_simp

section \<open>Workers\<close>

lemma holder_live_code [code]:
  "holder_live t w = (case wk_holders w t of None \<Rightarrow> False
     | Some h \<Rightarrow> main_txn_idx h < length (lo_txns h) \<and> lo_txns h ! main_txn_idx h \<noteq> None)"
  by (simp add: holder_live_def split: option.splits)

definition kv_execution :: execution where
  "kv_execution = KeyValueExecution_Execute one_partition"

definition three_part_txn :: transaction where
  "three_part_txn = set_internal (\<lambda>i. i\<lparr>involved_partitions := [0, 1, 2], active_partitions := [0, 1, 2],
     coordinating_server := 2, involved_replicas := [1]\<rparr>)
     (mk_txn 700 SINGLE_HOME 1 (Code [[''SET'', ''A'', ''new'']]) [mk_kv ''A'' 1 0 WRITE])"

definition worker_at_rest :: "transaction \<Rightarrow> worker" where
  "worker_at_rest txn =
     Worker 0 [''A'' \<mapsto> \<lparr>rec_value = ''old'', rec_metadata = \<lparr>master = 1, counter = 0\<rparr>\<rparr>]
       (case TxnHolder 2 txn of Inr h \<Rightarrow> [tid txn \<mapsto> h] | Inl _ \<Rightarrow> Map.empty)"

definition waiting_worker :: worker where
  "waiting_worker = (case Worker_OnCustomSocket COUNTERLESS sample_config kv_execution 700 (worker_at_rest three_part_txn) of
     Inr w \<Rightarrow> w | Inl _ \<Rightarrow> worker_at_rest three_part_txn)"

lemma waiting_worker_waits: "waits 700 2 waiting_worker"
  by code_simp

lemma waiting_worker_fin: "wk_finished waiting_worker = []"
  by code_simp

lemma waiting_worker_txn: "\<exists>txn. wk_txn 700 waiting_worker = Inr txn \<and> program txn = Code [[''SET'', ''A'', ''new'']]"
proof -
  have "map_sum id program (wk_txn 700 waiting_worker) = Inr (Code [[''SET'', ''A'', ''new'']])" by code_simp
  then show ?thesis by (cases "wk_txn 700 waiting_worker") auto
qed

text \<open>A worker that still misses remote reads of a transaction takes them in and does nothing else: storage and
  the list of finished transactions stay as they are, and the count of missing reads goes down by the
  number of reads received.\<close>

theorem worker_waits_for_remote_reads:
  assumes "waits t n w" "length ms < n" "wk_txn t w = Inr txn"
  shows "\<exists>w'. feed_reads rp config exec t ms w = Inr w' \<and> waits t (n - length ms) w' \<and>
    wk_storage w' = wk_storage w \<and> wk_finished w' = wk_finished w"
  using feed_reads_waits [OF assms] by blast

theorem worker_waits_for_remote_reads_witness:
  "\<exists>w'. feed_reads COUNTERLESS sample_config kv_execution 700 [(1, [mk_kv ''B'' 1 0 READ], False, [])] waiting_worker = Inr w' \<and>
    waits 700 1 w' \<and> wk_storage w' = wk_storage waiting_worker \<and> wk_finished w' = []"
proof -
  obtain txn where "wk_txn 700 waiting_worker = Inr txn" using waiting_worker_txn by blast
  from worker_waits_for_remote_reads [OF waiting_worker_waits _ this, of "[(1, [mk_kv ''B'' 1 0 READ], False, [])]"
      COUNTERLESS sample_config kv_execution]
  show ?thesis by (auto simp: waiting_worker_fin)
qed

text \<open>C13. Atomic commit or abort: when the last remote read of a transaction with code arrives, the worker finishes
  the transaction exactly once and forgets its state, leaving every other state alone. If this partition
  or any other one reported an abort, storage is unchanged and the code does not run; otherwise storage
  is what the execution engine makes of it on the transaction with the keys of all the partitions, its
  own first and the remote ones in the order the reads arrived. The engine is a parameter that need
  only return on that one input.\<close>

theorem worker_commits_or_aborts_atomically:
  assumes "waits t n w" "length ms = n" "wk_txn t w = Inr txn" "program txn = Code ps"
    and "\<not> will_abort txn ms \<Longrightarrow> exec (txn\<lparr>keys := keys txn @ remote_keys ms\<rparr>) (wk_storage w) = Inr (txn', st')"
  shows "\<exists>w'. feed_reads rp config exec t ms w = Inr w' \<and> wk_finished w' = wk_finished w @ [t] \<and>
    wk_states w' = (wk_states w)(t := None) \<and> wk_storage w' = (if will_abort txn ms then wk_storage w else st')"
  using assms by (rule feed_all_reads)

theorem worker_commits_or_aborts_atomically_witness:
  "(\<exists>w'. feed_reads COUNTERLESS sample_config kv_execution 700
      [(1, [mk_kv ''B'' 1 0 READ], False, []), (2, [mk_kv ''C'' 1 0 READ], False, [])] waiting_worker = Inr w' \<and>
    wk_finished w' = [700] \<and> wk_storage w' ''A'' = Some \<lparr>rec_value = ''new'', rec_metadata = \<lparr>master = 1, counter = 0\<rparr>\<rparr>) \<and>
   (\<exists>w'. feed_reads COUNTERLESS sample_config kv_execution 700 [(1, [], False, []), (2, [], True, ''no'')] waiting_worker = Inr w' \<and>
    wk_finished w' = [700] \<and> wk_storage w' ''A'' = Some \<lparr>rec_value = ''old'', rec_metadata = \<lparr>master = 1, counter = 0\<rparr>\<rparr>)"
proof (intro conjI)
  obtain txn where t: "wk_txn 700 waiting_worker = Inr txn" "program txn = Code [[''SET'', ''A'', ''new'']]"
    using waiting_worker_txn by blast
  let ?ms = "[(1, [mk_kv ''B'' 1 0 READ], False, []), (2, [mk_kv ''C'' 1 0 READ], False, [])] :: remote_read list"
  let ?ab = "[(1, [], False, []), (2, [], True, ''no'')] :: remote_read list"
  have "map_sum id (\<lambda>txn. map_sum id (\<lambda>(t, st). st ''A'')
      (kv_execution (txn\<lparr>keys := keys txn @ remote_keys ?ms\<rparr>) (wk_storage waiting_worker))) (wk_txn 700 waiting_worker) =
    Inr (Inr (Some \<lparr>rec_value = ''new'', rec_metadata = \<lparr>master = 1, counter = 0\<rparr>\<rparr>))" by code_simp
  then have "map_sum id (\<lambda>(t, st). st ''A'') (kv_execution (txn\<lparr>keys := keys txn @ remote_keys ?ms\<rparr>) (wk_storage waiting_worker)) =
    Inr (Some \<lparr>rec_value = ''new'', rec_metadata = \<lparr>master = 1, counter = 0\<rparr>\<rparr>)" unfolding t(1) by simp
  then obtain y st' where e: "kv_execution (txn\<lparr>keys := keys txn @ remote_keys ?ms\<rparr>) (wk_storage waiting_worker) = Inr (y, st')"
    and a: "st' ''A'' = Some \<lparr>rec_value = ''new'', rec_metadata = \<lparr>master = 1, counter = 0\<rparr>\<rparr>"
    by (cases "kv_execution (txn\<lparr>keys := keys txn @ remote_keys ?ms\<rparr>) (wk_storage waiting_worker)") auto
  have "map_sum id (\<lambda>txn. will_abort txn ?ms) (wk_txn 700 waiting_worker) = Inr False" by code_simp
  then have "\<not> will_abort txn ?ms" unfolding t(1) by simp
  then show "\<exists>w'. feed_reads COUNTERLESS sample_config kv_execution 700 ?ms waiting_worker = Inr w' \<and>
      wk_finished w' = [700] \<and> wk_storage w' ''A'' = Some \<lparr>rec_value = ''new'', rec_metadata = \<lparr>master = 1, counter = 0\<rparr>\<rparr>"
    using worker_commits_or_aborts_atomically [where exec = kv_execution and ms = ?ms and rp = COUNTERLESS and config = sample_config,
      OF waiting_worker_waits _ t e] a by (auto simp: waiting_worker_fin)
  have o: "wk_storage waiting_worker ''A'' = Some \<lparr>rec_value = ''old'', rec_metadata = \<lparr>master = 1, counter = 0\<rparr>\<rparr>" by code_simp
  have "will_abort txn ?ab" by (simp add: will_abort_def)
  then show "\<exists>w'. feed_reads COUNTERLESS sample_config kv_execution 700 ?ab waiting_worker = Inr w' \<and>
      wk_finished w' = [700] \<and> wk_storage w' ''A'' = Some \<lparr>rec_value = ''old'', rec_metadata = \<lparr>master = 1, counter = 0\<rparr>\<rparr>"
    using worker_commits_or_aborts_atomically [where exec = kv_execution and ms = ?ab and rp = COUNTERLESS and config = sample_config,
      OF waiting_worker_waits _ t] o by (auto simp: waiting_worker_fin)
qed

definition remaster_txn :: transaction where
  "remaster_txn = set_internal (\<lambda>i. i\<lparr>involved_partitions := [0], active_partitions := [0], coordinating_server := 2\<rparr>)
     (mk_txn 700 SINGLE_HOME 1 (Remaster 0 False) [mk_kv ''Z'' 1 0 WRITE])"

text \<open>C36. A remaster transaction commits even when it was aborted: whenever a worker gets a remaster transaction
  whose key is not stored, reading the local storage aborts the transaction, and the worker executes it
  all the same. It creates the key with an empty value, the new master and the next counter, and
  reports the transaction to the coordinating server of its own region as committed.\<close>

theorem worker_remaster_ignores_abort:
  assumes "holder_live t w" "wk_txn t w = Inr txn" "wk_states w t = None" "program txn = Remaster new_master lock_only"
    and "keys txn = kv # kvs" "wk_storage w (kv_key kv) = None" "reads_needed config txn = 0"
    and "read_local rp (wk_storage w) txn = Inr txn1"
  shows "status txn1 = ABORTED \<and>
    (\<exists>w' txn2. Worker_OnCustomSocket rp config exec t w = Inr w' \<and> wk_finished w' = wk_finished w @ [t] \<and>
      wk_storage w' = (wk_storage w)(kv_key kv \<mapsto>
        \<lparr>rec_value = [], rec_metadata = \<lparr>master = new_master, counter = (kv_counter kv + 1) mod 2 ^ 32\<rparr>\<rparr>) \<and>
      status txn2 = COMMITTED \<and>
      (fst (UnpackMachineId config (int32_of_uint32 (coordinating_server (internal txn)))) = local_replica config \<longrightarrow>
        last (wk_sent w') = SendTo (Request (FinishedSubtxn txn2 (local_partition config)))
          [int32_of_uint32 (coordinating_server (internal txn))] kServerChannel))"
  using worker_remaster_missing [OF assms(1-6,8,7)] read_local_missing(1) [OF assms(8) _ assms(5,6)] assms(4) by simp

theorem worker_remaster_ignores_abort_witness:
  "\<exists>txn1 w'. read_local COUNTERLESS (wk_storage (worker_at_rest remaster_txn)) remaster_txn = Inr txn1 \<and> status txn1 = ABORTED \<and>
    Worker_OnCustomSocket COUNTERLESS sample_config kv_execution 700 (worker_at_rest remaster_txn) = Inr w' \<and>
    wk_finished w' = [700] \<and> wk_storage w' ''Z'' = Some \<lparr>rec_value = [], rec_metadata = \<lparr>master = 0, counter = 1\<rparr>\<rparr>"
proof -
  let ?w = "worker_at_rest remaster_txn"
  have l: "holder_live 700 ?w" by code_simp
  have t: "wk_txn 700 ?w = Inr remaster_txn" by code_simp
  have s: "wk_states ?w 700 = None" by code_simp
  have p: "program remaster_txn = Remaster 0 False" by code_simp
  have k: "keys remaster_txn = mk_kv ''Z'' 1 0 WRITE # []" by code_simp
  have z: "wk_storage ?w (kv_key (mk_kv ''Z'' 1 0 WRITE)) = None" by code_simp
  have n: "reads_needed sample_config remaster_txn = 0" by code_simp
  have f: "wk_finished ?w = []" "kv_key (mk_kv ''Z'' 1 0 WRITE) = ''Z''" "kv_counter (mk_kv ''Z'' 1 0 WRITE) = 0" by code_simp+
  have "map_sum id (\<lambda>_. ()) (read_local COUNTERLESS (wk_storage ?w) remaster_txn) = Inr ()" by code_simp
  then obtain txn1 where r: "read_local COUNTERLESS (wk_storage ?w) remaster_txn = Inr txn1"
    by (cases "read_local COUNTERLESS (wk_storage ?w) remaster_txn") auto
  show ?thesis
    using worker_remaster_ignores_abort [OF l t s p k z n r, of kv_execution] r f by auto
qed

end
