(* ===== verification/Interleaver_Model.thy ===== *)
theory Interleaver_Model
  imports Local_Log Proto_Utils Slog_Messages
begin

text \<open>
  \<^verbatim>\<open>module/interleaver.{h,cpp}\<close>: the interleaver merges the batches of its own region, ordered by the
  local log, and those of the other regions, ordered by their slots, into one sequence of
  transactions for the scheduler. The map of logs per region is an association list, whose order
  stands for the unspecified order of iteration. A handler returns the new state and what it sends.
\<close>

section \<open>Model\<close>

record interleaver =
  single_home_logs :: "(nat \<times> batch_log) list"
  il_local_log :: local_log
  other_partitions :: "machine_id list"
  need_ack_from_replica :: "bool list"

definition log_at :: "nat \<Rightarrow> (nat \<times> batch_log) list \<Rightarrow> batch_log" where
  "log_at r ls = (case map_of ls r of None \<Rightarrow> BatchLog | Some l \<Rightarrow> l)"

fun set_log :: "nat \<Rightarrow> batch_log \<Rightarrow> (nat \<times> batch_log) list \<Rightarrow> (nat \<times> batch_log) list" where
  "set_log r l [] = [(r, l)]"
| "set_log r l ((r', l') # ls) = (if r = r' then (r, l) # ls else (r', l') # set_log r l ls)"

fun mark_acks :: "nat list \<Rightarrow> bool list \<Rightarrow> bool list result" where
  "mark_acks [] v = Inr v"
| "mark_acks (r # rs) v =
     (if r < length v then mark_acks rs (v[r := True]) else Inl (UndefinedBehaviour ''need_ack_from_replica_''))"

definition Interleaver :: "configuration \<Rightarrow> interleaver result" where
  "Interleaver config =
     (let others = map (MakeMachineId config (local_replica config))
                     (filter (\<lambda>p. p \<noteq> local_partition config) [0..<num_partitions config]);
          n = min (length (replication_order config)) (replication_factor config - 1)
      in case mark_acks (take n (replication_order config)) (replicate (num_replicas config) False) of
           Inl e \<Rightarrow> Inl e
         | Inr v \<Rightarrow> Inr \<lparr>single_home_logs = [], il_local_log = LocalLog, other_partitions = others,
                         need_ack_from_replica = v\<rparr>)"

definition ProcessBatchReplicationAck ::
  "configuration \<Rightarrow> machine_id \<Rightarrow> batch_id \<Rightarrow> interleaver \<Rightarrow> (interleaver \<times> send list) result" where
  "ProcessBatchReplicationAck config from_machine b s =
     (let from_replica = fst (UnpackMachineId config from_machine);
          out = (if from_replica \<noteq> local_replica config
                 then [SendTo (Request (BatchReplicationAck b)) (other_partitions s) kInterleaverChannel] else []);
          lr = local_replica config
      in case BatchLog_AckReplication b (log_at lr (single_home_logs s)) of
           Inl e \<Rightarrow> Inl e
         | Inr l \<Rightarrow> Inr (s\<lparr>single_home_logs := set_log lr l (single_home_logs s)\<rparr>, out))"

text \<open>The loop that distributes the partitions of a remote batch, from the last one to the first;
  it returns the partition of this machine, if there is one.\<close>

fun distribute ::
  "configuration \<Rightarrow> nat \<Rightarrow> nat \<Rightarrow> nat \<Rightarrow> batch list \<Rightarrow> batch option \<Rightarrow> batch option \<times> send list" where
  "distribute config hm pos p [] mine = (mine, [])"
| "distribute config hm pos p (b # bs) mine =
     (if p = local_partition config then distribute config hm pos (p - 1) bs (Some b)
      else case distribute config hm pos (p - 1) bs mine of
             (mine', out) \<Rightarrow>
               (mine', SendTo (Request (ForwardBatchData [b] hm pos)) [MakeMachineId config (local_replica config) p]
                         kInterleaverChannel # out))"

definition Interleaver_ProcessForwardBatchData ::
  "configuration \<Rightarrow> machine_id \<Rightarrow> batch list \<Rightarrow> nat \<Rightarrow> nat \<Rightarrow> interleaver \<Rightarrow> (interleaver \<times> send list) result" where
  "Interleaver_ProcessForwardBatchData config from_machine batches hm pos s =
     (let (from_replica, from_partition) = UnpackMachineId config from_machine;
          lr = local_replica config
      in case (if from_replica = lr
               then (if batches = [] then Inl (UndefinedBehaviour ''ReleaseLast'') else Inr (Some (last batches), []))
               else if length batches \<noteq> num_partitions config then Inl (CheckFailed ''batch_data_size'')
               else Inr (distribute config hm pos (num_partitions config - 1) (rev batches) None)) of
           Inl e \<Rightarrow> Inl e
         | Inr (None, out) \<Rightarrow> Inl (UndefinedBehaviour ''my_batch'')
         | Inr (Some b, out) \<Rightarrow>
             (case (if hm = lr then LocalLog_AddBatchId from_partition pos (b_id b) (il_local_log s)
                    else Inr (il_local_log s)) of
                Inl e \<Rightarrow> Inl e
              | Inr ll \<Rightarrow>
                  (case BatchLog_AddBatch b (log_at hm (single_home_logs s)) of
                     Inl e \<Rightarrow> Inl e
                   | Inr l \<Rightarrow>
                       Inr (s\<lparr>il_local_log := ll, single_home_logs := set_log hm l (single_home_logs s)\<rparr>, out))))"

definition ProcessLocalBatchOrder :: "nat \<Rightarrow> slot_id \<Rightarrow> nat \<Rightarrow> interleaver \<Rightarrow> (interleaver \<times> send list) result" where
  "ProcessLocalBatchOrder queue slot leader s =
     (case LocalLog_AddSlot slot queue (int32_of_uint32 leader) (il_local_log s) of
        Inl e \<Rightarrow> Inl e
      | Inr ll \<Rightarrow> Inr (s\<lparr>il_local_log := ll\<rparr>, []))"

definition ProcessRemoteBatchOrder ::
  "configuration \<Rightarrow> machine_id \<Rightarrow> batch_id \<Rightarrow> slot_id \<Rightarrow> nat \<Rightarrow> bool \<Rightarrow> interleaver \<Rightarrow> (interleaver \<times> send list) result" where
  "ProcessRemoteBatchOrder config from_machine b slot hm need_ack s =
     (let from_replica = fst (UnpackMachineId config from_machine);
          out = (if from_replica \<noteq> local_replica config
                 then SendTo (Request (RemoteBatchOrder b slot hm need_ack)) (other_partitions s) kInterleaverChannel #
                      (if need_ack then [SendTo (Request (BatchReplicationAck b)) [from_machine] kInterleaverChannel] else [])
                 else [])
      in case BatchLog_AddSlot slot b 0 (log_at hm (single_home_logs s)) of
           Inl e \<Rightarrow> Inl e
         | Inr l \<Rightarrow> Inr (s\<lparr>single_home_logs := set_log hm l (single_home_logs s)\<rparr>, out))"

text \<open>The first loop of \<^verbatim>\<open>AdvanceLogs\<close>, over what the local log gives out.\<close>

definition order_destinations :: "configuration \<Rightarrow> interleaver \<Rightarrow> bool \<Rightarrow> machine_id list" where
  "order_destinations config s ack =
     (let nr = num_replicas config; lr = local_replica config
      in map (\<lambda>rep. MakeMachineId config rep ((rep + nr - lr) mod nr mod num_partitions config))
           (filter (\<lambda>rep. rep \<noteq> lr \<and> need_ack_from_replica s ! rep = ack) [0..<nr]))"

fun advance_local ::
  "configuration \<Rightarrow> (slot_id \<times> batch_id \<times> machine_id) list \<Rightarrow> interleaver \<Rightarrow> (interleaver \<times> send list) result" where
  "advance_local config [] s = Inr (s, [])"
| "advance_local config ((slot, b, leader) # xs) s =
     (let lr = local_replica config;
          out = (if local_machine_id config = leader
                 then [SendTo (Request (RemoteBatchOrder b slot lr False)) (order_destinations config s False) kInterleaverChannel,
                       SendTo (Request (RemoteBatchOrder b slot lr True)) (order_destinations config s True) kInterleaverChannel]
                 else [])
      in case BatchLog_AddSlot slot b (int (replication_factor config) - 1) (log_at lr (single_home_logs s)) of
           Inl e \<Rightarrow> Inl e
         | Inr l \<Rightarrow>
             (case advance_local config xs (s\<lparr>single_home_logs := set_log lr l (single_home_logs s)\<rparr>) of
                Inl e \<Rightarrow> Inl e
              | Inr (s', out') \<Rightarrow> Inr (s', out @ out')))"

definition EmitBatch :: "batch \<Rightarrow> send list" where
  "EmitBatch b = map (\<lambda>txn. SendLocal (Request (ForwardTxn txn)) kSchedulerChannel) (Unbatch b)"

text \<open>The second loop: every log gives out the batches that are ready.\<close>

fun advance_logs :: "(nat \<times> batch_log) list \<Rightarrow> ((nat \<times> batch_log) list \<times> send list) result" where
  "advance_logs [] = Inr ([], [])"
| "advance_logs ((r, l) # ls) =
     (case BatchLog_drain l of
        Inl e \<Rightarrow> Inl e
      | Inr (bs, l') \<Rightarrow>
          (case advance_logs ls of
             Inl e \<Rightarrow> Inl e
           | Inr (ls', out) \<Rightarrow> Inr ((r, l') # ls', concat (map (EmitBatch \<circ> snd) bs) @ out)))"

definition AdvanceLogs :: "configuration \<Rightarrow> interleaver \<Rightarrow> (interleaver \<times> send list) result" where
  "AdvanceLogs config s =
     (case LocalLog_drain (il_local_log s) of
        Inl e \<Rightarrow> Inl e
      | Inr (xs, ll) \<Rightarrow>
          (case advance_local config xs (s\<lparr>il_local_log := ll\<rparr>) of
             Inl e \<Rightarrow> Inl e
           | Inr (s1, out1) \<Rightarrow>
               (case advance_logs (single_home_logs s1) of
                  Inl e \<Rightarrow> Inl e
                | Inr (ls, out2) \<Rightarrow> Inr (s1\<lparr>single_home_logs := ls\<rparr>, out1 @ out2))))"

definition Interleaver_OnInternalRequestReceived ::
  "configuration \<Rightarrow> machine_id \<Rightarrow> request \<Rightarrow> interleaver \<Rightarrow> (interleaver \<times> send list) result" where
  "Interleaver_OnInternalRequestReceived config from_machine req s =
     (case (case req of
              BatchReplicationAck b \<Rightarrow> ProcessBatchReplicationAck config from_machine b s
            | ForwardBatchData bs hm pos \<Rightarrow> Interleaver_ProcessForwardBatchData config from_machine bs hm pos s
            | LocalBatchOrder queue slot leader \<Rightarrow> ProcessLocalBatchOrder queue slot leader s
            | RemoteBatchOrder b slot hm need_ack \<Rightarrow> ProcessRemoteBatchOrder config from_machine b slot hm need_ack s
            | _ \<Rightarrow> Inr (s, [])) of
        Inl e \<Rightarrow> Inl e
      | Inr (s1, out1) \<Rightarrow>
          (case AdvanceLogs config s1 of Inl e \<Rightarrow> Inl e | Inr (s2, out2) \<Rightarrow> Inr (s2, out1 @ out2)))"

section \<open>Where messages go\<close>

text \<open>The order of a slot reaches every other region exactly once, at an existing partition.\<close>

lemma set_order_destinations:
  assumes "length (need_ack_from_replica s) = num_replicas config"
  shows "set (order_destinations config s False) \<union> set (order_destinations config s True) =
    (\<lambda>rep. MakeMachineId config rep ((rep + num_replicas config - local_replica config) mod num_replicas config mod num_partitions config))
      ` ({..<num_replicas config} - {local_replica config})"
  unfolding order_destinations_def Let_def by auto

definition replica_of :: "configuration \<Rightarrow> machine_id \<Rightarrow> nat" where
  "replica_of config m = fst (UnpackMachineId config m)"

lemma order_destinations_replicas:
  assumes "0 < num_partitions config" "num_replicas config * num_partitions config \<le> 2 ^ 31"
  shows "map (replica_of config) (order_destinations config s ack) =
    filter (\<lambda>rep. rep \<noteq> local_replica config \<and> need_ack_from_replica s ! rep = ack) [0..<num_replicas config]"
proof -
  have "replica_of config (MakeMachineId config rep ((rep + num_replicas config - local_replica config) mod num_replicas config mod num_partitions config)) = rep"
    if r: "rep < num_replicas config" for rep
  proof -
    let ?p = "(rep + num_replicas config - local_replica config) mod num_replicas config mod num_partitions config"
    have p: "?p < num_partitions config" using assms(1) by simp
    have "rep * num_partitions config + ?p < num_replicas config * num_partitions config"
      using r p by (rule mult_add_less)
    with assms(2) have "rep * num_partitions config + ?p < 2 ^ 31" by simp
    from Unpack_MakeMachineId [OF p this] show ?thesis by (simp add: replica_of_def)
  qed
  then show ?thesis unfolding order_destinations_def Let_def by (auto simp: comp_def intro!: map_idI)
qed

lemma distribute_eq:
  assumes "length bs = p + 1"
  shows "distribute config hm pos p bs mine =
    (if local_partition config \<le> p then Some (bs ! (p - local_partition config)) else mine,
     map (\<lambda>q. SendTo (Request (ForwardBatchData [bs ! (p - q)] hm pos)) [MakeMachineId config (local_replica config) q]
                kInterleaverChannel)
       (filter (\<lambda>q. q \<noteq> local_partition config) (rev [0..<p + 1])))"
  using assms
proof (induction bs arbitrary: p mine)
  case (Cons b bs)
  show ?case
  proof (cases p)
    case 0
    with Cons.prems show ?thesis by auto
  next
    case (Suc p')
    with Cons.prems have len: "length bs = p' + 1" by simp
    have m: "map (\<lambda>q. SendTo (Request (ForwardBatchData [bs ! (p' - q)] hm pos)) [MakeMachineId config (local_replica config) q]
                kInterleaverChannel) (filter (\<lambda>q. q \<noteq> local_partition config) (rev [0..<p' + 1])) =
      map (\<lambda>q. SendTo (Request (ForwardBatchData [(b # bs) ! (p - q)] hm pos)) [MakeMachineId config (local_replica config) q]
                kInterleaverChannel) (filter (\<lambda>q. q \<noteq> local_partition config) (rev [0..<p' + 1]))"
    proof (intro map_cong refl)
      fix q
      assume "q \<in> set (filter (\<lambda>q. q \<noteq> local_partition config) (rev [0..<p' + 1]))"
      then have "q \<in> set [0..<p' + 1]" unfolding set_filter set_rev by blast
      then have "q \<le> p'" by auto
      then have "p - q = Suc (p' - q)" using Suc by (simp add: Suc_diff_le)
      then show "SendTo (Request (ForwardBatchData [bs ! (p' - q)] hm pos)) [MakeMachineId config (local_replica config) q]
          kInterleaverChannel =
        SendTo (Request (ForwardBatchData [(b # bs) ! (p - q)] hm pos)) [MakeMachineId config (local_replica config) q]
          kInterleaverChannel" by simp
    qed
    have up: "rev [0..<p + 1] = p # rev [0..<p' + 1]" using Suc by simp
    show ?thesis
      using Cons.IH [OF len] m Suc unfolding up
      by (cases "p = local_partition config") (auto simp: Suc_diff_le not_less_eq_eq le_Suc_eq)
  qed
qed simp

text \<open>The partitions of a batch from another region all reach their machine, the local one stays.\<close>

lemma distribute_rev:
  assumes "length batches = num_partitions config" "local_partition config < num_partitions config"
  shows "distribute config hm pos (num_partitions config - 1) (rev batches) None =
    (Some (batches ! local_partition config),
     map (\<lambda>q. SendTo (Request (ForwardBatchData [batches ! q] hm pos)) [MakeMachineId config (local_replica config) q]
                kInterleaverChannel)
       (filter (\<lambda>q. q \<noteq> local_partition config) (rev [0..<num_partitions config])))"
proof -
  let ?p = "num_partitions config - 1"
  have len: "length (rev batches) = ?p + 1" using assms by simp
  have nth: "rev batches ! (?p - q) = batches ! q" if "q < num_partitions config" for q
    using that assms(1) by (simp add: rev_nth)
  have "local_partition config \<le> ?p" using assms(2) by simp
  with nth assms(2) show ?thesis
    unfolding distribute_eq [OF len] by (auto intro!: map_cong)
qed

section \<open>The interleaver runs one ordered log per region\<close>

type_synonym delivery = "machine_id \<times> request"

fun il_run :: "configuration \<Rightarrow> delivery list \<Rightarrow> interleaver \<Rightarrow> (interleaver \<times> send list) result" where
  "il_run config [] s = Inr (s, [])"
| "il_run config ((m, req) # ms) s =
     (case Interleaver_OnInternalRequestReceived config m req s of
        Inl e \<Rightarrow> Inl e
      | Inr (s1, out1) \<Rightarrow>
          (case il_run config ms s1 of Inl e \<Rightarrow> Inl e | Inr (s2, out2) \<Rightarrow> Inr (s2, out1 @ out2)))"

text \<open>What one delivery feeds into the log of region \<open>r\<close>, when \<open>r\<close> is not the local region.\<close>

definition my_batch :: "configuration \<Rightarrow> machine_id \<Rightarrow> batch list \<Rightarrow> batch" where
  "my_batch config m bs =
     (if replica_of config m = local_replica config then last bs else bs ! local_partition config)"

fun region_input :: "configuration \<Rightarrow> nat \<Rightarrow> delivery \<Rightarrow> batch_log_op list" where
  "region_input config r (m, ForwardBatchData bs hm pos) = (if hm = r then [BL_AddBatch (my_batch config m bs)] else [])"
| "region_input config r (m, RemoteBatchOrder b slot hm need_ack) = (if hm = r then [BL_AddSlot slot b 0] else [])"
| "region_input config r (m, _) = []"

definition region_actions :: "configuration \<Rightarrow> nat \<Rightarrow> delivery list \<Rightarrow> batch_log_op log_action list" where
  "region_actions config r ms = concat (map (\<lambda>d. map Input (region_input config r d) @ [Drain]) ms)"

definition emissions :: "(slot_id \<times> batch) list \<Rightarrow> send list" where
  "emissions os = concat (map (EmitBatch \<circ> snd) os)"

lemma emissions_append [simp]: "emissions (xs @ ys) = emissions xs @ emissions ys"
  by (simp add: emissions_def)

lemma log_at_set_log [simp]: "log_at r (set_log r' l ls) = (if r = r' then l else log_at r ls)"
  by (induction r' l ls rule: set_log.induct) (auto simp: log_at_def)

lemma BatchLog_drain_empty: "BatchLog_drain BatchLog = Inr ([], BatchLog)"
  by (subst BatchLog_drain.simps) (simp add: BatchLog_HasNextBatch_def BatchLog_def)

lemma advance_local_other:
  assumes "advance_local config xs s = Inr (s', out)" "r \<noteq> local_replica config"
  shows "log_at r (single_home_logs s') = log_at r (single_home_logs s)"
  using assms(1)
proof (induction xs arbitrary: s out)
  case (Cons x xs)
  obtain slot b leader where x: "x = (slot, b, leader)" by (cases x)
  from Cons.prems x obtain l out1 where
    s1: "advance_local config xs (s\<lparr>single_home_logs := set_log (local_replica config) l (single_home_logs s)\<rparr>) = Inr (s', out1)"
    by (auto simp: Let_def split: sum.splits)
  from Cons.IH [OF s1] assms(2) show ?case by simp
qed simp

text \<open>One delivery, without the draining at its end.\<close>

lemma forward_batch_data_log_at:
  assumes "Interleaver_ProcessForwardBatchData config m bs hm pos s = Inr (s', out)"
    and "r \<noteq> local_replica config" "local_partition config < num_partitions config"
  shows "if hm = r then BatchLog_AddBatch (my_batch config m bs) (log_at r (single_home_logs s)) = Inr (log_at r (single_home_logs s'))
    else log_at r (single_home_logs s') = log_at r (single_home_logs s)"
proof -
  define mine where "mine =
    (if fst (UnpackMachineId config m) = local_replica config
     then if bs = [] then Inl (UndefinedBehaviour ''ReleaseLast'') else Inr (Some (last bs), [])
     else if length bs \<noteq> num_partitions config then Inl (CheckFailed ''batch_data_size'')
     else Inr (distribute config hm pos (num_partitions config - 1) (rev bs) None))"
  from assms(1) obtain b out1 ll l where
    1: "mine = Inr (Some b, out1)" "BatchLog_AddBatch b (log_at hm (single_home_logs s)) = Inr l"
      "s' = s\<lparr>il_local_log := ll, single_home_logs := set_log hm l (single_home_logs s)\<rparr>"
    unfolding Interleaver_ProcessForwardBatchData_def mine_def [symmetric] Let_def case_prod_beta
    by (auto split: sum.splits option.splits)
  have "b = my_batch config m bs"
    using 1(1) assms(3) unfolding mine_def my_batch_def replica_of_def
    by (auto simp: distribute_rev [unfolded One_nat_def] split: if_splits)
  with 1 show ?thesis by auto
qed

lemma delivery_log_at:
  assumes "(case req of
              BatchReplicationAck b \<Rightarrow> ProcessBatchReplicationAck config m b s
            | ForwardBatchData bs hm pos \<Rightarrow> Interleaver_ProcessForwardBatchData config m bs hm pos s
            | LocalBatchOrder queue slot leader \<Rightarrow> ProcessLocalBatchOrder queue slot leader s
            | RemoteBatchOrder b slot hm need_ack \<Rightarrow> ProcessRemoteBatchOrder config m b slot hm need_ack s
            | _ \<Rightarrow> Inr (s, [])) = Inr (s', out)"
    and "r \<noteq> local_replica config" "local_partition config < num_partitions config"
  shows "ol_run bl_step BatchLog_drain (map Input (region_input config r (m, req))) (log_at r (single_home_logs s)) =
    Inr ([], log_at r (single_home_logs s'))"
proof (cases req)
  case (ForwardBatchData bs hm pos)
  from forward_batch_data_log_at [OF _ assms(2,3), of m bs hm pos s s' out] assms(1) ForwardBatchData
  show ?thesis by (auto split: if_splits)
qed (use assms(1,2) in \<open>auto simp: ProcessBatchReplicationAck_def ProcessLocalBatchOrder_def
       ProcessRemoteBatchOrder_def Let_def split: sum.splits\<close>)

lemma inputs_region_actions: "inputs (region_actions config r ms) = concat (map (region_input config r) ms)"
  by (induction ms) (auto simp: region_actions_def)

lemma region_actions_drained:
  "ms \<noteq> [] \<Longrightarrow> \<exists>as. region_actions config r ms = as @ [Drain]"
  by (cases ms rule: rev_cases) (auto simp: region_actions_def)

section \<open>What the scheduler gets of a region\<close>

text \<open>The transactions that a list of messages hands to the scheduler, and those of them whose home is region \<open>r\<close>.\<close>

definition scheduled :: "send list \<Rightarrow> transaction list" where
  "scheduled out = concat (map (\<lambda>o1. case o1 of
     SendLocal (Request (ForwardTxn txn)) ch \<Rightarrow> if ch = kSchedulerChannel then [txn] else [] | _ \<Rightarrow> []) out)"

text \<open>The transactions in a batch of a region have that region as their home.\<close>

fun homes_match :: "delivery \<Rightarrow> bool" where
  "homes_match (m, ForwardBatchData bs hm pos) \<longleftrightarrow>
     list_all (\<lambda>b. list_all (\<lambda>t. home (internal t) = int hm) (b_transactions b)) bs"
| "homes_match _ \<longleftrightarrow> True"

definition of_region :: "nat \<Rightarrow> transaction list \<Rightarrow> transaction list" where
  "of_region r ts = filter (\<lambda>t. home (internal t) = int r) ts"

lemma of_region_append [simp]: "of_region r (xs @ ys) = of_region r xs @ of_region r ys"
  by (simp add: of_region_def)

lemma scheduled_append [simp]: "scheduled (xs @ ys) = scheduled xs @ scheduled ys"
  by (simp add: scheduled_def)

lemma scheduled_Nil [simp]: "scheduled [] = []"
  by (simp add: scheduled_def)

lemma scheduled_SendTo [simp]: "scheduled (SendTo e ms ch # os) = scheduled os"
  by (simp add: scheduled_def)

lemma scheduled_emissions: "scheduled (emissions os) = concat (map (Unbatch \<circ> snd) os)"
proof -
  have "scheduled (map (\<lambda>txn. SendLocal (Request (ForwardTxn txn)) kSchedulerChannel) ts) = ts" for ts
    by (induction ts) (simp_all add: scheduled_def)
  then show ?thesis by (induction os) (simp_all add: emissions_def EmitBatch_def)
qed

text \<open>The batches in the log of a region are batches of that region.\<close>

definition log_home :: "nat \<Rightarrow> batch_log \<Rightarrow> bool" where
  "log_home r l \<longleftrightarrow> (\<forall>d \<in> ran (bl_batches l). \<forall>t \<in> set (b_transactions d). home (internal t) = int r)"

lemma UpdateReadyBatches_batches: "BatchLog_UpdateReadyBatches l = Inr l' \<Longrightarrow> bl_batches l' = bl_batches l"
proof (induction l rule: BatchLog_UpdateReadyBatches.induct)
  case (1 l)
  show ?case
  proof (cases "BatchLog_UpdateReadyBatches l = Inr l")
    case False
    with "1.prems" obtain b x slots where
      b: "\<not> \<not> AsyncLog_HasNext (bl_slots l)" "AsyncLog_Peek (bl_slots l) = Inr b"
        "bl_batches l b \<noteq> None \<and> bl_replication l b = Some 0" "AsyncLog_Next (bl_slots l) = Inr (x, slots)"
      and rest: "BatchLog_UpdateReadyBatches (l\<lparr>bl_replication := (bl_replication l)(b := None), bl_slots := slots,
        bl_ready := bl_ready l @ [x]\<rparr>) = Inr l'"
      by (simp add: BatchLog_UpdateReadyBatches.simps [of l] split: if_splits sum.splits prod.splits)
    from "1.IH" [OF b refl rest] show ?thesis by simp
  qed (use "1.prems" in simp)
qed

lemma log_home_BatchLog [simp]: "log_home r BatchLog"
  by (simp add: log_home_def BatchLog_def)

lemma log_home_ops:
  "BatchLog_AckReplication b l = Inr l' \<Longrightarrow> log_home r l \<Longrightarrow> log_home r l'"
  "BatchLog_AddSlot slot b f l = Inr l' \<Longrightarrow> log_home r l \<Longrightarrow> log_home r l'"
  by (auto simp: BatchLog_AckReplication_def BatchLog_AddSlot_def log_home_def add_replication_def
      dest!: UpdateReadyBatches_batches split: sum.splits)

lemma log_home_AddBatch:
  assumes "BatchLog_AddBatch b l = Inr l'" "log_home r l" "\<forall>t \<in> set (b_transactions b). home (internal t) = int r"
  shows "log_home r l'"
proof -
  have "bl_batches l' = (bl_batches l)(b_id b \<mapsto> b)"
    using UpdateReadyBatches_batches assms(1) unfolding BatchLog_AddBatch_def by force
  moreover have "ran ((bl_batches l)(b_id b \<mapsto> b)) \<subseteq> insert b (ran (bl_batches l))" by (auto simp: ran_def)
  ultimately show ?thesis using assms(2,3) unfolding log_home_def by (metis insertE subsetD)
qed

lemma ran_remove: "ran (m(k := None)) \<subseteq> ran m"
  by (auto simp: ran_def)

lemma log_home_drain:
  assumes "BatchLog_drain l = Inr (os, l')" "log_home r l"
  shows "log_home r l' \<and> (\<forall>x \<in> set os. \<forall>t \<in> set (b_transactions (snd x)). home (internal t) = int r)"
  using assms
proof (induction l arbitrary: os rule: BatchLog_drain.induct)
  case (1 l)
  show ?case
  proof (cases "BatchLog_HasNextBatch l")
    case False
    with "1.prems" show ?thesis by (simp add: BatchLog_drain.simps [of l])
  next
    case True
    with "1.prems"(1) obtain x l1 os1 where
      x: "BatchLog_NextBatch l = Inr (x, l1)" "BatchLog_drain l1 = Inr (os1, l')" "os = x # os1"
      by (subst (asm) BatchLog_drain.simps) (auto split: sum.splits)
    from x(1) obtain s b rest d where d: "bl_batches l b = Some d" "x = (s, d)"
      "l1 = l\<lparr>bl_ready := rest, bl_batches := (bl_batches l)(b := None)\<rparr>"
      by (auto simp: BatchLog_NextBatch_def split: list.splits option.splits)
    have "d \<in> ran (bl_batches l)" using d(1) by (rule ranI)
    with "1.prems"(2) have "\<forall>t \<in> set (b_transactions d). home (internal t) = int r" by (simp add: log_home_def)
    moreover have "log_home r l1"
      using "1.prems"(2) ran_remove [of "bl_batches l" b] unfolding log_home_def d(3) by auto
    moreover have nb: "\<not> \<not> BatchLog_HasNextBatch l" using True by simp
    ultimately show ?thesis using "1.IH" [OF nb x(1) refl x(2)] x(3) d(2) by simp
  qed
qed

lemma of_region_emissions:
  assumes "\<forall>x \<in> set os. \<forall>t \<in> set (b_transactions (snd x)). home (internal t) = int r'"
  shows "of_region r (scheduled (emissions os)) = (if r = r' then scheduled (emissions os) else [])"
proof -
  have "home (internal t) = int r'" if t: "t \<in> set (scheduled (emissions os))" for t
  proof -
    from t obtain x where x: "x \<in> set os" "t \<in> set (Unbatch (snd x))" unfolding scheduled_emissions by auto
    then obtain t' where "t' \<in> set (b_transactions (snd x))" "home (internal t) = home (internal t')"
      unfolding Unbatch_eq by (auto simp: set_internal_def)
    with assms x(1) show ?thesis by simp
  qed
  then show ?thesis unfolding of_region_def by (auto simp: filter_id_conv filter_empty_conv)
qed

definition logs_home :: "(nat \<times> batch_log) list \<Rightarrow> bool" where
  "logs_home ls \<longleftrightarrow> distinct (map fst ls) \<and> (\<forall>(r, l) \<in> set ls. log_home r l)"

lemma set_set_log: "set (set_log r l ls) \<subseteq> insert (r, l) (set ls)" "fst ` set (set_log r l ls) = insert r (fst ` set ls)"
  by (induction r l ls rule: set_log.induct) auto

lemma distinct_set_log: "distinct (map fst ls) \<Longrightarrow> distinct (map fst (set_log r l ls))"
proof (induction r l ls rule: set_log.induct)
  case (2 r l r' l' ls)
  then show ?case using set_set_log(2) [of r l ls] by auto
qed simp

lemma logs_home_set_log: "logs_home ls \<Longrightarrow> log_home r l \<Longrightarrow> logs_home (set_log r l ls)"
  using set_set_log(1) [of r l ls] by (auto simp: logs_home_def distinct_set_log)

lemma logs_home_log_at: "logs_home ls \<Longrightarrow> log_home r (log_at r ls)"
  by (auto simp: logs_home_def log_at_def split: option.splits dest!: map_of_SomeD)

lemma advance_local_home:
  assumes "advance_local config xs s = Inr (s', out)" "logs_home (single_home_logs s)"
  shows "logs_home (single_home_logs s') \<and> scheduled out = []"
  using assms
proof (induction xs arbitrary: s out)
  case (Cons x xs)
  obtain slot b leader where x: "x = (slot, b, leader)" by (cases x)
  from Cons.prems(1) x obtain l out0 out1 where
    l: "BatchLog_AddSlot slot b (int (replication_factor config) - 1) (log_at (local_replica config) (single_home_logs s)) = Inr l"
    and s1: "advance_local config xs (s\<lparr>single_home_logs := set_log (local_replica config) l (single_home_logs s)\<rparr>) = Inr (s', out1)"
    and o1: "out = out0 @ out1" "scheduled out0 = []"
    by (auto simp: Let_def split: sum.splits if_splits)
  have "log_home (local_replica config) l" by (rule log_home_ops(2) [OF l logs_home_log_at [OF Cons.prems(2)]])
  then have "logs_home (single_home_logs (s\<lparr>single_home_logs := set_log (local_replica config) l (single_home_logs s)\<rparr>))"
    using Cons.prems(2) by (simp add: logs_home_set_log)
  from Cons.IH [OF s1 this] o1 show ?case by simp
qed simp

lemma advance_logs_region:
  assumes "advance_logs ls = Inr (ls', out)" "logs_home ls"
  shows "map fst ls' = map fst ls \<and> logs_home ls' \<and>
    (\<exists>os. BatchLog_drain (log_at r ls) = Inr (os, log_at r ls') \<and> of_region r (scheduled out) = scheduled (emissions os))"
  using assms
proof (induction ls arbitrary: ls' out)
  case Nil
  then show ?case by (simp add: log_at_def BatchLog_drain_empty emissions_def of_region_def)
next
  case (Cons x ls)
  obtain r' l where x: "x = (r', l)" by (cases x)
  from Cons.prems(1) x obtain bs l' ls1 out1 where
    1: "BatchLog_drain l = Inr (bs, l')" "advance_logs ls = Inr (ls1, out1)"
      "ls' = (r', l') # ls1" "out = emissions bs @ out1"
    by (auto simp: emissions_def split: sum.splits)
  have h: "logs_home ls" "log_home r' l" "r' \<notin> fst ` set ls" using Cons.prems(2) x by (auto simp: logs_home_def)
  note d = log_home_drain [OF 1(1) h(2)]
  note e = of_region_emissions [OF d [THEN conjunct2], of r]
  from Cons.IH [OF 1(2) h(1)] obtain os where os: "map fst ls1 = map fst ls" "logs_home ls1"
    "BatchLog_drain (log_at r ls) = Inr (os, log_at r ls1)" "of_region r (scheduled out1) = scheduled (emissions os)" by blast
  have keys: "fst ` set ls1 = fst ` set ls" using os(1) by (metis list.set_map)
  have new: "logs_home ls'" using os(2) d h(3) keys by (auto simp: 1(3) logs_home_def)
  show ?case
  proof (cases "r = r'")
    case True
    then have "map_of ls r = None" "map_of ls1 r = None" using h(3) keys by (simp_all add: map_of_eq_None_iff)
    then have "BatchLog_drain BatchLog = Inr (os, BatchLog)" using os(3) by (simp add: log_at_def)
    then have "os = []" using BatchLog_drain_empty by simp
    with True 1 x os e new show ?thesis by (simp add: log_at_def emissions_def)
  next
    case False
    with 1 x os e new show ?thesis by (auto simp: log_at_def)
  qed
qed

lemma AdvanceLogs_region:
  assumes "AdvanceLogs config s = Inr (s', out)" "r \<noteq> local_replica config" "logs_home (single_home_logs s)"
  shows "logs_home (single_home_logs s') \<and> (\<exists>os. BatchLog_drain (log_at r (single_home_logs s)) = Inr (os, log_at r (single_home_logs s')) \<and>
    of_region r (scheduled out) = scheduled (emissions os))"
proof -
  from assms(1) obtain xs ll s1 out1 ls out2 where
    1: "advance_local config xs (s\<lparr>il_local_log := ll\<rparr>) = Inr (s1, out1)"
      "advance_logs (single_home_logs s1) = Inr (ls, out2)" "s' = s1\<lparr>single_home_logs := ls\<rparr>" "out = out1 @ out2"
    by (auto simp: AdvanceLogs_def split: sum.splits)
  from advance_local_home [OF 1(1)] assms(3) have h: "logs_home (single_home_logs s1)" "scheduled out1 = []" by simp_all
  from advance_logs_region [OF 1(2) h(1), of r] advance_local_other [OF 1(1) assms(2)] h(2) 1(3,4)
  show ?thesis by (auto simp: of_region_def)
qed

lemma distribute_scheduled: "scheduled (snd (distribute config hm pos p bs mine)) = []"
  by (induction config hm pos p bs mine rule: distribute.induct) (auto split: prod.splits)

lemma forward_batch_data_home:
  assumes "Interleaver_ProcessForwardBatchData config m bs hm pos s = Inr (s', out)"
    and "logs_home (single_home_logs s)" "homes_match (m, ForwardBatchData bs hm pos)" "local_partition config < num_partitions config"
  shows "logs_home (single_home_logs s') \<and> scheduled out = []"
proof -
  define mine where "mine =
    (if fst (UnpackMachineId config m) = local_replica config
     then if bs = [] then Inl (UndefinedBehaviour ''ReleaseLast'') else Inr (Some (last bs), [])
     else if length bs \<noteq> num_partitions config then Inl (CheckFailed ''batch_data_size'')
     else Inr (distribute config hm pos (num_partitions config - 1) (rev bs) None))"
  from assms(1) obtain b out1 ll l where
    1: "mine = Inr (Some b, out)" "BatchLog_AddBatch b (log_at hm (single_home_logs s)) = Inr l"
      "s' = s\<lparr>il_local_log := ll, single_home_logs := set_log hm l (single_home_logs s)\<rparr>"
    unfolding Interleaver_ProcessForwardBatchData_def mine_def [symmetric] Let_def case_prod_beta
    by (auto split: sum.splits option.splits)
  have b: "b \<in> set bs"
    using 1(1) assms(4) unfolding mine_def
    by (auto simp: distribute_rev [unfolded One_nat_def] split: if_splits)
  have "\<forall>t \<in> set (b_transactions b). home (internal t) = int hm" using assms(3) b by (auto simp: list_all_iff)
  from log_home_AddBatch [OF 1(2) logs_home_log_at [OF assms(2)] this]
  have "logs_home (single_home_logs s')" using 1(3) assms(2) by (simp add: logs_home_set_log)
  moreover have "scheduled out = []"
  proof (cases "fst (UnpackMachineId config m) = local_replica config")
    case True
    with 1(1) show ?thesis by (auto simp: mine_def split: if_splits)
  next
    case False
    with 1(1) have "distribute config hm pos (num_partitions config - 1) (rev bs) None = (Some b, out)"
      by (auto simp: mine_def split: if_splits)
    with distribute_scheduled [of config hm pos "num_partitions config - 1" "rev bs" None] show ?thesis by simp
  qed
  ultimately show ?thesis by blast
qed

lemma delivery_home:
  assumes "(case req of
              BatchReplicationAck b \<Rightarrow> ProcessBatchReplicationAck config m b s
            | ForwardBatchData bs hm pos \<Rightarrow> Interleaver_ProcessForwardBatchData config m bs hm pos s
            | LocalBatchOrder queue slot leader \<Rightarrow> ProcessLocalBatchOrder queue slot leader s
            | RemoteBatchOrder b slot hm need_ack \<Rightarrow> ProcessRemoteBatchOrder config m b slot hm need_ack s
            | _ \<Rightarrow> Inr (s, [])) = Inr (s', out)"
    and "logs_home (single_home_logs s)" "homes_match (m, req)" "local_partition config < num_partitions config"
  shows "logs_home (single_home_logs s') \<and> scheduled out = []"
proof (cases req)
  case (ForwardBatchData bs hm pos)
  with assms forward_batch_data_home show ?thesis by simp
qed (use assms(1,2) logs_home_log_at [OF assms(2)] in \<open>auto simp: ProcessBatchReplicationAck_def ProcessLocalBatchOrder_def
       ProcessRemoteBatchOrder_def Let_def split: sum.splits if_splits intro!: logs_home_set_log elim!: log_home_ops\<close>)

text \<open>Whatever else the interleaver receives, its log of a remote region is the batch log run on the deliveries for that
  region, and what the scheduler gets of the region is what this log gives out.\<close>

lemma il_run_region:
  assumes "il_run config ms s = Inr (s', out)" "logs_home (single_home_logs s)" "list_all homes_match ms"
    and "r \<noteq> local_replica config" "local_partition config < num_partitions config"
  shows "\<exists>os. ol_run bl_step BatchLog_drain (region_actions config r ms) (log_at r (single_home_logs s)) =
      Inr (os, log_at r (single_home_logs s')) \<and> of_region r (scheduled out) = scheduled (emissions os)"
  using assms(1-3)
proof (induction ms arbitrary: s out)
  case Nil
  then show ?case by (simp add: region_actions_def emissions_def of_region_def)
next
  case (Cons d ms)
  obtain m req where d: "d = (m, req)" by (cases d)
  from Cons.prems(1) d obtain s1 out1 s2 out2 out3 where
    1: "(case req of
              BatchReplicationAck b \<Rightarrow> ProcessBatchReplicationAck config m b s
            | ForwardBatchData bs hm pos \<Rightarrow> Interleaver_ProcessForwardBatchData config m bs hm pos s
            | LocalBatchOrder queue slot leader \<Rightarrow> ProcessLocalBatchOrder queue slot leader s
            | RemoteBatchOrder b slot hm need_ack \<Rightarrow> ProcessRemoteBatchOrder config m b slot hm need_ack s
            | _ \<Rightarrow> Inr (s, [])) = Inr (s1, out1)"
    and 2: "AdvanceLogs config s1 = Inr (s2, out2)"
    and 3: "il_run config ms s2 = Inr (s', out3)" "out = (out1 @ out2) @ out3"
    by (auto simp: Interleaver_OnInternalRequestReceived_def split: sum.splits)
  have hm: "homes_match (m, req)" "list_all homes_match ms" using Cons.prems(3) d by simp_all
  note input = delivery_log_at [OF 1 assms(4,5)]
  note h1 = delivery_home [OF 1 Cons.prems(2) hm(1) assms(5)]
  from AdvanceLogs_region [OF 2 assms(4)] h1 obtain os1 where
    os1: "BatchLog_drain (log_at r (single_home_logs s1)) = Inr (os1, log_at r (single_home_logs s2))"
      "of_region r (scheduled out2) = scheduled (emissions os1)" "logs_home (single_home_logs s2)" by blast
  from Cons.IH [OF 3(1) os1(3) hm(2)] obtain os2 where
    os2: "ol_run bl_step BatchLog_drain (region_actions config r ms) (log_at r (single_home_logs s2)) =
      Inr (os2, log_at r (single_home_logs s'))" "of_region r (scheduled out3) = scheduled (emissions os2)" by blast
  have acts: "region_actions config r (d # ms) =
      map Input (region_input config r (m, req)) @ Drain # region_actions config r ms"
    by (simp add: region_actions_def d)
  have "of_region r (scheduled out) = scheduled (emissions (os1 @ os2))"
    unfolding emissions_append 3(2) using os1(2) os2(2) h1 by (simp add: of_region_def)
  with os1(1) os2(1) show ?case unfolding acts ol_run_append input by simp
qed

lemma il_run_emits_region:
  assumes "il_run config ms s = Inr (s', out)" "single_home_logs s = []" "list_all homes_match ms"
    and "r \<noteq> local_replica config" "local_partition config < num_partitions config"
    and "bl_legal (concat (map (region_input config r) ms))" "ms \<noteq> []"
  shows "\<exists>n. emit_prefix (bl_item (concat (map (region_input config r) ms))) n \<and>
    of_region r (scheduled out) = concat (map (Unbatch \<circ> snd) (emitted (bl_item (concat (map (region_input config r) ms))) 0 n))"
proof -
  have l: "log_at r (single_home_logs s) = BatchLog" "logs_home (single_home_logs s)"
    using assms(2) by (simp_all add: log_at_def logs_home_def)
  with il_run_region [OF assms(1) _ assms(3-5)] obtain os where
    os: "ol_run bl_step BatchLog_drain (region_actions config r ms) BatchLog = Inr (os, log_at r (single_home_logs s'))"
      "of_region r (scheduled out) = scheduled (emissions os)" by metis
  from region_actions_drained [OF assms(7)] obtain as where as: "region_actions config r ms = as @ [Drain]" by blast
  have inp: "inputs as = concat (map (region_input config r) ms)"
    using inputs_region_actions [of config r ms] unfolding as by simp
  have "bl_legal (inputs as)" using assms(6) unfolding inp .
  from bl.drained_outputs [OF this] obtain n where
    n: "ol_outputs bl_step BatchLog_drain (as @ [Drain]) BatchLog = Inr (emitted (bl_item (inputs as)) 0 n)"
      "emit_prefix (bl_item (inputs as)) n" by blast
  have "os = emitted (bl_item (inputs as)) 0 n" using n(1) os(1) unfolding ol_outputs_def as by simp
  with os(2) n(2) show ?thesis unfolding inp scheduled_emissions by blast
qed

end
