(* ===== verification/Sequencer_Model.thy ===== *)
theory Sequencer_Model
  imports Proto_Utils Batch_Stats
begin

text \<open>
  \<^verbatim>\<open>module/sequencer.{h,cpp}\<close>: transactions are split by partition into the current batch of every
  partition; a timer sends the batches out. A handler returns its outputs in order: messages and
  timers (\<^verbatim>\<open>NewTimedCallback\<close>) with the delay in milliseconds. The random choice of
  \<^verbatim>\<open>SendBatches\<close> is an argument that says which batches of the list are delayed, the clock is an
  argument \<open>now\<close> in nanoseconds.
\<close>

section \<open>Model\<close>

record sequencer =
  seq_batches :: "batch list list"
  batch_id_counter :: nat
  current_batch_size :: nat
  total_batch_size :: nat
  seq_stats :: batch_stats

datatype seq_output =
    Out send
  | BatchTxnLater int transaction
  | SendBatchesLater nat
  | SendLater nat send

definition Sequencer_batch_id :: "configuration \<Rightarrow> nat \<Rightarrow> batch_id" where
  "Sequencer_batch_id config ctr = nat ((int (ctr * kMaxNumMachines) + local_machine_id config) mod 2 ^ 64)"

definition Sequencer_NewBatch :: "configuration \<Rightarrow> sequencer \<Rightarrow> sequencer" where
  "Sequencer_NewBatch config s =
     (let ctr = (batch_id_counter s + 1) mod 2 ^ 64;
          new_batch = replicate (num_partitions config)
            \<lparr>b_id = Sequencer_batch_id config ctr, b_transactions = [], b_type = SINGLE_HOME, b_events = []\<rparr>
      in s\<lparr>current_batch_size := 0, batch_id_counter := ctr, seq_batches := seq_batches s @ [new_batch]\<rparr>)"

definition StartOver :: "configuration \<Rightarrow> sequencer \<Rightarrow> sequencer" where
  "StartOver config s = Sequencer_NewBatch config (s\<lparr>total_batch_size := 0, seq_batches := []\<rparr>)"

definition Sequencer :: "configuration \<Rightarrow> sequencer" where
  "Sequencer config =
     StartOver config \<lparr>seq_batches = [], batch_id_counter = 0, current_batch_size = 0, total_batch_size = 0,
       seq_stats = no_stats\<rparr>"

definition add_transaction :: "transaction \<Rightarrow> batch \<Rightarrow> batch" where
  "add_transaction txn b = b\<lparr>b_transactions := b_transactions b @ [txn]\<rparr>"

text \<open>The loop over the involved partitions: the transaction is copied for all but the last one, so
  that every call of \<^verbatim>\<open>GeneratePartitionedTxn\<close> sees the same value.\<close>

fun add_partitioned :: "sharder \<Rightarrow> transaction \<Rightarrow> nat list \<Rightarrow> batch list \<Rightarrow> batch list result" where
  "add_partitioned sh txn [] bs = Inr bs"
| "add_partitioned sh txn (p # ps) bs =
     (case GeneratePartitionedTxn sh txn p of
        Inl e \<Rightarrow> Inl e
      | Inr None \<Rightarrow> add_partitioned sh txn ps bs
      | Inr (Some t) \<Rightarrow>
          if p < length bs then add_partitioned sh txn ps (bs[p := add_transaction t (bs ! p)])
          else Inl (UndefinedBehaviour ''current_batch''))"

definition BatchTxn ::
  "remaster_protocol \<Rightarrow> configuration \<Rightarrow> int \<Rightarrow> transaction \<Rightarrow> sequencer \<Rightarrow> (sequencer \<times> seq_output list) result" where
  "BatchTxn rp config now txn s =
     (let txn1 = (if txn_type (internal txn) = MULTI_HOME_OR_LOCK_ONLY
                  then GenerateLockOnlyTxn rp txn (local_replica config) else txn)
      in if seq_batches s = [] then Inl (UndefinedBehaviour ''batches_.back()'')
         else case add_partitioned (MakeSharder config) txn1 (involved_partitions (internal txn1)) (last (seq_batches s)) of
           Inl e \<Rightarrow> Inl e
         | Inr bs \<Rightarrow>
             let s1 = s\<lparr>seq_batches := butlast (seq_batches s) @ [bs],
                        current_batch_size := current_batch_size s + 1,
                        total_batch_size := total_batch_size s + 1,
                        seq_stats := (if total_batch_size s + 1 = 1 then start_batch now (seq_stats s) else seq_stats s)\<rparr>;
                 out = (if total_batch_size s1 = 1 then [SendBatchesLater (sequencer_batch_duration config)] else []);
                 max_batch_size = pc_sequencer_batch_size (proto_config config);
                 s2 = (if max_batch_size > 0 \<and> int (current_batch_size s1) \<ge> max_batch_size
                       then Sequencer_NewBatch config s1 else s1)
             in Inr (s2, out))"

definition NewBatchForwardingMessage :: "configuration \<Rightarrow> batch list \<Rightarrow> nat \<Rightarrow> envelope" where
  "NewBatchForwardingMessage config bs home_position =
     Request (ForwardBatchData bs (local_replica config) home_position)"

definition batch_destinations :: "configuration \<Rightarrow> nat \<Rightarrow> machine_id list" where
  "batch_destinations config home_position =
     map (\<lambda>rep. MakeMachineId config rep
            (if pc_sequencer_rrr (proto_config config) then home_position mod num_partitions config
             else (rep + num_replicas config - local_replica config) mod num_replicas config mod num_partitions config))
       (filter (\<lambda>rep. rep \<noteq> local_replica config) [0..<num_replicas config])"

text \<open>What is sent for one batch before the replication message.\<close>

definition local_sends :: "configuration \<Rightarrow> batch list \<Rightarrow> nat \<Rightarrow> seq_output list" where
  "local_sends config batch home_position =
     Out (SendLocal (Request (PaxosPropose (local_partition config))) kLocalPaxos) #
     map (\<lambda>p. Out (SendTo (NewBatchForwardingMessage config [batch ! p] home_position)
                [MakeMachineId config (local_replica config) p] kLocalLogChannel))
       [0..<num_partitions config]"

fun send_batches_loop :: "configuration \<Rightarrow> batch list list \<Rightarrow> nat \<Rightarrow> bool list \<Rightarrow> seq_output list" where
  "send_batches_loop config [] home_position coins = []"
| "send_batches_loop config (batch # batches) home_position coins =
     (let replicate_send = SendTo (NewBatchForwardingMessage config batch home_position)
                             (batch_destinations config home_position) kInterleaverChannel;
          is_delayed = (case coins of [] \<Rightarrow> False | c # _ \<Rightarrow> c)
      in if pc_delay_pct (proto_config config) \<noteq> 0 \<and> is_delayed
         then local_sends config batch home_position @ [SendLater (pc_delay_amount_ms (proto_config config)) replicate_send]
         else local_sends config batch home_position @ Out replicate_send #
              send_batches_loop config batches ((home_position + 1) mod 2 ^ 32) (drop 1 coins))"

definition SendBatches :: "configuration \<Rightarrow> int \<Rightarrow> bool list \<Rightarrow> sequencer \<Rightarrow> sequencer \<times> seq_output list" where
  "SendBatches config now coins s =
     (s\<lparr>seq_stats := record_batch now (total_batch_size s) (seq_stats s)\<rparr>,
      send_batches_loop config (seq_batches s)
        (uint32_of_int (int (batch_id_counter s) - int (length (seq_batches s)))) coins)"

text \<open>The callback of the batch timer.\<close>

definition on_batch_timer :: "configuration \<Rightarrow> int \<Rightarrow> bool list \<Rightarrow> sequencer \<Rightarrow> sequencer \<times> seq_output list" where
  "on_batch_timer config now coins s = (case SendBatches config now coins s of (s1, out) \<Rightarrow> (StartOver config s1, out))"

definition Sequencer_ProcessStatsRequest ::
  "(json \<Rightarrow> string) \<Rightarrow> nat \<Rightarrow> nat \<Rightarrow> sequencer \<Rightarrow> sequencer \<times> seq_output list" where
  "Sequencer_ProcessStatsRequest write_json req_id level s =
     (case ProcessBatchStats write_json ''seq_batch_size_pctls'' ''seq_batch_duration_ms_pctls'' req_id level (seq_stats s) of
        (st, out) \<Rightarrow> (s\<lparr>seq_stats := st\<rparr>, map Out out))"

definition Sequencer_OnInternalRequestReceived ::
  "(json \<Rightarrow> string) \<Rightarrow> remaster_protocol \<Rightarrow> configuration \<Rightarrow> int \<Rightarrow> request \<Rightarrow> sequencer \<Rightarrow>
   (sequencer \<times> seq_output list) result" where
  "Sequencer_OnInternalRequestReceived write_json rp config now req s =
     (case req of
        ForwardTxn txn \<Rightarrow>
          if sequencer_delay_ms (internal txn) > 0
          then Inr (s, [BatchTxnLater (sequencer_delay_ms (internal txn)) txn])
          else BatchTxn rp config now txn s
      | StatsReq req_id level \<Rightarrow> Inr (Sequencer_ProcessStatsRequest write_json req_id level s)
      | _ \<Rightarrow> Inr (s, []))"

section \<open>No transaction is lost or reordered\<close>

definition partition_content :: "nat \<Rightarrow> sequencer \<Rightarrow> transaction list" where
  "partition_content p s = concat (map (\<lambda>bs. b_transactions (bs ! p)) (seq_batches s))"

definition batches_ok :: "configuration \<Rightarrow> sequencer \<Rightarrow> bool" where
  "batches_ok config s \<longleftrightarrow>
     seq_batches s \<noteq> [] \<and> (\<forall>bs \<in> set (seq_batches s). length bs = num_partitions config) \<and>
     length (seq_batches s) \<le> batch_id_counter s \<and> batch_id_counter s < 2 ^ 64 \<and>
     (\<forall>i < length (seq_batches s). \<forall>b \<in> set (seq_batches s ! i).
        b_id b = Sequencer_batch_id config (batch_id_counter s - length (seq_batches s) + i + 1))"

lemma StartOver_ok:
  assumes "batch_id_counter s + 1 < 2 ^ 64"
  shows "batches_ok config (StartOver config s)" "batch_id_counter (StartOver config s) = batch_id_counter s + 1"
    "length (seq_batches (StartOver config s)) = 1" "total_batch_size (StartOver config s) = 0"
    "p < num_partitions config \<Longrightarrow> partition_content p (StartOver config s) = []"
  using assms by (auto simp: StartOver_def Sequencer_NewBatch_def batches_ok_def partition_content_def Let_def)

definition partitioned :: "sharder \<Rightarrow> transaction \<Rightarrow> nat \<Rightarrow> transaction list" where
  "partitioned sh txn p = (case GeneratePartitionedTxn sh txn p of Inr (Some t) \<Rightarrow> [t] | _ \<Rightarrow> [])"

lemma add_partitioned_eq:
  assumes "add_partitioned sh txn ps bs = Inr bs'" "distinct ps"
  shows "length bs' = length bs \<and> (\<forall>q < length bs. b_id (bs' ! q) = b_id (bs ! q) \<and>
    b_transactions (bs' ! q) = b_transactions (bs ! q) @ (if q \<in> set ps then partitioned sh txn q else []))"
  using assms
proof (induction ps arbitrary: bs)
  case (Cons p ps)
  from Cons.prems(1) consider
    (skip) "GeneratePartitionedTxn sh txn p = Inr None" "add_partitioned sh txn ps bs = Inr bs'"
  | (add) t where "GeneratePartitionedTxn sh txn p = Inr (Some t)" "p < length bs"
      "add_partitioned sh txn ps (bs[p := add_transaction t (bs ! p)]) = Inr bs'"
    by (auto split: sum.splits option.splits if_splits)
  then show ?case
  proof cases
    case skip
    then have "partitioned sh txn p = []" by (simp add: partitioned_def)
    with Cons.IH [OF skip(2)] Cons.prems(2) show ?thesis by auto
  next
    case add
    then have "partitioned sh txn p = [t]" by (simp add: partitioned_def)
    with Cons.IH [OF add(3)] Cons.prems(2) add(2) show ?thesis
      by (auto simp: nth_list_update add_transaction_def)
  qed
qed simp

text \<open>The transaction as it is put into the batches.\<close>

definition sequenced :: "remaster_protocol \<Rightarrow> configuration \<Rightarrow> transaction \<Rightarrow> transaction" where
  "sequenced rp config txn =
     (if txn_type (internal txn) = MULTI_HOME_OR_LOCK_ONLY then GenerateLockOnlyTxn rp txn (local_replica config) else txn)"

lemma sequenced_involved [simp]:
  "involved_partitions (internal (sequenced rp config txn)) = involved_partitions (internal txn)"
  by (simp add: sequenced_def GenerateLockOnlyTxn_def Let_def set_internal_def)

definition share :: "remaster_protocol \<Rightarrow> configuration \<Rightarrow> nat \<Rightarrow> transaction \<Rightarrow> transaction list" where
  "share rp config p txn =
     (if p \<in> set (involved_partitions (internal txn)) then partitioned (MakeSharder config) (sequenced rp config txn) p else [])"

lemma BatchTxn_Inr:
  assumes "BatchTxn rp config now txn s = Inr (s', out)"
  obtains bs s1 st where "seq_batches s \<noteq> []"
    "add_partitioned (MakeSharder config) (sequenced rp config txn) (involved_partitions (internal txn)) (last (seq_batches s)) = Inr bs"
    "s1 = s\<lparr>seq_batches := butlast (seq_batches s) @ [bs], current_batch_size := current_batch_size s + 1,
            total_batch_size := total_batch_size s + 1, seq_stats := st\<rparr>"
    "s' = s1 \<or> s' = Sequencer_NewBatch config s1"
    "out = (if total_batch_size s = 0 then [SendBatchesLater (sequencer_batch_duration config)] else [])"
proof -
  define st where "st = (if total_batch_size s + 1 = 1 then start_batch now (seq_stats s) else seq_stats s)"
  define upd where "upd bs = s\<lparr>seq_batches := butlast (seq_batches s) @ [bs], current_batch_size := current_batch_size s + 1,
            total_batch_size := total_batch_size s + 1, seq_stats := st\<rparr>" for bs
  from assms sequenced_involved [of rp config txn] obtain bs where "seq_batches s \<noteq> []"
    "add_partitioned (MakeSharder config) (sequenced rp config txn) (involved_partitions (internal txn)) (last (seq_batches s)) = Inr bs"
    "s' = upd bs \<or> s' = Sequencer_NewBatch config (upd bs)"
    "out = (if total_batch_size (upd bs) = 1 then [SendBatchesLater (sequencer_batch_duration config)] else [])"
    unfolding BatchTxn_def sequenced_def [symmetric] Let_def st_def [symmetric] upd_def [symmetric]
    by (auto split: if_splits sum.splits)
  with that [OF _ _ upd_def] show thesis by (simp add: upd_def)
qed

lemma Sequencer_NewBatch_ok:
  assumes "batches_ok config s" "batch_id_counter s + 1 < 2 ^ 64"
  shows "batches_ok config (Sequencer_NewBatch config s)"
    and "p < num_partitions config \<Longrightarrow> partition_content p (Sequencer_NewBatch config s) = partition_content p s"
  using assms
  by (auto simp: batches_ok_def Sequencer_NewBatch_def Let_def nth_append less_Suc_eq Suc_diff_le partition_content_def)

lemma batch_added_ok:
  assumes ok: "batches_ok config s" and dist: "distinct (involved_partitions (internal txn))"
    and add: "add_partitioned (MakeSharder config) (sequenced rp config txn) (involved_partitions (internal txn)) (last (seq_batches s)) = Inr bs"
    and s1: "s1 = s\<lparr>seq_batches := butlast (seq_batches s) @ [bs], current_batch_size := n, total_batch_size := m,
            seq_stats := st\<rparr>"
  shows "batches_ok config s1" "p < num_partitions config \<Longrightarrow> partition_content p s1 = partition_content p s @ share rp config p txn"
proof -
  obtain bss b where bb: "seq_batches s = bss @ [b]" using ok by (cases "seq_batches s" rule: rev_cases) (auto simp: batches_ok_def)
  have len: "length b = num_partitions config" using ok bb by (simp add: batches_ok_def)
  have A: "length bs = length b" "\<forall>q < length b. b_id (bs ! q) = b_id (b ! q) \<and>
    b_transactions (bs ! q) = b_transactions (b ! q) @ (if q \<in> set (involved_partitions (internal txn))
      then partitioned (MakeSharder config) (sequenced rp config txn) q else [])"
    using add_partitioned_eq [OF add dist] bb by auto
  show "p < num_partitions config \<Longrightarrow> partition_content p s1 = partition_content p s @ share rp config p txn"
    using A len by (simp add: partition_content_def s1 bb share_def)
  have "\<forall>x \<in> set bs. b_id x = Sequencer_batch_id config (batch_id_counter s)"
  proof
    fix x
    assume "x \<in> set bs"
    then obtain q where q: "q < length b" "x = bs ! q" using A(1) by (metis in_set_conv_nth)
    then have "b ! q \<in> set ((bss @ [b]) ! length bss)" by simp
    then have "b_id (b ! q) = Sequencer_batch_id config (batch_id_counter s - length (bss @ [b]) + length bss + 1)"
      using ok bb unfolding batches_ok_def by (metis length_append_singleton lessI)
    with q A ok bb show "b_id x = Sequencer_batch_id config (batch_id_counter s)" by (simp add: batches_ok_def)
  qed
  with ok bb A(1) len show "batches_ok config s1"
    by (auto simp: batches_ok_def s1 nth_append less_Suc_eq)
qed

lemma BatchTxn_ok:
  assumes "BatchTxn rp config now txn s = Inr (s', out)" "batches_ok config s"
    and "batch_id_counter s + 1 < 2 ^ 64" "distinct (involved_partitions (internal txn))"
  shows "batches_ok config s'" "p < num_partitions config \<Longrightarrow> partition_content p s' = partition_content p s @ share rp config p txn"
    "batch_id_counter s' \<le> batch_id_counter s + 1"
    "batch_id_counter s' - length (seq_batches s') = batch_id_counter s - length (seq_batches s)"
proof -
  from BatchTxn_Inr [OF assms(1)] obtain bs s1 st where
    1: "add_partitioned (MakeSharder config) (sequenced rp config txn) (involved_partitions (internal txn)) (last (seq_batches s)) = Inr bs"
    and s1: "s1 = s\<lparr>seq_batches := butlast (seq_batches s) @ [bs], current_batch_size := current_batch_size s + 1,
            total_batch_size := total_batch_size s + 1, seq_stats := st\<rparr>"
    and s': "s' = s1 \<or> s' = Sequencer_NewBatch config s1" by metis
  note A = batch_added_ok [OF assms(2,4) 1 s1]
  have ctr: "batch_id_counter s1 = batch_id_counter s" "length (seq_batches s1) = length (seq_batches s)"
    using assms(2) by (auto simp: s1 batches_ok_def)
  note N = Sequencer_NewBatch_ok [OF A(1), unfolded ctr, OF assms(3)]
  show "batches_ok config s'" using s' A(1) N(1) by auto
  show "p < num_partitions config \<Longrightarrow> partition_content p s' = partition_content p s @ share rp config p txn"
    using s' A(2) N(2) by metis
  show "batch_id_counter s' \<le> batch_id_counter s + 1"
    "batch_id_counter s' - length (seq_batches s') = batch_id_counter s - length (seq_batches s)"
    using s' ctr assms(3) by (auto simp: Sequencer_NewBatch_def Let_def)
qed

fun batch_all :: "remaster_protocol \<Rightarrow> configuration \<Rightarrow> (int \<times> transaction) list \<Rightarrow> sequencer \<Rightarrow> sequencer result" where
  "batch_all rp config [] s = Inr s"
| "batch_all rp config ((now, txn) # txns) s =
     (case BatchTxn rp config now txn s of Inl e \<Rightarrow> Inl e | Inr (s', _) \<Rightarrow> batch_all rp config txns s')"

lemma batch_all_ok:
  assumes "batch_all rp config txns s = Inr s'" "batches_ok config s"
    and "batch_id_counter s + length txns < 2 ^ 64" "list_all (\<lambda>t. distinct (involved_partitions (internal t))) (map snd txns)"
    and "p < num_partitions config"
  shows "batches_ok config s' \<and> partition_content p s' = partition_content p s @ concat (map (share rp config p) (map snd txns)) \<and>
    batch_id_counter s' - length (seq_batches s') = batch_id_counter s - length (seq_batches s) \<and>
    batch_id_counter s' \<le> batch_id_counter s + length txns"
  using assms(1-4)
proof (induction txns arbitrary: s)
  case (Cons nt ts)
  obtain now t where nt: "nt = (now, t)" by (cases nt)
  from Cons.prems(1) nt obtain s1 out where 1: "BatchTxn rp config now t s = Inr (s1, out)" "batch_all rp config ts s1 = Inr s'"
    by (auto split: sum.splits)
  note A = BatchTxn_ok [OF 1(1) Cons.prems(2)]
  have c: "batch_id_counter s + 1 < 2 ^ 64" "distinct (involved_partitions (internal t))"
    "list_all (\<lambda>t. distinct (involved_partitions (internal t))) (map snd ts)" using Cons.prems(3,4) nt by auto
  have "batch_id_counter s1 + length ts < 2 ^ 64" using A(3) [OF c(1,2)] Cons.prems(3) by simp
  from Cons.IH [OF 1(2) A(1) [OF c(1,2)] this c(3)] A(2-4) [OF c(1,2)] assms(5) nt show ?case by simp
qed simp

section \<open>What is sent\<close>

text \<open>The home positions and the data of the batches that a machine gets for its local log, and
  the proposals to the local consensus.\<close>

definition local_log_data :: "machine_id \<Rightarrow> seq_output \<Rightarrow> (nat \<times> batch) list" where
  "local_log_data m o1 =
     (case o1 of
        Out (SendTo (Request (ForwardBatchData [b] hm pos)) [m'] ch) \<Rightarrow>
          if m' = m \<and> ch = kLocalLogChannel then [(pos, b)] else []
      | _ \<Rightarrow> [])"

definition proposed :: "seq_output \<Rightarrow> nat list" where
  "proposed o1 = (case o1 of Out (SendLocal (Request (PaxosPropose v)) ch) \<Rightarrow> [v] | _ \<Rightarrow> [])"

definition positions_sent :: "machine_id \<Rightarrow> seq_output list \<Rightarrow> (nat \<times> batch) list" where
  "positions_sent m out = concat (map (local_log_data m) out)"

definition proposals :: "seq_output list \<Rightarrow> nat list" where
  "proposals out = concat (map proposed out)"

definition machines_ok :: "configuration \<Rightarrow> bool" where
  "machines_ok config \<longleftrightarrow> local_replica config < num_replicas config \<and> local_partition config < num_partitions config \<and>
     num_replicas config * num_partitions config \<le> 2 ^ 31"

lemma MakeMachineId_inject:
  assumes "machines_ok config" "p < num_partitions config" "q < num_partitions config"
    and "MakeMachineId config (local_replica config) p = MakeMachineId config (local_replica config) q"
  shows "p = q"
proof -
  have b: "local_replica config * num_partitions config + x < 2 ^ 31" if "x < num_partitions config" for x
    using mult_add_less [of "local_replica config" "num_replicas config" x "num_partitions config"] that assms(1)
    by (simp add: machines_ok_def)
  have "(local_replica config, p) = (local_replica config, q)"
    using Unpack_MakeMachineId [OF assms(2) b [OF assms(2)]] Unpack_MakeMachineId [OF assms(3) b [OF assms(3)]]
    unfolding assms(4) by (rule trans [OF sym])
  then show ?thesis by (rule Pair_inject)
qed

lemma local_sends_positions:
  assumes "machines_ok config" "p < num_partitions config"
  shows "positions_sent (MakeMachineId config (local_replica config) p) (local_sends config bs pos) = [(pos, bs ! p)]"
    "proposals (local_sends config bs pos) = [local_partition config]"
proof -
  let ?f = "\<lambda>q. local_log_data (MakeMachineId config (local_replica config) p)
    (Out (SendTo (NewBatchForwardingMessage config [bs ! q] pos) [MakeMachineId config (local_replica config) q] kLocalLogChannel))"
  have "concat (map ?f [0..<num_partitions config]) = [(pos, bs ! p)]"
    using MakeMachineId_inject [OF assms(1) assms(2)] assms(2)
    by (intro concat_map_single [of _ p]) (auto simp: local_log_data_def NewBatchForwardingMessage_def dest: sym)
  then show "positions_sent (MakeMachineId config (local_replica config) p) (local_sends config bs pos) = [(pos, bs ! p)]"
    by (simp add: positions_sent_def local_sends_def comp_def local_log_data_def [of _ "Out (SendLocal _ _)"])
  show "proposals (local_sends config bs pos) = [local_partition config]"
    by (simp add: proposals_def local_sends_def comp_def proposed_def)
qed

lemma send_batches_positions:
  assumes "machines_ok config" "p < num_partitions config" "pc_delay_pct (proto_config config) = 0"
    and "pos + length bss < 2 ^ 32"
  shows "positions_sent (MakeMachineId config (local_replica config) p) (send_batches_loop config bss pos coins) =
      map (\<lambda>i. (pos + i, bss ! i ! p)) [0..<length bss] \<and>
    proposals (send_batches_loop config bss pos coins) = replicate (length bss) (local_partition config)"
  using assms(4)
proof (induction bss arbitrary: pos coins)
  case (Cons bs bss)
  let ?rest = "send_batches_loop config bss (pos + 1) (drop 1 coins)"
  let ?rep = "Out (SendTo (NewBatchForwardingMessage config bs pos) (batch_destinations config pos) kInterleaverChannel)"
  have m: "(pos + 1) mod 2 ^ 32 = pos + 1" using Cons.prems by (intro mod_less) simp
  have e: "send_batches_loop config (bs # bss) pos coins = local_sends config bs pos @ ?rep # ?rest"
    unfolding send_batches_loop.simps Let_def m using assms(3) by simp
  have z: "local_log_data mm ?rep = []" "proposed ?rep = []" for mm
    by (auto simp: local_log_data_def proposed_def NewBatchForwardingMessage_def kInterleaverChannel_def kLocalLogChannel_def
        split: list.splits)
  have IH: "positions_sent (MakeMachineId config (local_replica config) p) ?rest =
      map (\<lambda>i. (pos + 1 + i, bss ! i ! p)) [0..<length bss] \<and>
      proposals ?rest = replicate (length bss) (local_partition config)"
    by (rule Cons.IH) (use Cons.prems in simp)
  have up: "[0..<length (bs # bss)] = 0 # map Suc [0..<length bss]"
    unfolding length_Cons upt_conv_Cons [OF zero_less_Suc] map_Suc_upt ..
  have app: "positions_sent mm (xs @ x # ys) = positions_sent mm xs @ local_log_data mm x @ positions_sent mm ys"
    "proposals (xs @ x # ys) = proposals xs @ proposed x @ proposals ys" for xs x ys mm
    by (simp_all add: positions_sent_def proposals_def)
  show ?case
    using IH unfolding e up app z local_sends_positions [OF assms(1,2)] by (simp add: comp_def)
qed (simp add: positions_sent_def proposals_def)

section \<open>Rounds of batching and sending\<close>

fun seq_rounds ::
  "remaster_protocol \<Rightarrow> configuration \<Rightarrow> ((int \<times> transaction) list \<times> int \<times> bool list) list \<Rightarrow> sequencer \<Rightarrow> (sequencer \<times> seq_output list) result" where
  "seq_rounds rp config [] s = Inr (s, [])"
| "seq_rounds rp config ((txns, now, coins) # rs) s =
     (case batch_all rp config txns s of
        Inl e \<Rightarrow> Inl e
      | Inr s1 \<Rightarrow>
          (case on_batch_timer config now coins s1 of
             (s2, out1) \<Rightarrow> (case seq_rounds rp config rs s2 of Inl e \<Rightarrow> Inl e | Inr (s3, out2) \<Rightarrow> Inr (s3, out1 @ out2))))"

lemma on_batch_timer_positions:
  assumes "machines_ok config" "p < num_partitions config" "pc_delay_pct (proto_config config) = 0"
    and "batches_ok config s" "batch_id_counter s + 1 < 2 ^ 32" "on_batch_timer config now coins s = (s', out)"
  shows "positions_sent (MakeMachineId config (local_replica config) p) out =
      map (\<lambda>i. (batch_id_counter s - length (seq_batches s) + i, seq_batches s ! i ! p)) [0..<length (seq_batches s)]"
    "proposals out = replicate (length (seq_batches s)) (local_partition config)"
    "batches_ok config s'" "batch_id_counter s' = batch_id_counter s + 1" "length (seq_batches s') = 1"
    "partition_content p s' = []"
proof -
  let ?pos = "batch_id_counter s - length (seq_batches s)"
  have le: "length (seq_batches s) \<le> batch_id_counter s" using assms(4) by (simp add: batches_ok_def)
  then have i: "int (batch_id_counter s) - int (length (seq_batches s)) = int ?pos" by simp
  have "?pos < 2 ^ 32" using assms(5) by simp
  then have pos: "uint32_of_int (int (batch_id_counter s) - int (length (seq_batches s))) = ?pos"
    unfolding i by (rule uint32_of_int_int)
  let ?s = "s\<lparr>seq_stats := record_batch now (total_batch_size s) (seq_stats s)\<rparr>"
  have out: "out = send_batches_loop config (seq_batches s) ?pos coins" and s': "s' = StartOver config ?s"
    using assms(6) by (simp_all add: on_batch_timer_def SendBatches_def pos)
  have "?pos + length (seq_batches s) < 2 ^ 32" using assms(5) le by simp
  from send_batches_positions [OF assms(1-3) this]
  show "positions_sent (MakeMachineId config (local_replica config) p) out =
      map (\<lambda>i. (?pos + i, seq_batches s ! i ! p)) [0..<length (seq_batches s)]"
    "proposals out = replicate (length (seq_batches s)) (local_partition config)" by (simp_all add: out)
  have "batch_id_counter ?s + 1 < 2 ^ 64" using assms(5) by simp
  from StartOver_ok [OF this] assms(2)
  show "batches_ok config s'" "batch_id_counter s' = batch_id_counter s + 1" "length (seq_batches s') = 1"
    "partition_content p s' = []" by (simp_all add: s')
qed

definition round_txns :: "((int \<times> transaction) list \<times> int \<times> bool list) list \<Rightarrow> transaction list" where
  "round_txns rs = concat (map (map snd \<circ> fst) rs)"

text \<open>Over any number of rounds the data for one partition carries the positions \<open>0, 1, 2, ...\<close> without
  gap, ids that are counted in the same way, one proposal each, and all the transactions in order.\<close>

lemma seq_rounds_positions:
  assumes "machines_ok config" "p < num_partitions config" "pc_delay_pct (proto_config config) = 0"
    and "seq_rounds rp config rs s = Inr (s', out)" "batches_ok config s"
    and "batch_id_counter s + length (round_txns rs) + length rs < 2 ^ 32"
    and "list_all (\<lambda>t. distinct (involved_partitions (internal t))) (round_txns rs)"
  shows "\<exists>data. positions_sent (MakeMachineId config (local_replica config) p) out =
      zip [batch_id_counter s - length (seq_batches s)..<batch_id_counter s' - length (seq_batches s')] data \<and>
    length data = (batch_id_counter s' - length (seq_batches s')) - (batch_id_counter s - length (seq_batches s)) \<and>
    map b_id data = map (\<lambda>i. Sequencer_batch_id config (i + 1))
      [batch_id_counter s - length (seq_batches s)..<batch_id_counter s' - length (seq_batches s')] \<and>
    concat (map b_transactions data) @ partition_content p s' =
      partition_content p s @ concat (map (share rp config p) (round_txns rs)) \<and>
    proposals out = replicate (length data) (local_partition config) \<and>
    batch_id_counter s - length (seq_batches s) \<le> batch_id_counter s' - length (seq_batches s')"
  using assms(4-7)
proof (induction rs arbitrary: s out)
  case Nil
  then show ?case by (auto simp: positions_sent_def proposals_def round_txns_def)
next
  case (Cons r rs)
  obtain txns now coins where r: "r = (txns, now, coins)" by (cases r)
  from Cons.prems(1) r obtain s1 s2 out1 out2 where
    1: "batch_all rp config txns s = Inr s1" "on_batch_timer config now coins s1 = (s2, out1)"
      "seq_rounds rp config rs s2 = Inr (s', out2)" "out = out1 @ out2"
    by (auto split: sum.splits prod.splits)
  have rt: "round_txns (r # rs) = map snd txns @ round_txns rs" by (simp add: round_txns_def r)
  have c: "batch_id_counter s + length txns < 2 ^ 64" "list_all (\<lambda>t. distinct (involved_partitions (internal t))) (map snd txns)"
    using Cons.prems(3,4) rt by auto
  note B = batch_all_ok [OF 1(1) Cons.prems(2) c assms(2)]
  then have ok1: "batches_ok config s1" and c1: "batch_id_counter s1 \<le> batch_id_counter s + length txns"
    and pos1: "batch_id_counter s1 - length (seq_batches s1) = batch_id_counter s - length (seq_batches s)"
    and con1: "partition_content p s1 = partition_content p s @ concat (map (share rp config p) (map snd txns))" by simp_all
  have "batch_id_counter s1 + 1 < 2 ^ 32" using c1 Cons.prems(3) rt by simp
  note T = on_batch_timer_positions [OF assms(1-3) ok1 this 1(2)]
  have "batch_id_counter s2 + length (round_txns rs) + length rs < 2 ^ 32"
    "list_all (\<lambda>t. distinct (involved_partitions (internal t))) (round_txns rs)"
    using T(4) c1 Cons.prems(3,4) rt by simp_all
  from Cons.IH [OF 1(3) T(3) this] obtain data2 where
    D: "positions_sent (MakeMachineId config (local_replica config) p) out2 =
        zip [batch_id_counter s1..<batch_id_counter s' - length (seq_batches s')] data2"
      "length data2 = (batch_id_counter s' - length (seq_batches s')) - batch_id_counter s1"
      "map b_id data2 = map (\<lambda>i. Sequencer_batch_id config (i + 1)) [batch_id_counter s1..<batch_id_counter s' - length (seq_batches s')]"
      "concat (map b_transactions data2) @ partition_content p s' = concat (map (share rp config p) (round_txns rs))"
      "proposals out2 = replicate (length data2) (local_partition config)"
      "batch_id_counter s1 \<le> batch_id_counter s' - length (seq_batches s')"
    using T(4-6) by auto
  define data1 where "data1 = map (\<lambda>bs. bs ! p) (seq_batches s1)"
  let ?n0 = "batch_id_counter s1 - length (seq_batches s1)" and ?n2 = "batch_id_counter s' - length (seq_batches s')"
  have le: "length (seq_batches s1) \<le> batch_id_counter s1" using ok1 by (simp add: batches_ok_def)
  have up: "[?n0..<?n2] = [?n0..<batch_id_counter s1] @ [batch_id_counter s1..<?n2]"
    using D(6) by (intro upt_split) simp_all
  have l1: "length data1 = length [?n0..<batch_id_counter s1]" using le by (simp add: data1_def)
  have z1: "positions_sent (MakeMachineId config (local_replica config) p) out1 = zip [?n0..<batch_id_counter s1] data1"
    unfolding T(1) using l1 by (intro nth_equalityI) (simp_all add: data1_def)
  have id1: "map b_id data1 = map (\<lambda>i. Sequencer_batch_id config (i + 1)) [?n0..<batch_id_counter s1]"
  proof (rule nth_equalityI)
    fix i
    assume "i < length (map b_id data1)"
    then have i: "i < length (seq_batches s1)" by (simp add: data1_def)
    then have "seq_batches s1 ! i ! p \<in> set (seq_batches s1 ! i)"
      using ok1 assms(2) by (simp add: batches_ok_def)
    with ok1 i have "b_id (seq_batches s1 ! i ! p) = Sequencer_batch_id config (?n0 + i + 1)"
      unfolding batches_ok_def by blast
    with i l1 show "map b_id data1 ! i = map (\<lambda>i. Sequencer_batch_id config (i + 1)) [?n0..<batch_id_counter s1] ! i"
      by (simp add: data1_def)
  qed (use l1 in simp)
  have con: "concat (map b_transactions data1) = partition_content p s1"
    by (simp add: data1_def partition_content_def comp_def)
  have pr: "proposals out = replicate (length (data1 @ data2)) (local_partition config)"
    using T(2) D(5) by (simp add: 1(4) proposals_def data1_def replicate_add)
  have ps: "positions_sent (MakeMachineId config (local_replica config) p) out = zip [?n0..<?n2] (data1 @ data2)"
    unfolding up using z1 D(1) l1 by (simp add: 1(4) positions_sent_def)
  have ids: "map b_id (data1 @ data2) = map (\<lambda>i. Sequencer_batch_id config (i + 1)) [?n0..<?n2]"
    unfolding up map_append id1 D(3) ..
  have len: "length (data1 @ data2) = ?n2 - ?n0" using l1 D(2,6) le by simp
  have cc: "concat (map b_transactions (data1 @ data2)) @ partition_content p s' =
      partition_content p s @ concat (map (share rp config p) (round_txns (r # rs)))"
    using D(4) by (simp add: con con1 rt)
  have mono: "?n0 \<le> ?n2" using D(6) le by simp
  show ?case
    unfolding pos1 [symmetric] using ps len ids cc pr mono by blast
qed

section \<open>Simulated delays\<close>

text \<open>The first batch that is delayed ends the loop over the batches.\<close>

lemma send_batches_delayed:
  assumes "machines_ok config" "p < num_partitions config" "pc_delay_pct (proto_config config) \<noteq> 0"
    and "pos + length bss < 2 ^ 32" "j < length bss" "j < length coins" "coins ! j" "\<forall>i < j. \<not> coins ! i"
  shows "positions_sent (MakeMachineId config (local_replica config) p) (send_batches_loop config bss pos coins) =
      map (\<lambda>i. (pos + i, bss ! i ! p)) [0..<Suc j] \<and>
    proposals (send_batches_loop config bss pos coins) = replicate (Suc j) (local_partition config)"
  using assms(4-)
proof (induction bss arbitrary: pos coins j)
  case (Cons bs bss)
  let ?rest = "send_batches_loop config bss (pos + 1) (drop 1 coins)"
  let ?to = "SendTo (NewBatchForwardingMessage config bs pos) (batch_destinations config pos) kInterleaverChannel"
  have z: "local_log_data mm (Out ?to) = []" "proposed (Out ?to) = []" "local_log_data mm (SendLater d ?to) = []"
    "proposed (SendLater d ?to) = []" for mm d
    by (auto simp: local_log_data_def proposed_def NewBatchForwardingMessage_def kInterleaverChannel_def kLocalLogChannel_def
        split: list.splits)
  have app: "positions_sent mm (xs @ x # ys) = positions_sent mm xs @ local_log_data mm x @ positions_sent mm ys"
    "proposals (xs @ x # ys) = proposals xs @ proposed x @ proposals ys" for xs x ys mm
    by (simp_all add: positions_sent_def proposals_def)
  have nil: "positions_sent mm [] = []" "proposals [] = []" for mm by (simp_all add: positions_sent_def proposals_def)
  obtain c cs where coins: "coins = c # cs" using Cons.prems(3) by (cases coins) auto
  show ?case
  proof (cases j)
    case 0
    then have c: c using Cons.prems(4) coins by simp
    have "send_batches_loop config (bs # bss) pos coins =
        local_sends config bs pos @ [SendLater (pc_delay_amount_ms (proto_config config)) ?to]"
      using c assms(3) by (simp add: coins Let_def)
    then show ?thesis using 0 by (simp add: app z nil local_sends_positions [OF assms(1,2)])
  next
    case (Suc j')
    have m: "(pos + 1) mod 2 ^ 32 = pos + 1" using Cons.prems by (intro mod_less) simp
    have c: "\<not> c" using Cons.prems(5) Suc coins by auto
    have e: "send_batches_loop config (bs # bss) pos coins = local_sends config bs pos @ Out ?to # ?rest"
      unfolding send_batches_loop.simps Let_def m using c by (simp add: coins)
    have IH: "positions_sent (MakeMachineId config (local_replica config) p) ?rest =
        map (\<lambda>i. (pos + 1 + i, bss ! i ! p)) [0..<Suc j'] \<and> proposals ?rest = replicate (Suc j') (local_partition config)"
      by (rule Cons.IH) (use Cons.prems Suc coins in auto)
    have up: "[0..<Suc (Suc j')] = 0 # map Suc [0..<Suc j']"
      unfolding upt_conv_Cons [OF zero_less_Suc, of "Suc j'"] map_Suc_upt ..
    show ?thesis
      using IH unfolding e Suc up app z local_sends_positions [OF assms(1,2)] by (simp add: comp_def del: upt_Suc)
  qed
qed simp

text \<open>The positions of the batches after a delayed one are skipped as well.\<close>

lemma on_batch_timer_delayed:
  assumes "machines_ok config" "p < num_partitions config" "pc_delay_pct (proto_config config) \<noteq> 0"
    and "batches_ok config s" "batch_id_counter s + 1 < 2 ^ 32" "on_batch_timer config now coins s = (s', out)"
    and "j < length (seq_batches s)" "j < length coins" "coins ! j" "\<forall>i < j. \<not> coins ! i"
  shows "positions_sent (MakeMachineId config (local_replica config) p) out =
      map (\<lambda>i. (batch_id_counter s - length (seq_batches s) + i, seq_batches s ! i ! p)) [0..<Suc j]"
    "proposals out = replicate (Suc j) (local_partition config)"
    "batch_id_counter s' - length (seq_batches s') = batch_id_counter s" "partition_content p s' = []"
proof -
  let ?pos = "batch_id_counter s - length (seq_batches s)"
  have le: "length (seq_batches s) \<le> batch_id_counter s" using assms(4) by (simp add: batches_ok_def)
  then have i: "int (batch_id_counter s) - int (length (seq_batches s)) = int ?pos" by simp
  have "?pos < 2 ^ 32" using assms(5) by simp
  then have pos: "uint32_of_int (int (batch_id_counter s) - int (length (seq_batches s))) = ?pos"
    unfolding i by (rule uint32_of_int_int)
  let ?s = "s\<lparr>seq_stats := record_batch now (total_batch_size s) (seq_stats s)\<rparr>"
  have out: "out = send_batches_loop config (seq_batches s) ?pos coins" and s': "s' = StartOver config ?s"
    using assms(6) by (simp_all add: on_batch_timer_def SendBatches_def pos)
  have "?pos + length (seq_batches s) < 2 ^ 32" using assms(5) le by simp
  from send_batches_delayed [OF assms(1-3) this assms(7-10)]
  show "positions_sent (MakeMachineId config (local_replica config) p) out =
      map (\<lambda>i. (?pos + i, seq_batches s ! i ! p)) [0..<Suc j]"
    "proposals out = replicate (Suc j) (local_partition config)" by (simp_all only: out)
  have "batch_id_counter ?s + 1 < 2 ^ 64" using assms(5) by simp
  from StartOver_ok [OF this] assms(2)
  show "batch_id_counter s' - length (seq_batches s') = batch_id_counter s" "partition_content p s' = []" by (simp_all add: s')
qed

end
