(* ===== verification/Paxos_Model.thy ===== *)
theory Paxos_Model
  imports Slog_Config Slog_Messages
begin

text \<open>
  The consensus component: \<^verbatim>\<open>paxos/leader.cpp\<close>, \<^verbatim>\<open>paxos/acceptor.cpp\<close>,
  \<^verbatim>\<open>paxos/simulated_multi_paxos.cpp\<close> and its two users in \<^verbatim>\<open>module/consensus.cpp\<close>. Leaders are never
  elected: the first member of a group leads for ever. A handler returns its messages, which all
  go to the channel of the group, and its calls of the virtual \<^verbatim>\<open>OnCommit\<close>.
\<close>

section \<open>Leader and acceptor\<close>

record paxos_instance =
  pi_ballot :: nat
  pi_value :: nat
  num_accepts :: nat
  num_commits :: nat

record leader =
  members :: "machine_id list"
  acceptors :: "machine_id list"
  me :: machine_id
  is_elected :: bool
  is_member :: bool
  elected_leader :: machine_id
  next_empty_slot :: slot_id
  l_ballot :: "nat option"   \<comment> \<open>uninitialised on machines outside of the group\<close>
  instances :: "slot_id \<rightharpoonup> paxos_instance"

record paxos =
  px_leader :: leader
  px_acceptor :: nat   \<comment> \<open>the acceptor's ballot\<close>

datatype paxos_output =
    SendSameChannel envelope "machine_id list"
  | OnCommit slot_id nat machine_id

fun index_of :: "machine_id \<Rightarrow> machine_id list \<Rightarrow> nat option" where
  "index_of m [] = None"
| "index_of m (x # xs) = (if x = m then Some 0 else map_option Suc (index_of m xs))"

definition kPaxosDefaultLeaderPosition :: nat where
  "kPaxosDefaultLeaderPosition = 0"

definition Leader :: "machine_id list \<Rightarrow> machine_id \<Rightarrow> leader result" where
  "Leader ms m =
     (if ms = [] then Inl (UndefinedBehaviour ''members'')
      else
        let num_acceptors = (length ms - 1) div 2 * 2 + 1;
            pos = index_of m ms
        in Inr \<lparr>members = ms, acceptors = take num_acceptors ms, me = m,
                is_elected = (pos = Some kPaxosDefaultLeaderPosition), is_member = (pos \<noteq> None),
                elected_leader = ms ! kPaxosDefaultLeaderPosition, next_empty_slot = 0, l_ballot = pos,
                instances = Map.empty\<rparr>)"

definition Leader_ProcessCommitRequest :: "slot_id \<Rightarrow> nat \<Rightarrow> nat \<Rightarrow> leader \<Rightarrow> leader \<times> paxos_output list" where
  "Leader_ProcessCommitRequest slot v ldr l =
     (if slot \<ge> next_empty_slot l then l\<lparr>next_empty_slot := (slot + 1) mod 2 ^ 32\<rparr> else l,
      [OnCommit slot (v mod 2 ^ 32) (int32_of_uint32 ldr)])"

definition StartNewInstance :: "nat \<Rightarrow> leader \<Rightarrow> (leader \<times> paxos_output list) result" where
  "StartNewInstance v l =
     (case l_ballot l of
        None \<Rightarrow> Inl (UndefinedBehaviour ''ballot_'')
      | Some b \<Rightarrow>
          let slot = next_empty_slot l;
              inst = (case instances l slot of
                        None \<Rightarrow> (instances l)(slot \<mapsto> \<lparr>pi_ballot = b, pi_value = v, num_accepts = 0, num_commits = 0\<rparr>)
                      | Some _ \<Rightarrow> instances l)
          in Inr (l\<lparr>instances := inst, next_empty_slot := (slot + 1) mod 2 ^ 32\<rparr>,
                  [SendSameChannel (Request (PaxosAccept b slot v)) (acceptors l)]))"

definition Leader_HandleRequest :: "request \<Rightarrow> leader \<Rightarrow> (leader \<times> paxos_output list) result" where
  "Leader_HandleRequest req l =
     (case req of
        PaxosPropose v \<Rightarrow>
          if is_elected l then StartNewInstance v l else Inr (l, [SendSameChannel (Request req) [elected_leader l]])
      | PaxosCommit slot v ldr \<Rightarrow> Inr (Leader_ProcessCommitRequest slot v ldr l)
      | _ \<Rightarrow> Inr (l, []))"

text \<open>The second branch asks the commit response for the slot of an accept response, which is then
  the default value 0.\<close>

definition HandleResponse :: "response \<Rightarrow> leader \<Rightarrow> leader \<times> paxos_output list" where
  "HandleResponse res l =
     (case res of
        PaxosAccepted b slot \<Rightarrow>
          (case instances l slot of
             None \<Rightarrow> (l, [])
           | Some i \<Rightarrow>
               let i' = i\<lparr>num_accepts := num_accepts i + 1\<rparr>
               in (l\<lparr>instances := (instances l)(slot \<mapsto> i')\<rparr>,
                   if num_accepts i' = length (acceptors l) div 2 + 1
                   then [SendSameChannel (Request (PaxosCommit slot (pi_value i') (uint32_of_int (me l)))) (members l)]
                   else []))
      | PaxosCommitted _ \<Rightarrow>
          let slot = 0
          in (case instances l slot of
                None \<Rightarrow> (l, [])
              | Some i \<Rightarrow>
                  let i' = i\<lparr>num_commits := num_commits i + 1\<rparr>
                  in (if num_commits i' = length (members l) then l\<lparr>instances := (instances l)(slot := None)\<rparr>
                      else l\<lparr>instances := (instances l)(slot \<mapsto> i')\<rparr>, []))
      | _ \<Rightarrow> (l, []))"

definition Acceptor_HandleRequest :: "machine_id \<Rightarrow> request \<Rightarrow> nat \<Rightarrow> nat \<times> paxos_output list" where
  "Acceptor_HandleRequest from_machine req ballot =
     (case req of
        PaxosAccept b slot v \<Rightarrow>
          if b < ballot then (ballot, [])
          else (b, [SendSameChannel (Response (PaxosAccepted b slot)) [from_machine]])
      | PaxosCommit slot v ldr \<Rightarrow> (ballot, [SendSameChannel (Response (PaxosCommitted slot)) [from_machine]])
      | _ \<Rightarrow> (ballot, []))"

section \<open>The module and its users\<close>

definition SimulatedMultiPaxos :: "machine_id list \<Rightarrow> machine_id \<Rightarrow> paxos result" where
  "SimulatedMultiPaxos ms m = (case Leader ms m of Inl e \<Rightarrow> Inl e | Inr l \<Rightarrow> Inr \<lparr>px_leader = l, px_acceptor = 0\<rparr>)"

definition Paxos_OnInternalRequestReceived ::
  "machine_id \<Rightarrow> request \<Rightarrow> paxos \<Rightarrow> (paxos \<times> paxos_output list) result" where
  "Paxos_OnInternalRequestReceived from_machine req p =
     (case Leader_HandleRequest req (px_leader p) of
        Inl e \<Rightarrow> Inl e
      | Inr (l, out1) \<Rightarrow>
          (case Acceptor_HandleRequest from_machine req (px_acceptor p) of
             (a, out2) \<Rightarrow> Inr (\<lparr>px_leader = l, px_acceptor = a\<rparr>, out1 @ out2)))"

definition Paxos_OnInternalResponseReceived :: "response \<Rightarrow> paxos \<Rightarrow> paxos \<times> paxos_output list" where
  "Paxos_OnInternalResponseReceived res p =
     (case HandleResponse res (px_leader p) of (l, out) \<Rightarrow> (p\<lparr>px_leader := l\<rparr>, out))"

definition GetMembers :: "configuration \<Rightarrow> machine_id list" where
  "GetMembers config = map (MakeMachineId config (local_replica config)) [0..<num_partitions config]"

definition GetMembersForGlobal :: "configuration \<Rightarrow> machine_id list" where
  "GetMembersForGlobal config = map (\<lambda>rep. MakeMachineId config rep 0) [0..<num_replicas config]"

definition leader_replica_for_multi_home_ordering :: "configuration \<Rightarrow> nat" where
  "leader_replica_for_multi_home_ordering config = 0"

definition leader_partition_for_multi_home_ordering :: "configuration \<Rightarrow> nat" where
  "leader_partition_for_multi_home_ordering config = 0"

definition GlobalPaxos_multihome_orderers :: "configuration \<Rightarrow> machine_id list" where
  "GlobalPaxos_multihome_orderers config =
     map (\<lambda>rep. MakeMachineId config rep (leader_partition_for_multi_home_ordering config)) [0..<num_replicas config]"

definition GlobalPaxos_OnCommit :: "configuration \<Rightarrow> slot_id \<Rightarrow> nat \<Rightarrow> machine_id \<Rightarrow> send list" where
  "GlobalPaxos_OnCommit config slot v ldr =
     (if local_machine_id config \<noteq> ldr then []
      else [SendTo (Request (RemoteBatchOrder v slot 0 False)) (GlobalPaxos_multihome_orderers config) kMultiHomeOrdererChannel])"

definition LocalPaxos_OnCommit :: "slot_id \<Rightarrow> nat \<Rightarrow> machine_id \<Rightarrow> send list" where
  "LocalPaxos_OnCommit slot v ldr = [SendLocal (Request (LocalBatchOrder v slot (uint32_of_int ldr))) kLocalLogChannel]"

fun consensus_sends :: "channel \<Rightarrow> (slot_id \<Rightarrow> nat \<Rightarrow> machine_id \<Rightarrow> send list) \<Rightarrow> paxos_output list \<Rightarrow> send list" where
  "consensus_sends ch on_commit [] = []"
| "consensus_sends ch on_commit (SendSameChannel e ms # os) = SendTo e ms ch # consensus_sends ch on_commit os"
| "consensus_sends ch on_commit (OnCommit slot v ldr # os) = on_commit slot v ldr @ consensus_sends ch on_commit os"

section \<open>A group of machines and its network\<close>

text \<open>Messages in flight are delivered in any order. \<open>px_history\<close> collects the calls of \<^verbatim>\<open>OnCommit\<close> and
  \<open>px_proposed\<close> the values proposed by the modules that use the group.\<close>

record paxos_system =
  px_nodes :: "machine_id \<Rightarrow> paxos"
  px_net :: "(machine_id \<times> machine_id \<times> envelope) list"
  px_history :: "(machine_id \<times> slot_id \<times> nat \<times> machine_id) list"
  px_proposed :: "nat list"

definition sent_by :: "machine_id \<Rightarrow> paxos_output list \<Rightarrow> (machine_id \<times> machine_id \<times> envelope) list" where
  "sent_by m out = concat (map (\<lambda>o1. case o1 of SendSameChannel e ms \<Rightarrow> map (\<lambda>m'. (m, m', e)) ms | _ \<Rightarrow> []) out)"

definition commits_of :: "machine_id \<Rightarrow> paxos_output list \<Rightarrow> (machine_id \<times> slot_id \<times> nat \<times> machine_id) list" where
  "commits_of m out = concat (map (\<lambda>o1. case o1 of OnCommit slot v ldr \<Rightarrow> [(m, slot, v, ldr)] | _ \<Rightarrow> []) out)"

definition after_handler :: "machine_id \<Rightarrow> paxos \<Rightarrow> paxos_output list \<Rightarrow> paxos_system \<Rightarrow> paxos_system" where
  "after_handler m p out S =
     S\<lparr>px_nodes := (px_nodes S)(m := p), px_net := px_net S @ sent_by m out, px_history := px_history S @ commits_of m out\<rparr>"

definition paxos_handle :: "machine_id \<Rightarrow> envelope \<Rightarrow> paxos \<Rightarrow> (paxos \<times> paxos_output list) result" where
  "paxos_handle from_machine e p =
     (case e of Request req \<Rightarrow> Paxos_OnInternalRequestReceived from_machine req p
      | Response res \<Rightarrow> Inr (Paxos_OnInternalResponseReceived res p))"

inductive paxos_run :: "machine_id list \<Rightarrow> nat \<Rightarrow> paxos_system \<Rightarrow> bool" for ms where
  start: "(\<And>m. SimulatedMultiPaxos ms m = Inr (nodes m)) \<Longrightarrow>
    paxos_run ms 0 \<lparr>px_nodes = nodes, px_net = [], px_history = [], px_proposed = []\<rparr>"
| propose: "paxos_run ms n S \<Longrightarrow> paxos_handle m (Request (PaxosPropose v)) (px_nodes S m) = Inr (p, out) \<Longrightarrow>
    paxos_run ms (Suc n) (after_handler m p out (S\<lparr>px_proposed := v # px_proposed S\<rparr>))"
| deliver: "paxos_run ms n S \<Longrightarrow> px_net S = xs @ (m, m', e) # ys \<Longrightarrow>
    paxos_handle m e (px_nodes S m') = Inr (p, out) \<Longrightarrow>
    paxos_run ms (Suc n) (after_handler m' p out (S\<lparr>px_net := xs @ ys\<rparr>))"

text \<open>The invariant: \<open>vs\<close> lists the values the leader has started instances for, in the order of the
  slots. Everything that is known about a slot agrees with \<open>vs\<close>.\<close>

fun message_ok :: "machine_id list \<Rightarrow> nat list \<Rightarrow> nat list \<Rightarrow> envelope \<Rightarrow> bool" where
  "message_ok ms vs props (Request (PaxosPropose v)) \<longleftrightarrow> v \<in> set props"
| "message_ok ms vs props (Request (PaxosCommit slot v ldr)) \<longleftrightarrow>
     slot < length vs \<and> v = vs ! slot \<and> ldr = uint32_of_int (ms ! 0)"
| "message_ok ms vs props _ \<longleftrightarrow> True"

definition node_ok :: "machine_id list \<Rightarrow> nat list \<Rightarrow> machine_id \<Rightarrow> leader \<Rightarrow> bool" where
  "node_ok ms vs m l \<longleftrightarrow>
     me l = m \<and> (is_elected l \<longleftrightarrow> m = ms ! 0) \<and>
     (m = ms ! 0 \<longrightarrow> next_empty_slot l = length vs) \<and> (m \<noteq> ms ! 0 \<longrightarrow> instances l = Map.empty) \<and>
     (\<forall>slot i. instances l slot = Some i \<longrightarrow> slot < length vs \<and> pi_value i = vs ! slot)"

definition commit_ok :: "machine_id list \<Rightarrow> nat list \<Rightarrow> machine_id \<times> slot_id \<times> nat \<times> machine_id \<Rightarrow> bool" where
  "commit_ok ms vs c \<longleftrightarrow> (case c of (m, slot, v, ldr) \<Rightarrow>
     slot < length vs \<and> v = vs ! slot mod 2 ^ 32 \<and> ldr = int32_of_uint32 (uint32_of_int (ms ! 0)))"

definition system_ok :: "machine_id list \<Rightarrow> nat list \<Rightarrow> paxos_system \<Rightarrow> bool" where
  "system_ok ms vs S \<longleftrightarrow>
     (\<forall>m. node_ok ms vs m (px_leader (px_nodes S m))) \<and>
     (\<forall>x \<in> set (px_net S). message_ok ms vs (px_proposed S) (snd (snd x))) \<and>
     (\<forall>c \<in> set (px_history S). commit_ok ms vs c) \<and>
     set vs \<subseteq> set (px_proposed S)"

definition outputs_ok :: "machine_id list \<Rightarrow> nat list \<Rightarrow> nat list \<Rightarrow> machine_id \<Rightarrow> paxos_output list \<Rightarrow> bool" where
  "outputs_ok ms vs props m out \<longleftrightarrow>
     (\<forall>o1 \<in> set out. case o1 of SendSameChannel e _ \<Rightarrow> message_ok ms vs props e
        | OnCommit slot v ldr \<Rightarrow> commit_ok ms vs (m, slot, v, ldr))"

lemma outputs_ok_simps [simp]:
  "outputs_ok ms vs props m []"
  "outputs_ok ms vs props m (SendSameChannel e tos # os) \<longleftrightarrow> message_ok ms vs props e \<and> outputs_ok ms vs props m os"
  "outputs_ok ms vs props m (OnCommit slot v ldr # os) \<longleftrightarrow> commit_ok ms vs (m, slot, v, ldr) \<and> outputs_ok ms vs props m os"
  "outputs_ok ms vs props m (os @ os') \<longleftrightarrow> outputs_ok ms vs props m os \<and> outputs_ok ms vs props m os'"
  by (auto simp: outputs_ok_def)

lemma outputs_ok_sent:
  assumes "outputs_ok ms vs props m out"
  shows "x \<in> set (sent_by m out) \<Longrightarrow> message_ok ms vs props (snd (snd x))" "c \<in> set (commits_of m out) \<Longrightarrow> commit_ok ms vs c"
  using assms by (induction out) (auto simp: sent_by_def commits_of_def outputs_ok_def split: paxos_output.splits)

lemma message_ok_mono:
  "message_ok ms vs props e \<Longrightarrow> set props \<subseteq> set props' \<Longrightarrow> message_ok ms (vs @ ws) props' e"
  by (induction ms vs props e rule: message_ok.induct) (auto simp: nth_append)

lemma commit_ok_mono: "commit_ok ms vs c \<Longrightarrow> commit_ok ms (vs @ ws) c"
  by (auto simp: commit_ok_def nth_append)

lemma node_ok_mono: "node_ok ms vs m l \<Longrightarrow> m \<noteq> ms ! 0 \<Longrightarrow> node_ok ms (vs @ ws) m l"
  by (auto simp: node_ok_def)

text \<open>Starting an instance extends \<open>vs\<close>; every other handler keeps it.\<close>

lemma StartNewInstance_ok:
  assumes "StartNewInstance v l = Inr (l', out)" "node_ok ms vs m l" "m = ms ! 0" "length vs + 1 < 2 ^ 32"
  shows "node_ok ms (vs @ [v]) m l'" "outputs_ok ms (vs @ [v]) props m out"
proof -
  have slot: "next_empty_slot l = length vs" "instances l (length vs) = None"
    using assms(2,3) by (auto simp: node_ok_def dest: spec [of _ "length vs"] split: option.splits)
  with assms(1) obtain b where
    b: "l' = l\<lparr>instances := (instances l)(length vs \<mapsto> \<lparr>pi_ballot = b, pi_value = v, num_accepts = 0, num_commits = 0\<rparr>),
               next_empty_slot := length vs + 1\<rparr>"
      "out = [SendSameChannel (Request (PaxosAccept b (length vs) v)) (acceptors l)]"
    using assms(4) by (auto simp: StartNewInstance_def Let_def split: option.splits)
  show "node_ok ms (vs @ [v]) m l'"
    using assms(2,3) by (auto simp: b(1) node_ok_def nth_append less_Suc_eq)
  show "outputs_ok ms (vs @ [v]) props m out" by (simp add: b(2))
qed

lemma HandleResponse_ok:
  assumes "HandleResponse res l = (l', out)" "node_ok ms vs m l"
  shows "node_ok ms vs m l'" "outputs_ok ms vs props m out"
  using assms by (auto simp: HandleResponse_def node_ok_def Let_def split: response.splits option.splits if_splits)

lemma Leader_HandleRequest_ok:
  assumes "Leader_HandleRequest req l = Inr (l', out)" "node_ok ms vs m l" "message_ok ms vs props (Request req)"
    and "length vs + 1 < 2 ^ 32"
  obtains ws where "node_ok ms (vs @ ws) m l'" "outputs_ok ms (vs @ ws) props m out" "set ws \<subseteq> set props"
    "length ws \<le> 1" "m \<noteq> ms ! 0 \<longrightarrow> ws = []"
proof (cases "\<exists>v. req = PaxosPropose v \<and> is_elected l")
  case True
  then obtain v where v: "req = PaxosPropose v" "is_elected l" by blast
  then have "StartNewInstance v l = Inr (l', out)" "m = ms ! 0" using assms(1,2)
    by (auto simp: Leader_HandleRequest_def node_ok_def)
  note ok = StartNewInstance_ok [OF this(1) assms(2) this(2) assms(4)]
  show ?thesis by (rule that [of "[v]"]) (use ok v(1) assms(3) \<open>m = ms ! 0\<close> in simp_all)
next
  case False
  then have "node_ok ms vs m l' \<and> outputs_ok ms vs props m out"
    using assms by (auto simp: Leader_HandleRequest_def Leader_ProcessCommitRequest_def node_ok_def commit_ok_def
        split: request.splits if_splits)
  with that [of "[]"] show ?thesis by simp
qed

lemma paxos_handle_ok:
  assumes "paxos_handle from_machine e p = Inr (p', out)" "node_ok ms vs m (px_leader p)" "message_ok ms vs props e"
    and "length vs + 1 < 2 ^ 32"
  obtains ws where "node_ok ms (vs @ ws) m (px_leader p')" "outputs_ok ms (vs @ ws) props m out" "set ws \<subseteq> set props"
    "length ws \<le> 1" "m \<noteq> ms ! 0 \<longrightarrow> ws = []"
proof (cases e)
  case (Request req)
  with assms(1) obtain l out1 a out2 where
    1: "Leader_HandleRequest req (px_leader p) = Inr (l, out1)" "Acceptor_HandleRequest from_machine req (px_acceptor p) = (a, out2)"
      "p' = \<lparr>px_leader = l, px_acceptor = a\<rparr>" "out = out1 @ out2"
    by (auto simp: paxos_handle_def Paxos_OnInternalRequestReceived_def split: sum.splits prod.splits)
  have "outputs_ok ms xs props m out2" for xs
    using 1(2) by (auto simp: Acceptor_HandleRequest_def split: request.splits if_splits)
  moreover from Leader_HandleRequest_ok [OF 1(1) assms(2) _ assms(4), of props] assms(3) Request obtain ws where
    "node_ok ms (vs @ ws) m l" "outputs_ok ms (vs @ ws) props m out1" "set ws \<subseteq> set props"
    "length ws \<le> 1" "m \<noteq> ms ! 0 \<longrightarrow> ws = []" by metis
  ultimately show ?thesis using that 1(3,4) by simp
next
  case (Response res)
  with assms(1) obtain l where 1: "HandleResponse res (px_leader p) = (l, out)" "px_leader p' = l"
    by (auto simp: paxos_handle_def Paxos_OnInternalResponseReceived_def split: prod.splits)
  from HandleResponse_ok [OF 1(1) assms(2)] 1(2) that [of "[]"] show ?thesis by simp
qed

lemma system_okD:
  assumes "system_ok ms vs S"
  shows "node_ok ms vs m (px_leader (px_nodes S m))" "x \<in> set (px_net S) \<Longrightarrow> message_ok ms vs (px_proposed S) (snd (snd x))"
    "c \<in> set (px_history S) \<Longrightarrow> commit_ok ms vs c" "set vs \<subseteq> set (px_proposed S)"
  using assms by (simp_all add: system_ok_def)

lemma after_handler_ok:
  assumes S: "system_ok ms vs S" and e: "message_ok ms vs (px_proposed S) e"
    and h: "paxos_handle from_machine e (px_nodes S m) = Inr (p, out)" and len: "length vs + 1 < 2 ^ 32"
  obtains vs' where "system_ok ms vs' (after_handler m p out S)" "length vs' \<le> length vs + 1"
proof -
  from paxos_handle_ok [OF h system_okD(1) [OF S] e len] obtain ws where
    ws: "node_ok ms (vs @ ws) m (px_leader p)" "outputs_ok ms (vs @ ws) (px_proposed S) m out"
      "set ws \<subseteq> set (px_proposed S)" "length ws \<le> 1" "m \<noteq> ms ! 0 \<longrightarrow> ws = []" .
  have "node_ok ms (vs @ ws) m' (px_leader (((px_nodes S)(m := p)) m'))" for m'
  proof (cases "m' = m")
    case False
    have "node_ok ms (vs @ ws) m' (px_leader (px_nodes S m'))"
    proof (cases "m' = ms ! 0")
      case True
      with False ws(5) have "ws = []" by blast
      with system_okD(1) [OF S] show ?thesis by simp
    qed (rule node_ok_mono [OF system_okD(1) [OF S]])
    with False show ?thesis by simp
  qed (use ws(1) in simp)
  moreover have "message_ok ms (vs @ ws) (px_proposed S) (snd (snd x))" if "x \<in> set (px_net S @ sent_by m out)" for x
    using that outputs_ok_sent(1) [OF ws(2), of x] message_ok_mono [OF system_okD(2) [OF S, of x] order_refl, of ws]
    unfolding set_append Un_iff by blast
  moreover have "commit_ok ms (vs @ ws) c" if "c \<in> set (px_history S @ commits_of m out)" for c
    using that outputs_ok_sent(2) [OF ws(2), of c] commit_ok_mono [OF system_okD(3) [OF S, of c], of ws]
    unfolding set_append Un_iff by blast
  moreover have "set (vs @ ws) \<subseteq> set (px_proposed S)" using ws(3) system_okD(4) [OF S] by simp
  ultimately have "system_ok ms (vs @ ws) (after_handler m p out S)"
    unfolding system_ok_def after_handler_def by simp
  with that [of "vs @ ws"] ws(4) show ?thesis by simp
qed

lemma index_of_0: "ms \<noteq> [] \<Longrightarrow> index_of m ms = Some 0 \<longleftrightarrow> m = ms ! 0"
  by (cases ms) auto

lemma paxos_run_ok:
  assumes "paxos_run ms n S" "n + 1 < 2 ^ 32"
  shows "\<exists>vs. system_ok ms vs S \<and> length vs \<le> n"
  using assms
proof (induction rule: paxos_run.induct)
  case (start nodes)
  have "node_ok ms [] m (px_leader (nodes m))" for m
  proof -
    from start(1) [of m] obtain l where l: "Leader ms m = Inr l" "nodes m = \<lparr>px_leader = l, px_acceptor = 0\<rparr>"
      by (auto simp: SimulatedMultiPaxos_def split: sum.splits)
    with index_of_0 [of ms m] show ?thesis
      by (auto simp: Leader_def Let_def node_ok_def kPaxosDefaultLeaderPosition_def split: if_splits)
  qed
  then have "system_ok ms [] \<lparr>px_nodes = nodes, px_net = [], px_history = [], px_proposed = []\<rparr>" by (simp add: system_ok_def)
  then show ?case by auto
next
  case (propose n S m v p out)
  then obtain vs where vs: "system_ok ms vs S" "length vs \<le> n" by auto
  let ?S = "S\<lparr>px_proposed := v # px_proposed S\<rparr>"
  have "system_ok ms vs ?S"
    using vs(1) message_ok_mono [of ms vs "px_proposed S" _ "px_proposed ?S" "[]"] by (auto simp: system_ok_def)
  moreover have "message_ok ms vs (px_proposed ?S) (Request (PaxosPropose v))" by simp
  moreover have "paxos_handle m (Request (PaxosPropose v)) (px_nodes ?S m) = Inr (p, out)" using propose.hyps(2) by simp
  moreover have "length vs + 1 < 2 ^ 32" using vs(2) propose.prems by simp
  ultimately obtain vs' where "system_ok ms vs' (after_handler m p out ?S)" "length vs' \<le> length vs + 1"
    by (rule after_handler_ok)
  then show ?case using vs(2) by (intro exI [of _ vs']) simp
next
  case (deliver n S xs m m' e ys p out)
  then obtain vs where vs: "system_ok ms vs S" "length vs \<le> n" by auto
  let ?S = "S\<lparr>px_net := xs @ ys\<rparr>"
  have "system_ok ms vs ?S" using vs(1) deliver.hyps(2) by (auto simp: system_ok_def)
  moreover have "message_ok ms vs (px_proposed ?S) e" using system_okD(2) [OF vs(1), of "(m, m', e)"] deliver.hyps(2) by simp
  moreover have "paxos_handle m e (px_nodes ?S m') = Inr (p, out)" using deliver.hyps(3) by simp
  moreover have "length vs + 1 < 2 ^ 32" using vs(2) deliver.prems by simp
  ultimately obtain vs' where "system_ok ms vs' (after_handler m' p out ?S)" "length vs' \<le> length vs + 1"
    by (rule after_handler_ok)
  then show ?case using vs(2) by (intro exI [of _ vs']) simp
qed

section \<open>A majority of accepts commits exactly once\<close>

fun feed_responses :: "response list \<Rightarrow> leader \<Rightarrow> leader \<times> paxos_output list" where
  "feed_responses [] l = (l, [])"
| "feed_responses (r # rs) l =
     (case HandleResponse r l of (l1, out1) \<Rightarrow> (case feed_responses rs l1 of (l2, out2) \<Rightarrow> (l2, out1 @ out2)))"

definition accepted_slot :: "response \<Rightarrow> slot_id option" where
  "accepted_slot r = (case r of PaxosAccepted b slot \<Rightarrow> Some slot | _ \<Rightarrow> None)"

definition committed_slot :: "paxos_output \<Rightarrow> slot_id option" where
  "committed_slot o1 = (case o1 of SendSameChannel (Request (PaxosCommit slot v ldr)) _ \<Rightarrow> Some slot | _ \<Rightarrow> None)"

definition commits_for :: "slot_id \<Rightarrow> paxos_output list \<Rightarrow> paxos_output list" where
  "commits_for slot out = filter (\<lambda>o1. committed_slot o1 = Some slot) out"

definition accepts_for :: "slot_id \<Rightarrow> response list \<Rightarrow> nat" where
  "accepts_for slot rs = length (filter (\<lambda>r. accepted_slot r = Some slot) rs)"

lemma HandleResponse_accept:
  assumes "HandleResponse r l = (l', out)" "instances l slot = Some i" "accepted_slot r \<noteq> None"
  shows "members l' = members l" "acceptors l' = acceptors l" "me l' = me l"
    "instances l' slot = Some (i\<lparr>num_accepts := num_accepts i + accepts_for slot [r]\<rparr>)"
    "commits_for slot out =
      (if accepted_slot r = Some slot \<and> num_accepts i + 1 = length (acceptors l) div 2 + 1
       then [SendSameChannel (Request (PaxosCommit slot (pi_value i) (uint32_of_int (me l)))) (members l)] else [])"
  using assms
  by (auto simp: HandleResponse_def accepted_slot_def accepts_for_def commits_for_def committed_slot_def Let_def
      split: response.splits option.splits if_splits)

lemma feed_responses_commits:
  assumes "feed_responses rs l = (l', out)" "instances l slot = Some i" "list_all (\<lambda>r. accepted_slot r \<noteq> None) rs"
  shows "commits_for slot out =
    (if num_accepts i < length (acceptors l) div 2 + 1 \<and> length (acceptors l) div 2 + 1 \<le> num_accepts i + accepts_for slot rs
     then [SendSameChannel (Request (PaxosCommit slot (pi_value i) (uint32_of_int (me l)))) (members l)] else [])"
  using assms
proof (induction rs arbitrary: l i out)
  case (Cons r rs)
  from Cons.prems(1) obtain l1 out1 out2 where
    1: "HandleResponse r l = (l1, out1)" "feed_responses rs l1 = (l', out2)" "out = out1 @ out2"
    by (auto split: prod.splits)
  have "accepted_slot r \<noteq> None" "list_all (\<lambda>r. accepted_slot r \<noteq> None) rs" using Cons.prems(3) by auto
  note H = HandleResponse_accept [OF 1(1) Cons.prems(2) this(1)]
  note IH = Cons.IH [OF 1(2) H(4) \<open>list_all (\<lambda>r. accepted_slot r \<noteq> None) rs\<close>]
  have "commits_for slot out = commits_for slot out1 @ commits_for slot out2" by (simp add: 1(3) commits_for_def)
  with IH H show ?case by (auto simp: accepts_for_def)
qed (auto simp: commits_for_def accepts_for_def)

section \<open>Which instances are collected\<close>

text \<open>The leader keeps the instance of every slot it has started, except for slot 0.\<close>

definition keeps_instances :: "leader \<Rightarrow> bool" where
  "keeps_instances l \<longleftrightarrow> (\<forall>slot. 0 < slot \<longrightarrow> slot < next_empty_slot l \<longrightarrow> instances l slot \<noteq> None)"

lemma HandleResponse_keeps: "keeps_instances l \<Longrightarrow> keeps_instances (fst (HandleResponse res l))"
  by (auto simp: keeps_instances_def HandleResponse_def Let_def split: response.splits option.splits if_splits)

lemma Leader_HandleRequest_keeps:
  assumes "Leader_HandleRequest req l = Inr (l', out)" "keeps_instances l" "node_ok ms vs m l" "m = ms ! 0"
    and "message_ok ms vs props (Request req)" "length vs + 1 < 2 ^ 32"
  shows "keeps_instances l'"
proof (cases "\<exists>v. req = PaxosPropose v \<and> is_elected l")
  case True
  then obtain v where v: "StartNewInstance v l = Inr (l', out)" using assms(1) by (auto simp: Leader_HandleRequest_def)
  have "next_empty_slot l = length vs" using assms(3,4) by (simp add: node_ok_def)
  with v assms(2,6) show ?thesis
    by (auto simp: StartNewInstance_def keeps_instances_def Let_def less_Suc_eq split: option.splits)
next
  case False
  have "next_empty_slot l = length vs" using assms(3,4) by (simp add: node_ok_def)
  with False assms(1,2,5) show ?thesis
    by (auto simp: Leader_HandleRequest_def Leader_ProcessCommitRequest_def keeps_instances_def split: request.splits if_splits)
qed

lemma paxos_handle_keeps:
  assumes "paxos_handle from_machine e p = Inr (p', out)" "keeps_instances (px_leader p)" "node_ok ms vs (ms ! 0) (px_leader p)"
    and "message_ok ms vs props e" "length vs + 1 < 2 ^ 32"
  shows "keeps_instances (px_leader p')"
proof (cases e)
  case (Request req)
  with assms(1) obtain l out1 where
    1: "Leader_HandleRequest req (px_leader p) = Inr (l, out1)" "px_leader p' = l"
    by (auto simp: paxos_handle_def Paxos_OnInternalRequestReceived_def split: sum.splits prod.splits)
  from Leader_HandleRequest_keeps [OF 1(1) assms(2,3) refl] assms(4,5) Request 1(2) show ?thesis by blast
next
  case (Response res)
  with assms(1) have "px_leader p' = fst (HandleResponse res (px_leader p))"
    by (auto simp: paxos_handle_def Paxos_OnInternalResponseReceived_def split: prod.splits)
  with HandleResponse_keeps [OF assms(2)] show ?thesis by simp
qed

lemma paxos_run_keeps:
  assumes "paxos_run ms n S" "n + 1 < 2 ^ 32"
  shows "keeps_instances (px_leader (px_nodes S (ms ! 0)))"
  using assms
proof (induction rule: paxos_run.induct)
  case (start nodes)
  from start(1) [of "ms ! 0"] have "next_empty_slot (px_leader (nodes (ms ! 0))) = 0"
    by (cases "nodes (ms ! 0)") (auto simp: SimulatedMultiPaxos_def Leader_def Let_def split: sum.splits if_splits)
  then show ?case by (simp add: keeps_instances_def)
next
  case (propose n S m v p out)
  then obtain vs where vs: "system_ok ms vs S" "length vs \<le> n" using paxos_run_ok by (metis Suc_eq_plus1 Suc_lessD)
  have "length vs + 1 < 2 ^ 32" using vs(2) propose.prems by simp
  with paxos_handle_keeps [OF propose.hyps(2), where props = "[v]" and ms = ms and vs = vs] system_okD(1) [OF vs(1), of m] propose
  show ?case by (auto simp: after_handler_def)
next
  case (deliver n S xs m m' e ys p out)
  then obtain vs where vs: "system_ok ms vs S" "length vs \<le> n" using paxos_run_ok by (metis Suc_eq_plus1 Suc_lessD)
  have "length vs + 1 < 2 ^ 32" using vs(2) deliver.prems by simp
  moreover have "message_ok ms vs (px_proposed S) e" using system_okD(2) [OF vs(1), of "(m, m', e)"] deliver.hyps(2) by simp
  ultimately show ?case
    using paxos_handle_keeps [OF deliver.hyps(3), where ms = ms and vs = vs] system_okD(1) [OF vs(1), of m'] deliver
    by (auto simp: after_handler_def)
qed

text \<open>Commit responses for any slots count for slot 0.\<close>

lemma feed_responses_append:
  "feed_responses (rs @ rs') l = (case feed_responses rs l of (l1, out1) \<Rightarrow> (case feed_responses rs' l1 of (l2, out2) \<Rightarrow> (l2, out1 @ out2)))"
  by (induction rs arbitrary: l) (auto split: prod.splits)

lemma feed_responses_collected:
  assumes "instances l slot = None"
  shows "commits_for slot (snd (feed_responses rs l)) = []"
  using assms
proof (induction rs arbitrary: l)
  case (Cons r rs)
  obtain l1 out1 where h: "HandleResponse r l = (l1, out1)" by (cases "HandleResponse r l")
  have "instances l1 slot = None \<and> commits_for slot out1 = []"
    using h Cons.prems
    by (auto simp: HandleResponse_def Let_def commits_for_def committed_slot_def intro!: gr0I split: response.splits option.splits if_splits)
  with Cons.IH [of l1] h show ?case by (cases "feed_responses rs l1") (simp add: commits_for_def)
qed (simp add: commits_for_def)

lemma commit_responses_collect:
  assumes "instances l 0 = Some i" "num_commits i < length (members l)"
  shows "case feed_responses (map PaxosCommitted slots) l of (l', out) \<Rightarrow> out = [] \<and> members l' = members l \<and>
    (length slots \<ge> length (members l) - num_commits i \<longrightarrow> instances l' 0 = None)"
  using assms
proof (induction slots arbitrary: l i)
  case (Cons slot slots)
  show ?case
  proof (cases "num_commits i + 1 = length (members l)")
    case True
    let ?l = "l\<lparr>instances := (instances l)(0 := None)\<rparr>"
    have "HandleResponse (PaxosCommitted slot) l = (?l, [])" using True Cons.prems by (simp add: HandleResponse_def)
    moreover have "feed_responses (map PaxosCommitted slots) ?l = (?l, [])"
      by (induction slots) (simp_all add: HandleResponse_def)
    ultimately show ?thesis by simp
  next
    case False
    let ?i = "i\<lparr>num_commits := num_commits i + 1\<rparr>"
    let ?l = "l\<lparr>instances := (instances l)(0 \<mapsto> ?i)\<rparr>"
    have "HandleResponse (PaxosCommitted slot) l = (?l, [])" using False Cons.prems by (simp add: HandleResponse_def Let_def)
    moreover have "instances ?l 0 = Some ?i" "num_commits ?i < length (members ?l)" using False Cons.prems(2) by simp_all
    note Cons.IH [OF this]
    ultimately show ?thesis by (auto split: prod.splits)
  qed
qed simp

end
