(* ===== verification/Multi_Home_Orderer.thy ===== *)
theory Multi_Home_Orderer
  imports Paxos_Model Proto_Utils Batch_Stats
begin

text \<open>
  \<^verbatim>\<open>module/multi_home_orderer.{h,cpp}\<close>: multi-home transactions are batched once per involved region; the
  batches of all regions are ordered by the global consensus and every orderer passes the transactions of
  its region on in that order. The batch timer is an output, the clock an argument.
\<close>

section \<open>Model\<close>

record mh_orderer =
  batch_per_rep :: "batch option list"
  mho_batch_id_counter :: nat
  mho_batch_size :: nat
  multi_home_batch_log :: batch_log
  mho_stats :: batch_stats

datatype mho_output = MOut send | SendBatchLater nat

definition mho_batch_id :: "configuration \<Rightarrow> nat \<Rightarrow> batch_id" where
  "mho_batch_id config ctr = nat ((int (ctr * kMaxNumMachines) + local_machine_id config) mod 2 ^ 64)"

definition MHO_NewBatch :: "configuration \<Rightarrow> mh_orderer \<Rightarrow> mh_orderer" where
  "MHO_NewBatch config s =
     (let ctr = (mho_batch_id_counter s + 1) mod 2 ^ 64
      in s\<lparr>mho_batch_id_counter := ctr, mho_batch_size := 0,
           batch_per_rep := map (\<lambda>_. Some \<lparr>b_id = mho_batch_id config ctr, b_transactions = [],
                                           b_type = MULTI_HOME_OR_LOCK_ONLY, b_events = []\<rparr>) (batch_per_rep s)\<rparr>)"

definition MultiHomeOrderer :: "configuration \<Rightarrow> mh_orderer" where
  "MultiHomeOrderer config =
     MHO_NewBatch config \<lparr>batch_per_rep = replicate (num_replicas config) None, mho_batch_id_counter = 0,
       mho_batch_size = 0, multi_home_batch_log = BatchLog, mho_stats = no_stats\<rparr>"

definition MHO_AdvanceLog :: "mh_orderer \<Rightarrow> (mh_orderer \<times> mho_output list) result" where
  "MHO_AdvanceLog s =
     (case BatchLog_drain (multi_home_batch_log s) of
        Inl e \<Rightarrow> Inl e
      | Inr (bs, l) \<Rightarrow>
          Inr (s\<lparr>multi_home_batch_log := l\<rparr>,
               concat (map (\<lambda>(slot, b). map (\<lambda>txn. MOut (SendLocal (Request (ForwardTxn txn)) kSequencerChannel)) (Unbatch b)) bs)))"

definition MHO_ProcessForwardBatchData :: "batch list \<Rightarrow> mh_orderer \<Rightarrow> (mh_orderer \<times> mho_output list) result" where
  "MHO_ProcessForwardBatchData bs s =
     (if bs = [] then Inl (UndefinedBehaviour ''ReleaseLast'')
      else case BatchLog_AddBatch (last bs) (multi_home_batch_log s) of
             Inl e \<Rightarrow> Inl e
           | Inr l \<Rightarrow> MHO_AdvanceLog (s\<lparr>multi_home_batch_log := l\<rparr>))"

definition MHO_ProcessForwardBatchOrder :: "slot_id \<Rightarrow> batch_id \<Rightarrow> mh_orderer \<Rightarrow> (mh_orderer \<times> mho_output list) result" where
  "MHO_ProcessForwardBatchOrder slot b s =
     (case BatchLog_AddSlot slot b 0 (multi_home_batch_log s) of
        Inl e \<Rightarrow> Inl e
      | Inr l \<Rightarrow> MHO_AdvanceLog (s\<lparr>multi_home_batch_log := l\<rparr>))"

fun add_to_batches :: "transaction \<Rightarrow> nat list \<Rightarrow> batch option list \<Rightarrow> batch option list result" where
  "add_to_batches txn [] bs = Inr bs"
| "add_to_batches txn (r # rs) bs =
     (if r < length bs
      then case bs ! r of
             None \<Rightarrow> Inl (UndefinedBehaviour ''batch_per_rep_'')
           | Some b \<Rightarrow> add_to_batches txn rs (bs[r := Some (b\<lparr>b_transactions := b_transactions b @ [txn]\<rparr>)])
      else Inl (UndefinedBehaviour ''batch_per_rep_''))"

definition AddToBatch :: "configuration \<Rightarrow> int \<Rightarrow> transaction \<Rightarrow> mh_orderer \<Rightarrow> (mh_orderer \<times> mho_output list) result" where
  "AddToBatch config now txn s =
     (if txn_type (internal txn) \<noteq> MULTI_HOME_OR_LOCK_ONLY
      then Inl (CheckFailed ''Multi-home orderer batch can only contain multi-home txn'')
      else if involved_replicas (internal txn) = [] then Inl (UndefinedBehaviour ''replicas'')
      else case add_to_batches txn (involved_replicas (internal txn)) (batch_per_rep s) of
             Inl e \<Rightarrow> Inl e
           | Inr bs \<Rightarrow>
               let s1 = s\<lparr>batch_per_rep := bs, mho_batch_size := mho_batch_size s + 1\<rparr>
               in Inr (if mho_batch_size s1 = 1
                       then (s1\<lparr>mho_stats := start_batch now (mho_stats s)\<rparr>,
                             [SendBatchLater (pc_mh_orderer_batch_duration (proto_config config))])
                       else (s1, [])))"

fun rep_sends :: "configuration \<Rightarrow> nat \<Rightarrow> batch option list \<Rightarrow> mho_output list result" where
  "rep_sends config rep [] = Inr []"
| "rep_sends config rep (None # bs) = Inl (UndefinedBehaviour ''AddAllocated'')"
| "rep_sends config rep (Some b # bs) =
     (case rep_sends config (rep + 1) bs of
        Inl e \<Rightarrow> Inl e
      | Inr out \<Rightarrow>
          Inr (MOut (SendTo (Request (ForwardBatchData [b] 0 0))
                       [MakeMachineId config rep (leader_partition_for_multi_home_ordering config)]
                       kMultiHomeOrdererChannel) # out))"

definition MHO_SendBatch :: "configuration \<Rightarrow> int \<Rightarrow> mh_orderer \<Rightarrow> (mh_orderer \<times> mho_output list) result" where
  "MHO_SendBatch config now s =
     (case rep_sends config 0 (batch_per_rep s) of
        Inl e \<Rightarrow> Inl e
      | Inr out \<Rightarrow>
          Inr (s\<lparr>mho_stats := record_batch now (mho_batch_size s) (mho_stats s),
                 batch_per_rep := map (\<lambda>_. None) (batch_per_rep s)\<rparr>,
               MOut (SendTo (Request (PaxosPropose (mho_batch_id config (mho_batch_id_counter s))))
                       [MakeMachineId config (leader_replica_for_multi_home_ordering config) 0] kGlobalPaxos) # out))"

text \<open>The callback of the batch timer.\<close>

definition MHO_on_timer :: "configuration \<Rightarrow> int \<Rightarrow> mh_orderer \<Rightarrow> (mh_orderer \<times> mho_output list) result" where
  "MHO_on_timer config now s =
     (case MHO_SendBatch config now s of Inl e \<Rightarrow> Inl e | Inr (s1, out) \<Rightarrow> Inr (MHO_NewBatch config s1, out))"

definition MHO_ProcessStatsRequest ::
  "(json \<Rightarrow> string) \<Rightarrow> nat \<Rightarrow> nat \<Rightarrow> mh_orderer \<Rightarrow> mh_orderer \<times> mho_output list" where
  "MHO_ProcessStatsRequest write_json req_id level s =
     (case ProcessBatchStats write_json ''mho_batch_size_pctls'' ''mho_batch_duration_ms_pctls'' req_id level (mho_stats s) of
        (st, out) \<Rightarrow> (s\<lparr>mho_stats := st\<rparr>, map MOut out))"

text \<open>A local order read as a remote one has the default slot and batch id 0.\<close>

definition MHO_OnInternalRequestReceived ::
  "(json \<Rightarrow> string) \<Rightarrow> configuration \<Rightarrow> int \<Rightarrow> request \<Rightarrow> mh_orderer \<Rightarrow> (mh_orderer \<times> mho_output list) result" where
  "MHO_OnInternalRequestReceived write_json config now req s =
     (case req of
        ForwardTxn txn \<Rightarrow> AddToBatch config now txn s
      | ForwardBatchData bs hm pos \<Rightarrow> MHO_ProcessForwardBatchData bs s
      | RemoteBatchOrder b slot hm need_ack \<Rightarrow> MHO_ProcessForwardBatchOrder slot b s
      | LocalBatchOrder queue slot ldr \<Rightarrow> MHO_ProcessForwardBatchOrder 0 0 s
      | StatsReq req_id level \<Rightarrow> Inr (MHO_ProcessStatsRequest write_json req_id level s)
      | _ \<Rightarrow> Inr (s, []))"

section \<open>The orderer passes transactions on in the global order\<close>

datatype mho_event = Receive int request | Timer int

fun mho_step :: "(json \<Rightarrow> string) \<Rightarrow> configuration \<Rightarrow> mho_event \<Rightarrow> mh_orderer \<Rightarrow> (mh_orderer \<times> mho_output list) result" where
  "mho_step wj config (Receive now req) s = MHO_OnInternalRequestReceived wj config now req s"
| "mho_step wj config (Timer now) s = MHO_on_timer config now s"

fun mho_run :: "(json \<Rightarrow> string) \<Rightarrow> configuration \<Rightarrow> mho_event list \<Rightarrow> mh_orderer \<Rightarrow> (mh_orderer \<times> mho_output list) result" where
  "mho_run wj config [] s = Inr (s, [])"
| "mho_run wj config (e # es) s =
     (case mho_step wj config e s of
        Inl err \<Rightarrow> Inl err
      | Inr (s1, out1) \<Rightarrow>
          (case mho_run wj config es s1 of Inl err \<Rightarrow> Inl err | Inr (s2, out2) \<Rightarrow> Inr (s2, out1 @ out2)))"

definition to_sequencer :: "mho_output \<Rightarrow> transaction list" where
  "to_sequencer o1 = (case o1 of MOut (SendLocal (Request (ForwardTxn txn)) ch) \<Rightarrow> [txn] | _ \<Rightarrow> [])"

definition sequenced_txns :: "mho_output list \<Rightarrow> transaction list" where
  "sequenced_txns out = concat (map to_sequencer out)"

fun mho_input :: "mho_event \<Rightarrow> batch_log_op list" where
  "mho_input (Receive now (ForwardBatchData bs hm pos)) = [BL_AddBatch (last bs)]"
| "mho_input (Receive now (RemoteBatchOrder b slot hm need_ack)) = [BL_AddSlot slot b 0]"
| "mho_input (Receive now (LocalBatchOrder queue slot ldr)) = [BL_AddSlot 0 0 0]"
| "mho_input _ = []"

definition mho_inputs :: "mho_event list \<Rightarrow> batch_log_op list" where
  "mho_inputs es = concat (map mho_input es)"

fun mho_actions :: "mho_event list \<Rightarrow> batch_log_op log_action list" where
  "mho_actions [] = []"
| "mho_actions (e # es) = (if mho_input e = [] then [] else map Input (mho_input e) @ [Drain]) @ mho_actions es"

lemma inputs_mho_actions: "inputs (mho_actions es) = mho_inputs es"
  by (induction es) (auto simp: mho_inputs_def)

definition unbatched :: "(slot_id \<times> batch) list \<Rightarrow> transaction list" where
  "unbatched os = concat (map (Unbatch \<circ> snd) os)"

lemma sequenced_txns_append [simp]: "sequenced_txns (xs @ ys) = sequenced_txns xs @ sequenced_txns ys"
  by (simp add: sequenced_txns_def)

lemma MHO_AdvanceLog_eq:
  assumes "MHO_AdvanceLog s = Inr (s', out)"
  shows "\<exists>os. BatchLog_drain (multi_home_batch_log s) = Inr (os, multi_home_batch_log s') \<and> sequenced_txns out = unbatched os"
proof -
  have "concat (map to_sequencer (map (\<lambda>txn. MOut (SendLocal (Request (ForwardTxn txn)) kSequencerChannel)) ts)) = ts" for ts
    by (induction ts) (auto simp: to_sequencer_def)
  then have "sequenced_txns (concat (map (\<lambda>(slot, b). map (\<lambda>txn. MOut (SendLocal (Request (ForwardTxn txn)) kSequencerChannel))
      (Unbatch b)) bs)) = unbatched bs" for bs
    by (induction bs) (auto simp: sequenced_txns_def unbatched_def simp del: map_map)
  with assms show ?thesis by (auto simp: MHO_AdvanceLog_def split: sum.splits)
qed

lemma rep_sends_sequenced: "rep_sends config rep bs = Inr out \<Longrightarrow> sequenced_txns out = []"
  by (induction config rep bs arbitrary: out rule: rep_sends.induct)
     (auto simp: sequenced_txns_def to_sequencer_def split: sum.splits)

lemma mho_step_log:
  assumes "mho_step wj config e s = Inr (s', out)"
  shows "\<exists>os. ol_run bl_step BatchLog_drain (if mho_input e = [] then [] else map Input (mho_input e) @ [Drain])
      (multi_home_batch_log s) = Inr (os, multi_home_batch_log s') \<and> sequenced_txns out = unbatched os"
proof (cases "mho_input e = []")
  case True
  have "multi_home_batch_log s' = multi_home_batch_log s \<and> sequenced_txns out = []"
    using assms True rep_sends_sequenced [of config 0 "batch_per_rep s"]
    by (cases e)
       (auto simp: MHO_OnInternalRequestReceived_def AddToBatch_def MHO_ProcessStatsRequest_def ProcessBatchStats_def
          MHO_on_timer_def MHO_SendBatch_def MHO_NewBatch_def sequenced_txns_def to_sequencer_def Let_def
        split: request.splits if_splits sum.splits)
  with True show ?thesis by (simp add: unbatched_def)
next
  case False
  from False assms obtain x l where x: "mho_input e = [x]" "bl_step x (multi_home_batch_log s) = Inr l"
    "MHO_AdvanceLog (s\<lparr>multi_home_batch_log := l\<rparr>) = Inr (s', out)"
    by (cases e rule: mho_input.cases)
       (auto simp: MHO_OnInternalRequestReceived_def MHO_ProcessForwardBatchData_def MHO_ProcessForwardBatchOrder_def
        split: if_splits sum.splits)
  from MHO_AdvanceLog_eq [OF x(3)] x(1,2) show ?thesis by auto
qed

lemma unbatched_append [simp]: "unbatched (xs @ ys) = unbatched xs @ unbatched ys"
  by (simp add: unbatched_def)

lemma mho_run_log:
  assumes "mho_run wj config es s = Inr (s', out)"
  shows "\<exists>os. ol_run bl_step BatchLog_drain (mho_actions es) (multi_home_batch_log s) = Inr (os, multi_home_batch_log s') \<and>
    sequenced_txns out = unbatched os"
  using assms
proof (induction es arbitrary: s out)
  case Nil
  then show ?case by (simp add: sequenced_txns_def unbatched_def)
next
  case (Cons e es)
  from Cons.prems obtain s1 out1 out2 where
    1: "mho_step wj config e s = Inr (s1, out1)" "mho_run wj config es s1 = Inr (s', out2)" "out = out1 @ out2"
    by (auto split: sum.splits)
  from mho_step_log [OF 1(1)] Cons.IH [OF 1(2)] obtain os1 os2 where
    os: "ol_run bl_step BatchLog_drain (if mho_input e = [] then [] else map Input (mho_input e) @ [Drain])
        (multi_home_batch_log s) = Inr (os1, multi_home_batch_log s1)" "sequenced_txns out1 = unbatched os1"
      "ol_run bl_step BatchLog_drain (mho_actions es) (multi_home_batch_log s1) = Inr (os2, multi_home_batch_log s')"
      "sequenced_txns out2 = unbatched os2" by blast
  show ?case
    unfolding mho_actions.simps ol_run_append os(1) using os(2-4) 1(3) by simp
qed

lemma mho_run_emits:
  assumes "mho_run wj config es s = Inr (s', out)" "multi_home_batch_log s = BatchLog" "bl_legal (mho_inputs es)"
  shows "\<exists>n. sequenced_txns out = unbatched (emitted (bl_item (mho_inputs es)) 0 n) \<and> (\<forall>i < n. bl_item (mho_inputs es) i \<noteq> None)"
proof -
  from mho_run_log [OF assms(1)] assms(2) obtain os where
    os: "ol_run bl_step BatchLog_drain (mho_actions es) BatchLog = Inr (os, multi_home_batch_log s')"
      "sequenced_txns out = unbatched os" by metis
  have "bl_legal (inputs (mho_actions es))" using assms(3) by (simp add: inputs_mho_actions)
  from bl.outputs_consecutive [OF this] os show ?thesis by (auto simp: ol_outputs_def inputs_mho_actions)
qed

end
