(* ===== verification/Orderer_System.thy ===== *)
theory Orderer_System
  imports Multi_Home_Orderer "HOL-Library.Sublist"
begin

text \<open>
  The multi-home orderers of all machines (\<^verbatim>\<open>module/multi_home_orderer.cpp\<close>) as one system: an orderer batches transactions and sends
  to each region its part of a batch, the global consensus orders the batches, and the orderers of two regions pass
  the transactions that involve both regions on in the same order. That the parts of a batch agree is proved from
  \<^verbatim>\<open>AddToBatch\<close> and \<^verbatim>\<open>SendBatch\<close>, that the orders agree from the run of the consensus.
\<close>

section \<open>What an orderer sends to the regions\<close>

text \<open>The part for region \<open>r\<close> of the batch with number \<open>c\<close> that has the transactions \<open>ts\<close>.\<close>

definition involves :: "nat \<Rightarrow> transaction \<Rightarrow> bool" where
  "involves r t \<longleftrightarrow> r \<in> set (involved_replicas (internal t))"

definition batch_part :: "configuration \<Rightarrow> nat \<Rightarrow> nat \<Rightarrow> transaction list \<Rightarrow> batch" where
  "batch_part config c r ts = \<lparr>b_id = mho_batch_id config c, b_transactions = filter (involves r) ts,
     b_type = MULTI_HOME_OR_LOCK_ONLY, b_events = []\<rparr>"

definition open_batch :: "configuration \<Rightarrow> transaction list \<Rightarrow> mh_orderer \<Rightarrow> bool" where
  "open_batch config ts s \<longleftrightarrow>
     batch_per_rep s = map (\<lambda>r. Some (batch_part config (mho_batch_id_counter s) r ts)) [0..<num_replicas config]"

definition part_sent :: "mho_output list \<Rightarrow> machine_id \<Rightarrow> batch list \<Rightarrow> bool" where
  "part_sent out m bs \<longleftrightarrow> (\<exists>hm pos. MOut (SendTo (Request (ForwardBatchData bs hm pos)) [m] kMultiHomeOrdererChannel) \<in> set out)"

fun distinct_regions :: "mho_event \<Rightarrow> bool" where
  "distinct_regions (Receive now (ForwardTxn txn)) \<longleftrightarrow> distinct (involved_replicas (internal txn))"
| "distinct_regions _ \<longleftrightarrow> True"

lemma part_sent_append [simp]: "part_sent (xs @ ys) m bs \<longleftrightarrow> part_sent xs m bs \<or> part_sent ys m bs"
  by (auto simp: part_sent_def)

lemma part_sent_Nil [simp]: "\<not> part_sent [] m bs"
  by (simp add: part_sent_def)

lemma add_to_batches_eq:
  assumes "add_to_batches txn rs bs = Inr bs'" "distinct rs"
  shows "length bs' = length bs \<and> (\<forall>r < length bs. bs' ! r = (if r \<in> set rs
    then map_option (\<lambda>b. b\<lparr>b_transactions := b_transactions b @ [txn]\<rparr>) (bs ! r) else bs ! r))"
  using assms
proof (induction txn rs bs rule: add_to_batches.induct)
  case (2 txn r rs bs)
  then obtain b where r: "r < length bs" "bs ! r = Some b"
    "add_to_batches txn rs (bs[r := Some (b\<lparr>b_transactions := b_transactions b @ [txn]\<rparr>)]) = Inr bs'"
    by (auto split: if_splits option.splits)
  from "2.IH" [OF r] "2.prems"(2) r show ?case by (auto simp: nth_list_update)
qed simp

lemma AddToBatch_open:
  assumes "AddToBatch config now txn s = Inr (s', out)" "open_batch config ts s" "distinct (involved_replicas (internal txn))"
  shows "open_batch config (ts @ [txn]) s'" "mho_batch_id_counter s' = mho_batch_id_counter s" "\<not> part_sent out m bs"
proof -
  from assms(1) obtain bs' where
    bs': "add_to_batches txn (involved_replicas (internal txn)) (batch_per_rep s) = Inr bs'" "batch_per_rep s' = bs'"
      "mho_batch_id_counter s' = mho_batch_id_counter s" "\<not> part_sent out m bs"
    by (auto simp: AddToBatch_def Let_def part_sent_def split: if_splits sum.splits)
  note e = add_to_batches_eq [OF bs'(1) assms(3)]
  have l: "length (batch_per_rep s) = num_replicas config" using assms(2) by (simp add: open_batch_def)
  have "batch_per_rep s' = map (\<lambda>r. Some (batch_part config (mho_batch_id_counter s) r (ts @ [txn]))) [0..<num_replicas config]"
  proof (rule nth_equalityI)
    fix r
    assume "r < length (batch_per_rep s')"
    then have r: "r < num_replicas config" using e l bs'(2) by simp
    then have "batch_per_rep s ! r = Some (batch_part config (mho_batch_id_counter s) r ts)"
      using assms(2) by (simp add: open_batch_def)
    with e l r bs'(2) show "batch_per_rep s' ! r =
        map (\<lambda>r. Some (batch_part config (mho_batch_id_counter s) r (ts @ [txn]))) [0..<num_replicas config] ! r"
      by (simp add: batch_part_def involves_def)
  qed (use e l bs'(2) in simp)
  with bs'(3,4) show "open_batch config (ts @ [txn]) s'" "mho_batch_id_counter s' = mho_batch_id_counter s" "\<not> part_sent out m bs"
    by (simp_all add: open_batch_def)
qed

lemma rep_sends_part:
  assumes "rep_sends config rep bs = Inr out" "part_sent out m ds"
  shows "\<exists>i b. i < length bs \<and> bs ! i = Some b \<and> ds = [b] \<and>
    m = MakeMachineId config (rep + i) (leader_partition_for_multi_home_ordering config)"
  using assms
proof (induction config rep bs arbitrary: out rule: rep_sends.induct)
  case (3 config rep b bs)
  then obtain out1 where o1: "rep_sends config (rep + 1) bs = Inr out1"
    "out = MOut (SendTo (Request (ForwardBatchData [b] 0 0))
       [MakeMachineId config rep (leader_partition_for_multi_home_ordering config)] kMultiHomeOrdererChannel) # out1"
    by (auto split: sum.splits)
  from "3.prems"(2) o1(2) consider
    "ds = [b]" "m = MakeMachineId config rep (leader_partition_for_multi_home_ordering config)" | "part_sent out1 m ds"
    by (auto simp: part_sent_def)
  then show ?case
  proof cases
    case 1
    then show ?thesis by (intro exI [of _ 0] exI [of _ b]) simp
  next
    case 2
    from "3.IH" [OF o1(1) 2] show ?thesis by (metis Suc_less_eq add.assoc length_Cons nth_Cons_Suc plus_1_eq_Suc)
  qed
qed (simp_all add: part_sent_def)

lemma MHO_on_timer_open:
  assumes "MHO_on_timer config now s = Inr (s', out)" "open_batch config ts s" "mho_batch_id_counter s + 1 < 2 ^ 64"
  shows "open_batch config [] s'" "mho_batch_id_counter s' = mho_batch_id_counter s + 1"
    "part_sent out m bs \<Longrightarrow> \<exists>r < num_replicas config. m = MakeMachineId config r (leader_partition_for_multi_home_ordering config) \<and>
       bs = [batch_part config (mho_batch_id_counter s) r ts]"
proof -
  from assms(1) obtain o1 out2 st where o: "rep_sends config 0 (batch_per_rep s) = Inr out2"
    "out = MOut (SendTo (Request (PaxosPropose (mho_batch_id config (mho_batch_id_counter s)))) o1 kGlobalPaxos) # out2"
    "s' = MHO_NewBatch config (s\<lparr>mho_stats := st, batch_per_rep := map (\<lambda>_. None) (batch_per_rep s)\<rparr>)"
    by (auto simp: MHO_on_timer_def MHO_SendBatch_def split: sum.splits)
  show "open_batch config [] s'" "mho_batch_id_counter s' = mho_batch_id_counter s + 1"
    using assms(2,3) by (simp_all add: o(3) MHO_NewBatch_def open_batch_def Let_def batch_part_def)
  assume "part_sent out m bs"
  then have "part_sent out2 m bs" by (auto simp: o(2) part_sent_def)
  from rep_sends_part [OF o(1) this] assms(2)
  show "\<exists>r < num_replicas config. m = MakeMachineId config r (leader_partition_for_multi_home_ordering config) \<and>
       bs = [batch_part config (mho_batch_id_counter s) r ts]"
    by (auto simp: open_batch_def)
qed

lemma MHO_AdvanceLog_open:
  assumes "MHO_AdvanceLog s = Inr (s', out)"
  shows "batch_per_rep s' = batch_per_rep s \<and> mho_batch_id_counter s' = mho_batch_id_counter s \<and> (\<forall>m bs. \<not> part_sent out m bs)"
  using assms by (auto simp: MHO_AdvanceLog_def part_sent_def split: sum.splits)

lemma receive_open:
  assumes "MHO_OnInternalRequestReceived wj config now req s = Inr (s', out)" "open_batch config ts s"
    and "distinct_regions (Receive now req)"
  shows "\<exists>ts'. open_batch config ts' s' \<and> mho_batch_id_counter s' = mho_batch_id_counter s \<and> (\<forall>m bs. \<not> part_sent out m bs)"
proof (cases req)
  case (ForwardTxn txn)
  with assms AddToBatch_open [of config now txn s s' out ts] show ?thesis
    by (auto simp: MHO_OnInternalRequestReceived_def)
next
  case (StatsReq req_id level)
  with assms show ?thesis
    by (auto simp: MHO_OnInternalRequestReceived_def MHO_ProcessStatsRequest_def ProcessBatchStats_def open_batch_def part_sent_def)
qed (use assms(1,2) in \<open>auto simp: MHO_OnInternalRequestReceived_def MHO_ProcessForwardBatchData_def MHO_ProcessForwardBatchOrder_def
      open_batch_def split: if_splits sum.splits dest!: MHO_AdvanceLog_open\<close>)

text \<open>All parts of the batch with number \<open>c\<close> have the transactions of one list \<open>F c\<close>, each part those that involve its region.\<close>

lemma mho_run_parts:
  assumes "mho_run wj config es s = Inr (s', out)" "open_batch config ts s" "mho_batch_id_counter s + length es < 2 ^ 57"
    and "list_all distinct_regions es"
  shows "\<exists>F. \<forall>m bs. part_sent out m bs \<longrightarrow> (\<exists>r c. r < num_replicas config \<and> mho_batch_id_counter s \<le> c \<and> c < 2 ^ 57 \<and>
    m = MakeMachineId config r (leader_partition_for_multi_home_ordering config) \<and> bs = [batch_part config c r (F c)])"
  using assms
proof (induction es arbitrary: s ts out)
  case Nil
  then show ?case by simp
next
  case (Cons e es)
  from Cons.prems(1) obtain s1 out1 out2 where
    1: "mho_step wj config e s = Inr (s1, out1)" "mho_run wj config es s1 = Inr (s', out2)" "out = out1 @ out2"
    by (auto split: sum.splits)
  show ?case
  proof (cases e)
    case (Receive now req)
    with 1(1) Cons.prems(2,4) receive_open [of wj config now req s s1 out1 ts] obtain ts' where
      ts': "open_batch config ts' s1" "mho_batch_id_counter s1 = mho_batch_id_counter s" "\<And>m bs. \<not> part_sent out1 m bs" by auto
    from Cons.IH [OF 1(2) ts'(1)] Cons.prems(3,4) ts'(2,3) show ?thesis by (simp add: 1(3))
  next
    case (Timer now)
    let ?c = "mho_batch_id_counter s"
    have b: "?c + 1 < 2 ^ 64" using Cons.prems(3) by simp
    from Timer 1(1) have t: "MHO_on_timer config now s = Inr (s1, out1)" by simp
    note T = MHO_on_timer_open [OF t Cons.prems(2) b]
    from Cons.IH [OF 1(2) T(1)] T(2) Cons.prems(3,4) obtain F where
      F: "\<And>m bs. part_sent out2 m bs \<Longrightarrow> \<exists>r c. r < num_replicas config \<and> ?c + 1 \<le> c \<and> c < 2 ^ 57 \<and>
        m = MakeMachineId config r (leader_partition_for_multi_home_ordering config) \<and> bs = [batch_part config c r (F c)]"
      by auto
    have "\<exists>r c. r < num_replicas config \<and> ?c \<le> c \<and> c < 2 ^ 57 \<and>
        m = MakeMachineId config r (leader_partition_for_multi_home_ordering config) \<and> bs = [batch_part config c r ((F(?c := ts)) c)]"
      if "part_sent out m bs" for m bs
    proof (cases "part_sent out1 m bs")
      case True
      from T(3) [OF this] obtain r where "r < num_replicas config"
        "m = MakeMachineId config r (leader_partition_for_multi_home_ordering config)" "bs = [batch_part config ?c r ts]" by blast
      then show ?thesis using Cons.prems(3) by (intro exI [of _ r] exI [of _ ?c]) simp
    next
      case False
      with that F [of m bs] 1(3) obtain r c where rc: "r < num_replicas config" "?c + 1 \<le> c" "c < 2 ^ 57"
        "m = MakeMachineId config r (leader_partition_for_multi_home_ordering config)" "bs = [batch_part config c r (F c)]" by auto
      then have "?c \<le> c" "(F(?c := ts)) c = F c" by auto
      with rc show ?thesis by metis
    qed
    then show ?thesis by blast
  qed
qed

lemma MultiHomeOrderer_open: "open_batch config [] (MultiHomeOrderer config)" "mho_batch_id_counter (MultiHomeOrderer config) = 1"
  "multi_home_batch_log (MultiHomeOrderer config) = BatchLog"
  by (simp_all add: MultiHomeOrderer_def MHO_NewBatch_def open_batch_def batch_part_def Let_def map_replicate_const)

section \<open>The orderers of all regions\<close>

definition at_machine :: "configuration \<Rightarrow> nat \<Rightarrow> nat \<Rightarrow> configuration" where
  "at_machine config r p = config\<lparr>local_replica := r, local_partition := p\<rparr>"

lemma at_machine_simps [simp]:
  "num_replicas (at_machine config r p) = num_replicas config" "num_partitions (at_machine config r p) = num_partitions config"
  "MakeMachineId (at_machine config r p) = MakeMachineId config" "local_machine_id (at_machine config r p) = MakeMachineId config r p"
  "leader_partition_for_multi_home_ordering (at_machine config r p) = 0"
  by (simp_all add: at_machine_def num_replicas_def num_partitions_def MakeMachineId_def [abs_def] local_machine_id_def
      leader_partition_for_multi_home_ordering_def)

type_synonym 'a per_machine = "nat \<Rightarrow> nat \<Rightarrow> 'a"

definition machines :: "configuration \<Rightarrow> (nat \<times> nat) list" where
  "machines config = List.product [0..<num_replicas config] [0..<num_partitions config]"

text \<open>Where an input of the orderer at machine \<open>(r, p)\<close> comes from: the parts of batches from the orderers of all machines, the
  order of the batches from what the machines of the global consensus have committed.\<close>

fun input_sent :: "configuration \<Rightarrow> (machine_id \<times> slot_id \<times> nat \<times> machine_id) list \<Rightarrow> mho_output list per_machine \<Rightarrow> nat \<Rightarrow> nat \<Rightarrow> mho_event \<Rightarrow> bool" where
  "input_sent config commits out r p (Receive now (ForwardBatchData bs hm pos)) \<longleftrightarrow>
     list_ex (\<lambda>(r', p'). MOut (SendTo (Request (ForwardBatchData bs hm pos)) [MakeMachineId config r p] kMultiHomeOrdererChannel)
       \<in> set (out r' p')) (machines config)"
| "input_sent config commits out r p (Receive now (RemoteBatchOrder b slot hm need_ack)) \<longleftrightarrow>
     list_ex (\<lambda>(m, slot', v, ldr). list_ex (\<lambda>(r', p'). m = MakeMachineId config r' p' \<and>
       SendTo (Request (RemoteBatchOrder b slot hm need_ack)) (GlobalPaxos_multihome_orderers config) kMultiHomeOrdererChannel
         \<in> set (GlobalPaxos_OnCommit (at_machine config r' p') slot' v ldr)) (machines config)) commits"
| "input_sent config commits out r p (Receive now (LocalBatchOrder queue slot ldr)) \<longleftrightarrow> False"
| "input_sent config commits out r p _ \<longleftrightarrow> True"

definition orderer_run ::
  "(json \<Rightarrow> string) \<Rightarrow> configuration \<Rightarrow> (machine_id \<times> slot_id \<times> nat \<times> machine_id) list \<Rightarrow> mho_event list per_machine \<Rightarrow>
   mho_output list per_machine \<Rightarrow> nat \<times> nat \<Rightarrow> bool" where
  "orderer_run wj config commits es out rp =
     (case rp of (r, p) \<Rightarrow>
        (case mho_run wj (at_machine config r p) (es r p) (MultiHomeOrderer (at_machine config r p)) of
           Inl _ \<Rightarrow> False | Inr (s, o1) \<Rightarrow> o1 = out r p) \<and>
        length (es r p) + 1 < 2 ^ 57 \<and> bl_legal (mho_inputs (es r p)) \<and>
        list_all distinct_regions (es r p) \<and> list_all (input_sent config commits out r p) (es r p))"

definition orderer_system ::
  "(json \<Rightarrow> string) \<Rightarrow> configuration \<Rightarrow> (machine_id \<times> slot_id \<times> nat \<times> machine_id) list \<Rightarrow> mho_event list per_machine \<Rightarrow>
   mho_output list per_machine \<Rightarrow> bool" where
  "orderer_system wj config commits es out \<longleftrightarrow> list_all (orderer_run wj config commits es out) (machines config)"

lemma mho_batch_id_eq:
  assumes "c < 2 ^ 57" "m < kMaxNumMachines" "local_machine_id config = int m"
  shows "mho_batch_id config c = c * kMaxNumMachines + m"
proof -
  have "c * kMaxNumMachines + m < 2 ^ 64" using assms(1,2) by (simp add: kMaxNumMachines_def)
  then show ?thesis unfolding mho_batch_id_def assms(3)
    by (simp flip: of_nat_add add: nat_mod_distrib del: of_nat_mult)
qed

lemma MakeMachineId_eq_small:
  assumes "num_replicas config * num_partitions config \<le> kMaxNumMachines" "r < num_replicas config" "p < num_partitions config"
  shows "MakeMachineId config r p = int (r * num_partitions config + p)" "r * num_partitions config + p < kMaxNumMachines"
proof -
  show b: "r * num_partitions config + p < kMaxNumMachines"
    using mult_add_less [OF assms(2,3)] assms(1) by simp
  then show "MakeMachineId config r p = int (r * num_partitions config + p)"
    by (intro MakeMachineId_eq) (simp add: kMaxNumMachines_def)
qed

lemma MakeMachineId_eq_iff:
  assumes "num_replicas config * num_partitions config \<le> kMaxNumMachines"
    and "r < num_replicas config" "p < num_partitions config" "r' < num_replicas config" "p' < num_partitions config"
  shows "MakeMachineId config r p = MakeMachineId config r' p' \<longleftrightarrow> r = r' \<and> p = p'"
proof -
  have "r = r' \<and> p = p'" if "r * num_partitions config + p = r' * num_partitions config + p'"
  proof -
    have "r = (r * num_partitions config + p) div num_partitions config" "p = (r * num_partitions config + p) mod num_partitions config"
      "r' = (r' * num_partitions config + p') div num_partitions config" "p' = (r' * num_partitions config + p') mod num_partitions config"
      using assms(3,5) by simp_all
    with that show ?thesis by simp
  qed
  moreover have "MakeMachineId config r p = MakeMachineId config r' p' \<longleftrightarrow>
      r * num_partitions config + p = r' * num_partitions config + p'"
    unfolding MakeMachineId_eq_small(1) [OF assms(1-3)] MakeMachineId_eq_small(1) [OF assms(1,4,5)] of_nat_eq_iff ..
  ultimately show ?thesis by auto
qed

text \<open>The transactions that two regions share.\<close>

definition shared :: "nat \<Rightarrow> nat \<Rightarrow> transaction list \<Rightarrow> txn_id list" where
  "shared r1 r2 ts = map (\<lambda>t. tid t) (filter (\<lambda>t. involves r1 t \<and> involves r2 t) ts)"

lemma shared_append [simp]: "shared r1 r2 (xs @ ys) = shared r1 r2 xs @ shared r1 r2 ys"
  by (simp add: shared_def)

lemma shared_Unbatch [simp]: "shared r1 r2 (Unbatch b) = shared r1 r2 (b_transactions b)"
  by (simp add: shared_def Unbatch_eq filter_map comp_def set_internal_def involves_def)

lemma shared_part [simp]:
  "shared r1 r2 (filter (involves r1) ts) = shared r1 r2 ts" "shared r1 r2 (filter (involves r2) ts) = shared r1 r2 ts"
  by (auto simp: shared_def intro!: arg_cong [of _ _ "map _"] filter_cong)

definition inputs_agree :: "nat \<Rightarrow> nat \<Rightarrow> batch_log_op list \<Rightarrow> batch_log_op list \<Rightarrow> bool" where
  "inputs_agree r1 r2 xs ys \<longleftrightarrow>
     (\<forall>i b f c g. (i, b, f) \<in> set (slots_in xs) \<longrightarrow> (i, c, g) \<in> set (slots_in ys) \<longrightarrow> b = c) \<and>
     (\<forall>b d d'. (b, d) \<in> set (batches_in xs) \<longrightarrow> (b, d') \<in> set (batches_in ys) \<longrightarrow>
        shared r1 r2 (b_transactions d) = shared r1 r2 (b_transactions d'))"

lemma agree_item:
  assumes "inputs_agree r1 r2 xs ys" "bl_item xs i = Some d" "bl_item ys i = Some d'"
  shows "shared r1 r2 (b_transactions d) = shared r1 r2 (b_transactions d')"
proof -
  from assms(2,3) obtain b f c g where
    "(i, b, f) \<in> set (slots_in xs)" "(i, c, g) \<in> set (slots_in ys)" "(b, d) \<in> set (batches_in xs)" "(c, d') \<in> set (batches_in ys)"
    by (auto simp: bl_item_Some dest!: map_of_SomeD)
  with assms(1) show ?thesis unfolding inputs_agree_def by metis
qed

lemma agree_prefix:
  assumes "inputs_agree r1 r2 xs ys" "\<forall>i < n. bl_item xs i \<noteq> None" "\<forall>i < n. bl_item ys i \<noteq> None"
  shows "shared r1 r2 (unbatched (emitted (bl_item xs) 0 n)) = shared r1 r2 (unbatched (emitted (bl_item ys) 0 n))"
  using assms(2,3)
proof (induction n)
  case (Suc n)
  obtain d d' where d: "bl_item xs n = Some d" "bl_item ys n = Some d'" using Suc.prems by blast
  have "emitted it 0 (Suc n) = emitted it 0 n @ [(n, the (it n))]" for it :: "nat \<Rightarrow> batch option"
    by (simp add: emitted_def)
  moreover have "shared r1 r2 (unbatched [(n, d)]) = shared r1 r2 (unbatched [(n, d')])"
    using agree_item [OF assms(1) d] by (simp add: unbatched_def)
  ultimately show ?case using Suc d by simp
qed (simp add: emitted_def)

lemma shared_emitted_prefix:
  "m \<le> n \<Longrightarrow> prefix (shared r1 r2 (unbatched (emitted it 0 m))) (shared r1 r2 (unbatched (emitted it 0 n)))"
  using emitted_append [of 0 m n it] by (metis shared_append le0 prefixI unbatched_append)

lemma orderers_agree_on_inputs:
  assumes "mho_run wj c1 es1 s1 = Inr (s1', out1)" "multi_home_batch_log s1 = BatchLog" "bl_legal (mho_inputs es1)"
    and "mho_run wj c2 es2 s2 = Inr (s2', out2)" "multi_home_batch_log s2 = BatchLog" "bl_legal (mho_inputs es2)"
    and "inputs_agree r1 r2 (mho_inputs es1) (mho_inputs es2)"
  shows "prefix (shared r1 r2 (sequenced_txns out1)) (shared r1 r2 (sequenced_txns out2)) \<or>
    prefix (shared r1 r2 (sequenced_txns out2)) (shared r1 r2 (sequenced_txns out1))"
proof -
  from mho_run_emits [OF assms(1-3)] obtain n where n:
    "sequenced_txns out1 = unbatched (emitted (bl_item (mho_inputs es1)) 0 n)" "\<forall>i < n. bl_item (mho_inputs es1) i \<noteq> None" by blast
  from mho_run_emits [OF assms(4-6)] obtain m where m:
    "sequenced_txns out2 = unbatched (emitted (bl_item (mho_inputs es2)) 0 m)" "\<forall>i < m. bl_item (mho_inputs es2) i \<noteq> None" by blast
  show ?thesis
  proof (cases "n \<le> m")
    case True
    with m(2) have "\<forall>i < n. bl_item (mho_inputs es2) i \<noteq> None" by auto
    from agree_prefix [OF assms(7) n(2) this] shared_emitted_prefix [OF True] show ?thesis unfolding n(1) m(1) by metis
  next
    case False
    with n(2) have "\<forall>i < m. bl_item (mho_inputs es1) i \<noteq> None" by auto
    from agree_prefix [OF assms(7) this m(2)] shared_emitted_prefix [of m n] False show ?thesis unfolding n(1) m(1)
      by (metis nle_le)
  qed
qed

text \<open>Every part that arrives at region \<open>r\<close> is the part of \<open>r\<close> of a batch of some orderer, and its id tells which.\<close>

lemma orderer_runD:
  assumes "orderer_system wj config commits es out" "r < num_replicas config" "p < num_partitions config"
  obtains s where "mho_run wj (at_machine config r p) (es r p) (MultiHomeOrderer (at_machine config r p)) = Inr (s, out r p)"
    "length (es r p) + 1 < 2 ^ 57" "bl_legal (mho_inputs (es r p))" "list_all distinct_regions (es r p)"
    "list_all (input_sent config commits out r p) (es r p)"
proof -
  have "(r, p) \<in> set (machines config)" using assms(2,3) by (simp add: machines_def)
  with assms(1) have "orderer_run wj config commits es out (r, p)" by (simp add: orderer_system_def list_all_iff)
  with that show thesis by (auto simp: orderer_run_def split: sum.splits)
qed

lemma system_parts:
  assumes sys: "orderer_system wj config commits es out" and small: "num_replicas config * num_partitions config \<le> kMaxNumMachines"
  obtains F where "\<And>r bs. r < num_replicas config \<Longrightarrow>
    \<exists>(r', p') \<in> set (machines config). part_sent (out r' p') (MakeMachineId config r 0) bs \<Longrightarrow>
    \<exists>i. bs = [\<lparr>b_id = i, b_transactions = filter (involves r) (F i), b_type = MULTI_HOME_OR_LOCK_ONLY, b_events = []\<rparr>]"
proof -
  let ?P = "\<lambda>rp F. \<forall>m bs. part_sent (out (fst rp) (snd rp)) m bs \<longrightarrow> (\<exists>r c. r < num_replicas config \<and> c < 2 ^ 57 \<and>
    m = MakeMachineId config r 0 \<and> bs = [batch_part (at_machine config (fst rp) (snd rp)) c r (F c)])"
  have "\<exists>F. ?P (r, p) F" if rp: "(r, p) \<in> set (machines config)" for r p
  proof -
    have "r < num_replicas config" "p < num_partitions config" using rp by (simp_all add: machines_def)
    from orderer_runD [OF sys this] obtain s where
      run: "mho_run wj (at_machine config r p) (es r p) (MultiHomeOrderer (at_machine config r p)) = Inr (s, out r p)"
      and len: "length (es r p) + 1 < 2 ^ 57" and d: "list_all distinct_regions (es r p)" by metis
    have "mho_batch_id_counter (MultiHomeOrderer (at_machine config r p)) + length (es r p) < 2 ^ 57"
      using len by (simp add: MultiHomeOrderer_open)
    from mho_run_parts [OF run MultiHomeOrderer_open(1) this d] show ?thesis by simp blast
  qed
  then have "\<forall>rp \<in> set (machines config). \<exists>F. ?P rp F" by (metis prod.collapse)
  from bchoice [OF this] obtain G where G: "\<forall>rp \<in> set (machines config). ?P rp (G rp)" by blast
  let ?F = "\<lambda>i. G (i mod kMaxNumMachines div num_partitions config, i mod kMaxNumMachines mod num_partitions config) (i div kMaxNumMachines)"
  show thesis
  proof (rule that [of ?F])
    fix r bs
    assume r: "r < num_replicas config" and "\<exists>(r', p') \<in> set (machines config). part_sent (out r' p') (MakeMachineId config r 0) bs"
    then obtain r' p' where rp: "(r', p') \<in> set (machines config)" "part_sent (out r' p') (MakeMachineId config r 0) bs" by blast
    then have b: "r' < num_replicas config" "p' < num_partitions config" by (simp_all add: machines_def)
    have "\<exists>r c. r < num_replicas config \<and> c < 2 ^ 57 \<and> MakeMachineId config r0 0 = MakeMachineId config r 0 \<and>
        bs = [batch_part (at_machine config r' p') c r (G (r', p') c)]" if "part_sent (out r' p') (MakeMachineId config r0 0) bs" for r0
      using bspec [OF G rp(1)] that by (simp only: fst_conv snd_conv)
    from this [OF rp(2)] obtain r1 c where c: "r1 < num_replicas config" "c < 2 ^ 57" "MakeMachineId config r 0 = MakeMachineId config r1 0"
      "bs = [batch_part (at_machine config r' p') c r1 (G (r', p') c)]" by blast
    have "r1 = r" using c(3) MakeMachineId_eq_iff [OF small r _ c(1), of 0 0] b(2) by auto
    let ?m = "r' * num_partitions config + p'"
    note m = MakeMachineId_eq_small [OF small b]
    have i: "mho_batch_id (at_machine config r' p') c = c * kMaxNumMachines + ?m"
      by (rule mho_batch_id_eq [OF c(2) m(2)]) (simp add: m(1))
    have "?F (c * kMaxNumMachines + ?m) = G (r', p') c" using m(2) b(2) by simp
    with c(4) i \<open>r1 = r\<close> show "\<exists>i. bs = [\<lparr>b_id = i, b_transactions = filter (involves r) (?F i), b_type = MULTI_HOME_OR_LOCK_ONLY, b_events = []\<rparr>]"
      by (intro exI [of _ "c * kMaxNumMachines + ?m"]) (simp add: batch_part_def)
  qed
qed

lemma slots_from_commits:
  assumes "list_all (input_sent config commits out r p) es" "(i, b, f) \<in> set (slots_in (mho_inputs es))"
  shows "\<exists>m ldr. (m, i, b, ldr) \<in> set commits"
  using assms
proof (induction es)
  case (Cons e es)
  show ?case
  proof (cases "(i, b, f) \<in> set (slots_in (mho_input e))")
    case True
    then show ?thesis using Cons.prems(1)
      by (cases e rule: mho_input.cases) (auto simp: slots_in_def list_ex_iff GlobalPaxos_OnCommit_def split: if_splits)
  next
    case False
    with Cons show ?thesis by (auto simp: mho_inputs_def)
  qed
qed (simp add: mho_inputs_def slots_in_def)

lemma parts_from_orderers:
  assumes "list_all (input_sent config commits out r p) es" "(i, d) \<in> set (batches_in (mho_inputs es))"
  shows "\<exists>bs. i = b_id d \<and> d = last bs \<and> (\<exists>(r', p') \<in> set (machines config). part_sent (out r' p') (MakeMachineId config r p) bs)"
  using assms
proof (induction es)
  case (Cons e es)
  show ?case
  proof (cases "(i, d) \<in> set (batches_in (mho_input e))")
    case True
    then obtain now bs hm pos where e: "e = Receive now (ForwardBatchData bs hm pos)" "i = b_id d" "d = last bs"
      by (cases e rule: mho_input.cases) (auto simp: batches_in_def)
    with Cons.prems(1) show ?thesis by (intro exI [of _ bs]) (auto simp: part_sent_def list_ex_iff)
  next
    case False
    with Cons show ?thesis by (auto simp: mho_inputs_def)
  qed
qed (simp add: mho_inputs_def batches_in_def)

text \<open>The orderers of two regions get inputs that agree on what the regions share.\<close>

lemma system_inputs_agree:
  assumes sys: "orderer_system wj config commits es out" and small: "num_replicas config * num_partitions config \<le> kMaxNumMachines"
    and agree: "\<And>m slot v ldr m' v' ldr'. (m, slot, v, ldr) \<in> set commits \<Longrightarrow> (m', slot, v', ldr') \<in> set commits \<Longrightarrow> v = v'"
    and r: "r1 < num_replicas config" "r2 < num_replicas config" and p: "0 < num_partitions config"
  shows "inputs_agree r1 r2 (mho_inputs (es r1 0)) (mho_inputs (es r2 0))"
proof -
  from orderer_runD [OF sys r(1) p] have in1: "list_all (input_sent config commits out r1 0) (es r1 0)" by metis
  from orderer_runD [OF sys r(2) p] have in2: "list_all (input_sent config commits out r2 0) (es r2 0)" by metis
  from system_parts [OF sys small] obtain F where F: "\<And>r bs. r < num_replicas config \<Longrightarrow>
    \<exists>(r', p') \<in> set (machines config). part_sent (out r' p') (MakeMachineId config r 0) bs \<Longrightarrow>
    \<exists>i. bs = [\<lparr>b_id = i, b_transactions = filter (involves r) (F i), b_type = MULTI_HOME_OR_LOCK_ONLY, b_events = []\<rparr>]" by blast
  have part: "b_transactions d = filter (involves r) (F i)"
    if "list_all (input_sent config commits out r 0) es'" "(i, d) \<in> set (batches_in (mho_inputs es'))" "r < num_replicas config" for r es' i d
  proof -
    from parts_from_orderers [OF that(1,2)] obtain bs where "i = b_id d" "d = last bs"
      "\<exists>(r', p') \<in> set (machines config). part_sent (out r' p') (MakeMachineId config r 0) bs" by blast
    with F [OF that(3), of bs] show ?thesis by auto
  qed
  have "b = c" if "(i, b, f) \<in> set (slots_in (mho_inputs (es r1 0)))" "(i, c, g) \<in> set (slots_in (mho_inputs (es r2 0)))" for i b f c g
    using slots_from_commits [OF in1 that(1)] slots_from_commits [OF in2 that(2)] agree by blast
  moreover have "shared r1 r2 (b_transactions d) = shared r1 r2 (b_transactions d')"
    if "(b, d) \<in> set (batches_in (mho_inputs (es r1 0)))" "(b, d') \<in> set (batches_in (mho_inputs (es r2 0)))" for b d d'
    unfolding part [OF in1 that(1) r(1)] part [OF in2 that(2) r(2)] by simp
  ultimately show ?thesis unfolding inputs_agree_def by blast
qed

lemma orderers_agree:
  assumes sys: "orderer_system wj config commits es out" and small: "num_replicas config * num_partitions config \<le> kMaxNumMachines"
    and agree: "\<And>m slot v ldr m' v' ldr'. (m, slot, v, ldr) \<in> set commits \<Longrightarrow> (m', slot, v', ldr') \<in> set commits \<Longrightarrow> v = v'"
    and r: "r1 < num_replicas config" "r2 < num_replicas config" and p: "0 < num_partitions config"
  shows "prefix (shared r1 r2 (sequenced_txns (out r1 0))) (shared r1 r2 (sequenced_txns (out r2 0))) \<or>
    prefix (shared r1 r2 (sequenced_txns (out r2 0))) (shared r1 r2 (sequenced_txns (out r1 0)))"
proof -
  from orderer_runD [OF sys r(1) p] obtain s1 where 1:
    "mho_run wj (at_machine config r1 0) (es r1 0) (MultiHomeOrderer (at_machine config r1 0)) = Inr (s1, out r1 0)"
    "bl_legal (mho_inputs (es r1 0))" by metis
  from orderer_runD [OF sys r(2) p] obtain s2 where 2:
    "mho_run wj (at_machine config r2 0) (es r2 0) (MultiHomeOrderer (at_machine config r2 0)) = Inr (s2, out r2 0)"
    "bl_legal (mho_inputs (es r2 0))" by metis
  have "inputs_agree r1 r2 (mho_inputs (es r1 0)) (mho_inputs (es r2 0))"
    by (rule system_inputs_agree [OF sys small _ r p]) (rule agree)
  from orderers_agree_on_inputs [OF 1(1) MultiHomeOrderer_open(3) 1(2) 2(1) MultiHomeOrderer_open(3) 2(2) this] show ?thesis .
qed

end
