(* ===== verification/Ordering_Properties.thy ===== *)
theory Ordering_Properties
  imports Interleaver_Model Sequencer_Model Orderer_System Data_Properties
begin

text \<open>
  What the ordering layer guarantees: sequencers number their batches without gaps, the consensus
  groups give every machine the same value for a slot, and interleavers and orderers pass
  transactions on in the order of the slots.
\<close>

section \<open>Sequencer\<close>

definition local_txn :: "txn_id \<Rightarrow> key \<Rightarrow> nat \<Rightarrow> transaction" where
  "local_txn t k p = set_internal (\<lambda>i. i\<lparr>involved_partitions := [p]\<rparr>) (mk_txn t SINGLE_HOME 1 (Code []) [mk_kv k 1 0 WRITE])"

definition sample_rounds :: "((int \<times> transaction) list \<times> int \<times> bool list) list" where
  "sample_rounds = [([(0, local_txn 101 ''2'' 0), (1, local_txn 201 ''3'' 1)], 5, []), ([(6, local_txn 301 ''6'' 0)], 11, [])]"

text \<open>C8. Without simulated delays, the sequencer sends the local log of every partition of its region one data
  message per batch, numbered \<open>0, 1, 2, ...\<close> without gap, with the batch ids of the same counter; together with
  what is still in the open batches they hold exactly the shares of that partition of all transactions, in
  order; and the local consensus gets exactly one proposal per batch.\<close>

theorem sequencer_numbers_batches:
  assumes "machines_ok config" "p < num_partitions config" "pc_delay_pct (proto_config config) = 0"
    and "seq_rounds rp config rs (Sequencer config) = Inr (s', out)"
    and "length (round_txns rs) + length rs + 1 < 2 ^ 32"
    and "list_all (\<lambda>t. distinct (involved_partitions (internal t))) (round_txns rs)"
  shows "\<exists>data. positions_sent (MakeMachineId config (local_replica config) p) out = zip [0..<length data] data \<and>
    map b_id data = map (\<lambda>i. Sequencer_batch_id config (i + 1)) [0..<length data] \<and>
    concat (map b_transactions data) @ partition_content p s' = concat (map (share rp config p) (round_txns rs)) \<and>
    proposals out = replicate (length data) (local_partition config)"
proof -
  let ?s = "\<lparr>seq_batches = [], batch_id_counter = 0, current_batch_size = 0, total_batch_size = 0, seq_stats = no_stats\<rparr>"
  have "batch_id_counter ?s + 1 < 2 ^ 64" by simp
  note S = StartOver_ok [OF this, where config = config, folded Sequencer_def]
  have "batch_id_counter (Sequencer config) + length (round_txns rs) + length rs < 2 ^ 32"
    unfolding S(2) using assms(5) by simp
  from seq_rounds_positions [OF assms(1-4) S(1) this assms(6)] obtain data where
    "positions_sent (MakeMachineId config (local_replica config) p) out =
      zip [0..<batch_id_counter s' - length (seq_batches s')] data"
    "length data = batch_id_counter s' - length (seq_batches s')"
    "map b_id data = map (\<lambda>i. Sequencer_batch_id config (i + 1)) [0..<batch_id_counter s' - length (seq_batches s')]"
    "concat (map b_transactions data) @ partition_content p s' = concat (map (share rp config p) (round_txns rs))"
    "proposals out = replicate (length data) (local_partition config)"
    unfolding S(2,3) S(5) [OF assms(2)] by auto
  then show ?thesis by (intro exI [of _ data]) simp
qed

theorem sequencer_numbers_batches_witness:
  "\<exists>s' out. seq_rounds COUNTERLESS sample_config sample_rounds (Sequencer sample_config) = Inr (s', out) \<and>
    (\<exists>data. positions_sent (MakeMachineId sample_config (local_replica sample_config) 0) out = zip [0..<length data] data \<and>
      concat (map b_transactions data) @ partition_content 0 s' =
        concat (map (share COUNTERLESS sample_config 0) (round_txns sample_rounds)) \<and>
      proposals out = replicate (length data) (local_partition sample_config))"
proof -
  obtain s' out where run: "seq_rounds COUNTERLESS sample_config sample_rounds (Sequencer sample_config) = Inr (s', out)"
  proof (cases "seq_rounds COUNTERLESS sample_config sample_rounds (Sequencer sample_config)")
    case (Inl e)
    moreover have "\<not> isl (seq_rounds COUNTERLESS sample_config sample_rounds (Sequencer sample_config))" by code_simp
    ultimately show ?thesis by simp
  qed (use that in force)
  have "machines_ok sample_config" "0 < num_partitions sample_config" "pc_delay_pct (proto_config sample_config) = 0"
    "length (round_txns sample_rounds) + length sample_rounds + 1 < 2 ^ 32"
    "list_all (\<lambda>t. distinct (involved_partitions (internal t))) (round_txns sample_rounds)" by code_simp+
  with sequencer_numbers_batches [OF _ _ _ run, of 0] run show ?thesis by blast
qed






section \<open>Consensus\<close>

text \<open>A schedule of proposals and deliveries, played on a group from its initial state.\<close>

datatype paxos_move = Propose machine_id nat | Deliver nat

definition paxos_start :: "machine_id list \<Rightarrow> paxos_system" where
  "paxos_start ms = \<lparr>px_nodes = \<lambda>m. projr (SimulatedMultiPaxos ms m), px_net = [], px_history = [], px_proposed = []\<rparr>"

fun paxos_play :: "paxos_move list \<Rightarrow> paxos_system \<Rightarrow> paxos_system option" where
  "paxos_play [] S = Some S"
| "paxos_play (Propose m v # moves) S =
     (case paxos_handle m (Request (PaxosPropose v)) (px_nodes S m) of
        Inl e \<Rightarrow> None
      | Inr (p, out) \<Rightarrow> paxos_play moves (after_handler m p out (S\<lparr>px_proposed := v # px_proposed S\<rparr>)))"
| "paxos_play (Deliver i # moves) S =
     (if length (px_net S) \<le> i then None
      else case px_net S ! i of
        (m, m', e) \<Rightarrow>
          (case paxos_handle m e (px_nodes S m') of
             Inl err \<Rightarrow> None
           | Inr (p, out) \<Rightarrow>
               paxos_play moves (after_handler m' p out (S\<lparr>px_net := take i (px_net S) @ drop (Suc i) (px_net S)\<rparr>))))"

lemma paxos_play_run:
  assumes "paxos_play moves S = Some S'" "paxos_run ms n S"
  shows "paxos_run ms (n + length moves) S'"
  using assms
proof (induction moves S arbitrary: n rule: paxos_play.induct)
  case (2 m v moves S)
  then obtain p out where h: "paxos_handle m (Request (PaxosPropose v)) (px_nodes S m) = Inr (p, out)"
    by (auto split: sum.splits)
  with "2.prems"(1) have play: "paxos_play moves (after_handler m p out (S\<lparr>px_proposed := v # px_proposed S\<rparr>)) = Some S'" by simp
  from "2.IH" [OF h refl play paxos_run.propose [OF "2.prems"(2) h]] show ?case by simp
next
  case (3 i moves S)
  obtain m m' e where x: "px_net S ! i = (m, m', e)" by (cases "px_net S ! i") auto
  from "3.prems"(1) x obtain p out where i: "i < length (px_net S)" and h: "paxos_handle m e (px_nodes S m') = Inr (p, out)"
    by (auto split: sum.splits if_splits)
  with "3.prems"(1) x have
    play: "paxos_play moves (after_handler m' p out (S\<lparr>px_net := take i (px_net S) @ drop (Suc i) (px_net S)\<rparr>)) = Some S'" by simp
  have "px_net S = take i (px_net S) @ (m, m', e) # drop (Suc i) (px_net S)" using i x by (metis id_take_nth_drop)
  from "3.IH" [OF _ x [symmetric] refl h refl play paxos_run.deliver [OF "3.prems"(2) this h]] i show ?case by simp
qed simp

lemma paxos_start_run: "ms \<noteq> [] \<Longrightarrow> paxos_run ms 0 (paxos_start ms)"
  unfolding paxos_start_def by (rule paxos_run.start) (simp add: SimulatedMultiPaxos_def Leader_def Let_def)

text \<open>C5. In every run of a consensus group, with messages delivered in any order, two machines that commit a
  slot commit the same value from the same leader, and the value is one that was proposed, modulo \<open>2 ^ 32\<close>.\<close>

theorem paxos_agreement:
  assumes "paxos_run ms n S" "n + 1 < 2 ^ 32" "(m, slot, v, ldr) \<in> set (px_history S)"
    and "(m', slot, v', ldr') \<in> set (px_history S)"
  shows "v = v' \<and> ldr = ldr' \<and> (\<exists>u \<in> set (px_proposed S). v = u mod 2 ^ 32)"
proof -
  from paxos_run_ok [OF assms(1,2)] obtain vs where vs: "system_ok ms vs S" by blast
  have "commit_ok ms vs (m, slot, v, ldr)" "commit_ok ms vs (m', slot, v', ldr')"
    using system_okD(3) [OF vs] assms(3,4) by blast+
  moreover have "slot < length vs \<Longrightarrow> vs ! slot \<in> set (px_proposed S)" using system_okD(4) [OF vs] nth_mem by blast
  ultimately show ?thesis by (auto simp: commit_ok_def)
qed

definition sample_moves :: "paxos_move list" where
  "sample_moves = [Propose 2 7, Deliver 0, Deliver 1, Deliver 2, Deliver 1, Deliver 1, Deliver 3, Deliver 1]"

lemma sample_moves_history:
  "map_option px_history (paxos_play sample_moves (paxos_start [0, 2, 4])) = Some [(4, 0, 7, 0), (0, 0, 7, 0)]"
  by code_simp

theorem paxos_agreement_witness:
  "\<exists>S. paxos_run [0, 2, 4] 8 S \<and> (4, 0, 7, 0) \<in> set (px_history S) \<and> (0, 0, 7, 0) \<in> set (px_history S) \<and>
    (\<exists>u \<in> set (px_proposed S). 7 = u mod 2 ^ 32)"
proof -
  from sample_moves_history obtain S where
    S: "paxos_play sample_moves (paxos_start [0, 2, 4]) = Some S" "px_history S = [(4, 0, 7, 0), (0, 0, 7, 0)]" by blast
  have "paxos_run [0, 2, 4] 8 S"
    using paxos_play_run [OF S(1) paxos_start_run] by (simp add: sample_moves_def eval_nat_numeral)
  with paxos_agreement [OF this, of 4 0 7 0 0 7 0] S(2) show ?thesis by auto
qed

text \<open>The leader sends the commit of a slot to all members exactly when a majority of the acceptors has
  accepted it, and only once, no matter which accept responses of other slots arrive in between.\<close>

theorem leader_commits_once_on_majority:
  assumes "feed_responses rs l = (l', out)" "instances l slot = Some i" "num_accepts i = 0"
    and "list_all (\<lambda>r. accepted_slot r \<noteq> None) rs"
  shows "commits_for slot out =
    (if length (acceptors l) div 2 + 1 \<le> accepts_for slot rs
     then [SendSameChannel (Request (PaxosCommit slot (pi_value i) (uint32_of_int (me l)))) (members l)] else [])"
  using feed_responses_commits [OF assms(1,2,4)] assms(3) by simp

definition sample_leader :: leader where
  "sample_leader = \<lparr>members = [0, 2, 4], acceptors = [0, 2, 4], me = 0, is_elected = True, is_member = True,
     elected_leader = 0, next_empty_slot = 1, l_ballot = Some 0,
     instances = [0 \<mapsto> \<lparr>pi_ballot = 0, pi_value = 7, num_accepts = 0, num_commits = 0\<rparr>]\<rparr>"

theorem leader_commits_once_on_majority_witness:
  "commits_for 0 (snd (feed_responses [PaxosAccepted 0 0, PaxosAccepted 0 5, PaxosAccepted 0 0, PaxosAccepted 0 0] sample_leader)) =
     [SendSameChannel (Request (PaxosCommit 0 7 0)) [0, 2, 4]]"
proof -
  let ?rs = "[PaxosAccepted 0 0, PaxosAccepted 0 5, PaxosAccepted 0 0, PaxosAccepted 0 0]"
  obtain l' out where f: "feed_responses ?rs sample_leader = (l', out)" by (cases "feed_responses ?rs sample_leader")
  have "instances sample_leader 0 = Some \<lparr>pi_ballot = 0, pi_value = 7, num_accepts = 0, num_commits = 0\<rparr>"
    "num_accepts \<lparr>pi_ballot = 0, pi_value = 7, num_accepts = 0, num_commits = 0\<rparr> = 0"
    "list_all (\<lambda>r. accepted_slot r \<noteq> None) ?rs" by code_simp+
  note L = leader_commits_once_on_majority [OF f this]
  have "accepts_for 0 ?rs = 3" "length (acceptors sample_leader) = 3" "members sample_leader = [0, 2, 4]"
    "uint32_of_int (me sample_leader) = 0" by code_simp+
  with L show ?thesis unfolding f by simp
qed

text \<open>C38. The commit response is read as an accept response, whose slot is then 0. So in every run the leader keeps the
  instance of every slot it has started, except for slot 0. And commit responses for whatever slots, as many as there
  are members, collect the instance of slot 0: if it had no majority before, no responses make the leader commit slot 0 any more.\<close>

theorem commit_responses_collect_slot_0:
  assumes "paxos_run ms n S" "n + 1 < 2 ^ 32"
  shows "(\<forall>slot. 0 < slot \<longrightarrow> slot < next_empty_slot (px_leader (px_nodes S (ms ! 0))) \<longrightarrow>
      instances (px_leader (px_nodes S (ms ! 0))) slot \<noteq> None) \<and>
    (\<forall>i slots rs. instances (px_leader (px_nodes S (ms ! 0))) 0 = Some i \<longrightarrow>
      num_commits i < length (members (px_leader (px_nodes S (ms ! 0)))) \<longrightarrow>
      length slots = length (members (px_leader (px_nodes S (ms ! 0)))) \<longrightarrow>
      commits_for 0 (snd (feed_responses (map PaxosCommitted slots @ rs) (px_leader (px_nodes S (ms ! 0))))) = [])"
proof (intro conjI allI impI)
  let ?l = "px_leader (px_nodes S (ms ! 0))"
  show "instances ?l slot \<noteq> None" if "0 < slot" "slot < next_empty_slot ?l" for slot
    using paxos_run_keeps [OF assms] that by (simp add: keeps_instances_def)
  fix i and slots :: "slot_id list" and rs
  assume i: "instances ?l 0 = Some i" "num_commits i < length (members ?l)" "length slots = length (members ?l)"
  obtain l1 out1 where l1: "feed_responses (map PaxosCommitted slots) ?l = (l1, out1)" by fastforce
  with commit_responses_collect [OF i(1,2), of slots] i(3) have "out1 = []" "instances l1 0 = None" by simp_all
  moreover from feed_responses_collected [OF this(2), of rs] have "commits_for 0 (snd (feed_responses rs l1)) = []" .
  ultimately show "commits_for 0 (snd (feed_responses (map PaxosCommitted slots @ rs) ?l)) = []"
    by (cases "feed_responses rs l1") (simp add: feed_responses_append l1)
qed

text \<open>Two values are proposed to a group of three; the second one is accepted first.\<close>

definition early_moves :: "paxos_move list" where
  "early_moves = [Propose 0 7, Propose 0 8, Deliver 3, Deliver 3, Deliver 4, Deliver 4]"

theorem commit_responses_collect_slot_0_witness:
  "\<exists>S. paxos_run [0, 2, 4] 6 S \<and> next_empty_slot (px_leader (px_nodes S 0)) = 2 \<and>
     instances (px_leader (px_nodes S 0)) 1 \<noteq> None \<and>
     map_option (\<lambda>i. (num_accepts i, num_commits i)) (instances (px_leader (px_nodes S 0)) 0) = Some (0, 0) \<and>
     commits_for 0 (snd (feed_responses ([PaxosCommitted 1, PaxosCommitted 1, PaxosCommitted 1] @
       [PaxosAccepted 0 0, PaxosAccepted 0 0, PaxosAccepted 0 0]) (px_leader (px_nodes S 0)))) = []"
proof -
  let ?f = "\<lambda>S. (next_empty_slot (px_leader (px_nodes S 0)), members (px_leader (px_nodes S 0)),
     map_option (\<lambda>i. (num_accepts i, num_commits i)) (instances (px_leader (px_nodes S 0)) 0),
     length (filter (\<lambda>(m, m', e). case e of Request (PaxosCommit slot v ldr) \<Rightarrow> slot = 1 | _ \<Rightarrow> False) (px_net S)))"
  have "map_option ?f (paxos_play early_moves (paxos_start [0, 2, 4])) = Some (2, [0, 2, 4], Some (0, 0), 3)" by code_simp
  then obtain S where S: "paxos_play early_moves (paxos_start [0, 2, 4]) = Some S" "next_empty_slot (px_leader (px_nodes S 0)) = 2"
    "members (px_leader (px_nodes S 0)) = [0, 2, 4]"
    and i0: "map_option (\<lambda>i. (num_accepts i, num_commits i)) (instances (px_leader (px_nodes S 0)) 0) = Some (0, 0)" by auto
  then obtain i where i: "instances (px_leader (px_nodes S 0)) 0 = Some i" "num_commits i = 0" by auto
  have run: "paxos_run [0, 2, 4] 6 S"
    using paxos_play_run [OF S(1) paxos_start_run] by (simp add: early_moves_def eval_nat_numeral)
  have "instances (px_leader (px_nodes S 0)) 1 \<noteq> None \<and>
    commits_for 0 (snd (feed_responses (map PaxosCommitted [1, 1, 1] @
       [PaxosAccepted 0 0, PaxosAccepted 0 0, PaxosAccepted 0 0]) (px_leader (px_nodes S 0)))) = []"
  proof -
    have n: "(6 :: nat) + 1 < 2 ^ 32" by simp
    note C = commit_responses_collect_slot_0 [OF run n, unfolded nth_Cons_0]
    have "instances (px_leader (px_nodes S 0)) 1 \<noteq> None" using C [THEN conjunct1, rule_format, of 1] S(2) by simp
    moreover have "commits_for 0 (snd (feed_responses (map PaxosCommitted [1, 1, 1] @
       [PaxosAccepted 0 0, PaxosAccepted 0 0, PaxosAccepted 0 0]) (px_leader (px_nodes S 0)))) = []"
      by (rule C [THEN conjunct2, rule_format, OF i(1)]) (simp_all add: i(2) S(3))
    ultimately show ?thesis ..
  qed
  with run S(2) i0 show ?thesis by (intro exI [of _ S]) simp
qed

text \<open>Batch ids have 64 bits, but a committed value passes through 32 bits: the global consensus announces
  another batch id than the one that was proposed as soon as ids exceed \<open>2 ^ 32\<close>.\<close>

theorem global_order_truncates_batch_ids:
  "map_option (\<lambda>S. concat (map (\<lambda>(m, slot, v, ldr). GlobalPaxos_OnCommit (sample_config\<lparr>local_replica := 0\<rparr>) slot v ldr)
       (filter (\<lambda>(m, _). m = 0) (px_history S))))
     (paxos_play [Propose 0 (2 ^ 32 + 100), Deliver 0, Deliver 0, Deliver 0]
        (paxos_start [0])) =
   Some [SendTo (Request (RemoteBatchOrder 100 0 0 False)) [0, 2] kMultiHomeOrdererChannel]"
  by code_simp

section \<open>Interleaver\<close>

definition region_batch :: "batch_id \<Rightarrow> txn_id \<Rightarrow> batch" where
  "region_batch b t = \<lparr>b_id = b, b_transactions = [mk_txn t SINGLE_HOME 0 (Code []) [mk_kv ''A'' 0 0 WRITE]],
     b_type = SINGLE_HOME, b_events = []\<rparr>"

definition sample_deliveries :: "delivery list" where
  "sample_deliveries =
     [(1, RemoteBatchOrder 200 1 0 False), (0, ForwardBatchData [region_batch 200 21, region_batch 200 22] 0 1),
      (0, ForwardBatchData [region_batch 100 11, region_batch 100 12] 0 0), (1, RemoteBatchOrder 100 0 0 False)]"

text \<open>C10. From the batches and orders of another region \<open>r\<close>, arriving in any order and mixed with those of all other
  regions, the transactions of home \<open>r\<close> that the interleaver hands to the scheduler are exactly those of the batches of slots
  \<open>0, 1, 2, ...\<close> of that region, in this order, once each and up to the first slot that is not available, each batch
  with its transactions in order.\<close>

theorem interleaver_follows_slot_order:
  assumes "Interleaver config = Inr s" "il_run config ms s = Inr (s', out)" "ms \<noteq> []" "list_all homes_match ms"
    and "r \<noteq> local_replica config" "local_partition config < num_partitions config"
    and "bl_legal (concat (map (region_input config r) ms))"
  shows "\<exists>n. emit_prefix (bl_item (concat (map (region_input config r) ms))) n \<and>
    of_region r (scheduled out) =
      concat (map (Unbatch \<circ> snd) (emitted (bl_item (concat (map (region_input config r) ms))) 0 n))"
proof -
  have "single_home_logs s = []" using assms(1) by (auto simp: Interleaver_def Let_def split: sum.splits)
  from il_run_emits_region [OF assms(2) this assms(4-7,3)] show ?thesis .
qed

theorem interleaver_follows_slot_order_witness:
  "\<exists>s s' out n. Interleaver sample_config = Inr s \<and> il_run sample_config sample_deliveries s = Inr (s', out) \<and>
    map tid (of_region 0 (scheduled out)) = [11, 21] \<and>
    emit_prefix (bl_item (concat (map (region_input sample_config 0) sample_deliveries))) n \<and>
    of_region 0 (scheduled out) =
      concat (map (Unbatch \<circ> snd) (emitted (bl_item (concat (map (region_input sample_config 0) sample_deliveries))) 0 n))"
proof -
  have "map_sum (\<lambda>_. ()) (\<lambda>(s', out). map tid (of_region 0 (scheduled out)))
     (case Interleaver sample_config of Inl e \<Rightarrow> Inl e | Inr s \<Rightarrow> il_run sample_config sample_deliveries s) = Inr [11, 21]"
    by code_simp
  then obtain s where 1: "Interleaver sample_config = Inr s"
    "map_sum (\<lambda>_. ()) (\<lambda>(s', out). map tid (of_region 0 (scheduled out))) (il_run sample_config sample_deliveries s) = Inr [11, 21]"
    by (cases "Interleaver sample_config") simp_all
  then obtain s' out where s: "Interleaver sample_config = Inr s" "il_run sample_config sample_deliveries s = Inr (s', out)"
    "map tid (of_region 0 (scheduled out)) = [11, 21]"
    by (cases "il_run sample_config sample_deliveries s") auto
  have "sample_deliveries \<noteq> []" "list_all homes_match sample_deliveries" "0 \<noteq> local_replica sample_config"
    "local_partition sample_config < num_partitions sample_config"
    "bl_legal (concat (map (region_input sample_config 0) sample_deliveries))" by code_simp+
  from interleaver_follows_slot_order [OF s(1,2) this] obtain n where n:
    "emit_prefix (bl_item (concat (map (region_input sample_config 0) sample_deliveries))) n"
    "of_region 0 (scheduled out) =
      concat (map (Unbatch \<circ> snd) (emitted (bl_item (concat (map (region_input sample_config 0) sample_deliveries))) 0 n))" by blast
  show ?thesis by (intro exI conjI) (rule s n)+
qed

section \<open>Multi-home orderer\<close>

text \<open>C6. The multi-home orderers of all machines run together: what they receive as parts of batches is what the orderers send,
  and what they receive as order is what the global consensus announces. Then the orderers of any two regions pass the
  transactions that involve both regions on in the same order: one sequence is a prefix of the other, however messages
  and timers were interleaved. Every part and every order arrives at most once, and a transaction names each of its regions once.\<close>

theorem orderers_of_regions_agree:
  assumes "paxos_run ms n S" "n + 1 < 2 ^ 32" "orderer_system wj config (px_history S) es out"
    and "num_replicas config * num_partitions config \<le> kMaxNumMachines" "0 < num_partitions config"
    and "r1 < num_replicas config" "r2 < num_replicas config"
  shows "prefix (shared r1 r2 (sequenced_txns (out r1 0))) (shared r1 r2 (sequenced_txns (out r2 0))) \<or>
    prefix (shared r1 r2 (sequenced_txns (out r2 0))) (shared r1 r2 (sequenced_txns (out r1 0)))"
proof (rule orderers_agree [OF assms(3,4) _ assms(6,7,5)])
  fix m slot v ldr m' v' ldr'
  assume c: "(m, slot, v, ldr) \<in> set (px_history S)" "(m', slot, v', ldr') \<in> set (px_history S)"
  from paxos_run_ok [OF assms(1,2)] obtain vs where "system_ok ms vs S" by blast
  from system_okD(3) [OF this c(1)] system_okD(3) [OF this c(2)] show "v = v'" by (simp add: commit_ok_def)
qed

text \<open>The orderer of machine 0 batches three transactions, the orderer of machine 2 one; the global consensus orders the
  batch of machine 2 first.\<close>

definition mh_txn :: "txn_id \<Rightarrow> nat list \<Rightarrow> transaction" where
  "mh_txn t rs = set_internal (\<lambda>i. i\<lparr>involved_replicas := rs\<rparr>)
     (mk_txn t MULTI_HOME_OR_LOCK_ONLY (- 1) (Code []) (map (\<lambda>r. mk_kv ''A'' r 0 WRITE) rs))"

definition batching_events :: "mho_event list per_machine" where
  "batching_events r p =
     (if p \<noteq> 0 then [] else
      if r = 0 then [Receive 0 (ForwardTxn (mh_txn 1 [0, 1])), Receive 1 (ForwardTxn (mh_txn 2 [1])), Receive 2 (ForwardTxn (mh_txn 3 [0, 1])), Timer 5]
      else [Receive 0 (ForwardTxn (mh_txn 4 [0, 1])), Timer 5])"

definition batching_parts :: "nat \<Rightarrow> batch list" where
  "batching_parts r = [batch_part (at_machine sample_config 1 0) 1 r [mh_txn 4 [0, 1]],
     batch_part (at_machine sample_config 0 0) 1 r [mh_txn 1 [0, 1], mh_txn 2 [1], mh_txn 3 [0, 1]]]"

definition ordering_events :: "mho_event list per_machine" where
  "ordering_events r p = batching_events r p @
     (if p \<noteq> 0 then [] else
      map (\<lambda>b. Receive 6 (ForwardBatchData [b] 0 0)) (if r = 0 then batching_parts r else rev (batching_parts r)) @
      [Receive 7 (RemoteBatchOrder 100 1 0 False), Receive 8 (RemoteBatchOrder 102 0 0 False)])"

definition ordering_out :: "mho_output list per_machine" where
  "ordering_out r p = (case mho_run (\<lambda>_. []) (at_machine sample_config r p) (ordering_events r p)
     (MultiHomeOrderer (at_machine sample_config r p)) of Inr (s, out) \<Rightarrow> out | Inl _ \<Rightarrow> [])"

definition ordering_moves :: "paxos_move list" where
  "ordering_moves = [Propose 0 102, Deliver 0, Deliver 0, Deliver 0, Deliver 0, Propose 0 100, Deliver 2, Deliver 2, Deliver 2]"

theorem orderers_of_regions_agree_witness:
  "\<exists>S. paxos_run [0, 2] 9 S \<and> orderer_system (\<lambda>_. []) sample_config (px_history S) ordering_events ordering_out \<and>
     shared 0 1 (sequenced_txns (ordering_out 0 0)) = [4, 1, 3] \<and> map tid (sequenced_txns (ordering_out 1 0)) = [4, 1, 2, 3] \<and>
     (prefix (shared 0 1 (sequenced_txns (ordering_out 0 0))) (shared 0 1 (sequenced_txns (ordering_out 1 0))) \<or>
      prefix (shared 0 1 (sequenced_txns (ordering_out 1 0))) (shared 0 1 (sequenced_txns (ordering_out 0 0))))"
proof -
  have "map_option px_history (paxos_play ordering_moves (paxos_start [0, 2])) = Some [(0, 0, 102, 0), (2, 0, 102, 0), (0, 1, 100, 0)]" by code_simp
  then obtain S where S: "paxos_play ordering_moves (paxos_start [0, 2]) = Some S" "px_history S = [(0, 0, 102, 0), (2, 0, 102, 0), (0, 1, 100, 0)]"
    by blast
  have run: "paxos_run [0, 2] 9 S"
    using paxos_play_run [OF S(1) paxos_start_run] by (simp add: ordering_moves_def eval_nat_numeral)
  have "orderer_system (\<lambda>_. []) sample_config [(0, 0, 102, 0), (2, 0, 102, 0), (0, 1, 100, 0)] ordering_events ordering_out" by code_simp
  then have sys: "orderer_system (\<lambda>_. []) sample_config (px_history S) ordering_events ordering_out" unfolding S(2) .
  have c: "(9 :: nat) + 1 < 2 ^ 32" "num_replicas sample_config * num_partitions sample_config \<le> kMaxNumMachines"
    "0 < num_partitions sample_config" "0 < num_replicas sample_config" "1 < num_replicas sample_config"
    "shared 0 1 (sequenced_txns (ordering_out 0 0)) = [4, 1, 3]" "map tid (sequenced_txns (ordering_out 1 0)) = [4, 1, 2, 3]"
    by code_simp+
  show ?thesis
    by (intro exI [of _ S] conjI run sys c(6,7)) (rule orderers_of_regions_agree [OF run c(1) sys c(2-5)])
qed

end
