(* ===== verification/Forwarder_Model.thy ===== *)
theory Forwarder_Model
  imports Proto_Utils Batch_Stats
begin

text \<open>
  \<^verbatim>\<open>module/forwarder.{h,cpp}\<close>: the forwarder finds out the region of every key of a transaction, from the
  local index or by asking the forwarders of the other partitions, determines the type of the
  transaction and forwards it. The index of masters and the metadata initializer are the virtual
  \<^verbatim>\<open>LookupMasterIndex\<close> and \<^verbatim>\<open>MetadataInitializer\<close>; the random choice of a partition is an argument.
\<close>

section \<open>Model\<close>

type_synonym master_index = "key \<rightharpoonup> metadata"
type_synonym metadata_initializer = "key \<Rightarrow> metadata result"

record forwarder =
  pending_transactions :: "txn_id \<rightharpoonup> transaction"
  partitioned_lookup_request :: "(txn_id list \<times> key list) list"
  fw_batch_size :: nat
  fw_stats :: batch_stats

datatype fw_output = FOut send | SendLookupsLater nat

definition Forwarder :: "configuration \<Rightarrow> forwarder" where
  "Forwarder config =
     \<lparr>pending_transactions = Map.empty, partitioned_lookup_request = replicate (num_partitions config) ([], []),
      fw_batch_size = 0, fw_stats = no_stats\<rparr>"

definition ChooseRandomPartition :: "transaction \<Rightarrow> nat \<Rightarrow> nat result" where
  "ChooseRandomPartition txn rnd =
     (let ps = involved_partitions (internal txn)
      in if ps = [] then Inl (UndefinedBehaviour ''uniform_int_distribution'') else Inr (ps ! (rnd mod length ps)))"

definition Forward :: "remaster_protocol \<Rightarrow> configuration \<Rightarrow> nat \<Rightarrow> transaction \<Rightarrow> send list result" where
  "Forward rp config rnd txn =
     (case PopulateInvolvedReplicas rp txn of
        Inl e \<Rightarrow> Inl e
      | Inr txn1 \<Rightarrow>
          (let env = Request (ForwardTxn txn1)
           in case txn_type (internal txn) of
                SINGLE_HOME \<Rightarrow>
                  (let home_replica = kv_master (hd (keys txn1))
                   in if home_replica = local_replica config then Inr [SendLocal env kSequencerChannel]
                      else case ChooseRandomPartition txn1 rnd of
                             Inl e \<Rightarrow> Inl e
                           | Inr p \<Rightarrow> Inr [SendTo env [MakeMachineId config home_replica p] kSequencerChannel])
              | MULTI_HOME_OR_LOCK_ONLY \<Rightarrow>
                  if pc_bypass_mh_orderer (proto_config config)
                  then case ChooseRandomPartition txn1 rnd of
                         Inl e \<Rightarrow> Inl e
                       | Inr p \<Rightarrow> Inr [SendTo env (map (\<lambda>rep. MakeMachineId config rep p) (involved_replicas (internal txn1)))
                                       kSequencerChannel]
                  else Inr [SendLocal env kMultiHomeOrdererChannel]
              | UNKNOWN \<Rightarrow> Inr []))"

definition set_metadata :: "metadata \<Rightarrow> key_value \<Rightarrow> key_value" where
  "set_metadata m kv = kv\<lparr>kv_entry := (kv_entry kv)\<lparr>ve_metadata := Some m\<rparr>\<rparr>"

definition lookup_master :: "master_index \<Rightarrow> metadata_initializer \<Rightarrow> key \<Rightarrow> metadata result" where
  "lookup_master idx init k = (case idx k of Some m \<Rightarrow> Inr m | None \<Rightarrow> init k)"

text \<open>The loop over the keys: it returns them with the local metadata filled in, the lookup requests
  and whether a remote lookup is needed.\<close>

fun lookup_keys ::
  "configuration \<Rightarrow> sharder \<Rightarrow> master_index \<Rightarrow> metadata_initializer \<Rightarrow> key_value list \<Rightarrow> (txn_id list \<times> key list) list \<Rightarrow>
   bool \<Rightarrow> (key_value list \<times> (txn_id list \<times> key list) list \<times> bool) result" where
  "lookup_keys config sh idx init [] reqs need = Inr ([], reqs, need)"
| "lookup_keys config sh idx init (kv # kvs) reqs need =
     (case compute_partition sh (kv_key kv) of
        Inl e \<Rightarrow> Inl e
      | Inr p \<Rightarrow>
          if p = local_partition config
          then case lookup_master idx init (kv_key kv) of
                 Inl e \<Rightarrow> Inl e
               | Inr m \<Rightarrow>
                   (case lookup_keys config sh idx init kvs reqs need of
                      Inl e \<Rightarrow> Inl e
                    | Inr (kvs', reqs', need') \<Rightarrow> Inr (set_metadata m kv # kvs', reqs', need'))
          else if p < length reqs
          then case lookup_keys config sh idx init kvs
                      (reqs[p := (fst (reqs ! p), snd (reqs ! p) @ [kv_key kv])]) True of
                 Inl e \<Rightarrow> Inl e
               | Inr (kvs', reqs', need') \<Rightarrow> Inr (kv # kvs', reqs', need')
          else Inl (UndefinedBehaviour ''partitioned_lookup_request_''))"

fun add_txn_ids :: "configuration \<Rightarrow> txn_id \<Rightarrow> nat list \<Rightarrow> (txn_id list \<times> key list) list \<Rightarrow> (txn_id list \<times> key list) list result" where
  "add_txn_ids config i [] reqs = Inr reqs"
| "add_txn_ids config i (p # ps) reqs =
     (if p = local_partition config then add_txn_ids config i ps reqs
      else if p < length reqs then add_txn_ids config i ps (reqs[p := (fst (reqs ! p) @ [i], snd (reqs ! p))])
      else Inl (UndefinedBehaviour ''partitioned_lookup_request_''))"

definition ProcessForwardTxn ::
  "remaster_protocol \<Rightarrow> configuration \<Rightarrow> master_index \<Rightarrow> metadata_initializer \<Rightarrow> nat \<Rightarrow> int \<Rightarrow> transaction \<Rightarrow> forwarder \<Rightarrow>
   (forwarder \<times> fw_output list) result" where
  "ProcessForwardTxn rp config idx init rnd now txn s =
     (let sh = MakeSharder config
      in case PopulateInvolvedPartitions sh txn of
           Inl (InvalidArgument e) \<Rightarrow> Inr (s, [])
         | Inl e \<Rightarrow> Inl e
         | Inr txn1 \<Rightarrow>
             (case lookup_keys config sh idx init (keys txn1) (partitioned_lookup_request s) False of
                Inl e \<Rightarrow> Inl e
              | Inr (kvs, reqs, need_remote_lookup) \<Rightarrow>
                  let txn2 = txn1\<lparr>keys := kvs\<rparr>
                  in if \<not> need_remote_lookup
                     then let txn3 = SetTransactionType rp txn2
                          in if txn_type (internal txn3) = UNKNOWN then Inl (CheckFailed ''txn_type != UNKNOWN'')
                             else case Forward rp config rnd txn3 of
                                    Inl e \<Rightarrow> Inl e
                                  | Inr out \<Rightarrow> Inr (s\<lparr>partitioned_lookup_request := reqs\<rparr>, map FOut out)
                     else case add_txn_ids config (tid txn2) (involved_partitions (internal txn2)) reqs of
                            Inl e \<Rightarrow> Inl e
                          | Inr reqs' \<Rightarrow>
                              let s1 = s\<lparr>partitioned_lookup_request := reqs',
                                         pending_transactions := (pending_transactions s)(tid txn2 \<mapsto> txn2),
                                         fw_batch_size := fw_batch_size s + 1\<rparr>
                              in Inr (if fw_batch_size s1 = 1
                                      then (s1\<lparr>fw_stats := start_batch now (fw_stats s)\<rparr>,
                                            [SendLookupsLater (pc_forwarder_batch_duration (proto_config config))])
                                      else (s1, []))))"

definition SendLookupMasterRequestBatch :: "configuration \<Rightarrow> int \<Rightarrow> forwarder \<Rightarrow> forwarder \<times> send list" where
  "SendLookupMasterRequestBatch config now s =
     (let reqs = partitioned_lookup_request s;
          parts = filter (\<lambda>p. fst (reqs ! p) \<noteq> []) [0..<num_partitions config]
      in (s\<lparr>fw_stats := record_batch now (fw_batch_size s) (fw_stats s),
            partitioned_lookup_request := map (\<lambda>p. if p < num_partitions config \<and> fst (reqs ! p) \<noteq> [] then ([], []) else reqs ! p)
              [0..<length reqs],
            fw_batch_size := 0\<rparr>,
          map (\<lambda>p. SendTo (Request (LookupMaster (fst (reqs ! p)) (snd (reqs ! p))))
                     [MakeMachineId config (local_replica config) p] kForwarderChannel) parts))"

fun lookup_results :: "sharder \<Rightarrow> master_index \<Rightarrow> metadata_initializer \<Rightarrow> key list \<Rightarrow> (key \<times> metadata) list result" where
  "lookup_results sh idx init [] = Inr []"
| "lookup_results sh idx init (k # ks) =
     (case is_local_key sh k of
        Inl e \<Rightarrow> Inl e
      | Inr False \<Rightarrow> lookup_results sh idx init ks
      | Inr True \<Rightarrow>
          (case lookup_master idx init k of
             Inl e \<Rightarrow> Inl e
           | Inr m \<Rightarrow> (case lookup_results sh idx init ks of Inl e \<Rightarrow> Inl e | Inr rs \<Rightarrow> Inr ((k, m) # rs))))"

definition ProcessLookUpMasterRequest ::
  "configuration \<Rightarrow> master_index \<Rightarrow> metadata_initializer \<Rightarrow> machine_id \<Rightarrow> txn_id list \<Rightarrow> key list \<Rightarrow> send list result" where
  "ProcessLookUpMasterRequest config idx init from_machine ids ks =
     (case lookup_results (MakeSharder config) idx init ks of
        Inl e \<Rightarrow> Inl e
      | Inr rs \<Rightarrow> Inr [SendTo (Response (LookupMasterResult ids rs)) [from_machine] kForwarderChannel])"

definition Forwarder_ProcessStatsRequest ::
  "(json \<Rightarrow> string) \<Rightarrow> nat \<Rightarrow> nat \<Rightarrow> forwarder \<Rightarrow> forwarder \<times> fw_output list" where
  "Forwarder_ProcessStatsRequest write_json req_id level s =
     (case ProcessBatchStats write_json ''forw_batch_size_pctls'' ''forw_batch_duration_ms_pctls'' req_id level (fw_stats s) of
        (st, out) \<Rightarrow> (s\<lparr>fw_stats := st\<rparr>, map FOut out))"

definition Forwarder_OnInternalRequestReceived ::
  "(json \<Rightarrow> string) \<Rightarrow> remaster_protocol \<Rightarrow> configuration \<Rightarrow> master_index \<Rightarrow> metadata_initializer \<Rightarrow> nat \<Rightarrow> int \<Rightarrow>
   machine_id \<Rightarrow> request \<Rightarrow> forwarder \<Rightarrow> (forwarder \<times> fw_output list) result" where
  "Forwarder_OnInternalRequestReceived write_json rp config idx init rnd now from_machine req s =
     (case req of
        ForwardTxn txn \<Rightarrow> ProcessForwardTxn rp config idx init rnd now txn s
      | LookupMaster ids ks \<Rightarrow>
          (case ProcessLookUpMasterRequest config idx init from_machine ids ks of
             Inl e \<Rightarrow> Inl e | Inr out \<Rightarrow> Inr (s, map FOut out))
      | StatsReq req_id level \<Rightarrow> Inr (Forwarder_ProcessStatsRequest write_json req_id level s)
      | _ \<Rightarrow> Inr (s, []))"

text \<open>The results of one response, as the local map from keys to positions: the last entry of a key counts.\<close>

definition result_index :: "(key \<times> metadata) list \<Rightarrow> key \<rightharpoonup> metadata" where
  "result_index rs = map_of (rev rs)"

definition fill_metadata :: "(key \<rightharpoonup> metadata) \<Rightarrow> key_value \<Rightarrow> key_value" where
  "fill_metadata res kv =
     (if has_metadata kv then kv else case res (kv_key kv) of None \<Rightarrow> kv | Some m \<Rightarrow> set_metadata m kv)"

fun lookup_response ::
  "remaster_protocol \<Rightarrow> configuration \<Rightarrow> (txn_id \<Rightarrow> nat) \<Rightarrow> (key \<rightharpoonup> metadata) \<Rightarrow> txn_id list \<Rightarrow> forwarder \<Rightarrow>
   (forwarder \<times> send list) result" where
  "lookup_response rp config rnd res [] s = Inr (s, [])"
| "lookup_response rp config rnd res (i # is) s =
     (case pending_transactions s i of
        None \<Rightarrow> lookup_response rp config rnd res is s
      | Some txn \<Rightarrow>
          let txn1 = SetTransactionType rp (txn\<lparr>keys := map (fill_metadata res) (keys txn)\<rparr>)
          in if txn_type (internal txn1) \<noteq> UNKNOWN
             then case Forward rp config (rnd i) txn1 of
                    Inl e \<Rightarrow> Inl e
                  | Inr out1 \<Rightarrow>
                      (case lookup_response rp config rnd res is
                              (s\<lparr>pending_transactions := (pending_transactions s)(i := None)\<rparr>) of
                         Inl e \<Rightarrow> Inl e | Inr (s', out2) \<Rightarrow> Inr (s', out1 @ out2))
             else lookup_response rp config rnd res is
                    (s\<lparr>pending_transactions := (pending_transactions s)(i \<mapsto> txn1)\<rparr>))"

definition Forwarder_OnInternalResponseReceived ::
  "remaster_protocol \<Rightarrow> configuration \<Rightarrow> (txn_id \<Rightarrow> nat) \<Rightarrow> response \<Rightarrow> forwarder \<Rightarrow> (forwarder \<times> send list) result" where
  "Forwarder_OnInternalResponseReceived rp config rnd resp s =
     (case resp of LookupMasterResult ids rs \<Rightarrow> lookup_response rp config rnd (result_index rs) ids s
      | _ \<Rightarrow> Inr (s, []))"

section \<open>The type of a forwarded transaction\<close>

lemma SetTransactionType_unknown:
  "txn_type (internal (SetTransactionType rp txn)) = UNKNOWN \<longleftrightarrow> keys txn = [] \<or> \<not> list_all has_metadata (keys txn)"
  by (simp add: SetTransactionType_def Let_def)

lemma SetTransactionType_keys [simp]:
  "keys (SetTransactionType rp txn) = keys txn" "program (SetTransactionType rp txn) = program txn"
  by (simp_all add: SetTransactionType_def Let_def set_internal_def)

lemma SetTransactionType_single_home:
  assumes "keys txn \<noteq> []" "list_all has_metadata (keys txn)"
  shows "txn_type (internal (SetTransactionType rp txn)) =
    (if list_all (\<lambda>kv. kv_master kv = kv_master (hd (keys txn))) (keys txn) \<and> \<not> (rp = COUNTERLESS \<and> is_remaster (program txn))
     then SINGLE_HOME else MULTI_HOME_OR_LOCK_ONLY)"
  using assms by (auto simp: SetTransactionType_def Let_def)

lemma has_set_metadata [simp]: "has_metadata (set_metadata m kv)" "kv_key (set_metadata m kv) = kv_key kv"
  by (simp_all add: has_metadata_def set_metadata_def)

lemma kv_key_fill [simp]: "kv_key (fill_metadata res kv) = kv_key kv"
  by (simp add: fill_metadata_def split: option.splits)

lemma has_fill: "has_metadata (fill_metadata res kv) \<longleftrightarrow> has_metadata kv \<or> kv_key kv \<in> dom res"
  by (auto simp: fill_metadata_def split: option.splits)

section \<open>A transaction waits for all lookups\<close>

fun feed_lookups ::
  "remaster_protocol \<Rightarrow> configuration \<Rightarrow> (txn_id \<Rightarrow> nat) \<Rightarrow> txn_id \<Rightarrow> (key \<times> metadata) list list \<Rightarrow> forwarder \<Rightarrow>
   (forwarder \<times> send list) result" where
  "feed_lookups rp config rnd i [] s = Inr (s, [])"
| "feed_lookups rp config rnd i (rs # rss) s =
     (case Forwarder_OnInternalResponseReceived rp config rnd (LookupMasterResult [i] rs) s of
        Inl e \<Rightarrow> Inl e
      | Inr (s1, out1) \<Rightarrow>
          (case feed_lookups rp config rnd i rss s1 of Inl e \<Rightarrow> Inl e | Inr (s2, out2) \<Rightarrow> Inr (s2, out1 @ out2)))"

definition fill_all :: "(key \<times> metadata) list list \<Rightarrow> key_value \<Rightarrow> key_value" where
  "fill_all rss kv = fold (\<lambda>rs. fill_metadata (result_index rs)) rss kv"

definition covered :: "(key \<times> metadata) list list \<Rightarrow> transaction \<Rightarrow> bool" where
  "covered rss txn \<longleftrightarrow> list_all (\<lambda>kv. has_metadata kv \<or> kv_key kv \<in> fst ` set (concat rss)) (keys txn)"

lemma dom_result_index: "dom (result_index rs) = fst ` set rs"
  by (simp add: result_index_def dom_map_of_conv_image_fst)

lemma fill_all_simps [simp]:
  "fill_all [] kv = kv" "fill_all (rs # rss) kv = fill_all rss (fill_metadata (result_index rs) kv)"
  by (simp_all add: fill_all_def)

lemma map_fill_all_Nil [simp]: "map (fill_all []) kvs = kvs"
  by (induction kvs) simp_all

lemma has_fill_all: "has_metadata (fill_all rss kv) \<longleftrightarrow> has_metadata kv \<or> kv_key kv \<in> fst ` set (concat rss)"
  by (induction rss arbitrary: kv) (auto simp: has_fill dom_result_index)

definition with_keys :: "key_value list \<Rightarrow> transaction \<Rightarrow> transaction" where
  "with_keys kvs txn = set_internal (\<lambda>i. i\<lparr>txn_type := UNKNOWN\<rparr>) (txn\<lparr>keys := kvs\<rparr>)"

lemma SetTransactionType_with_keys:
  "SetTransactionType rp (with_keys kvs txn) = SetTransactionType rp (txn\<lparr>keys := kvs\<rparr>)"
  by (simp add: SetTransactionType_def with_keys_def Let_def set_internal_def)

lemma with_keys_simps [simp]:
  "keys (with_keys kvs txn) = kvs" "with_keys kvs (with_keys kvs' txn) = with_keys kvs txn"
  "(with_keys kvs' txn)\<lparr>keys := kvs\<rparr> = with_keys kvs txn"
  by (simp_all add: with_keys_def set_internal_def)

lemma SetTransactionType_incomplete:
  "\<not> list_all has_metadata kvs \<Longrightarrow> SetTransactionType rp (txn\<lparr>keys := kvs\<rparr>) = with_keys kvs txn"
  by (simp add: SetTransactionType_def with_keys_def Let_def)

text \<open>One response for a pending transaction.\<close>

lemma lookup_response_one:
  assumes "pending_transactions s i = Some txn" "keys txn \<noteq> []"
  shows "Forwarder_OnInternalResponseReceived rp config rnd (LookupMasterResult [i] rs) s =
    (let kvs = map (fill_metadata (result_index rs)) (keys txn)
     in if list_all has_metadata kvs
        then case Forward rp config (rnd i) (SetTransactionType rp (txn\<lparr>keys := kvs\<rparr>)) of
               Inl e \<Rightarrow> Inl e | Inr out \<Rightarrow> Inr (s\<lparr>pending_transactions := (pending_transactions s)(i := None)\<rparr>, out)
        else Inr (s\<lparr>pending_transactions := (pending_transactions s)(i \<mapsto> with_keys kvs txn)\<rparr>, []))"
proof (cases "list_all has_metadata (map (fill_metadata (result_index rs)) (keys txn))")
  case True
  with assms show ?thesis
    by (simp add: Forwarder_OnInternalResponseReceived_def Let_def SetTransactionType_unknown split: sum.splits)
next
  case False
  with assms show ?thesis
    by (simp add: Forwarder_OnInternalResponseReceived_def Let_def SetTransactionType_incomplete SetTransactionType_unknown)
qed

lemma feed_lookups_pending:
  assumes "pending_transactions s i = Some txn" "keys txn \<noteq> []" "\<not> covered rss txn"
  shows "\<exists>s'. feed_lookups rp config rnd i rss s = Inr (s', []) \<and>
    (rss = [] \<or> pending_transactions s' i = Some (with_keys (map (fill_all rss) (keys txn)) txn)) \<and>
    (\<forall>j. j \<noteq> i \<longrightarrow> pending_transactions s' j = pending_transactions s j)"
  using assms
proof (induction rss arbitrary: s txn)
  case (Cons rs rss)
  let ?kvs = "map (fill_metadata (result_index rs)) (keys txn)"
  let ?s = "s\<lparr>pending_transactions := (pending_transactions s)(i \<mapsto> with_keys ?kvs txn)\<rparr>"
  have nc: "\<not> covered rss (with_keys ?kvs txn)"
    using Cons.prems(3) by (auto simp: covered_def list_all_iff has_fill dom_result_index)
  have "\<not> list_all has_metadata ?kvs"
    using Cons.prems(3) by (auto simp: covered_def list_all_iff has_fill dom_result_index)
  then have one: "Forwarder_OnInternalResponseReceived rp config rnd (LookupMasterResult [i] rs) s = Inr (?s, [])"
    unfolding lookup_response_one [OF Cons.prems(1,2)] by (simp add: Let_def)
  have "pending_transactions ?s i = Some (with_keys ?kvs txn)" "keys (with_keys ?kvs txn) \<noteq> []" using Cons.prems(2) by simp_all
  from Cons.IH [OF this nc] obtain s' where
    "feed_lookups rp config rnd i rss ?s = Inr (s', [])"
    "rss = [] \<or> pending_transactions s' i = Some (with_keys (map (fill_all rss) ?kvs) txn)"
    "\<forall>j. j \<noteq> i \<longrightarrow> pending_transactions s' j = pending_transactions ?s j" by auto
  moreover from this have "pending_transactions s' i = Some (with_keys (map (fill_all rss) ?kvs) txn)"
    by (cases "rss = []") (auto simp: comp_def)
  ultimately show ?case using one by (auto simp: comp_def)
qed (simp add: covered_def)

lemma feed_lookups_append:
  "feed_lookups rp config rnd i (xs @ ys) s = (case feed_lookups rp config rnd i xs s of Inl e \<Rightarrow> Inl e
     | Inr (s1, out1) \<Rightarrow> (case feed_lookups rp config rnd i ys s1 of Inl e \<Rightarrow> Inl e | Inr (s2, out2) \<Rightarrow> Inr (s2, out1 @ out2)))"
  by (induction xs arbitrary: s) (auto split: sum.splits)

lemma feed_lookups_forward:
  assumes "pending_transactions s i = Some txn" "keys txn \<noteq> []" "\<not> covered rss txn" "covered (rss @ [rs]) txn"
  shows "\<exists>s'. feed_lookups rp config rnd i (rss @ [rs]) s =
      (case Forward rp config (rnd i) (SetTransactionType rp (txn\<lparr>keys := map (fill_all (rss @ [rs])) (keys txn)\<rparr>)) of
         Inl e \<Rightarrow> Inl e | Inr out \<Rightarrow> Inr (s', out)) \<and> pending_transactions s' i = None"
proof -
  from feed_lookups_pending [OF assms(1-3)] obtain s1 where
    s1: "feed_lookups rp config rnd i rss s = Inr (s1, [])"
      "rss = [] \<or> pending_transactions s1 i = Some (with_keys (map (fill_all rss) (keys txn)) txn)" by blast
  obtain txn1 where t: "pending_transactions s1 i = Some txn1" "keys txn1 = map (fill_all rss) (keys txn)"
    "\<And>kvs. SetTransactionType rp (txn1\<lparr>keys := kvs\<rparr>) = SetTransactionType rp (txn\<lparr>keys := kvs\<rparr>)"
    using s1 assms(1) by (cases "rss = []") (auto simp: SetTransactionType_with_keys)
  let ?kvs = "map (fill_metadata (result_index rs)) (keys txn1)"
  have kvs: "?kvs = map (fill_all (rss @ [rs])) (keys txn)" by (simp add: t(2) fill_all_def)
  have all: "list_all has_metadata ?kvs"
    using assms(4) unfolding kvs by (simp add: covered_def list_all_iff has_fill_all)
  have "keys txn1 \<noteq> []" using t(2) assms(2) by simp
  from lookup_response_one [OF t(1) this] all have
    "Forwarder_OnInternalResponseReceived rp config rnd (LookupMasterResult [i] rs) s1 =
      (case Forward rp config (rnd i) (SetTransactionType rp (txn\<lparr>keys := ?kvs\<rparr>)) of
         Inl e \<Rightarrow> Inl e | Inr out \<Rightarrow> Inr (s1\<lparr>pending_transactions := (pending_transactions s1)(i := None)\<rparr>, out))"
    by (simp add: Let_def t(3))
  then show ?thesis
    unfolding feed_lookups_append s1(1) kvs
    by (intro exI [of _ "s1\<lparr>pending_transactions := (pending_transactions s1)(i := None)\<rparr>"]) (simp split: sum.splits)
qed

section \<open>Lookups are answered\<close>

lemma lookup_results_complete:
  assumes "lookup_results sh idx init ks = Inr rs"
  shows "fst ` set rs = {k \<in> set ks. compute_partition sh k = Inr (sh_local_partition sh)} \<and>
    (\<forall>(k, m) \<in> set rs. lookup_master idx init k = Inr m)"
  using assms
proof (induction ks arbitrary: rs)
  case (Cons k ks)
  from Cons.prems obtain p where p: "compute_partition sh k = Inr p"
    by (auto simp: is_local_key_def split: sum.splits)
  show ?case
  proof (cases "p = sh_local_partition sh")
    case True
    with Cons.prems p obtain m rs1 where
      "lookup_master idx init k = Inr m" "lookup_results sh idx init ks = Inr rs1" "rs = (k, m) # rs1"
      by (auto simp: is_local_key_def split: sum.splits)
    with Cons.IH [OF this(2)] p True show ?thesis by auto
  next
    case False
    with Cons.prems p have "lookup_results sh idx init ks = Inr rs" by (simp add: is_local_key_def)
    with Cons.IH [OF this] p False show ?thesis by auto
  qed
qed simp

end
