(* ===== verification/Server_Model.thy ===== *)
theory Server_Model
  imports Proto_Utils Batch_Stats "HOL-Library.AList"
begin

text \<open>
  \<^verbatim>\<open>module/server.{h,cpp}\<close>: the server gives every client request an id, passes transactions to the
  forwarder, merges the results of the partitions and answers the client. The hash tables are
  association lists, whose order stands for the unspecified order of iteration.
\<close>

section \<open>Model\<close>

datatype module_id =
    BROKER | SERVER | MHORDERER | LOCALPAXOS | GLOBALPAXOS | FORWARDER | SEQUENCER | INTERLEAVER | SCHEDULER | WORKER

datatype api_request =
    TxnRequest transaction
  | StatsRequest module_id nat
  | MetricsRequest string
  | NoApiRequest   \<comment> \<open>no member of the \<^verbatim>\<open>oneof\<close> is set\<close>

datatype api_response = TxnResponse transaction | StatsResponse string | MetricsResponse

datatype client_message =
    NoMessage
  | OnlyIdentity
  | NotAProto
  | ClientRequest string nat api_request   \<comment> \<open>identity, stream id, request\<close>

datatype server_output =
    SvOut send
  | ToClient string nat api_response       \<comment> \<open>identity, stream id, response\<close>
  | FlushMetrics string

record finished_transaction =
  ft_txn :: "transaction option"
  remaining_partitions :: nat

record server =
  txn_id_counter :: nat
  pending_responses :: "(txn_id \<times> (string \<times> nat)) list"
  finished_txns :: "(txn_id \<times> finished_transaction) list"
  offline_machines :: "machine_id list"

definition ValidateTransaction :: "transaction \<Rightarrow> transaction" where
  "ValidateTransaction txn =
     (if keys txn = [] then txn\<lparr>status := ABORTED, abort_reason := ''Txn accesses no key''\<rparr>
      else txn\<lparr>status := NOT_STARTED\<rparr>)"

definition FinishedTransaction :: "nat \<Rightarrow> finished_transaction" where
  "FinishedTransaction n = \<lparr>ft_txn = None, remaining_partitions = n\<rparr>"

definition size_dec :: "nat \<Rightarrow> nat" where
  "size_dec n = (n + (2 ^ 64 - 1)) mod 2 ^ 64"

definition AddSubTxn :: "transaction \<Rightarrow> nat \<Rightarrow> finished_transaction \<Rightarrow> (bool \<times> finished_transaction) result" where
  "AddSubTxn subtxn part f =
     (let remaining = size_dec (remaining_partitions f)
      in case (case ft_txn f of
                 None \<Rightarrow> Inr (set_internal (\<lambda>i. i\<lparr>involved_partitions := [part]\<rparr>) subtxn)
               | Some txn \<Rightarrow>
                   (case MergeTransaction txn subtxn of
                      Inl e \<Rightarrow> Inl e
                    | Inr txn1 \<Rightarrow> Inr (set_internal (\<lambda>i. i\<lparr>involved_partitions := involved_partitions i @ [part]\<rparr>) txn1))) of
           Inl e \<Rightarrow> Inl e
         | Inr t \<Rightarrow> Inr (remaining = 0, \<lparr>ft_txn = Some t, remaining_partitions = remaining\<rparr>))"

definition Server :: server where
  "Server = \<lparr>txn_id_counter = 0, pending_responses = [], finished_txns = [], offline_machines = []\<rparr>"

text \<open>The part of \<^verbatim>\<open>Initialize\<close> that tells the other machines that this one is online.\<close>

definition Server_Initialize :: "configuration \<Rightarrow> server \<Rightarrow> server \<times> server_output list" where
  "Server_Initialize config s =
     (let ms = filter (\<lambda>m. m \<noteq> local_machine_id config) (all_machine_ids config)
      in (s\<lparr>offline_machines := offline_machines s @ ms\<rparr>,
          map (\<lambda>m. SvOut (SendTo (Request Signal) [m] kServerChannel)) ms))"

definition NextTxnId :: "configuration \<Rightarrow> server \<Rightarrow> txn_id \<times> server" where
  "NextTxnId config s =
     (let ctr = (txn_id_counter s + 1) mod 2 ^ 64
      in (nat ((int (ctr * kMaxNumMachines) + local_machine_id config) mod 2 ^ 64), s\<lparr>txn_id_counter := ctr\<rparr>))"

definition SendResponseToClient :: "txn_id \<Rightarrow> api_response \<Rightarrow> server \<Rightarrow> server \<times> server_output list" where
  "SendResponseToClient i res s =
     (case map_of (pending_responses s) i of
        None \<Rightarrow> (s, [])
      | Some (identity, stream_id) \<Rightarrow>
          (s\<lparr>pending_responses := AList.delete i (pending_responses s)\<rparr>, [ToClient identity stream_id res]))"

definition SendTxnToClient :: "transaction \<Rightarrow> server \<Rightarrow> server \<times> server_output list" where
  "SendTxnToClient txn s = SendResponseToClient (tid txn) (TxnResponse txn) s"

text \<open>A response of another kind is read as a statistics response with the default fields.\<close>

definition Server_OnInternalResponseReceived :: "response \<Rightarrow> server \<Rightarrow> server \<times> server_output list" where
  "Server_OnInternalResponseReceived resp s =
     (case resp of
        StatsResp i js \<Rightarrow> SendResponseToClient i (StatsResponse js) s
      | _ \<Rightarrow> SendResponseToClient 0 (StatsResponse []) s)"

definition Server_ProcessStatsRequest :: "(json \<Rightarrow> string) \<Rightarrow> nat \<Rightarrow> nat \<Rightarrow> server \<Rightarrow> server \<times> server_output list" where
  "Server_ProcessStatsRequest write_json req_id level s =
     (let base = [(''txn_id_counter'', JInt (int (txn_id_counter s))),
                  (''num_pending_responses'', JInt (int (length (pending_responses s)))),
                  (''num_partially_finished_txns'', JInt (int (length (finished_txns s))))];
          more = (if int32_of_uint32 level \<ge> 1
                  then [(''pending_responses'', ToJsonArrayOfKeyValue (\<lambda>r. JInt (int (snd r))) (pending_responses s)),
                        (''partially_finished_txns'', ToJsonArray (\<lambda>p. JInt (int (fst p))) (finished_txns s))]
                  else [])
      in Server_OnInternalResponseReceived (StatsResp req_id (write_json (JObject (base @ more)))) s)"

definition handle_api_request ::
  "(json \<Rightarrow> string) \<Rightarrow> configuration \<Rightarrow> txn_id \<Rightarrow> api_request \<Rightarrow> server \<Rightarrow> server \<times> server_output list" where
  "handle_api_request write_json config i req s =
     (case req of
        TxnRequest txn0 \<Rightarrow>
          (let txn = set_internal (\<lambda>int. int\<lparr>txn_id := i, coordinating_server := uint32_of_int (local_machine_id config)\<rparr>) txn0;
               txn1 = ValidateTransaction txn
           in if status txn1 = ABORTED then SendTxnToClient txn1 s
              else (s, [SvOut (SendLocal (Request (ForwardTxn txn1)) kForwarderChannel)]))
      | StatsRequest m level \<Rightarrow>
          (let env = Request (StatsReq i level)
           in case m of
                SERVER \<Rightarrow> Server_ProcessStatsRequest write_json i level s
              | FORWARDER \<Rightarrow> (s, [SvOut (SendLocal env kForwarderChannel)])
              | MHORDERER \<Rightarrow> (s, [SvOut (SendLocal env kMultiHomeOrdererChannel)])
              | SEQUENCER \<Rightarrow> (s, [SvOut (SendLocal env kSequencerChannel)])
              | SCHEDULER \<Rightarrow> (s, [SvOut (SendLocal env kSchedulerChannel)])
              | _ \<Rightarrow> (s, []))
      | MetricsRequest prefix \<Rightarrow>
          (case SendResponseToClient i MetricsResponse s of (s1, out) \<Rightarrow> (s1, FlushMetrics prefix # out))
      | NoApiRequest \<Rightarrow> (s\<lparr>pending_responses := AList.delete i (pending_responses s)\<rparr>, []))"

definition Server_OnCustomSocket ::
  "(json \<Rightarrow> string) \<Rightarrow> configuration \<Rightarrow> client_message \<Rightarrow> server \<Rightarrow> (bool \<times> server \<times> server_output list) result" where
  "Server_OnCustomSocket write_json config msg s =
     (case msg of
        ClientRequest identity stream_id req \<Rightarrow>
          (case NextTxnId config s of
             (i, s1) \<Rightarrow>
               if map_of (pending_responses s1) i \<noteq> None then Inl (CheckFailed ''Duplicate transaction id'')
               else Inr (True, handle_api_request write_json config i req
                      (s1\<lparr>pending_responses := AList.update i (identity, stream_id) (pending_responses s1)\<rparr>)))
      | _ \<Rightarrow> Inr (False, s, []))"

definition ProcessFinishedSubtxn ::
  "configuration \<Rightarrow> machine_id \<Rightarrow> transaction \<Rightarrow> server \<Rightarrow> (server \<times> server_output list) result" where
  "ProcessFinishedSubtxn config from_machine subtxn s =
     (let i = tid subtxn
      in if map_of (pending_responses s) i = None then Inr (s, [])
         else
           let part = snd (UnpackMachineId config from_machine);
               finished = (case map_of (finished_txns s) i of
                             None \<Rightarrow> FinishedTransaction (length (involved_partitions (internal subtxn)))
                           | Some f \<Rightarrow> f)
           in case AddSubTxn subtxn part finished of
                Inl e \<Rightarrow> Inl e
              | Inr (all_in, f) \<Rightarrow>
                  (case ft_txn f of
                     None \<Rightarrow> Inl (UndefinedBehaviour ''ReleaseTxn'')
                   | Some txn \<Rightarrow>
                       if all_in
                       then (case SendTxnToClient txn s of
                               (s1, out) \<Rightarrow> Inr (s1\<lparr>finished_txns := AList.delete i (finished_txns s1)\<rparr>, out))
                       else Inr (s\<lparr>finished_txns := AList.update i f (finished_txns s)\<rparr>, [])))"

definition Server_OnInternalRequestReceived ::
  "configuration \<Rightarrow> machine_id \<Rightarrow> request \<Rightarrow> server \<Rightarrow> (server \<times> server_output list) result" where
  "Server_OnInternalRequestReceived config from_machine req s =
     (case req of
        Signal \<Rightarrow> Inr (s\<lparr>offline_machines := removeAll from_machine (offline_machines s)\<rparr>, [])
      | FinishedSubtxn subtxn part \<Rightarrow> ProcessFinishedSubtxn config from_machine subtxn s
      | _ \<Rightarrow> Inr (s, []))"

section \<open>Transaction ids\<close>

text \<open>Ids are unique over all servers as long as machine ids stay below \<^verbatim>\<open>kMaxNumMachines\<close>.\<close>

lemma NextTxnId_eq:
  assumes "txn_id_counter s + 1 < 2 ^ 57" "0 \<le> local_machine_id config" "local_machine_id config < int kMaxNumMachines"
  shows "NextTxnId config s = ((txn_id_counter s + 1) * kMaxNumMachines + nat (local_machine_id config),
    s\<lparr>txn_id_counter := txn_id_counter s + 1\<rparr>)"
proof -
  define c where "c = txn_id_counter s + 1"
  define m where "m = nat (local_machine_id config)"
  have c: "c < 2 ^ 57" and m: "m < 100" "local_machine_id config = int m"
    using assms by (simp_all add: c_def m_def kMaxNumMachines_def)
  have "c * 100 + m < 2 ^ 64" using c m(1) by simp
  then have "nat ((int (c * 100) + int m) mod 2 ^ 64) = c * 100 + m" by (simp flip: of_nat_add add: nat_mod_distrib)
  moreover have "c mod 2 ^ 64 = c" using c by simp
  ultimately show ?thesis
    unfolding NextTxnId_def Let_def c_def [symmetric] m(2) by (simp add: kMaxNumMachines_def)
qed

text \<open>A server handles the messages of its clients and of the other modules one after the other.\<close>

datatype server_event =
    SvClient client_message
  | SvRequest machine_id request
  | SvResponse response

fun server_step ::
  "(json \<Rightarrow> string) \<Rightarrow> configuration \<Rightarrow> server_event \<Rightarrow> server \<Rightarrow> (server \<times> server_output list) result" where
  "server_step write_json config (SvClient msg) s = map_sum id snd (Server_OnCustomSocket write_json config msg s)"
| "server_step write_json config (SvRequest from_machine req) s = Server_OnInternalRequestReceived config from_machine req s"
| "server_step write_json config (SvResponse resp) s = Inr (Server_OnInternalResponseReceived resp s)"

fun server_run ::
  "(json \<Rightarrow> string) \<Rightarrow> configuration \<Rightarrow> server_event list \<Rightarrow> server \<Rightarrow> (server \<times> server_output list) result" where
  "server_run write_json config [] s = Inr (s, [])"
| "server_run write_json config (ev # evs) s =
     (case server_step write_json config ev s of
        Inl e \<Rightarrow> Inl e
      | Inr (s1, out1) \<Rightarrow>
          (case server_run write_json config evs s1 of Inl e \<Rightarrow> Inl e | Inr (s2, out2) \<Rightarrow> Inr (s2, out1 @ out2)))"

text \<open>The ids of the transactions that went to the forwarder, and the messages that carry a transaction with a key.\<close>

fun forwarded_id :: "server_output \<Rightarrow> txn_id list" where
  "forwarded_id (SvOut (SendLocal (Request (ForwardTxn txn)) ch)) = [tid txn]"
| "forwarded_id _ = []"

definition forwarded_ids :: "server_output list \<Rightarrow> txn_id list" where
  "forwarded_ids out = concat (map forwarded_id out)"

fun valid_txn_request :: "server_event \<Rightarrow> bool" where
  "valid_txn_request (SvClient (ClientRequest identity stream_id (TxnRequest txn))) \<longleftrightarrow> keys txn \<noteq> []"
| "valid_txn_request _ \<longleftrightarrow> False"

text \<open>Every id is made from a fresh value of the counter; responses wait only under ids of earlier values.\<close>

definition id_at :: "configuration \<Rightarrow> nat \<Rightarrow> txn_id" where
  "id_at config c = c * kMaxNumMachines + nat (local_machine_id config)"

definition ids_used :: "configuration \<Rightarrow> server \<Rightarrow> bool" where
  "ids_used config s \<longleftrightarrow> (\<forall>i r. map_of (pending_responses s) i = Some r \<longrightarrow> i \<le> id_at config (txn_id_counter s))"

lemma id_at_less: "c < d \<Longrightarrow> id_at config c < id_at config d"
  by (simp add: id_at_def kMaxNumMachines_def)

lemma forwarded_ids_simps [simp]:
  "forwarded_ids [] = []" "forwarded_ids (x # out) = forwarded_id x @ forwarded_ids out"
  "forwarded_ids (out @ out') = forwarded_ids out @ forwarded_ids out'"
  by (simp_all add: forwarded_ids_def)

lemma SendResponseToClient_ids:
  assumes "SendResponseToClient i res s = (s', out)"
  shows "txn_id_counter s' = txn_id_counter s \<and> forwarded_ids out = [] \<and> (ids_used config s \<longrightarrow> ids_used config s')"
  using assms by (auto simp: SendResponseToClient_def ids_used_def delete_conv' split: option.splits if_splits)

lemma Server_OnInternalResponseReceived_ids:
  assumes "Server_OnInternalResponseReceived resp s = (s', out)"
  shows "txn_id_counter s' = txn_id_counter s \<and> forwarded_ids out = [] \<and> (ids_used config s \<longrightarrow> ids_used config s')"
  using assms SendResponseToClient_ids unfolding Server_OnInternalResponseReceived_def
  by (auto split: response.splits)

lemma ProcessFinishedSubtxn_ids:
  assumes "ProcessFinishedSubtxn config' m subtxn s = Inr (s', out)"
  shows "txn_id_counter s' = txn_id_counter s \<and> forwarded_ids out = [] \<and> (ids_used config s \<longrightarrow> ids_used config s')"
proof -
  have fin: "ids_used config (x\<lparr>finished_txns := f\<rparr>) = ids_used config x" for x f by (simp add: ids_used_def)
  from assms SendResponseToClient_ids [of _ _ s _ _ config] show ?thesis
    by (auto simp: ProcessFinishedSubtxn_def SendTxnToClient_def Let_def fin split: if_splits sum.splits option.splits prod.splits)
qed

lemma handle_api_request_ids:
  assumes "handle_api_request write_json config i req s = (s', out)"
  shows "txn_id_counter s' = txn_id_counter s \<and> (ids_used config s \<longrightarrow> ids_used config s') \<and>
    forwarded_ids out = (case req of TxnRequest txn \<Rightarrow> if keys txn = [] then [] else [i] | _ \<Rightarrow> [])"
proof (cases req)
  case (TxnRequest txn)
  with assms SendResponseToClient_ids [of _ _ s s' out config] show ?thesis
    by (cases "keys txn = []") (auto simp: handle_api_request_def Let_def SendTxnToClient_def ValidateTransaction_def set_internal_def)
next
  case (StatsRequest m level)
  with assms Server_OnInternalResponseReceived_ids [of _ s s' out config] show ?thesis
    by (cases m) (auto simp: handle_api_request_def Let_def Server_ProcessStatsRequest_def)
next
  case (MetricsRequest prefix)
  with assms SendResponseToClient_ids [of _ _ s s' _ config] show ?thesis
    by (auto simp: handle_api_request_def split: prod.splits)
next
  case NoApiRequest
  with assms show ?thesis by (auto simp: handle_api_request_def ids_used_def delete_conv' split: if_splits)
qed

lemma Server_OnCustomSocket_ids:
  assumes c: "txn_id_counter s + 1 < 2 ^ 57" and m: "0 \<le> local_machine_id config" "local_machine_id config < int kMaxNumMachines"
    and u: "ids_used config s"
  shows "\<exists>b s' out. Server_OnCustomSocket write_json config msg s = Inr (b, s', out) \<and> ids_used config s' \<and>
    txn_id_counter s \<le> txn_id_counter s' \<and> txn_id_counter s' \<le> txn_id_counter s + 1 \<and>
    (if valid_txn_request (SvClient msg) then forwarded_ids out = [id_at config (txn_id_counter s')] \<and> txn_id_counter s < txn_id_counter s'
     else forwarded_ids out = [])"
proof (cases msg)
  case (ClientRequest identity stream_id req)
  let ?c = "txn_id_counter s + 1"
  let ?s = "s\<lparr>txn_id_counter := ?c, pending_responses := AList.update (id_at config ?c) (identity, stream_id) (pending_responses s)\<rparr>"
  have n: "NextTxnId config s = (id_at config ?c, s\<lparr>txn_id_counter := ?c\<rparr>)"
    using NextTxnId_eq [OF c m] by (simp add: id_at_def)
  have less: "id_at config (txn_id_counter s) < id_at config ?c" by (rule id_at_less) simp
  have used: "i \<le> id_at config (txn_id_counter s)" if "map_of (pending_responses s) i = Some r" for i r
    using u that unfolding ids_used_def by blast
  have "map_of (pending_responses s) (id_at config ?c) = None"
    using used [of "id_at config ?c"] less by (meson not_None_eq not_le)
  then have r: "Server_OnCustomSocket write_json config msg s = Inr (True, handle_api_request write_json config (id_at config ?c) req ?s)"
    using n ClientRequest by (simp add: Server_OnCustomSocket_def)
  obtain s' out where h: "handle_api_request write_json config (id_at config ?c) req ?s = (s', out)" by (cases "handle_api_request write_json config (id_at config ?c) req ?s")
  have "ids_used config ?s"
    unfolding ids_used_def
  proof (intro allI impI)
    fix i r
    assume "map_of (pending_responses ?s) i = Some r"
    then have "i = id_at config ?c \<or> map_of (pending_responses s) i = Some r" by (simp add: update_conv' split: if_splits)
    with used [of i r] less show "i \<le> id_at config (txn_id_counter ?s)" by auto
  qed
  with handle_api_request_ids [OF h] r h ClientRequest show ?thesis by (cases req) auto
qed (use u in \<open>(intro exI [of _ False] exI [of _ s] exI [of _ "[]"], simp add: Server_OnCustomSocket_def)+\<close>)

lemma server_step_ids:
  assumes "server_step write_json config ev s = Inr (s', out)" "txn_id_counter s + 1 < 2 ^ 57"
    and "0 \<le> local_machine_id config" "local_machine_id config < int kMaxNumMachines" "ids_used config s"
  shows "ids_used config s' \<and> txn_id_counter s \<le> txn_id_counter s' \<and> txn_id_counter s' \<le> txn_id_counter s + 1 \<and>
    (if valid_txn_request ev then forwarded_ids out = [id_at config (txn_id_counter s')] \<and> txn_id_counter s < txn_id_counter s'
     else forwarded_ids out = [])"
proof (cases ev)
  case (SvClient msg)
  with Server_OnCustomSocket_ids [OF assms(2-5), of write_json msg] assms(1) show ?thesis by (auto split: if_splits)
next
  case (SvRequest m req)
  have off: "ids_used config (s\<lparr>offline_machines := x\<rparr>) = ids_used config s" for x by (simp add: ids_used_def)
  from SvRequest assms(1,5) ProcessFinishedSubtxn_ids [of config m _ s s' out config] show ?thesis
    by (auto simp: Server_OnInternalRequestReceived_def off split: request.splits)
next
  case (SvResponse resp)
  with assms(1,5) Server_OnInternalResponseReceived_ids [of resp s s' out config] show ?thesis by simp
qed

lemma server_run_ids:
  assumes "server_run write_json config evs s = Inr (s', out)" "txn_id_counter s + length evs < 2 ^ 57"
    and m: "0 \<le> local_machine_id config" "local_machine_id config < int kMaxNumMachines" and "ids_used config s"
  shows "ids_used config s' \<and> txn_id_counter s \<le> txn_id_counter s' \<and> txn_id_counter s' \<le> txn_id_counter s + length evs \<and>
    sorted_wrt (<) (forwarded_ids out) \<and> length (forwarded_ids out) = length (filter valid_txn_request evs) \<and>
    (\<forall>i \<in> set (forwarded_ids out). \<exists>c. txn_id_counter s < c \<and> c \<le> txn_id_counter s' \<and> i = id_at config c)"
  using assms(1,2,5)
proof (induction evs arbitrary: s out)
  case (Cons ev evs)
  from Cons.prems(1) obtain s1 out1 out2 where 1: "server_step write_json config ev s = Inr (s1, out1)"
    "server_run write_json config evs s1 = Inr (s', out2)" "out = out1 @ out2"
    by (auto split: sum.splits)
  have "txn_id_counter s + 1 < 2 ^ 57" using Cons.prems(2) by simp
  note S = server_step_ids [OF 1(1) this m Cons.prems(3)]
  then have "txn_id_counter s1 + length evs < 2 ^ 57" "ids_used config s1" using Cons.prems(2) by auto
  note R = Cons.IH [OF 1(2) this]
  have mem: "\<exists>c. txn_id_counter s1 < c \<and> c \<le> txn_id_counter s' \<and> i = id_at config c" if "i \<in> set (forwarded_ids out2)" for i
    using R that by blast
  have counter: "txn_id_counter s \<le> txn_id_counter s1" "txn_id_counter s1 \<le> txn_id_counter s + 1"
    "txn_id_counter s1 \<le> txn_id_counter s'" "txn_id_counter s' \<le> txn_id_counter s1 + length evs"
    using S R by blast+
  have len: "length (forwarded_ids out2) = length (filter valid_txn_request evs)" and srt: "sorted_wrt (<) (forwarded_ids out2)"
    using R by blast+
  have after: "id_at config (txn_id_counter s1) < i" if "i \<in> set (forwarded_ids out2)" for i
    using mem [OF that] id_at_less by (elim exE conjE) simp
  have f: "forwarded_ids out1 = (if valid_txn_request ev then [id_at config (txn_id_counter s1)] else [])"
    "valid_txn_request ev \<Longrightarrow> txn_id_counter s < txn_id_counter s1"
    using S by (simp_all split: if_splits)
  have "sorted_wrt (<) (forwarded_ids out)" using srt after by (simp add: 1(3) f(1))
  moreover have "length (forwarded_ids out) = length (filter valid_txn_request (ev # evs))" by (simp add: 1(3) f(1) len)
  moreover have "\<exists>c. txn_id_counter s < c \<and> c \<le> txn_id_counter s' \<and> i = id_at config c" if "i \<in> set (forwarded_ids out)" for i
  proof (cases "i \<in> set (forwarded_ids out2)")
    case False
    with that have "valid_txn_request ev" "i = id_at config (txn_id_counter s1)" by (simp_all add: 1(3) f(1) split: if_splits)
    with f(2) counter(3) show ?thesis by blast
  next
    case True
    from mem [OF this] obtain c where "txn_id_counter s1 < c" "c \<le> txn_id_counter s'" "i = id_at config c" by blast
    with counter(1) show ?thesis by (intro exI [of _ c]) simp
  qed
  moreover have "ids_used config s'" using R by blast
  ultimately show ?case using counter by simp
qed simp

section \<open>A response is sent once, when all partitions have answered\<close>

type_synonym sub_result = "machine_id \<times> transaction"

fun feed_subtxns :: "configuration \<Rightarrow> sub_result list \<Rightarrow> server \<Rightarrow> (server \<times> server_output list) result" where
  "feed_subtxns config [] s = Inr (s, [])"
| "feed_subtxns config ((m, t) # ts) s =
     (case ProcessFinishedSubtxn config m t s of
        Inl e \<Rightarrow> Inl e
      | Inr (s1, out1) \<Rightarrow>
          (case feed_subtxns config ts s1 of Inl e \<Rightarrow> Inl e | Inr (s2, out2) \<Rightarrow> Inr (s2, out1 @ out2)))"

definition part_of :: "configuration \<Rightarrow> sub_result \<Rightarrow> nat" where
  "part_of config x = snd (UnpackMachineId config (fst x))"

definition key_names :: "transaction \<Rightarrow> key set" where
  "key_names t = kv_key ` set (keys t)"

text \<open>What the merged transaction says about the results it was merged from.\<close>

definition merge_of :: "configuration \<Rightarrow> sub_result list \<Rightarrow> transaction \<Rightarrow> bool" where
  "merge_of config xs t \<longleftrightarrow>
     (status t = ABORTED \<longleftrightarrow> (\<exists>x \<in> set xs. status (snd x) = ABORTED)) \<and>
     ((\<forall>x \<in> set xs. status (snd x) \<noteq> ABORTED) \<longrightarrow> key_names t = (\<Union>x \<in> set xs. key_names (snd x))) \<and>
     involved_partitions (internal t) = map (part_of config) xs \<and>
     tid t = tid (snd (hd xs)) \<and> txn_type (internal t) = txn_type (internal (snd (hd xs)))"

lemma MergeTransaction_same:
  assumes "tid txn = tid other" "txn_type (internal txn) = txn_type (internal other)"
  obtains t where "MergeTransaction txn other = Inr t" "tid t = tid txn" "txn_type (internal t) = txn_type (internal txn)"
    "involved_partitions (internal t) = involved_partitions (internal txn)"
  using assms by (auto simp: MergeTransaction_def Let_def set_internal_def)

lemma MergeTransaction_key_names:
  assumes "MergeTransaction txn t = Inr t1" "status txn \<noteq> ABORTED" "status t \<noteq> ABORTED"
  shows "key_names t1 = key_names txn \<union> key_names t"
  using MergeTransaction_keys(1) [OF assms] by (auto simp: key_names_def)

lemma merge_of_first: "merge_of config [(m, t)] (set_internal (\<lambda>i. i\<lparr>involved_partitions := [snd (UnpackMachineId config m)]\<rparr>) t)"
  by (simp add: merge_of_def key_names_def part_of_def)

lemma merge_of_next:
  assumes "merge_of config xs txn" "xs \<noteq> []" "tid t = tid (snd (hd xs))" "txn_type (internal t) = txn_type (internal (snd (hd xs)))"
    and "MergeTransaction txn t = Inr t1" "involved_partitions (internal t1) = involved_partitions (internal txn)"
    and "tid t1 = tid txn" "txn_type (internal t1) = txn_type (internal txn)"
  shows "merge_of config (xs @ [(m, t)])
    (set_internal (\<lambda>i. i\<lparr>involved_partitions := involved_partitions i @ [snd (UnpackMachineId config m)]\<rparr>) t1)"
proof -
  have "key_names t1 = (\<Union>x \<in> set (xs @ [(m, t)]). key_names (snd x))"
    if "\<forall>x \<in> set (xs @ [(m, t)]). status (snd x) \<noteq> ABORTED"
  proof -
    have "status txn \<noteq> ABORTED" "status t \<noteq> ABORTED" "key_names txn = (\<Union>x \<in> set xs. key_names (snd x))"
      using that assms(1) by (auto simp: merge_of_def)
    with MergeTransaction_key_names [OF assms(5)] show ?thesis by auto
  qed
  moreover have "status t1 = ABORTED \<longleftrightarrow> (\<exists>x \<in> set (xs @ [(m, t)]). status (snd x) = ABORTED)"
    using MergeTransaction_keep_abort [OF assms(5)] assms(1) by (auto simp: merge_of_def)
  ultimately show ?thesis
    using assms by (auto simp: merge_of_def part_of_def key_names_def)
qed

definition collecting :: "configuration \<Rightarrow> txn_id \<Rightarrow> nat \<Rightarrow> sub_result list \<Rightarrow> server \<Rightarrow> bool" where
  "collecting config i n xs s \<longleftrightarrow>
     (case map_of (finished_txns s) i of
        None \<Rightarrow> xs = []
      | Some f \<Rightarrow> xs \<noteq> [] \<and> (\<exists>t. ft_txn f = Some t \<and> merge_of config xs t) \<and> remaining_partitions f = n - length xs)"

lemma size_dec: "0 < n \<Longrightarrow> n < 2 ^ 64 \<Longrightarrow> size_dec n = n - 1"
  by (cases n) (simp_all add: size_dec_def)

lemma AddSubTxn_collect:
  assumes "collecting config i n xs s" "length xs < n" "n < 2 ^ 64" "length (involved_partitions (internal t)) = n"
    and "tid t = i" "\<forall>x \<in> set xs. tid (snd x) = i \<and> txn_type (internal (snd x)) = txn_type (internal t)"
  shows "\<exists>t1. AddSubTxn t (snd (UnpackMachineId config m)) (case map_of (finished_txns s) i of
      None \<Rightarrow> FinishedTransaction (length (involved_partitions (internal t))) | Some f \<Rightarrow> f) =
      Inr (length xs + 1 = n, \<lparr>ft_txn = Some t1, remaining_partitions = n - (length xs + 1)\<rparr>) \<and>
    merge_of config (xs @ [(m, t)]) t1"
proof (cases "map_of (finished_txns s) i")
  case None
  then have xs: "xs = []" using assms(1) by (simp add: collecting_def)
  have "size_dec n = n - 1" using assms(2,3) by (intro size_dec) auto
  moreover have "(n - 1 = 0) = (1 = n)" using assms(2) by auto
  ultimately show ?thesis
    using merge_of_first [of config m t] None xs assms(4)
    by (intro exI [of _ "set_internal (\<lambda>i. i\<lparr>involved_partitions := [snd (UnpackMachineId config m)]\<rparr>) t"])
       (simp add: AddSubTxn_def FinishedTransaction_def Let_def)
next
  case (Some f)
  with assms(1) obtain txn where f: "xs \<noteq> []" "ft_txn f = Some txn" "merge_of config xs txn" "remaining_partitions f = n - length xs"
    by (auto simp: collecting_def)
  have hd: "tid (snd (hd xs)) = i" "txn_type (internal (snd (hd xs))) = txn_type (internal t)"
    using assms(6) f(1) by (auto simp: hd_in_set)
  have same: "tid txn = tid t" "txn_type (internal txn) = txn_type (internal t)"
    using f(3) hd assms(5) by (auto simp: merge_of_def)
  obtain t1 where t1: "MergeTransaction txn t = Inr t1" "tid t1 = tid txn" "txn_type (internal t1) = txn_type (internal txn)"
    "involved_partitions (internal t1) = involved_partitions (internal txn)"
    using MergeTransaction_same [OF same] .
  have "tid t = tid (snd (hd xs))" "txn_type (internal t) = txn_type (internal (snd (hd xs)))" using hd assms(5) by simp_all
  note M = merge_of_next [OF f(3,1) this t1(1,4,2,3), of m]
  have "size_dec (n - length xs) = n - length xs - 1" using assms(2,3) by (intro size_dec) auto
  moreover have "(n - length xs - 1 = 0) = (length xs + 1 = n)" using assms(2) by auto
  ultimately show ?thesis using Some f t1(1) M by (simp add: AddSubTxn_def Let_def)
qed

lemma feed_subtxns_response:
  assumes "map_of (pending_responses s) i = Some (identity, stream_id)" "collecting config i n xs s"
    and "ys \<noteq> []" "length xs + length ys = n" "n < 2 ^ 64"
    and "\<forall>x \<in> set (xs @ ys). tid (snd x) = i \<and> length (involved_partitions (internal (snd x))) = n \<and>
      txn_type (internal (snd x)) = txn_type (internal (snd (last ys)))"
  shows "\<exists>s' t. feed_subtxns config ys s = Inr (s', [ToClient identity stream_id (TxnResponse t)]) \<and>
    merge_of config (xs @ ys) t \<and> map_of (pending_responses s') i = None \<and> map_of (finished_txns s') i = None"
  using assms
proof (induction ys arbitrary: xs s)
  case (Cons y ys)
  obtain m t where y: "y = (m, t)" by (cases y)
  have t: "tid t = i" "length (involved_partitions (internal t)) = n"
    "\<forall>x \<in> set xs. tid (snd x) = i \<and> txn_type (internal (snd x)) = txn_type (internal t)"
    using Cons.prems(6) y by auto
  have lt: "length xs < n" using Cons.prems(4) by simp
  from AddSubTxn_collect [OF Cons.prems(2) lt Cons.prems(5) t(2,1,3), of m] obtain t1 where
    A: "AddSubTxn t (snd (UnpackMachineId config m)) (case map_of (finished_txns s) i of
      None \<Rightarrow> FinishedTransaction (length (involved_partitions (internal t))) | Some f \<Rightarrow> f) =
      Inr (length xs + 1 = n, \<lparr>ft_txn = Some t1, remaining_partitions = n - (length xs + 1)\<rparr>)"
    and M: "merge_of config (xs @ [(m, t)]) t1" by blast
  show ?case
  proof (cases "ys = []")
    case True
    have "tid t1 = i" using M t by (cases xs) (auto simp: merge_of_def)
    with A True Cons.prems(1,4) y t(1) M show ?thesis
      by (auto simp: ProcessFinishedSubtxn_def Let_def SendTxnToClient_def SendResponseToClient_def delete_conv)
  next
    case False
    let ?f = "\<lparr>ft_txn = Some t1, remaining_partitions = n - (length xs + 1)\<rparr>"
    let ?s = "s\<lparr>finished_txns := AList.update i ?f (finished_txns s)\<rparr>"
    have "length xs + 1 \<noteq> n" using False Cons.prems(4) by (cases ys) auto
    with A Cons.prems(1) y t(1) have step: "ProcessFinishedSubtxn config m t s = Inr (?s, [])"
      by (simp add: ProcessFinishedSubtxn_def Let_def)
    have col: "collecting config i n (xs @ [(m, t)]) ?s" using M by (simp add: collecting_def update_conv)
    have eq: "(xs @ [(m, t)]) @ ys = xs @ y # ys" "last (y # ys) = last ys" using False by (simp_all add: y)
    have all: "\<forall>x \<in> set ((xs @ [(m, t)]) @ ys). tid (snd x) = i \<and> length (involved_partitions (internal (snd x))) = n \<and>
      txn_type (internal (snd x)) = txn_type (internal (snd (last ys)))"
      using Cons.prems(6) unfolding eq .
    have "\<exists>s' t'. feed_subtxns config ys ?s = Inr (s', [ToClient identity stream_id (TxnResponse t')]) \<and>
      merge_of config ((xs @ [(m, t)]) @ ys) t' \<and> map_of (pending_responses s') i = None \<and> map_of (finished_txns s') i = None"
      by (rule Cons.IH [OF _ col False _ Cons.prems(5) all]) (use Cons.prems(1,4) in simp_all)
    then obtain s' t' where
      "feed_subtxns config ys ?s = Inr (s', [ToClient identity stream_id (TxnResponse t')])"
      "merge_of config (xs @ y # ys) t'" "map_of (pending_responses s') i = None" "map_of (finished_txns s') i = None"
      unfolding eq by blast
    then show ?thesis by (intro exI [of _ s'] exI [of _ t']) (simp add: y step)
  qed
qed simp

end
