(* ===== verification/Service_Properties.thy ===== *)
theory Service_Properties
  imports Forwarder_Model Server_Model Data_Properties
begin

text \<open>
  What the modules that face the clients guarantee: transaction ids are unique, a client gets one answer
  merged from the results of all partitions, and a transaction is forwarded once the regions of all its
  keys are known.
\<close>

section \<open>Server\<close>

text \<open>C31. Transaction ids are unique. In every run of a server, whatever its clients and the other modules send, each
  request with a transaction that accesses a key goes to the forwarder once, under an id that no other
  transaction of this server gets; the ids of servers with different machine ids never coincide; and the
  server accepts the next client message, whichever it is: its check for duplicate ids never fails.
  Machine ids are below \<^verbatim>\<open>kMaxNumMachines\<close>, and the runs shorter than \<open>2 ^ 57\<close> messages.\<close>

theorem transaction_ids_unique:
  assumes "server_run write_json config evs Server = Inr (s, out)" "length evs + 1 < 2 ^ 57"
    and "0 \<le> local_machine_id config" "local_machine_id config < int kMaxNumMachines"
    and "server_run write_json' config' evs' Server = Inr (s', out')" "length evs' + 1 < 2 ^ 57"
    and "0 \<le> local_machine_id config'" "local_machine_id config' < int kMaxNumMachines"
  shows "distinct (forwarded_ids out) \<and> length (forwarded_ids out) = length (filter valid_txn_request evs) \<and>
    (local_machine_id config \<noteq> local_machine_id config' \<longrightarrow> set (forwarded_ids out) \<inter> set (forwarded_ids out') = {}) \<and>
    (\<exists>r. Server_OnCustomSocket write_json config msg s = Inr r)"
proof -
  have init: "txn_id_counter Server = 0" "ids_used c Server" for c by (simp_all add: Server_def ids_used_def)
  have less: "txn_id_counter Server + length evs < 2 ^ 57" "txn_id_counter Server + length evs' < 2 ^ 57"
    using assms(2,6) by (simp_all add: init(1))
  note R = server_run_ids [OF assms(1) less(1) assms(3,4) init(2)]
  note R' = server_run_ids [OF assms(5) less(2) assms(7,8) init(2)]
  have machine: "id_at x c mod kMaxNumMachines = nat (local_machine_id x)" if "local_machine_id x < int kMaxNumMachines" for x c
    using that by (simp add: id_at_def kMaxNumMachines_def)
  have "distinct (forwarded_ids out)" using R strict_sorted_iff by blast
  moreover have "length (forwarded_ids out) = length (filter valid_txn_request evs)" using R by blast
  moreover have "local_machine_id config = local_machine_id config'"
    if "i \<in> set (forwarded_ids out)" "i \<in> set (forwarded_ids out')" for i
  proof -
    obtain c c' where "i = id_at config c" "i = id_at config' c'" using R R' \<open>i \<in> set (forwarded_ids out)\<close> \<open>i \<in> set (forwarded_ids out')\<close> by blast
    with machine [OF assms(4), of c] machine [OF assms(8), of c'] have "nat (local_machine_id config) = nat (local_machine_id config')" by simp
    with assms(3,7) show ?thesis by simp
  qed
  moreover have "txn_id_counter s + 1 < 2 ^ 57" "ids_used config s" using R assms(2) by (simp_all add: init(1))
  from Server_OnCustomSocket_ids [OF this(1) assms(3,4) this(2), of write_json msg]
  have "\<exists>r. Server_OnCustomSocket write_json config msg s = Inr r" by blast
  ultimately show ?thesis by blast
qed

definition client_events :: "server_event list" where
  "client_events =
     [SvClient (ClientRequest ''a'' 1 (TxnRequest (mk_txn 0 UNKNOWN 0 (Code []) [mk_kv ''1'' 0 0 WRITE]))),
      SvClient (ClientRequest ''a'' 2 (TxnRequest (mk_txn 0 UNKNOWN 0 (Code []) []))),
      SvClient (ClientRequest ''b'' 1 (TxnRequest (mk_txn 0 UNKNOWN 0 (Code []) [mk_kv ''2'' 0 0 READ])))]"

theorem transaction_ids_unique_witness:
  "\<exists>s out s' out'. server_run (\<lambda>_. []) sample_config client_events Server = Inr (s, out) \<and>
     server_run (\<lambda>_. []) (sample_config\<lparr>local_partition := 1\<rparr>) client_events Server = Inr (s', out') \<and>
     length (forwarded_ids out) = 2 \<and> distinct (forwarded_ids out) \<and> set (forwarded_ids out) \<inter> set (forwarded_ids out') = {}"
proof -
  let ?c1 = sample_config and ?c2 = "sample_config\<lparr>local_partition := 1\<rparr>"
  have r: "\<exists>s out. server_run (\<lambda>_. []) c client_events Server = Inr (s, out)"
    if "map_sum id (\<lambda>_. ()) (server_run (\<lambda>_. []) c client_events Server) = Inr ()" for c
    using that by (cases "server_run (\<lambda>_. []) c client_events Server") auto
  have "map_sum id (\<lambda>_. ()) (server_run (\<lambda>_. []) ?c1 client_events Server) = Inr ()" by code_simp
  from r [OF this] obtain s out where 1: "server_run (\<lambda>_. []) ?c1 client_events Server = Inr (s, out)" by blast
  have "map_sum id (\<lambda>_. ()) (server_run (\<lambda>_. []) ?c2 client_events Server) = Inr ()" by code_simp
  from r [OF this] obtain s' out' where 2: "server_run (\<lambda>_. []) ?c2 client_events Server = Inr (s', out')" by blast
  have l: "length client_events + 1 < 2 ^ 57" by (simp add: client_events_def)
  have m: "0 \<le> local_machine_id ?c1" "local_machine_id ?c1 < int kMaxNumMachines"
    "0 \<le> local_machine_id ?c2" "local_machine_id ?c2 < int kMaxNumMachines" by code_simp+
  have d: "local_machine_id ?c1 \<noteq> local_machine_id ?c2" by code_simp
  have n: "length (filter valid_txn_request client_events) = 2" by code_simp
  from transaction_ids_unique [OF 1 l m(1,2) 2 l m(3,4)] d n 1 2 show ?thesis by auto
qed

text \<open>C14. When the results of all involved partitions of a transaction with a waiting client have come in, in any
  order, the client gets exactly one answer: aborted if one of the partitions aborted, and otherwise with
  the keys of all of them. Afterwards the server remembers nothing of the transaction.\<close>

theorem server_answers_once:
  assumes "map_of (pending_responses s) i = Some (identity, stream_id)" "map_of (finished_txns s) i = None"
    and "ys \<noteq> []" "length ys < 2 ^ 64"
    and "\<forall>x \<in> set ys. tid (snd x) = i \<and> length (involved_partitions (internal (snd x))) = length ys \<and>
      txn_type (internal (snd x)) = txn_type (internal (snd (last ys)))"
  shows "\<exists>s' t. feed_subtxns config ys s = Inr (s', [ToClient identity stream_id (TxnResponse t)]) \<and>
    (status t = ABORTED \<longleftrightarrow> (\<exists>x \<in> set ys. status (snd x) = ABORTED)) \<and>
    (status t \<noteq> ABORTED \<longrightarrow> key_names t = (\<Union>x \<in> set ys. key_names (snd x))) \<and>
    involved_partitions (internal t) = map (part_of config) ys \<and>
    map_of (pending_responses s') i = None \<and> map_of (finished_txns s') i = None"
proof -
  have "collecting config i (length ys) [] s" using assms(2) by (simp add: collecting_def)
  from feed_subtxns_response [OF assms(1) this assms(3) _ assms(4)] assms(5) obtain s' t where
    "feed_subtxns config ys s = Inr (s', [ToClient identity stream_id (TxnResponse t)])" "merge_of config ys t"
    "map_of (pending_responses s') i = None" "map_of (finished_txns s') i = None" by auto
  then show ?thesis unfolding merge_of_def by blast
qed

definition part_result :: "transaction_status \<Rightarrow> key \<Rightarrow> transaction" where
  "part_result st k = (set_internal (\<lambda>i. i\<lparr>involved_partitions := [0, 1]\<rparr>)
     (mk_txn 302 SINGLE_HOME 1 (Code []) [mk_kv k 1 0 WRITE]))\<lparr>status := st\<rparr>"

theorem server_answers_once_witness:
  "\<exists>s' t. feed_subtxns sample_config [(3, part_result COMMITTED ''3''), (2, part_result COMMITTED ''2'')]
      (Server\<lparr>pending_responses := [(302, (''client'', 9))]\<rparr>) = Inr (s', [ToClient ''client'' 9 (TxnResponse t)]) \<and>
    key_names t = {''3'', ''2''} \<and> involved_partitions (internal t) = [1, 0]"
proof -
  let ?ys = "[(3::machine_id, part_result COMMITTED ''3''), (2, part_result COMMITTED ''2'')]"
  let ?s = "Server\<lparr>pending_responses := [(302, (''client'', 9))]\<rparr>"
  have 1: "map_of (pending_responses ?s) 302 = Some (''client'', 9)" "map_of (finished_txns ?s) 302 = None"
    "?ys \<noteq> []" "length ?ys < 2 ^ 64" by code_simp+
  have 2: "\<forall>x \<in> set ?ys. tid (snd x) = 302 \<and> length (involved_partitions (internal (snd x))) = length ?ys \<and>
      txn_type (internal (snd x)) = txn_type (internal (snd (last ?ys)))" by code_simp
  have 3: "status (part_result COMMITTED k) = COMMITTED" "key_names (part_result COMMITTED k) = {k}" for k
    by (simp_all add: part_result_def key_names_def mk_txn_def mk_kv_def set_internal_def)
  have 4: "map (part_of sample_config) ?ys = [1, 0]" by code_simp
  from server_answers_once [OF 1 2, of sample_config] obtain s' t where
    "feed_subtxns sample_config ?ys ?s = Inr (s', [ToClient ''client'' 9 (TxnResponse t)])"
    "status t = ABORTED \<longleftrightarrow> (\<exists>x \<in> set ?ys. status (snd x) = ABORTED)"
    "status t \<noteq> ABORTED \<longrightarrow> key_names t = (\<Union>x \<in> set ?ys. key_names (snd x))"
    "involved_partitions (internal t) = map (part_of sample_config) ?ys" by (elim exE conjE)
  with 3 4 show ?thesis by (intro exI [of _ s'] exI [of _ t]) (simp add: insert_commute)
qed

section \<open>Forwarder\<close>

text \<open>C30. A transaction that waits for the regions of some keys is not forwarded by any number of lookup results
  that leave a key open; the result that completes the last key forwards it, with the type determined from
  all regions, and removes it from the waiting ones.\<close>

theorem forwarder_waits_for_all_regions:
  assumes "pending_transactions s i = Some txn" "keys txn \<noteq> []" "\<not> covered rss txn" "covered (rss @ [rs]) txn"
  shows "\<exists>s1 s2. feed_lookups rp config rnd i rss s = Inr (s1, []) \<and> pending_transactions s1 i \<noteq> None \<and>
    feed_lookups rp config rnd i (rss @ [rs]) s =
      (case Forward rp config (rnd i) (SetTransactionType rp (txn\<lparr>keys := map (fill_all (rss @ [rs])) (keys txn)\<rparr>)) of
         Inl e \<Rightarrow> Inl e | Inr out \<Rightarrow> Inr (s2, out)) \<and>
    pending_transactions s2 i = None"
proof -
  from feed_lookups_pending [OF assms(1-3)] obtain s1 where
    "feed_lookups rp config rnd i rss s = Inr (s1, [])" "pending_transactions s1 i \<noteq> None"
    using assms(1) by (cases "rss = []") (simp, metis option.distinct(1))
  with feed_lookups_forward [OF assms] show ?thesis by blast
qed

definition unlocated :: "key \<Rightarrow> key_value" where
  "unlocated k = \<lparr>kv_key = k, kv_entry = \<lparr>ve_value = [], ve_new_value = [], ve_type = WRITE, ve_metadata = None\<rparr>\<rparr>"

definition waiting_forwarder :: forwarder where
  "waiting_forwarder = (Forwarder sample_config)\<lparr>pending_transactions := [5 \<mapsto> mk_txn 5 UNKNOWN 0 (Code []) [unlocated ''1'', unlocated ''3'']]\<rparr>"

theorem forwarder_waits_for_all_regions_witness:
  "\<exists>s1. feed_lookups COUNTERLESS sample_config (\<lambda>_. 0) 5 [[(''1'', \<lparr>master = 1, counter = 0\<rparr>)]] waiting_forwarder = Inr (s1, []) \<and>
    pending_transactions s1 5 \<noteq> None"
proof -
  let ?txn = "mk_txn 5 UNKNOWN 0 (Code []) [unlocated ''1'', unlocated ''3'']"
  let ?rss = "[[(''1'', \<lparr>master = 1, counter = 0\<rparr>)]]"
  have "pending_transactions waiting_forwarder 5 = Some ?txn" "keys ?txn \<noteq> []" "\<not> covered ?rss ?txn"
    "covered (?rss @ [[(''3'', \<lparr>master = 0, counter = 0\<rparr>)]]) ?txn"
    by (simp_all add: waiting_forwarder_def mk_txn_def covered_def unlocated_def has_metadata_def)
  from forwarder_waits_for_all_regions [OF this] show ?thesis by blast
qed

text \<open>With simple partitioning, a transaction with a key that is not a number is dropped and its client never
  gets an answer; a number that does not fit 64 bits is not caught at all and takes the forwarder down.\<close>

theorem forwarder_drops_bad_keys:
  "map_sum (\<lambda>e. e) snd
     (ProcessForwardTxn COUNTERLESS sample_config Map.empty (\<lambda>_. Inr \<lparr>master = 0, counter = 0\<rparr>) 0 0
        (mk_txn 5 UNKNOWN 0 (Code []) [unlocated ''abc'']) (Forwarder sample_config)) = Inr [] \<and>
   isl (ProcessForwardTxn COUNTERLESS sample_config Map.empty (\<lambda>_. Inr \<lparr>master = 0, counter = 0\<rparr>) 0 0
        (mk_txn 5 UNKNOWN 0 (Code []) [unlocated ''99999999999999999999'']) (Forwarder sample_config))"
  by (rule conjI; code_simp)

section \<open>Sub-transactions\<close>

text \<open>C29. The part of a transaction for a partition has exactly the keys the sharder sends there, in the original
  order. It is left out exactly when none of these keys is mastered by the home of the transaction, or
  there are none, a remaster being kept whenever its key is in the partition. The lock-only transactions
  of one multi-home transaction differ in their home only, so each of their parts for a partition carries
  all the keys of the partition, also those of other regions; and apart from remasters the regions whose
  lock-only transaction has a part for the partition are exactly the involved replicas every such part
  lists, in ascending order, which is how many parts the scheduler there waits for.\<close>

theorem partitions_split_keys:
  assumes "\<forall>kv \<in> set (keys txn). (\<exists>q. compute_partition sh (kv_key kv) = Inr q) \<and> kv_master kv + 1 < 2 ^ 32"
  shows "\<exists>t lo. GeneratePartitionedTxn sh txn p = Inr t \<and>
    (\<forall>r. GeneratePartitionedTxn sh (GenerateLockOnlyTxn rp txn r) p = Inr (lo r)) \<and>
    (t = None \<longleftrightarrow> (\<forall>kv \<in> set (keys txn). compute_partition sh (kv_key kv) = Inr p \<longrightarrow>
       \<not> is_remaster (program txn) \<and> int32_of_uint32 (kv_master kv) \<noteq> home (internal txn))) \<and>
    (\<forall>part r. t = Some part \<or> lo r = Some part \<longrightarrow>
       keys part = filter (\<lambda>kv. compute_partition sh (kv_key kv) = Inr p) (keys txn)) \<and>
    (txn_type (internal txn) = MULTI_HOME_OR_LOCK_ONLY \<and> \<not> is_remaster (program txn) \<longrightarrow>
       (\<forall>part r. lo r = Some part \<longrightarrow> sorted_wrt (<) (involved_replicas (internal part)) \<and>
          set (involved_replicas (internal part)) = {r. r < 2 ^ 32 \<and> lo r \<noteq> None}))"
proof -
  let ?lo = "GenerateLockOnlyTxn rp txn"
  let ?K = "partitioned_keys sh txn p"
  have lo: "keys (?lo r) = keys txn" "home (internal (?lo r)) = int32_of_uint32 r" "txn_type (internal (?lo r)) = txn_type (internal txn)"
    "is_remaster (program (?lo r)) = is_remaster (program txn)" for r
    by (simp_all add: GenerateLockOnlyTxn_def set_internal_def Let_def)
  have Klo: "partitioned_keys sh (?lo r) p = ?K" for r by (simp add: partitioned_keys_def lo)
  have ks: "?K = filter (\<lambda>kv. compute_partition sh (kv_key kv) = Inr p) (keys txn)"
    by (simp add: partitioned_keys_def in_partition_def [abs_def])
  obtain t where t: "GeneratePartitionedTxn sh txn p = Inr t" using GeneratePartitionedTxn_total [OF assms] by blast
  have "\<exists>l. GeneratePartitionedTxn sh (?lo r) p = Inr l" for r
    using GeneratePartitionedTxn_total [of "?lo r" sh p] assms unfolding lo by blast
  then obtain l where l: "GeneratePartitionedTxn sh (?lo r) p = Inr (l r)" for r by metis
  note T = GeneratePartitionedTxn_eq [OF t] and L = GeneratePartitionedTxn_eq [OF l, unfolded Klo lo]
  have less: "kv_master kv < 2 ^ 32" if "kv \<in> set ?K" for kv using assms that unfolding ks by auto
  have none: "t = None \<longleftrightarrow> (\<forall>kv \<in> set ?K. \<not> is_remaster (program txn) \<and> int32_of_uint32 (kv_master kv) \<noteq> home (internal txn))"
    unfolding T by (cases "?K = []") auto
  have keys: "keys part = ?K" if "t = Some part \<or> l r = Some part" for part r
    using that unfolding T L by (auto simp: set_internal_def split: if_splits)
  have repl: "involved_replicas (internal part) = sorted_list_of_set (kv_master ` set ?K)"
    if "txn_type (internal txn) = MULTI_HOME_OR_LOCK_ONLY" "l r = Some part" for part r
    using that unfolding L by (auto simp: set_internal_def split: if_splits)
  have some: "kv_master ` set ?K = {r. r < 2 ^ 32 \<and> l r \<noteq> None}" if "\<not> is_remaster (program txn)"
  proof -
    have inj: "int32_of_uint32 (kv_master kv) = int32_of_uint32 r \<longleftrightarrow> kv_master kv = r" if "kv \<in> set ?K" "r < 2 ^ 32" for kv r
      using less [OF that(1)] that(2) by (auto simp: int32_of_uint32_def split: if_splits)
    have "l r \<noteq> None \<longleftrightarrow> r \<in> kv_master ` set ?K" if "r < 2 ^ 32" for r
      using inj [OF _ that] \<open>\<not> is_remaster (program txn)\<close> unfolding L by auto
    with less show ?thesis by auto
  qed
  have "t = None \<longleftrightarrow> (\<forall>kv \<in> set (keys txn). compute_partition sh (kv_key kv) = Inr p \<longrightarrow>
      \<not> is_remaster (program txn) \<and> int32_of_uint32 (kv_master kv) \<noteq> home (internal txn))"
    unfolding none ks by auto
  moreover have "sorted_wrt (<) (involved_replicas (internal part)) \<and>
      set (involved_replicas (internal part)) = {r. r < 2 ^ 32 \<and> l r \<noteq> None}"
    if "txn_type (internal txn) = MULTI_HOME_OR_LOCK_ONLY" "\<not> is_remaster (program txn)" "l r = Some part" for part r
    using repl [OF that(1,3)] some [OF that(2)] by simp
  ultimately show ?thesis
    using t l keys unfolding ks [symmetric] by (intro exI [of _ t] exI [of _ l] conjI) blast+
qed

definition split_sample :: transaction where
  "split_sample = mk_txn 7 MULTI_HOME_OR_LOCK_ONLY (- 1) (Code []) [mk_kv ''2'' 1 0 WRITE, mk_kv ''3'' 2 0 READ, mk_kv ''6'' 0 0 READ]"

theorem partitions_split_keys_witness:
  "\<exists>part. GeneratePartitionedTxn (MakeSharder sample_config) (GenerateLockOnlyTxn COUNTERLESS split_sample 1) 0 = Inr (Some part) \<and>
    keys part = [mk_kv ''2'' 1 0 WRITE, mk_kv ''6'' 0 0 READ] \<and> 0 \<in> set (involved_replicas (internal part)) \<and>
    2 \<notin> set (involved_replicas (internal part))"
proof -
  let ?sh = "MakeSharder sample_config" and ?lo = "GenerateLockOnlyTxn COUNTERLESS split_sample"
  have p: "compute_partition ?sh ''2'' = Inr 0" "compute_partition ?sh ''3'' = Inr 1" "compute_partition ?sh ''6'' = Inr 0"
    by code_simp+
  have m: "kv_master (mk_kv k r 0 ty) = r" "kv_key (mk_kv k r 0 ty) = k" for k r ty
    by (simp_all add: mk_kv_def kv_master_def)
  have k: "keys split_sample = [mk_kv ''2'' 1 0 WRITE, mk_kv ''3'' 2 0 READ, mk_kv ''6'' 0 0 READ]"
    "txn_type (internal split_sample) = MULTI_HOME_OR_LOCK_ONLY" "\<not> is_remaster (program split_sample)"
    by (simp_all add: split_sample_def mk_txn_def)
  have v: "\<forall>kv \<in> set (keys split_sample). (\<exists>q. compute_partition ?sh (kv_key kv) = Inr q) \<and> kv_master kv + 1 < 2 ^ 32"
    using p m by (simp add: k)
  obtain lo where l: "\<forall>r. GeneratePartitionedTxn ?sh (?lo r) 0 = Inr (lo r)"
    "\<And>part r. lo r = Some part \<Longrightarrow> keys part = filter (\<lambda>kv. compute_partition ?sh (kv_key kv) = Inr 0) (keys split_sample)"
    "\<And>part r. lo r = Some part \<Longrightarrow> set (involved_replicas (internal part)) = {r. r < 2 ^ 32 \<and> lo r \<noteq> None}"
    using partitions_split_keys [OF v, of 0 COUNTERLESS] k(2,3) by blast
  have "map_sum id (\<lambda>x. x = None) (GeneratePartitionedTxn ?sh (?lo 0) 0) = Inr False"
    "map_sum id (\<lambda>x. x = None) (GeneratePartitionedTxn ?sh (?lo 1) 0) = Inr False"
    "map_sum id (\<lambda>x. x = None) (GeneratePartitionedTxn ?sh (?lo 2) 0) = Inr True" by code_simp+
  then have n: "lo 0 \<noteq> None" "lo 1 \<noteq> None" "lo 2 = None" using l(1) by simp_all
  from n(2) obtain part where part: "lo 1 = Some part" by blast
  show ?thesis
    using l(1) part l(2) [OF part] l(3) [OF part] n p by (intro exI [of _ part]) (simp add: k(1) m)
qed

end
