(* ===== verification/Tpcc_Scalar.thy ===== *)
theory Tpcc_Scalar
  imports Sharder_Model
begin

text \<open>
  \<^verbatim>\<open>execution/tpcc/types.h\<close> and \<^verbatim>\<open>scalar.h\<close>: the types of columns, scalars and their bytes. Numbers are stored in
  little-endian two's complement, as on the machines the sharder assumes.
\<close>

section \<open>Sequencing of results and of state\<close>

definition r_bind :: "'a result \<Rightarrow> ('a \<Rightarrow> 'b result) \<Rightarrow> 'b result" where
  "r_bind r f = (case r of Inl e \<Rightarrow> Inl e | Inr x \<Rightarrow> f x)"

lemma r_bind_simps [simp]: "r_bind (Inl e) f = Inl e" "r_bind (Inr x) f = f x"
  by (simp_all add: r_bind_def)

lemma r_bind_Inr: "r_bind r f = Inr y \<longleftrightarrow> (\<exists>x. r = Inr x \<and> f x = Inr y)"
  by (cases r) simp_all

fun r_map :: "('a \<Rightarrow> 'b result) \<Rightarrow> 'a list \<Rightarrow> 'b list result" where
  "r_map f [] = Inr []"
| "r_map f (x # xs) = r_bind (f x) (\<lambda>y. r_bind (r_map f xs) (\<lambda>ys. Inr (y # ys)))"

lemma r_map_Inr: "(\<And>x. x \<in> set xs \<Longrightarrow> f x = Inr (g x)) \<Longrightarrow> r_map f xs = Inr (map g xs)"
  by (induction xs) simp_all

lemma r_map_append: "r_map f (xs @ ys) = r_bind (r_map f xs) (\<lambda>as. r_bind (r_map f ys) (\<lambda>bs. Inr (as @ bs)))"
  by (induction xs) (auto simp: r_bind_def split: sum.splits)

type_synonym ('s, 'a) stm = "'s \<Rightarrow> ('a \<times> 's) result"

definition m_return :: "'a \<Rightarrow> ('s, 'a) stm" where
  "m_return x s = Inr (x, s)"

definition m_lift :: "'a result \<Rightarrow> ('s, 'a) stm" where
  "m_lift r s = map_sum id (\<lambda>x. (x, s)) r"

definition m_bind :: "('s, 'a) stm \<Rightarrow> ('a \<Rightarrow> ('s, 'b) stm) \<Rightarrow> ('s, 'b) stm" where
  "m_bind m f s = r_bind (m s) (\<lambda>(x, s'). f x s')"

lemma m_simps [simp]:
  "m_return x s = Inr (x, s)" "m_lift (Inr x) s = Inr (x, s)" "m_lift (Inl e) s = Inl e"
  by (simp_all add: m_return_def m_lift_def)

lemma m_bind_Inr: "m s = Inr (x, s') \<Longrightarrow> m_bind m f s = f x s'"
  by (simp add: m_bind_def)

lemma m_bind_Inl: "m s = Inl e \<Longrightarrow> m_bind m f s = Inl e"
  by (simp add: m_bind_def)

section \<open>Bytes of numbers\<close>

fun le_bytes :: "nat \<Rightarrow> int \<Rightarrow> string" where
  "le_bytes 0 x = []"
| "le_bytes (Suc n) x = char_of (nat (x mod 256)) # le_bytes n (x div 256)"

fun le_nat :: "string \<Rightarrow> nat" where
  "le_nat [] = 0"
| "le_nat (c # s) = of_char c + 256 * le_nat s"

text \<open>The number in a signed field of \<open>n\<close> bytes, and the conversion of a number to such a field.\<close>

definition signed_of :: "nat \<Rightarrow> nat \<Rightarrow> int" where
  "signed_of n v = (if v < 2 ^ (8 * n - 1) then int v else int v - 2 ^ (8 * n))"

definition wrap_int :: "nat \<Rightarrow> int \<Rightarrow> int" where
  "wrap_int n x = signed_of n (nat (x mod 2 ^ (8 * n)))"

definition fits :: "nat \<Rightarrow> int \<Rightarrow> bool" where
  "fits n x \<longleftrightarrow> - (2 ^ (8 * n - 1)) \<le> x \<and> x < 2 ^ (8 * n - 1)"

lemma length_le_bytes [simp]: "length (le_bytes n x) = n"
  by (induction n arbitrary: x) simp_all

lemma le_nat_le_bytes: "le_nat (le_bytes n x) = nat (x mod 2 ^ (8 * n))"
proof (induction n arbitrary: x)
  case (Suc n)
  have 1: "nat (x mod 256) < 256" by (simp add: nat_less_iff)
  have 2: "x mod 2 ^ (8 * Suc n) = x mod 256 + 256 * (x div 256 mod 2 ^ (8 * n))"
    using mod_mult2_eq' [of x 256 "2 ^ (8 * n)"] by (simp add: power_add algebra_simps)
  have 3: "0 \<le> x mod 256" "0 \<le> x div 256 mod 2 ^ (8 * n)" by simp_all
  then show ?case using Suc 1 unfolding 2 by (simp add: nat_add_distrib nat_mult_distrib)
qed simp

lemma wrap_int_fits:
  assumes "0 < n" "fits n x"
  shows "wrap_int n x = x"
proof -
  have h: "2 * (2::int) ^ (8 * n - 1) = 2 ^ (8 * n)" using assms(1) by (simp flip: power_Suc)
  have hn: "int (2 ^ (8 * n - 1)) = 2 ^ (8 * n - 1)" by simp
  show ?thesis
  proof (cases "0 \<le> x")
    case True
    then have "x mod 2 ^ (8 * n) = x" using assms(2) h by (simp add: fits_def)
    moreover have "nat x < 2 ^ (8 * n - 1)" using assms(2) True hn by (simp add: fits_def nat_less_iff)
    ultimately show ?thesis using True by (simp add: wrap_int_def signed_of_def)
  next
    case False
    then have m: "x mod 2 ^ (8 * n) = x + 2 ^ (8 * n)"
      using assms(2) h by (intro mod_pos_pos_trivial [of "x + 2 ^ (8 * n)" "2 ^ (8 * n)", simplified]) (auto simp: fits_def)
    have "\<not> nat (x + 2 ^ (8 * n)) < 2 ^ (8 * n - 1)"
      using assms(2) h hn False by (auto simp: fits_def nat_less_iff)
    moreover have "0 \<le> x + 2 ^ (8 * n)" using assms(2) h by (auto simp: fits_def)
    ultimately show ?thesis by (simp add: wrap_int_def signed_of_def m)
  qed
qed

lemma signed_le_bytes: "0 < n \<Longrightarrow> fits n x \<Longrightarrow> signed_of n (le_nat (le_bytes n x)) = x"
  using wrap_int_fits [of n x] by (simp add: le_nat_le_bytes wrap_int_def)

lemma le_bytes_inject: "0 < n \<Longrightarrow> fits n x \<Longrightarrow> fits n y \<Longrightarrow> le_bytes n x = le_bytes n y \<longleftrightarrow> x = y"
  by (metis signed_le_bytes)

section \<open>Types\<close>

datatype data_type = INT8 | INT16 | INT32 | INT64 | FIXED_TEXT nat

fun type_size :: "data_type \<Rightarrow> nat" where
  "type_size INT8 = 1"
| "type_size INT16 = 2"
| "type_size INT32 = 4"
| "type_size INT64 = 8"
| "type_size (FIXED_TEXT width) = width"

fun type_to_string :: "data_type \<Rightarrow> string" where
  "type_to_string INT8 = ''INT8''"
| "type_to_string INT16 = ''INT16''"
| "type_to_string INT32 = ''INT32''"
| "type_to_string INT64 = ''INT64''"
| "type_to_string (FIXED_TEXT width) = ''FIXED_TEXT<'' @ to_string width @ ''>''"

text \<open>\<^verbatim>\<open>dt1.name() == dt2.name()\<close>: the name does not include the width.\<close>

fun same_name :: "data_type \<Rightarrow> data_type \<Rightarrow> bool" where
  "same_name (FIXED_TEXT _) ty = (case ty of FIXED_TEXT _ \<Rightarrow> True | _ \<Rightarrow> False)"
| "same_name ty ty' = (ty = ty')"

definition data_type_eq :: "data_type \<Rightarrow> data_type \<Rightarrow> bool" where
  "data_type_eq dt1 dt2 =
     (if \<not> same_name dt1 dt2 then False
      else if same_name dt1 (FIXED_TEXT 0) \<and> type_size dt1 \<noteq> type_size dt2 then False
      else True)"

lemma data_type_eq: "data_type_eq dt1 dt2 \<longleftrightarrow> dt1 = dt2"
  by (cases dt1; cases dt2) (simp_all add: data_type_eq_def)

section \<open>Scalars\<close>

datatype scalar =
    Int8Scalar int
  | Int16Scalar int
  | Int32Scalar int
  | Int64Scalar int
  | FixedTextScalar nat string   \<comment> \<open>the width of the type and the buffer\<close>

fun scalar_type :: "scalar \<Rightarrow> data_type" where
  "scalar_type (Int8Scalar _) = INT8"
| "scalar_type (Int16Scalar _) = INT16"
| "scalar_type (Int32Scalar _) = INT32"
| "scalar_type (Int64Scalar _) = INT64"
| "scalar_type (FixedTextScalar width _) = FIXED_TEXT width"

definition MakeInt8Scalar :: "int \<Rightarrow> scalar" where "MakeInt8Scalar x = Int8Scalar (wrap_int 1 x)"
definition MakeInt16Scalar :: "int \<Rightarrow> scalar" where "MakeInt16Scalar x = Int16Scalar (wrap_int 2 x)"
definition MakeInt32Scalar :: "int \<Rightarrow> scalar" where "MakeInt32Scalar x = Int32Scalar (wrap_int 4 x)"
definition MakeInt64Scalar :: "int \<Rightarrow> scalar" where "MakeInt64Scalar x = Int64Scalar (wrap_int 8 x)"

definition MakeFixedTextScalar :: "nat \<Rightarrow> string \<Rightarrow> scalar result" where
  "MakeFixedTextScalar width s =
     (if length s = width then Inr (FixedTextScalar width s) else Inl (CheckFailed ''Size does not match''))"

text \<open>The bytes of a string that may be read are its characters and the final zero.\<close>

definition c_mem :: "string \<Rightarrow> string" where
  "c_mem s = s @ [CHR 0x00]"

definition read_bytes :: "nat \<Rightarrow> string \<Rightarrow> string result" where
  "read_bytes n mem = (if n \<le> length mem then Inr (take n mem) else Inl (UndefinedBehaviour ''read past the end''))"

text \<open>The \<^verbatim>\<open>type->size()\<close> bytes at \<^verbatim>\<open>data()\<close>.\<close>

fun scalar_data :: "scalar \<Rightarrow> string result" where
  "scalar_data (Int8Scalar x) = Inr (le_bytes 1 x)"
| "scalar_data (Int16Scalar x) = Inr (le_bytes 2 x)"
| "scalar_data (Int32Scalar x) = Inr (le_bytes 4 x)"
| "scalar_data (Int64Scalar x) = Inr (le_bytes 8 x)"
| "scalar_data (FixedTextScalar width s) = read_bytes width (c_mem s)"

definition MakeScalar :: "data_type \<Rightarrow> string \<Rightarrow> scalar result" where
  "MakeScalar ty mem =
     r_bind (read_bytes (type_size ty) mem) (\<lambda>s.
       case ty of
         INT8 \<Rightarrow> Inr (Int8Scalar (signed_of 1 (le_nat s)))
       | INT16 \<Rightarrow> Inr (Int16Scalar (signed_of 2 (le_nat s)))
       | INT32 \<Rightarrow> Inr (Int32Scalar (signed_of 4 (le_nat s)))
       | INT64 \<Rightarrow> Inr (Int64Scalar (signed_of 8 (le_nat s)))
       | FIXED_TEXT width \<Rightarrow> MakeFixedTextScalar width s)"

text \<open>\<^verbatim>\<open>operator==\<close> on scalars; equal types are the same shared object.\<close>

fun scalar_eq :: "scalar \<Rightarrow> scalar \<Rightarrow> bool" where
  "scalar_eq (Int8Scalar x) (Int8Scalar y) = (x = y)"
| "scalar_eq (Int16Scalar x) (Int16Scalar y) = (x = y)"
| "scalar_eq (Int32Scalar x) (Int32Scalar y) = (x = y)"
| "scalar_eq (Int64Scalar x) (Int64Scalar y) = (x = y)"
| "scalar_eq (FixedTextScalar v s) (FixedTextScalar w t) = (v = w \<and> s = t)"
| "scalar_eq _ _ = False"

lemma scalar_eq_iff: "scalar_eq s t \<longleftrightarrow> s = t"
  by (cases s; cases t) simp_all

text \<open>\<^verbatim>\<open>UncheckedCast\<close> of the \<open>i\<close>-th result and reading its value.\<close>

definition res_at :: "scalar list \<Rightarrow> nat \<Rightarrow> scalar result" where
  "res_at res i = (if i < length res then Inr (res ! i) else Inl (UndefinedBehaviour ''res[i]''))"

definition cast_int16 :: "scalar list \<Rightarrow> nat \<Rightarrow> int result" where
  "cast_int16 res i = r_bind (res_at res i)
     (\<lambda>s. case s of Int16Scalar x \<Rightarrow> Inr x | _ \<Rightarrow> Inl (UndefinedBehaviour ''UncheckedCast''))"

definition cast_int32 :: "scalar list \<Rightarrow> nat \<Rightarrow> int result" where
  "cast_int32 res i = r_bind (res_at res i)
     (\<lambda>s. case s of Int32Scalar x \<Rightarrow> Inr x | _ \<Rightarrow> Inl (UndefinedBehaviour ''UncheckedCast''))"

definition cast_int64 :: "scalar list \<Rightarrow> nat \<Rightarrow> int result" where
  "cast_int64 res i = r_bind (res_at res i)
     (\<lambda>s. case s of Int64Scalar x \<Rightarrow> Inr x | _ \<Rightarrow> Inl (UndefinedBehaviour ''UncheckedCast''))"

definition cast_text :: "scalar list \<Rightarrow> nat \<Rightarrow> scalar result" where
  "cast_text res i = r_bind (res_at res i)
     (\<lambda>s. case s of FixedTextScalar w b \<Rightarrow> Inr s | _ \<Rightarrow> Inl (UndefinedBehaviour ''UncheckedCast''))"

section \<open>A well-typed scalar survives storage\<close>

fun scalar_ok :: "scalar \<Rightarrow> bool" where
  "scalar_ok (Int8Scalar x) = fits 1 x"
| "scalar_ok (Int16Scalar x) = fits 2 x"
| "scalar_ok (Int32Scalar x) = fits 4 x"
| "scalar_ok (Int64Scalar x) = fits 8 x"
| "scalar_ok (FixedTextScalar width s) = (length s = width)"

definition scalar_bytes :: "scalar \<Rightarrow> string" where
  "scalar_bytes s = (case scalar_data s of Inr b \<Rightarrow> b | Inl _ \<Rightarrow> [])"

lemma scalar_data_ok: "scalar_ok s \<Longrightarrow> scalar_data s = Inr (scalar_bytes s) \<and> length (scalar_bytes s) = type_size (scalar_type s)"
  by (cases s) (auto simp: scalar_bytes_def read_bytes_def c_mem_def simp del: le_bytes.simps)

lemma MakeScalar_bytes:
  assumes "scalar_ok s"
  shows "MakeScalar (scalar_type s) (scalar_bytes s @ rest) = Inr s"
  using assms signed_le_bytes [of 1] signed_le_bytes [of 2] signed_le_bytes [of 4] signed_le_bytes [of 8]
  by (cases s)
     (auto simp: MakeScalar_def scalar_bytes_def read_bytes_def c_mem_def MakeFixedTextScalar_def
       simp del: le_bytes.simps le_nat.simps One_nat_def)

lemma scalar_bytes_inject:
  assumes "scalar_ok s" "scalar_ok t" "scalar_type s = scalar_type t" "scalar_bytes s = scalar_bytes t"
  shows "s = t"
  using MakeScalar_bytes [OF assms(1), of "[]"] MakeScalar_bytes [OF assms(2), of "[]"] assms(3,4) by simp

end
