(* ===== verification/Tpcc_Table.thy ===== *)
theory Tpcc_Table
  imports Tpcc_Scalar Execution_Kv "HOL-Library.AList"
begin

text \<open>
  \<^verbatim>\<open>execution/tpcc/table.h\<close> and \<^verbatim>\<open>storage_adapter.{h,cpp}\<close>: tables of typed columns on top of a key-value store. A
  table either stores all columns of a row under one key (grouped) or one column per key. The virtual
  \<^verbatim>\<open>StorageAdapter\<close> is a record of operations on the state of the adapter; the operations of a table take it as an
  argument. Columns are named as in the source; the number of a column is its position.
\<close>

section \<open>Schemas\<close>

datatype table_id = WAREHOUSE | DISTRICT | CUSTOMER | HISTORY | NEW_ORDER | ORDER | ORDER_LINE | ITEM | STOCK

fun table_no :: "table_id \<Rightarrow> nat" where
  "table_no WAREHOUSE = 0"
| "table_no DISTRICT = 1"
| "table_no CUSTOMER = 2"
| "table_no HISTORY = 3"
| "table_no NEW_ORDER = 4"
| "table_no ORDER = 5"
| "table_no ORDER_LINE = 6"
| "table_no ITEM = 7"
| "table_no STOCK = 8"

record schema =
  kId :: table_id
  kPKeySize :: nat
  kGroupedColumns :: bool
  Columns :: "(string \<times> data_type) list"

definition kNumColumns :: "schema \<Rightarrow> nat" where
  "kNumColumns sc = length (Columns sc)"

definition ColumnTypes :: "schema \<Rightarrow> nat \<Rightarrow> data_type" where
  "ColumnTypes sc i = snd (Columns sc ! i)"

definition column_no :: "schema \<Rightarrow> string \<Rightarrow> nat" where
  "column_no sc c = length (takeWhile (\<lambda>x. fst x \<noteq> c) (Columns sc))"

definition WarehouseSchema :: schema where
  "WarehouseSchema =
     \<lparr>kId = WAREHOUSE, kPKeySize = 1, kGroupedColumns = False, Columns =
      [(''ID'', INT32), (''NAME'', FIXED_TEXT 10), (''ADDRESS'', FIXED_TEXT 71), (''TAX'', INT32),
       (''YTD'', INT64)]\<rparr>"

definition DistrictSchema :: schema where
  "DistrictSchema =
     \<lparr>kId = DISTRICT, kPKeySize = 2, kGroupedColumns = False, Columns =
      [(''W_ID'', INT32), (''ID'', INT8), (''NAME'', FIXED_TEXT 10), (''ADDRESS'', FIXED_TEXT 71),
       (''TAX'', INT32), (''YTD'', INT64), (''NEXT_O_ID'', INT32)]\<rparr>"

definition CustomerSchema :: schema where
  "CustomerSchema =
     \<lparr>kId = CUSTOMER, kPKeySize = 3, kGroupedColumns = False, Columns =
      [(''W_ID'', INT32), (''D_ID'', INT8), (''ID'', INT32), (''FULL_NAME'', FIXED_TEXT 34),
       (''ADDRESS'', FIXED_TEXT 71), (''PHONE'', FIXED_TEXT 16), (''SINCE'', INT64), (''CREDIT'', FIXED_TEXT 2),
       (''CREDIT_LIM'', INT64), (''DISCOUNT'', INT32), (''BALANCE'', INT64), (''YTD_PAYMENT'', INT64),
       (''PAYMENT_CNT'', INT16), (''DELIVERY_CNT'', INT16), (''DATA'', FIXED_TEXT 250)]\<rparr>"

definition HistorySchema :: schema where
  "HistorySchema =
     \<lparr>kId = HISTORY, kPKeySize = 4, kGroupedColumns = True, Columns =
      [(''W_ID'', INT32), (''D_ID'', INT8), (''C_ID'', INT32), (''ID'', INT32),
       (''C_D_ID'', INT8), (''C_W_ID'', INT32), (''DATE'', INT64), (''AMOUNT'', INT32),
       (''DATA'', FIXED_TEXT 24)]\<rparr>"

definition NewOrderSchema :: schema where
  "NewOrderSchema =
     \<lparr>kId = NEW_ORDER, kPKeySize = 3, kGroupedColumns = True, Columns =
      [(''W_ID'', INT32), (''D_ID'', INT8), (''O_ID'', INT32), (''DUMMY'', INT8)]\<rparr>"

definition OrderSchema :: schema where
  "OrderSchema =
     \<lparr>kId = ORDER, kPKeySize = 3, kGroupedColumns = True, Columns =
      [(''W_ID'', INT32), (''D_ID'', INT8), (''ID'', INT32), (''C_ID'', INT32),
       (''ENTRY_D'', INT64), (''CARRIER_ID'', INT8), (''OL_CNT'', INT8), (''ALL_LOCAL'', INT8)]\<rparr>"

definition OrderLineSchema :: schema where
  "OrderLineSchema =
     \<lparr>kId = ORDER_LINE, kPKeySize = 4, kGroupedColumns = True, Columns =
      [(''W_ID'', INT32), (''D_ID'', INT8), (''O_ID'', INT32), (''NUMBER'', INT8),
       (''I_ID'', INT32), (''SUPPLY_W_ID'', INT32), (''DELIVERY_D'', INT64), (''QUANTITY'', INT8),
       (''AMOUNT'', INT32), (''DIST_INFO'', FIXED_TEXT 24)]\<rparr>"

definition ItemSchema :: schema where
  "ItemSchema =
     \<lparr>kId = ITEM, kPKeySize = 2, kGroupedColumns = True, Columns =
      [(''W_ID'', INT32), (''ID'', INT32), (''IM_ID'', INT32), (''NAME'', FIXED_TEXT 24),
       (''PRICE'', INT32), (''DATA'', FIXED_TEXT 50)]\<rparr>"

definition StockSchema :: schema where
  "StockSchema =
     \<lparr>kId = STOCK, kPKeySize = 2, kGroupedColumns = True, Columns =
      [(''W_ID'', INT32), (''I_ID'', INT32), (''QUANTITY'', INT16), (''ALL_DIST'', FIXED_TEXT 240),
       (''YTD'', INT32), (''ORDER_CNT'', INT16), (''REMOTE_CNT'', INT16), (''DATA'', FIXED_TEXT 50)]\<rparr>"

section \<open>Storage keys\<close>

text \<open>The offsets of the columns in the value of a grouped row; columns of the primary key are not stored.\<close>

definition column_offset :: "schema \<Rightarrow> nat \<Rightarrow> nat" where
  "column_offset sc i = sum_list (map (type_size \<circ> ColumnTypes sc) [kPKeySize sc..<i])"

definition non_pkey_columns :: "schema \<Rightarrow> nat list" where
  "non_pkey_columns sc = [kPKeySize sc..<kNumColumns sc]"

definition ValidateType :: "schema \<Rightarrow> scalar \<Rightarrow> nat \<Rightarrow> unit result" where
  "ValidateType sc val i =
     (if same_name (scalar_type val) (ColumnTypes sc i) then Inr () else Inl (CheckFailed ''Invalid column type''))"

text \<open>The part of the key that identifies the row.\<close>

definition row_key :: "schema \<Rightarrow> scalar list \<Rightarrow> string result" where
  "row_key sc values =
     (if length values < kPKeySize sc
      then Inl (CheckFailed ''Number of values needs to be equal or larger than primary key size'')
      else r_bind (r_map (\<lambda>i. ValidateType sc (values ! i) i) [0..<kPKeySize sc]) (\<lambda>_.
        r_bind (scalar_data (values ! 0)) (\<lambda>first.
          r_bind (r_map (\<lambda>i. scalar_data (values ! i)) [1..<kPKeySize sc]) (\<lambda>rest.
            Inr (first @ [char_of (table_no (kId sc))] @ concat rest)))))"

definition MakeStorageKey :: "schema \<Rightarrow> scalar list \<Rightarrow> key result" where
  "MakeStorageKey sc values = row_key sc values"

definition MakeStorageKeys :: "schema \<Rightarrow> scalar list \<Rightarrow> nat list \<Rightarrow> key list result" where
  "MakeStorageKeys sc values columns =
     r_bind (row_key sc values) (\<lambda>k.
       Inr (map (\<lambda>col. k @ [char_of col]) (if columns = [] then non_pkey_columns sc else columns)))"

section \<open>Operations of a table\<close>

record 's storage_adapter =
  sa_Read :: "key \<Rightarrow> ('s, string option) stm"
  sa_Insert :: "key \<Rightarrow> string \<Rightarrow> ('s, bool) stm"
  sa_Update :: "key \<Rightarrow> (string \<Rightarrow> string result) \<Rightarrow> ('s, bool) stm"
  sa_Delete :: "key \<Rightarrow> ('s, bool) stm"

definition stored_column :: "schema \<Rightarrow> string \<Rightarrow> nat \<Rightarrow> scalar result" where
  "stored_column sc v i = MakeScalar (ColumnTypes sc i) (drop (column_offset sc i) (c_mem v))"

definition SelectGrouped :: "'s storage_adapter \<Rightarrow> schema \<Rightarrow> scalar list \<Rightarrow> nat list \<Rightarrow> ('s, scalar list) stm" where
  "SelectGrouped sa sc pkey columns =
     m_bind (m_lift (MakeStorageKey sc pkey)) (\<lambda>k.
       m_bind (sa_Read sa k) (\<lambda>v.
         case v of
           None \<Rightarrow> m_return []
         | Some v \<Rightarrow>
             m_lift (if columns = []
               then r_bind (r_map (stored_column sc v) (non_pkey_columns sc)) (\<lambda>xs. Inr (pkey @ xs))
               else r_map (\<lambda>i. if i < kPKeySize sc then Inr (pkey ! i) else stored_column sc v i) columns)))"

text \<open>The loop over the columns: the values that are there, and whether there is any outside of the key.\<close>

fun read_columns ::
  "'s storage_adapter \<Rightarrow> schema \<Rightarrow> scalar list \<Rightarrow> (nat \<times> key) list \<Rightarrow> ('s, scalar list \<times> bool) stm" where
  "read_columns sa sc pkey [] = m_return ([], False)"
| "read_columns sa sc pkey ((col, k) # cs) =
     (if col < kPKeySize sc
      then m_bind (read_columns sa sc pkey cs) (\<lambda>(xs, found). m_return (pkey ! col # xs, found))
      else m_bind (sa_Read sa k) (\<lambda>v.
        if v = None \<or> v = Some [] then read_columns sa sc pkey cs
        else m_bind (m_lift (MakeScalar (ColumnTypes sc col) (c_mem (the v)))) (\<lambda>x.
          m_bind (read_columns sa sc pkey cs) (\<lambda>(xs, found). m_return (x # xs, True)))))"

definition SelectUngrouped :: "'s storage_adapter \<Rightarrow> schema \<Rightarrow> scalar list \<Rightarrow> nat list \<Rightarrow> ('s, scalar list) stm" where
  "SelectUngrouped sa sc pkey columns =
     m_bind (m_lift (MakeStorageKeys sc pkey columns)) (\<lambda>ks.
       m_bind (read_columns sa sc pkey (zip (if columns = [] then non_pkey_columns sc else columns) ks)) (\<lambda>(xs, found).
         m_return (if \<not> found then [] else if columns = [] then pkey @ xs else xs)))"

definition Select :: "'s storage_adapter \<Rightarrow> schema \<Rightarrow> scalar list \<Rightarrow> string list \<Rightarrow> ('s, scalar list) stm" where
  "Select sa sc pkey columns =
     (if kGroupedColumns sc then SelectGrouped sa sc pkey (map (column_no sc) columns)
      else SelectUngrouped sa sc pkey (map (column_no sc) columns))"

text \<open>\<^verbatim>\<open>std::string::replace\<close>.\<close>

definition string_replace :: "nat \<Rightarrow> nat \<Rightarrow> string \<Rightarrow> string \<Rightarrow> string result" where
  "string_replace pos n new s =
     (if length s < pos then Inl (RuntimeError ''out_of_range'') else Inr (take pos s @ new @ drop (pos + n) s))"

fun replace_columns :: "schema \<Rightarrow> (nat \<times> scalar) list \<Rightarrow> string \<Rightarrow> string result" where
  "replace_columns sc [] stored = Inr stored"
| "replace_columns sc ((c, v) # cvs) stored =
     r_bind (scalar_data v) (\<lambda>b.
       r_bind (string_replace (column_offset sc c) (type_size (scalar_type v)) b stored) (replace_columns sc cvs))"

fun update_columns :: "'s storage_adapter \<Rightarrow> (key \<times> scalar) list \<Rightarrow> bool \<Rightarrow> ('s, bool) stm" where
  "update_columns sa [] ok = m_return ok"
| "update_columns sa ((k, v) # kvs) ok =
     m_bind (sa_Update sa k (\<lambda>_. scalar_data v)) (\<lambda>b. update_columns sa kvs (ok \<and> b))"

definition Update :: "'s storage_adapter \<Rightarrow> schema \<Rightarrow> scalar list \<Rightarrow> string list \<Rightarrow> scalar list \<Rightarrow> ('s, bool) stm" where
  "Update sa sc pkey columns values =
     (let cols = map (column_no sc) columns
      in if length columns \<noteq> length values
         then m_lift (Inl (CheckFailed ''Number of values does not match number of columns''))
         else m_bind (m_lift (r_map (\<lambda>(v, c). ValidateType sc v c) (zip values cols))) (\<lambda>_.
           if kGroupedColumns sc
           then m_bind (m_lift (MakeStorageKey sc pkey)) (\<lambda>k. sa_Update sa k (replace_columns sc (zip cols values)))
           else m_bind (m_lift (MakeStorageKeys sc pkey cols)) (\<lambda>ks. update_columns sa (zip ks values) True)))"

fun insert_columns :: "'s storage_adapter \<Rightarrow> (key \<times> scalar) list \<Rightarrow> bool \<Rightarrow> ('s, bool) stm" where
  "insert_columns sa [] ok = m_return ok"
| "insert_columns sa ((k, v) # kvs) ok =
     m_bind (m_lift (scalar_data v)) (\<lambda>b. m_bind (sa_Insert sa k b) (\<lambda>r. insert_columns sa kvs (ok \<and> r)))"

definition Insert :: "'s storage_adapter \<Rightarrow> schema \<Rightarrow> scalar list \<Rightarrow> ('s, bool) stm" where
  "Insert sa sc values =
     (if length values \<noteq> kNumColumns sc
      then m_lift (Inl (CheckFailed ''Number of values does not match number of columns''))
      else m_bind (m_lift (r_map (\<lambda>i. ValidateType sc (values ! i) i) (non_pkey_columns sc))) (\<lambda>_.
        if kGroupedColumns sc
        then m_bind (m_lift (r_map (\<lambda>i. scalar_data (values ! i)) (non_pkey_columns sc))) (\<lambda>bs.
               m_bind (m_lift (MakeStorageKey sc values)) (\<lambda>k. sa_Insert sa k (concat bs)))
        else m_bind (m_lift (MakeStorageKeys sc values [])) (\<lambda>ks.
               insert_columns sa (zip ks (drop (kPKeySize sc) values)) True)))"

fun delete_storage_keys :: "'s storage_adapter \<Rightarrow> key list \<Rightarrow> bool \<Rightarrow> ('s, bool) stm" where
  "delete_storage_keys sa [] ok = m_return ok"
| "delete_storage_keys sa (k # ks) ok = m_bind (sa_Delete sa k) (\<lambda>b. delete_storage_keys sa ks (ok \<and> b))"

definition Delete :: "'s storage_adapter \<Rightarrow> schema \<Rightarrow> scalar list \<Rightarrow> ('s, bool) stm" where
  "Delete sa sc pkey =
     (if kGroupedColumns sc then m_bind (m_lift (MakeStorageKey sc pkey)) (sa_Delete sa)
      else m_bind (m_lift (MakeStorageKeys sc pkey [])) (\<lambda>ks. delete_storage_keys sa ks True))"

section \<open>Storage adapters\<close>

definition KVStorageAdapter :: "(key \<Rightarrow> metadata result) \<Rightarrow> storage storage_adapter" where
  "KVStorageAdapter metadata_initializer =
     \<lparr>sa_Read = (\<lambda>k st. Inr (map_option rec_value (st k), st)),
      sa_Insert = (\<lambda>k v st. r_bind (metadata_initializer k)
        (\<lambda>m. Inr (True, st(k \<mapsto> SetMetadata m (SetValue v default_record))))),
      sa_Update = (\<lambda>k f st. Inl (RuntimeError ''Update is unimplemented in KVStorageAdapter'')),
      sa_Delete = (\<lambda>k st. Inl (RuntimeError ''Delete is unimplemented in KVStorageAdapter''))\<rparr>"

record txn_adapter =
  ta_txn :: transaction
  ta_key_index :: "(key \<times> nat) list"

fun txn_key_index :: "key_value list \<Rightarrow> nat \<Rightarrow> (key \<times> nat) list \<Rightarrow> (key \<times> nat) list" where
  "txn_key_index [] i ix = ix"
| "txn_key_index (kv # kvs) i ix =
     txn_key_index kvs (Suc i) (if map_of ix (kv_key kv) = None then ix @ [(kv_key kv, i)] else ix)"

definition TxnStorageAdapter :: "transaction \<Rightarrow> txn_adapter" where
  "TxnStorageAdapter txn = \<lparr>ta_txn = txn, ta_key_index = txn_key_index (keys txn) 0 []\<rparr>"

definition CheckIndexSize :: "(txn_adapter, unit) stm" where
  "CheckIndexSize a =
     (if length (ta_key_index a) = length (keys (ta_txn a)) then Inr ((), a)
      else Inl (CheckFailed ''Size of key list in the transaction has changed''))"

definition TxnStorageAdapter_Read :: "key \<Rightarrow> (txn_adapter, string option) stm" where
  "TxnStorageAdapter_Read k = m_bind CheckIndexSize (\<lambda>_ a.
     Inr (map_option (\<lambda>i. ve_value (kv_entry (keys (ta_txn a) ! i))) (map_of (ta_key_index a) k), a))"

definition put_new_value :: "nat \<Rightarrow> string \<Rightarrow> txn_adapter \<Rightarrow> txn_adapter" where
  "put_new_value i v a =
     (let ks = keys (ta_txn a); kv = ks ! i
      in a\<lparr>ta_txn := (ta_txn a)\<lparr>keys := ks[i := kv\<lparr>kv_entry := (kv_entry kv)\<lparr>ve_new_value := v\<rparr>\<rparr>]\<rparr>\<rparr>)"

definition TxnStorageAdapter_Insert :: "key \<Rightarrow> string \<Rightarrow> (txn_adapter, bool) stm" where
  "TxnStorageAdapter_Insert k v = m_bind CheckIndexSize (\<lambda>_ a.
     case map_of (ta_key_index a) k of
       None \<Rightarrow> Inr (False, a)
     | Some i \<Rightarrow>
         if kv_type (keys (ta_txn a) ! i) \<noteq> WRITE then Inr (False, a) else Inr (True, put_new_value i v a))"

definition TxnStorageAdapter_Update :: "key \<Rightarrow> (string \<Rightarrow> string result) \<Rightarrow> (txn_adapter, bool) stm" where
  "TxnStorageAdapter_Update k update_fn = m_bind CheckIndexSize (\<lambda>_ a.
     case map_of (ta_key_index a) k of
       None \<Rightarrow> Inr (False, a)
     | Some i \<Rightarrow>
         let kv = keys (ta_txn a) ! i
         in if kv_type kv \<noteq> WRITE \<or> ve_value (kv_entry kv) = [] then Inr (False, a)
            else r_bind (update_fn (ve_value (kv_entry kv))) (\<lambda>v. Inr (True, put_new_value i v a)))"

text \<open>The entry is swapped to the end of the list and removed; the entries after it move up.\<close>

definition TxnStorageAdapter_Delete :: "key \<Rightarrow> (txn_adapter, bool) stm" where
  "TxnStorageAdapter_Delete k = m_bind CheckIndexSize (\<lambda>_ a.
     case map_of (ta_key_index a) k of
       None \<Rightarrow> Inr (False, a)
     | Some i \<Rightarrow>
         let txn = ta_txn a; ks = take i (keys txn) @ drop (Suc i) (keys txn);
             ix = fold (\<lambda>j. AList.update (kv_key (ks ! j)) j) [i..<length ks] (ta_key_index a)
         in Inr (True, a\<lparr>ta_txn := txn\<lparr>keys := ks, deleted_keys := deleted_keys txn @ [k]\<rparr>,
                         ta_key_index := AList.delete k ix\<rparr>))"

definition txn_storage_adapter :: "txn_adapter storage_adapter" where
  "txn_storage_adapter =
     \<lparr>sa_Read = TxnStorageAdapter_Read, sa_Insert = TxnStorageAdapter_Insert, sa_Update = TxnStorageAdapter_Update,
      sa_Delete = TxnStorageAdapter_Delete\<rparr>"

record key_gen_adapter =
  kg_txn :: transaction
  kg_key_index :: "(key \<times> key_type) list"
  kg_finalized :: bool

definition TxnKeyGenStorageAdapter :: "transaction \<Rightarrow> key_gen_adapter" where
  "TxnKeyGenStorageAdapter txn = \<lparr>kg_txn = txn, kg_key_index = [], kg_finalized = False\<rparr>"

definition NewReadKey :: "key \<Rightarrow> key_gen_adapter \<Rightarrow> key_gen_adapter" where
  "NewReadKey k a =
     (if kg_finalized a then a
      else a\<lparr>kg_key_index := (if map_of (kg_key_index a) k = None then kg_key_index a @ [(k, READ)] else kg_key_index a)\<rparr>)"

definition NewWriteKey :: "key \<Rightarrow> key_gen_adapter \<Rightarrow> key_gen_adapter" where
  "NewWriteKey k a = (if kg_finalized a then a else a\<lparr>kg_key_index := AList.update k WRITE (kg_key_index a)\<rparr>)"

definition key_gen_storage_adapter :: "key_gen_adapter storage_adapter" where
  "key_gen_storage_adapter =
     \<lparr>sa_Read = (\<lambda>k a. Inr (None, NewReadKey k a)), sa_Insert = (\<lambda>k v a. Inr (False, NewWriteKey k a)),
      sa_Update = (\<lambda>k f a. Inr (False, NewWriteKey k a)), sa_Delete = (\<lambda>k a. Inr (False, NewWriteKey k a))\<rparr>"

definition Finialize :: "key_gen_adapter \<Rightarrow> key_gen_adapter" where
  "Finialize a =
     a\<lparr>kg_txn := (kg_txn a)\<lparr>keys := map (\<lambda>(k, ty). \<lparr>kv_key = k, kv_entry = \<lparr>ve_value = [], ve_new_value = [], ve_type = ty,
         ve_metadata = None\<rparr>\<rparr>) (kg_key_index a)\<rparr>, kg_finalized := True\<rparr>"

end
