(* ===== verification/Tpcc_Transactions.thy ===== *)
theory Tpcc_Transactions
  imports Tpcc_Table
begin

text \<open>
  \<^verbatim>\<open>execution/tpcc/transaction.h\<close>, the five transactions of TPC-C (\<^verbatim>\<open>new_order.cpp\<close>, \<^verbatim>\<open>payment.cpp\<close>, \<^verbatim>\<open>order_status.cpp\<close>,
  \<^verbatim>\<open>deliver.cpp\<close>, \<^verbatim>\<open>stock_level.cpp\<close>) and \<^verbatim>\<open>execution/tpcc.cpp\<close>. A transaction is a record of its arguments, of what
  it reads and of what it computes; the error message travels with it.
\<close>

section \<open>The phases of a transaction\<close>

definition SetError :: "string \<Rightarrow> string \<Rightarrow> string" where
  "SetError msg e = (if e = [] then msg else e)"

text \<open>\<open>ok\<close>, the error message and the record.\<close>

type_synonym 'p progress = "bool \<times> string \<times> 'p"

text \<open>A \<^verbatim>\<open>Select\<close> whose results are stored, or reported as missing.\<close>

definition on_found :: "string \<Rightarrow> (scalar list \<Rightarrow> 'p \<Rightarrow> 'p result) \<Rightarrow> ('s, scalar list) stm \<Rightarrow> 'p progress \<Rightarrow> ('s, 'p progress) stm" where
  "on_found msg store sel = (\<lambda>(ok, e, p).
     m_bind sel (\<lambda>res. m_lift (if res \<noteq> [] then r_bind (store res p) (\<lambda>p'. Inr (ok, e, p'))
       else Inr (False, SetError msg e, p))))"

text \<open>A write that must succeed.\<close>

definition must :: "string \<Rightarrow> ('s, bool) stm \<Rightarrow> 'p progress \<Rightarrow> ('s, 'p progress) stm" where
  "must msg wr = (\<lambda>(ok, e, p). m_bind wr (\<lambda>b. m_return (if b then (ok, e, p) else (False, SetError msg e, p))))"

definition TPCCTransaction_Execute ::
  "('p \<Rightarrow> ('s, 'p progress) stm) \<Rightarrow> ('p \<Rightarrow> 'p result) \<Rightarrow> (string \<times> 'p \<Rightarrow> ('s, 'p progress) stm) \<Rightarrow> 'p \<Rightarrow> ('s, bool \<times> string) stm" where
  "TPCCTransaction_Execute rd compute wr p =
     m_bind (rd p) (\<lambda>(ok, e, p1).
       if \<not> ok then m_return (False, e)
       else m_bind (m_lift (compute p1)) (\<lambda>p2.
         m_bind (wr (e, p2)) (\<lambda>(ok, e, p3). m_return (ok, e))))"

text \<open>Signed arithmetic must not overflow.\<close>

definition arith :: "nat \<Rightarrow> int \<Rightarrow> int result" where
  "arith n x = (if fits n x then Inr x else Inl (UndefinedBehaviour ''signed overflow''))"

definition kLinePerOrder :: nat where
  "kLinePerOrder = 10"

section \<open>NewOrder\<close>

record order_line =
  a_id :: int
  a_supply_w_id :: int
  a_item_id :: int
  a_quantity :: int
  ol_amount :: int
  dist_info :: scalar
  s_quantity :: int
  i_price :: int

record new_order_txn =
  no_w_id :: int
  no_d_id :: int
  no_c_id :: int
  no_o_id :: int
  no_datetime :: int
  no_ol :: "order_line list"
  no_i_w_id :: int
  no_w_tax :: int
  no_c_discount :: int
  no_c_last :: scalar
  no_c_credit :: scalar
  no_d_tax :: int
  no_d_next_o_id :: int
  no_new_d_next_o_id :: int
  no_all_local :: int

definition empty_text :: scalar where
  "empty_text = FixedTextScalar 0 []"

definition OrderLineScalar :: "int \<times> int \<times> int \<times> int \<Rightarrow> order_line" where
  "OrderLineScalar l = (case l of (lid, supply, item, quantity) \<Rightarrow>
     \<lparr>a_id = wrap_int 1 lid, a_supply_w_id = wrap_int 4 supply, a_item_id = wrap_int 4 item,
      a_quantity = wrap_int 1 quantity, ol_amount = 0, dist_info = empty_text, s_quantity = 0, i_price = 0\<rparr>)"

definition NewOrderTxn ::
  "int \<Rightarrow> int \<Rightarrow> int \<Rightarrow> int \<Rightarrow> int \<Rightarrow> int \<Rightarrow> (int \<times> int \<times> int \<times> int) list \<Rightarrow> new_order_txn" where
  "NewOrderTxn w_id d_id c_id o_id datetime i_w_id ol =
     \<lparr>no_w_id = wrap_int 4 w_id, no_d_id = wrap_int 1 d_id, no_c_id = wrap_int 4 c_id, no_o_id = wrap_int 4 o_id,
      no_datetime = wrap_int 8 datetime, no_ol = map OrderLineScalar ol, no_i_w_id = wrap_int 4 i_w_id,
      no_w_tax = 0, no_c_discount = 0, no_c_last = empty_text, no_c_credit = empty_text, no_d_tax = 0,
      no_d_next_o_id = 0, no_new_d_next_o_id = 0, no_all_local = 0\<rparr>"

text \<open>The loop over the order lines of \<^verbatim>\<open>Read\<close>; the lines travel as the record.\<close>

definition read_line :: "'s storage_adapter \<Rightarrow> int \<Rightarrow> order_line progress \<Rightarrow> ('s, order_line progress) stm" where
  "read_line sa i_w_id = (\<lambda>(ok, e, l).
     m_bind (on_found ''The item does not exist''
         (\<lambda>res l. r_bind (cast_int32 res 0) (\<lambda>price. Inr (l\<lparr>i_price := price\<rparr>)))
         (Select sa ItemSchema [Int32Scalar i_w_id, Int32Scalar (a_item_id l)] [''PRICE'', ''NAME'', ''DATA'']) (ok, e, l))
       (on_found ''Stock of the item does not exist''
         (\<lambda>res l. r_bind (cast_int16 res 0) (\<lambda>q. r_bind (cast_text res 1) (\<lambda>dist.
            case dist of
              FixedTextScalar w b \<Rightarrow> r_bind (read_bytes 24 (c_mem b)) (\<lambda>info. r_bind (MakeFixedTextScalar 24 info)
                (\<lambda>info. Inr (l\<lparr>s_quantity := q, dist_info := info\<rparr>)))
            | _ \<Rightarrow> Inl (UndefinedBehaviour ''UncheckedCast''))))
         (Select sa StockSchema [Int32Scalar (a_supply_w_id l), Int32Scalar (a_item_id l)] [''QUANTITY'', ''ALL_DIST''])))"

fun read_lines :: "'s storage_adapter \<Rightarrow> int \<Rightarrow> bool \<Rightarrow> string \<Rightarrow> order_line list \<Rightarrow> ('s, order_line list progress) stm" where
  "read_lines sa i_w_id ok e [] = m_return (ok, e, [])"
| "read_lines sa i_w_id ok e (l # ls) =
     m_bind (read_line sa i_w_id (ok, e, l)) (\<lambda>(ok, e, l).
       m_bind (read_lines sa i_w_id ok e ls) (\<lambda>(ok, e, ls). m_return (ok, e, l # ls)))"

definition NewOrder_Read :: "'s storage_adapter \<Rightarrow> new_order_txn \<Rightarrow> ('s, new_order_txn progress) stm" where
  "NewOrder_Read sa p =
     m_bind (on_found ''Warehouse does not exist''
         (\<lambda>res p. r_bind (cast_int32 res 0) (\<lambda>tax. Inr (p\<lparr>no_w_tax := tax\<rparr>)))
         (Select sa WarehouseSchema [Int32Scalar (no_w_id p)] [''TAX'']) (True, [], p)) (\<lambda>pr.
     m_bind (on_found ''The customer does not exist''
         (\<lambda>res p. r_bind (cast_int32 res 0) (\<lambda>disc. r_bind (cast_text res 1) (\<lambda>lst. r_bind (cast_text res 2) (\<lambda>credit.
            Inr (p\<lparr>no_c_discount := disc, no_c_last := lst, no_c_credit := credit\<rparr>)))))
         (Select sa CustomerSchema [Int32Scalar (no_w_id p), Int8Scalar (no_d_id p), Int32Scalar (no_c_id p)]
            [''DISCOUNT'', ''FULL_NAME'', ''CREDIT'']) pr) (\<lambda>pr.
     m_bind (on_found ''The district does not exist''
         (\<lambda>res p. r_bind (cast_int32 res 0) (\<lambda>tax. r_bind (cast_int32 res 1) (\<lambda>next.
            Inr (p\<lparr>no_d_tax := tax, no_d_next_o_id := next\<rparr>))))
         (Select sa DistrictSchema [Int32Scalar (no_w_id p), Int8Scalar (no_d_id p)] [''TAX'', ''NEXT_O_ID'']) pr) (\<lambda>(ok, e, p).
     m_bind (read_lines sa (no_i_w_id p) ok e (no_ol p)) (\<lambda>(ok, e, ls). m_return (ok, e, p\<lparr>no_ol := ls\<rparr>)))))"

definition compute_line :: "order_line \<Rightarrow> order_line result" where
  "compute_line l =
     r_bind (arith 4 (a_quantity l * i_price l)) (\<lambda>amount.
       Inr (l\<lparr>ol_amount := amount,
              s_quantity := wrap_int 2 (if s_quantity l > a_quantity l then s_quantity l - a_quantity l
                                        else s_quantity l - (a_quantity l - 91))\<rparr>))"

definition NewOrder_Compute :: "new_order_txn \<Rightarrow> new_order_txn result" where
  "NewOrder_Compute p =
     r_bind (arith 4 (no_d_next_o_id p + 1)) (\<lambda>next.
       r_bind (r_map compute_line (no_ol p)) (\<lambda>ls.
         Inr (p\<lparr>no_new_d_next_o_id := next, no_ol := ls,
                no_all_local := (if \<forall>l \<in> set (no_ol p). a_supply_w_id l = no_w_id p then 1 else 0)\<rparr>)))"

fun write_lines :: "'s storage_adapter \<Rightarrow> new_order_txn \<Rightarrow> order_line list \<Rightarrow> new_order_txn progress \<Rightarrow> ('s, new_order_txn progress) stm" where
  "write_lines sa p [] pr = m_return pr"
| "write_lines sa p (l # ls) pr =
     m_bind (must ''Cannot update Stock''
         (Update sa StockSchema [Int32Scalar (a_supply_w_id l), Int32Scalar (a_item_id l)] [''QUANTITY''] [Int16Scalar (s_quantity l)]) pr) (\<lambda>pr.
     m_bind (must ''Cannot insert to OrderLine''
         (Insert sa OrderLineSchema [Int32Scalar (no_w_id p), Int8Scalar (no_d_id p), Int32Scalar (no_o_id p), Int8Scalar (a_id l),
            Int32Scalar (a_item_id l), Int32Scalar (a_supply_w_id l), Int64Scalar 0, Int8Scalar (a_quantity l),
            Int32Scalar (ol_amount l), dist_info l]) pr)
       (write_lines sa p ls))"

definition NewOrder_Write :: "'s storage_adapter \<Rightarrow> string \<times> new_order_txn \<Rightarrow> ('s, new_order_txn progress) stm" where
  "NewOrder_Write sa = (\<lambda>(e, p).
     m_bind (must ''Cannot update District''
         (Update sa DistrictSchema [Int32Scalar (no_w_id p), Int8Scalar (no_d_id p)] [''NEXT_O_ID''] [Int32Scalar (no_new_d_next_o_id p)])
         (True, e, p)) (\<lambda>pr.
     m_bind (must ''Cannot insert into Order''
         (Insert sa OrderSchema [Int32Scalar (no_w_id p), Int8Scalar (no_d_id p), Int32Scalar (no_o_id p), Int32Scalar (no_c_id p),
            Int64Scalar (no_datetime p), Int8Scalar 0, MakeInt8Scalar (int (length (no_ol p))), Int8Scalar (no_all_local p)]) pr) (\<lambda>pr.
     m_bind (must ''Cannot insert into NewOrder''
         (Insert sa NewOrderSchema [Int32Scalar (no_w_id p), Int8Scalar (no_d_id p), Int32Scalar (no_o_id p), Int8Scalar 0]) pr)
       (write_lines sa p (no_ol p)))))"

section \<open>Payment\<close>

record payment_txn =
  py_w_id :: int
  py_d_id :: int
  py_c_w_id :: int
  py_c_d_id :: int
  py_c_id :: int
  py_amount :: int
  py_datetime :: int
  py_h_id :: int
  py_w_name :: scalar
  py_d_name :: scalar
  py_c_data :: scalar
  py_w_ytd :: int
  py_d_ytd :: int
  py_c_balance :: int
  py_c_ytd_payment :: int
  py_c_payment_cnt :: int
  py_new_w_ytd :: int
  py_new_d_ytd :: int
  py_new_c_balance :: int
  py_new_c_ytd_payment :: int
  py_new_c_payment_cnt :: int
  py_new_h_data :: scalar

definition PaymentTxn :: "int \<Rightarrow> int \<Rightarrow> int \<Rightarrow> int \<Rightarrow> int \<Rightarrow> int \<Rightarrow> int \<Rightarrow> int \<Rightarrow> payment_txn" where
  "PaymentTxn w_id d_id c_w_id c_d_id c_id amount datetime h_id =
     \<lparr>py_w_id = wrap_int 4 w_id, py_d_id = wrap_int 1 d_id, py_c_w_id = wrap_int 4 c_w_id, py_c_d_id = wrap_int 1 c_d_id,
      py_c_id = wrap_int 4 c_id, py_amount = wrap_int 4 amount, py_datetime = wrap_int 8 datetime, py_h_id = wrap_int 4 h_id,
      py_w_name = empty_text, py_d_name = empty_text, py_c_data = empty_text, py_w_ytd = 0, py_d_ytd = 0,
      py_c_balance = 0, py_c_ytd_payment = 0, py_c_payment_cnt = 0, py_new_w_ytd = 0, py_new_d_ytd = 0,
      py_new_c_balance = 0, py_new_c_ytd_payment = 0, py_new_c_payment_cnt = 0, py_new_h_data = empty_text\<rparr>"

text \<open>Results that are read and never used are only checked for their type.\<close>

definition Payment_Read :: "'s storage_adapter \<Rightarrow> payment_txn \<Rightarrow> ('s, payment_txn progress) stm" where
  "Payment_Read sa p =
     m_bind (on_found ''Warehouse does not exist''
         (\<lambda>res p. r_bind (cast_text res 0) (\<lambda>name. r_bind (cast_text res 1) (\<lambda>_. r_bind (cast_int64 res 2) (\<lambda>ytd.
            Inr (p\<lparr>py_w_name := name, py_w_ytd := ytd\<rparr>)))))
         (Select sa WarehouseSchema [Int32Scalar (py_w_id p)] [''NAME'', ''ADDRESS'', ''YTD'']) (True, [], p)) (\<lambda>pr.
     m_bind (on_found ''District does not exist''
         (\<lambda>res p. r_bind (cast_text res 0) (\<lambda>name. r_bind (cast_text res 1) (\<lambda>_. r_bind (cast_int64 res 2) (\<lambda>ytd.
            Inr (p\<lparr>py_d_name := name, py_d_ytd := ytd\<rparr>)))))
         (Select sa DistrictSchema [Int32Scalar (py_w_id p), Int8Scalar (py_d_id p)] [''NAME'', ''ADDRESS'', ''YTD'']) pr)
     (on_found ''Customer does not exist''
         (\<lambda>res p. r_bind (r_map (cast_text res) [0, 1, 2]) (\<lambda>_. r_bind (cast_int64 res 3) (\<lambda>_. r_bind (cast_text res 4) (\<lambda>_.
            r_bind (cast_int64 res 5) (\<lambda>_. r_bind (cast_int32 res 6) (\<lambda>_. r_bind (cast_int64 res 7) (\<lambda>balance.
            r_bind (cast_int64 res 8) (\<lambda>ytd. r_bind (cast_int16 res 9) (\<lambda>cnt. r_bind (cast_text res 10) (\<lambda>c_data.
            Inr (p\<lparr>py_c_balance := balance, py_c_ytd_payment := ytd, py_c_payment_cnt := cnt, py_c_data := c_data\<rparr>)))))))))))
         (Select sa CustomerSchema [Int32Scalar (py_c_w_id p), Int8Scalar (py_c_d_id p), Int32Scalar (py_c_id p)]
            [''FULL_NAME'', ''ADDRESS'', ''PHONE'', ''SINCE'', ''CREDIT'', ''CREDIT_LIM'', ''DISCOUNT'', ''BALANCE'',
             ''YTD_PAYMENT'', ''PAYMENT_CNT'', ''DATA''])))"

fun buffer_of :: "scalar \<Rightarrow> string" where
  "buffer_of (FixedTextScalar w b) = b"
| "buffer_of _ = []"

text \<open>The history text gets a new buffer and keeps the type \<^verbatim>\<open>FIXED_TEXT<0>\<close> of the empty scalar.\<close>

definition Payment_Compute :: "payment_txn \<Rightarrow> payment_txn result" where
  "Payment_Compute p =
     r_bind (arith 8 (py_w_ytd p + py_amount p)) (\<lambda>w_ytd.
     r_bind (arith 8 (py_d_ytd p + py_amount p)) (\<lambda>d_ytd.
     r_bind (arith 8 (py_c_balance p - py_amount p)) (\<lambda>balance.
     r_bind (arith 8 (py_c_ytd_payment p + py_amount p)) (\<lambda>ytd.
       Inr (p\<lparr>py_new_w_ytd := w_ytd, py_new_d_ytd := d_ytd, py_new_c_balance := balance, py_new_c_ytd_payment := ytd,
              py_new_c_payment_cnt := wrap_int 2 (py_c_payment_cnt p + 1),
              py_new_h_data := FixedTextScalar 0 (buffer_of (py_w_name p) @ ''    '' @ buffer_of (py_d_name p))\<rparr>)))))"

definition Payment_Write :: "'s storage_adapter \<Rightarrow> string \<times> payment_txn \<Rightarrow> ('s, payment_txn progress) stm" where
  "Payment_Write sa = (\<lambda>(e, p).
     m_bind (must ''Cannot update Warehouse''
         (Update sa WarehouseSchema [Int32Scalar (py_w_id p)] [''YTD''] [Int64Scalar (py_new_w_ytd p)]) (True, e, p)) (\<lambda>pr.
     m_bind (must ''Cannot update District''
         (Update sa DistrictSchema [Int32Scalar (py_w_id p), Int8Scalar (py_d_id p)] [''YTD''] [Int64Scalar (py_new_d_ytd p)]) pr) (\<lambda>pr.
     m_bind (must ''Cannot update Customer''
         (Update sa CustomerSchema [Int32Scalar (py_c_w_id p), Int8Scalar (py_c_d_id p), Int32Scalar (py_c_id p)]
            [''BALANCE'', ''YTD_PAYMENT'', ''PAYMENT_CNT'', ''DATA'']
            [Int64Scalar (py_new_c_balance p), Int64Scalar (py_new_c_ytd_payment p), Int16Scalar (py_new_c_payment_cnt p), py_c_data p]) pr) (\<lambda>pr.
     m_bind (Insert sa HistorySchema [Int32Scalar (py_w_id p), Int8Scalar (py_d_id p), Int32Scalar (py_c_id p), Int32Scalar (py_h_id p),
         Int8Scalar (py_c_d_id p), Int32Scalar (py_c_w_id p), Int64Scalar (py_datetime p), Int32Scalar (py_amount p), py_new_h_data p])
       (\<lambda>_. m_return pr)))))"

section \<open>OrderStatus\<close>

record order_status_txn =
  os_w_id :: int
  os_d_id :: int
  os_c_id :: int
  os_o_id :: int

definition OrderStatusTxn :: "int \<Rightarrow> int \<Rightarrow> int \<Rightarrow> int \<Rightarrow> order_status_txn" where
  "OrderStatusTxn w_id d_id c_id o_id =
     \<lparr>os_w_id = wrap_int 4 w_id, os_d_id = wrap_int 1 d_id, os_c_id = wrap_int 4 c_id, os_o_id = wrap_int 4 o_id\<rparr>"

fun m_each :: "('a \<Rightarrow> ('s, 'b) stm) \<Rightarrow> 'a list \<Rightarrow> ('s, 'b list) stm" where
  "m_each f [] = m_return []"
| "m_each f (x # xs) = m_bind (f x) (\<lambda>y. m_bind (m_each f xs) (\<lambda>ys. m_return (y # ys)))"

definition OrderStatus_Read :: "'s storage_adapter \<Rightarrow> order_status_txn \<Rightarrow> ('s, order_status_txn progress) stm" where
  "OrderStatus_Read sa p =
     m_bind (Select sa CustomerSchema [Int32Scalar (os_w_id p), Int8Scalar (os_d_id p), Int32Scalar (os_c_id p)] [''FULL_NAME'', ''BALANCE'']) (\<lambda>_.
     m_bind (Select sa OrderSchema [Int32Scalar (os_w_id p), Int8Scalar (os_d_id p), Int32Scalar (os_o_id p)] [''ENTRY_D'', ''CARRIER_ID'']) (\<lambda>_.
     m_bind (m_each (\<lambda>i. Select sa OrderLineSchema
         [Int32Scalar (os_w_id p), Int8Scalar (os_d_id p), Int32Scalar (os_o_id p), Int8Scalar (int i)]
         [''I_ID'', ''SUPPLY_W_ID'', ''QUANTITY'', ''AMOUNT'', ''DELIVERY_D'']) [1..<kLinePerOrder + 1])
       (\<lambda>_. m_return (True, [], p))))"

section \<open>Deliver\<close>

record deliver_txn =
  dl_w_id :: int
  dl_d_id :: int
  dl_no_o_id :: int
  dl_c_id :: int
  dl_o_carrier :: int
  dl_datetime :: int
  dl_sum_o_amount :: int
  dl_c_balance :: int
  dl_c_delivery_cnt :: int
  dl_new_c_balance :: int
  dl_new_c_delivery_cnt :: int

definition DeliverTxn :: "int \<Rightarrow> int \<Rightarrow> int \<Rightarrow> int \<Rightarrow> int \<Rightarrow> int \<Rightarrow> deliver_txn" where
  "DeliverTxn w_id d_id new_o_id c_id o_carrier datetime =
     \<lparr>dl_w_id = wrap_int 4 w_id, dl_d_id = wrap_int 1 d_id, dl_no_o_id = wrap_int 4 new_o_id, dl_c_id = wrap_int 4 c_id,
      dl_o_carrier = wrap_int 1 o_carrier, dl_datetime = wrap_int 8 datetime, dl_sum_o_amount = 0, dl_c_balance = 0,
      dl_c_delivery_cnt = 0, dl_new_c_balance = 0, dl_new_c_delivery_cnt = 0\<rparr>"

fun sum_amounts :: "'s storage_adapter \<Rightarrow> deliver_txn \<Rightarrow> nat list \<Rightarrow> int \<Rightarrow> ('s, int) stm" where
  "sum_amounts sa p [] sum_amt = m_return sum_amt"
| "sum_amounts sa p (i # is) sum_amt =
     m_bind (Select sa OrderLineSchema [Int32Scalar (dl_w_id p), Int8Scalar (dl_d_id p), Int32Scalar (dl_no_o_id p), Int8Scalar (int i)]
         [''AMOUNT'']) (\<lambda>res.
       m_bind (m_lift (if res = [] then Inr sum_amt else r_bind (cast_int32 res 0) (\<lambda>amount. arith 4 (sum_amt + amount))))
         (sum_amounts sa p is))"

definition Deliver_Read :: "'s storage_adapter \<Rightarrow> deliver_txn \<Rightarrow> ('s, deliver_txn progress) stm" where
  "Deliver_Read sa p =
     m_bind (Select sa OrderSchema [Int32Scalar (dl_w_id p), Int8Scalar (dl_d_id p), Int32Scalar (dl_no_o_id p)] [''C_ID'']) (\<lambda>_.
     m_bind (sum_amounts sa p [1..<kLinePerOrder + 1] 0) (\<lambda>sum_amt.
     m_bind (Select sa CustomerSchema [Int32Scalar (dl_w_id p), Int8Scalar (dl_d_id p), Int32Scalar (dl_c_id p)]
         [''BALANCE'', ''DELIVERY_CNT'']) (\<lambda>res.
       m_lift (if res = [] then Inr (True, [], p\<lparr>dl_sum_o_amount := sum_amt\<rparr>)
         else r_bind (cast_int64 res 0) (\<lambda>balance. r_bind (cast_int16 res 1) (\<lambda>cnt.
           Inr (True, [], p\<lparr>dl_sum_o_amount := sum_amt, dl_c_balance := balance, dl_c_delivery_cnt := cnt\<rparr>)))))))"

definition Deliver_Compute :: "deliver_txn \<Rightarrow> deliver_txn result" where
  "Deliver_Compute p =
     r_bind (arith 8 (dl_c_balance p + dl_sum_o_amount p)) (\<lambda>balance.
       Inr (p\<lparr>dl_new_c_balance := balance, dl_new_c_delivery_cnt := wrap_int 2 (dl_c_delivery_cnt p + 1)\<rparr>))"

definition Deliver_Write :: "'s storage_adapter \<Rightarrow> string \<times> deliver_txn \<Rightarrow> ('s, deliver_txn progress) stm" where
  "Deliver_Write sa = (\<lambda>(e, p).
     m_bind (Delete sa NewOrderSchema [Int32Scalar (dl_w_id p), Int8Scalar (dl_d_id p), Int32Scalar (dl_no_o_id p)]) (\<lambda>_.
     m_bind (Update sa OrderSchema [Int32Scalar (dl_w_id p), Int8Scalar (dl_d_id p), Int32Scalar (dl_no_o_id p)] [''CARRIER_ID'']
         [Int8Scalar (dl_o_carrier p)]) (\<lambda>_.
     m_bind (m_each (\<lambda>i. Update sa OrderLineSchema
         [Int32Scalar (dl_w_id p), Int8Scalar (dl_d_id p), Int32Scalar (dl_no_o_id p), Int8Scalar (int i)]
         [''DELIVERY_D''] [Int64Scalar (dl_datetime p)]) [1..<kLinePerOrder + 1]) (\<lambda>_.
     m_bind (Update sa CustomerSchema [Int32Scalar (dl_w_id p), Int8Scalar (dl_d_id p), Int32Scalar (dl_c_id p)]
         [''BALANCE'', ''DELIVERY_CNT''] [Int64Scalar (dl_new_c_balance p), Int16Scalar (dl_new_c_delivery_cnt p)])
       (\<lambda>_. m_return (True, e, p))))))"

section \<open>StockLevel\<close>

definition kTotalItems :: nat where
  "kTotalItems = 200"

record stock_level_txn =
  sl_w_id :: int
  sl_d_id :: int
  sl_o_id :: int
  sl_i_ids :: "int list"

definition StockLevelTxn :: "int \<Rightarrow> int \<Rightarrow> int \<Rightarrow> int list \<Rightarrow> stock_level_txn" where
  "StockLevelTxn w_id d_id o_id i_ids =
     \<lparr>sl_w_id = wrap_int 4 w_id, sl_d_id = wrap_int 1 d_id, sl_o_id = wrap_int 4 o_id, sl_i_ids = map (wrap_int 4) i_ids\<rparr>"

definition StockLevel_Read :: "'s storage_adapter \<Rightarrow> stock_level_txn \<Rightarrow> ('s, stock_level_txn progress) stm" where
  "StockLevel_Read sa p =
     m_bind (Select sa DistrictSchema [Int32Scalar (sl_w_id p), Int8Scalar (sl_d_id p)] [''NEXT_O_ID'']) (\<lambda>_.
     m_bind (m_lift (arith 4 (sl_o_id p - 20))) (\<lambda>first.
     m_bind (m_each (\<lambda>(i, j). Select sa OrderLineSchema
         [Int32Scalar (sl_w_id p), Int8Scalar (sl_d_id p), Int32Scalar i, Int8Scalar (int j)] [''I_ID''])
         (List.product (map (\<lambda>i. first + int i) [0..<20]) [0..<kLinePerOrder])) (\<lambda>_.
     m_bind (m_each (\<lambda>i. Select sa StockSchema [Int32Scalar (sl_w_id p), Int32Scalar i] [''QUANTITY'']) (sl_i_ids p))
       (\<lambda>_. m_return (True, [], p)))))"

section \<open>\<^verbatim>\<open>TPCCExecution\<close>\<close>

definition stoi :: "string \<Rightarrow> int result" where
  "stoi s = (case strto s of
     None \<Rightarrow> Inl (InvalidArgument ''stoi'')
   | Some (neg, n) \<Rightarrow>
       let v = (if neg then - int n else int n)
       in if - (2 ^ 31) \<le> v \<and> v < 2 ^ 31 then Inr v else Inl (RuntimeError ''out_of_range''))"

definition abort_with :: "string \<Rightarrow> transaction \<Rightarrow> transaction" where
  "abort_with reason txn = txn\<lparr>status := ABORTED, abort_reason := reason\<rparr>"

text \<open>The outcome of \<^verbatim>\<open>Execute\<close> of one of the transactions: the transaction with its writes, or aborted.\<close>

definition finish_tpcc ::
  "sharder \<Rightarrow> string \<Rightarrow> storage \<Rightarrow> ((bool \<times> string) \<times> txn_adapter) result \<Rightarrow> (transaction \<times> storage) result" where
  "finish_tpcc sh name st r =
     r_bind r (\<lambda>((ok, e), a).
       if \<not> ok then Inr (abort_with (name @ '' Txn - '' @ e) (ta_txn a), st)
       else let txn = (ta_txn a)\<lparr>status := COMMITTED\<rparr>
            in map_sum id (\<lambda>st'. (txn, st')) (ApplyWrites txn sh st))"

text \<open>The order lines; \<open>None\<close> when one has the wrong number of arguments.\<close>

fun parse_order_lines :: "string list list \<Rightarrow> (int \<times> int \<times> int \<times> int) list option result" where
  "parse_order_lines [] = Inr (Some [])"
| "parse_order_lines (args # ps) =
     (case args of
        [a, b, c, d] \<Rightarrow>
          r_bind (stoi a) (\<lambda>ol_id. r_bind (stoi b) (\<lambda>supply_w_id. r_bind (stoi c) (\<lambda>item_id. r_bind (stoi d) (\<lambda>quantity.
            r_bind (parse_order_lines ps) (\<lambda>ols. Inr (map_option (Cons (ol_id, supply_w_id, item_id, quantity)) ols))))))
      | _ \<Rightarrow> Inr None)"

definition execute_new_order :: "sharder \<Rightarrow> string list list \<Rightarrow> transaction \<Rightarrow> storage \<Rightarrow> (transaction \<times> storage) result" where
  "execute_new_order sh procs txn st =
     (let args = procs ! 0
      in if length args \<noteq> 7 \<or> length procs \<noteq> 11 then Inr (abort_with ''NewOrder Txn - Invalid number of arguments'' txn, st)
         else r_bind (r_map stoi (map (nth args) [1, 2, 3, 4])) (\<lambda>xs.
           r_bind (stoll (args ! 5)) (\<lambda>datetime. r_bind (stoll (args ! 6)) (\<lambda>w_i_id.
             r_bind (parse_order_lines (take kLinePerOrder (drop 1 procs))) (\<lambda>ols.
               case ols of
                 None \<Rightarrow> Inr (abort_with ''NewOrder Txn - Invalid number of arguments for order line'' txn, st)
               | Some ol \<Rightarrow>
                   finish_tpcc sh ''NewOrder'' st
                     (TPCCTransaction_Execute (NewOrder_Read txn_storage_adapter) NewOrder_Compute (NewOrder_Write txn_storage_adapter)
                        (NewOrderTxn (xs ! 0) (xs ! 1) (xs ! 2) (xs ! 3) datetime w_i_id ol) (TxnStorageAdapter txn)))))))"

definition execute_payment :: "sharder \<Rightarrow> string list list \<Rightarrow> transaction \<Rightarrow> storage \<Rightarrow> (transaction \<times> storage) result" where
  "execute_payment sh procs txn st =
     (let args = procs ! 0
      in if length args \<noteq> 9 then Inr (abort_with ''Payment Txn - Invalid number of arguments'' txn, st)
         else r_bind (r_map stoi (map (nth args) [1, 2, 3, 4, 5])) (\<lambda>xs.
           r_bind (stoll (args ! 6)) (\<lambda>amount. r_bind (stoll (args ! 7)) (\<lambda>datetime. r_bind (stoi (args ! 8)) (\<lambda>h_id.
             finish_tpcc sh ''Payment'' st
               (TPCCTransaction_Execute (Payment_Read txn_storage_adapter) Payment_Compute (Payment_Write txn_storage_adapter)
                  (PaymentTxn (xs ! 0) (xs ! 1) (xs ! 2) (xs ! 3) (xs ! 4) amount datetime h_id) (TxnStorageAdapter txn)))))))"

definition execute_order_status :: "sharder \<Rightarrow> string list list \<Rightarrow> transaction \<Rightarrow> storage \<Rightarrow> (transaction \<times> storage) result" where
  "execute_order_status sh procs txn st =
     (let args = procs ! 0
      in if length args \<noteq> 5 then Inr (abort_with ''OrderStatus Txn - Invalid number of arguments'' txn, st)
         else r_bind (r_map stoi (map (nth args) [1, 2, 3, 4])) (\<lambda>xs.
           finish_tpcc sh ''OrderStatus'' st
             (TPCCTransaction_Execute (OrderStatus_Read txn_storage_adapter) Inr (\<lambda>(e, p). m_return (True, e, p))
                (OrderStatusTxn (xs ! 0) (xs ! 1) (xs ! 2) (xs ! 3)) (TxnStorageAdapter txn))))"

definition execute_deliver :: "sharder \<Rightarrow> string list list \<Rightarrow> transaction \<Rightarrow> storage \<Rightarrow> (transaction \<times> storage) result" where
  "execute_deliver sh procs txn st =
     (let args = procs ! 0
      in if length args \<noteq> 7 then Inr (abort_with ''Deliver Txn - Invalid number of arguments'' txn, st)
         else r_bind (r_map stoi (map (nth args) [1, 2, 3, 4, 5])) (\<lambda>xs. r_bind (stoll (args ! 6)) (\<lambda>datetime.
           finish_tpcc sh ''Deliver'' st
             (TPCCTransaction_Execute (Deliver_Read txn_storage_adapter) Deliver_Compute (Deliver_Write txn_storage_adapter)
                (DeliverTxn (xs ! 0) (xs ! 1) (xs ! 2) (xs ! 3) (xs ! 4) datetime) (TxnStorageAdapter txn)))))"

definition execute_stock_level :: "sharder \<Rightarrow> string list list \<Rightarrow> transaction \<Rightarrow> storage \<Rightarrow> (transaction \<times> storage) result" where
  "execute_stock_level sh procs txn st =
     (let args = procs ! 0
      in if length args \<noteq> 4 \<or> length procs \<noteq> 2 then Inr (abort_with ''StockLevel Txn - Invalid number of arguments'' txn, st)
         else r_bind (r_map stoi (map (nth args) [1, 2, 3])) (\<lambda>xs.
           if length (procs ! 1) \<noteq> kTotalItems then Inr (abort_with ''StockLevel Txn - Invalid number of items'' txn, st)
           else r_bind (r_map stoi (procs ! 1)) (\<lambda>i_ids.
             finish_tpcc sh ''StockLevel'' st
               (TPCCTransaction_Execute (StockLevel_Read txn_storage_adapter) Inr (\<lambda>(e, p). m_return (True, e, p))
                  (StockLevelTxn (xs ! 0) (xs ! 1) (xs ! 2) i_ids) (TxnStorageAdapter txn)))))"

definition TPCCExecution_Execute :: "sharder \<Rightarrow> transaction \<Rightarrow> storage \<Rightarrow> (transaction \<times> storage) result" where
  "TPCCExecution_Execute sh txn st =
     (let procs = (case program txn of Code ps \<Rightarrow> ps | _ \<Rightarrow> [])
      in if procs = [] \<or> procs ! 0 = [] then Inr (abort_with ''Invalid code'' txn, st)
         else let txn_name = procs ! 0 ! 0
              in if txn_name = ''new_order'' then execute_new_order sh procs txn st
                 else if txn_name = ''payment'' then execute_payment sh procs txn st
                 else if txn_name = ''order_status'' then execute_order_status sh procs txn st
                 else if txn_name = ''deliver'' then execute_deliver sh procs txn st
                 else if txn_name = ''stock_level'' then execute_stock_level sh procs txn st
                 else Inr (abort_with ''Unknown procedure name'' txn, st))"

end
