(* ===== verification/Tpcc_Rows.thy ===== *)
theory Tpcc_Rows
  imports Tpcc_Table
begin

text \<open>
  What the tables of \<open>Tpcc_Table\<close> guarantee on top of a storage adapter. Storage keys identify table, row and column.
  The locales \<open>row_store\<close>, \<open>row_writer\<close> and \<open>row_updater\<close> state what a table relies on: reads see the contents, and
  writes change the target, the state of the store after the transaction, at one key.
\<close>

section \<open>Schemas\<close>

definition tpcc_schemas :: "schema list" where
  "tpcc_schemas = [WarehouseSchema, DistrictSchema, CustomerSchema, HistorySchema, NewOrderSchema, OrderSchema,
     OrderLineSchema, ItemSchema, StockSchema]"

definition schema_ok :: "schema \<Rightarrow> bool" where
  "schema_ok sc \<longleftrightarrow> 0 < kPKeySize sc \<and> kPKeySize sc < kNumColumns sc \<and> kNumColumns sc < 256 \<and>
     ColumnTypes sc 0 = INT32 \<and> distinct (map fst (Columns sc)) \<and>
     list_all (\<lambda>i. 0 < type_size (ColumnTypes sc i)) [0..<kNumColumns sc]"

lemma tpcc_schemas_ok: "sc \<in> set tpcc_schemas \<Longrightarrow> schema_ok sc"
proof -
  have "list_all schema_ok tpcc_schemas" by code_simp
  then show "sc \<in> set tpcc_schemas \<Longrightarrow> schema_ok sc" by (simp add: list_all_iff)
qed

lemma tpcc_schemas_id:
  assumes "sc \<in> set tpcc_schemas" "sc' \<in> set tpcc_schemas" "kId sc = kId sc'"
  shows "sc = sc'"
proof -
  have "distinct (map kId tpcc_schemas)" by code_simp
  with assms show ?thesis by (auto dest: inj_onD simp: distinct_map)
qed

lemma schema_okD:
  assumes "schema_ok sc"
  shows "0 < kPKeySize sc" "kPKeySize sc < kNumColumns sc" "kNumColumns sc < 256" "ColumnTypes sc 0 = INT32"
    "i < kNumColumns sc \<Longrightarrow> 0 < type_size (ColumnTypes sc i)"
  using assms by (auto simp: schema_ok_def list_all_iff)

lemma column_no_less: "c \<in> fst ` set (Columns sc) \<Longrightarrow> column_no sc c < kNumColumns sc"
proof -
  assume "c \<in> fst ` set (Columns sc)"
  then have "takeWhile (\<lambda>x. fst x \<noteq> c) (Columns sc) \<noteq> Columns sc" by (auto simp: takeWhile_eq_all_conv)
  then show ?thesis
    by (metis column_no_def kNumColumns_def length_takeWhile_le le_neq_implies_less takeWhile_eq_take take_all_iff order_refl)
qed

section \<open>Rows and their keys\<close>

text \<open>The first \<open>n\<close> values are well-formed and have the types of their columns.\<close>

definition typed :: "schema \<Rightarrow> nat \<Rightarrow> scalar list \<Rightarrow> bool" where
  "typed sc n values \<longleftrightarrow> n \<le> length values \<and>
     list_all (\<lambda>i. scalar_ok (values ! i) \<and> scalar_type (values ! i) = ColumnTypes sc i) [0..<n]"

abbreviation pkey_ok :: "schema \<Rightarrow> scalar list \<Rightarrow> bool" where
  "pkey_ok sc p \<equiv> typed sc (kPKeySize sc) p"

definition row_ok :: "schema \<Rightarrow> scalar list \<Rightarrow> bool" where
  "row_ok sc values \<longleftrightarrow> length values = kNumColumns sc \<and> typed sc (kNumColumns sc) values"

lemma typedD:
  assumes "typed sc n values" "i < n"
  shows "scalar_ok (values ! i)" "scalar_type (values ! i) = ColumnTypes sc i" "n \<le> length values"
    "scalar_data (values ! i) = Inr (scalar_bytes (values ! i))"
    "length (scalar_bytes (values ! i)) = type_size (ColumnTypes sc i)"
    "ValidateType sc (values ! i) i = Inr ()"
proof -
  show 1: "scalar_ok (values ! i)" "scalar_type (values ! i) = ColumnTypes sc i" "n \<le> length values"
    using assms by (auto simp: typed_def list_all_iff)
  from scalar_data_ok [OF 1(1)] show "scalar_data (values ! i) = Inr (scalar_bytes (values ! i))"
    "length (scalar_bytes (values ! i)) = type_size (ColumnTypes sc i)" by (simp_all add: 1(2))
  show "ValidateType sc (values ! i) i = Inr ()" by (cases "ColumnTypes sc i") (simp_all add: ValidateType_def 1(2))
qed

lemma row_okD: "row_ok sc values \<Longrightarrow> schema_ok sc \<Longrightarrow> pkey_ok sc values" "row_ok sc values \<Longrightarrow> typed sc (kNumColumns sc) values"
  by (auto simp: row_ok_def typed_def list_all_iff dest: schema_okD(2))

definition row_prefix :: "schema \<Rightarrow> scalar list \<Rightarrow> string" where
  "row_prefix sc p = scalar_bytes (p ! 0) @ [char_of (table_no (kId sc))] @
     concat (map (\<lambda>i. scalar_bytes (p ! i)) [1..<kPKeySize sc])"

lemma row_key_eq:
  assumes "schema_ok sc" "pkey_ok sc p"
  shows "row_key sc p = Inr (row_prefix sc p)"
proof -
  note T = typedD [OF assms(2)]
  have 1: "r_map (\<lambda>i. ValidateType sc (p ! i) i) [0..<kPKeySize sc] = Inr (map (\<lambda>_. ()) [0..<kPKeySize sc])"
    by (rule r_map_Inr) (use T(6) in simp)
  have 2: "r_map (\<lambda>i. scalar_data (p ! i)) [1..<kPKeySize sc] = Inr (map (\<lambda>i. scalar_bytes (p ! i)) [1..<kPKeySize sc])"
    by (rule r_map_Inr) (use T(4) in simp)
  show ?thesis
    using T(3,4) [OF schema_okD(1) [OF assms(1)]] unfolding row_key_def 1 2 by (simp add: row_prefix_def)
qed

lemma row_prefix_take: "schema_ok sc \<Longrightarrow> row_prefix sc (take (kPKeySize sc) values) = row_prefix sc values"
  using schema_okD(1) [of sc] by (auto simp: row_prefix_def intro!: arg_cong [where f = concat] map_cong)

lemma typed_take: "typed sc n values \<Longrightarrow> typed sc n (take n values)"
  by (auto simp: typed_def list_all_iff)

text \<open>All storage keys of a row.\<close>

definition storage_keys :: "schema \<Rightarrow> scalar list \<Rightarrow> key set" where
  "storage_keys sc p = (if kGroupedColumns sc then {row_prefix sc p}
     else (\<lambda>i. row_prefix sc p @ [char_of i]) ` {0..<kNumColumns sc})"

lemma concat_map_eq:
  assumes "concat (map f xs) @ as = concat (map g xs) @ bs" "\<And>x. x \<in> set xs \<Longrightarrow> length (f x) = length (g x)"
  shows "\<forall>x \<in> set xs. f x = g x"
  using assms by (induction xs) auto

lemma char_of_inject: "i < 256 \<Longrightarrow> j < 256 \<Longrightarrow> (char_of (i::nat) :: char) = char_of j \<longleftrightarrow> i = j"
  by (metis mod_less of_char_of)

lemma table_no_inject: "table_no a = table_no b \<longleftrightarrow> a = b" and table_no_less: "table_no a < 256"
  by (cases a; cases b; simp)+

lemma row_prefix_inject:
  assumes "sc \<in> set tpcc_schemas" "sc' \<in> set tpcc_schemas" "pkey_ok sc p" "pkey_ok sc' p'"
    and "row_prefix sc p @ as = row_prefix sc' p' @ bs"
  shows "sc = sc' \<and> take (kPKeySize sc) p = take (kPKeySize sc) p'"
proof -
  note ok = tpcc_schemas_ok [OF assms(1)] tpcc_schemas_ok [OF assms(2)]
  note T = typedD [OF assms(3)] and T' = typedD [OF assms(4)]
  have 4: "length (scalar_bytes (p ! 0)) = 4" "length (scalar_bytes (p' ! 0)) = 4"
    using T(5) [OF schema_okD(1) [OF ok(1)]] T'(5) [OF schema_okD(1) [OF ok(2)]]
    by (simp_all add: schema_okD(4) [OF ok(1)] schema_okD(4) [OF ok(2)])
  from assms(5) 4 have first: "scalar_bytes (p ! 0) = scalar_bytes (p' ! 0)"
    and tab: "(char_of (table_no (kId sc)) :: char) = char_of (table_no (kId sc'))"
    and rest: "concat (map (\<lambda>i. scalar_bytes (p ! i)) [1..<kPKeySize sc]) @ as =
      concat (map (\<lambda>i. scalar_bytes (p' ! i)) [1..<kPKeySize sc']) @ bs"
    by (simp_all add: row_prefix_def)
  from tab have sc: "sc = sc'"
    using tpcc_schemas_id [OF assms(1,2)] by (simp add: char_of_inject table_no_less table_no_inject)
  have "\<forall>i \<in> set [1..<kPKeySize sc]. scalar_bytes (p ! i) = scalar_bytes (p' ! i)"
    by (rule concat_map_eq [OF rest [folded sc]]) (use T(5) T'(5) sc in simp)
  with first have "scalar_bytes (p ! i) = scalar_bytes (p' ! i)" if "i < kPKeySize sc" for i
    using that by (cases "i = 0") auto
  then have "p ! i = p' ! i" if "i < kPKeySize sc" for i
    using that T(1,2) T'(1,2) sc by (auto intro: scalar_bytes_inject)
  moreover have "kPKeySize sc \<le> length p" "kPKeySize sc \<le> length p'"
    using assms(3,4) sc by (auto simp: typed_def)
  ultimately show ?thesis using sc by (auto intro: nth_equalityI)
qed

lemma storage_keys_prefix: "k \<in> storage_keys sc p \<Longrightarrow> \<exists>as. k = row_prefix sc p @ as"
  by (auto simp: storage_keys_def split: if_splits)

lemma storage_keys_disjoint:
  assumes "sc \<in> set tpcc_schemas" "sc' \<in> set tpcc_schemas" "pkey_ok sc p" "pkey_ok sc' p'"
    and "k \<in> storage_keys sc p" "k \<in> storage_keys sc' p'"
  shows "sc = sc' \<and> take (kPKeySize sc) p = take (kPKeySize sc) p'"
  using row_prefix_inject [OF assms(1-4)] storage_keys_prefix [OF assms(5)] storage_keys_prefix [OF assms(6)] by blast

section \<open>Reading\<close>

definition row_bytes :: "schema \<Rightarrow> scalar list \<Rightarrow> string" where
  "row_bytes sc values = concat (map (\<lambda>i. scalar_bytes (values ! i)) (non_pkey_columns sc))"

text \<open>The columns \<open>cs\<close> of the row are in the map \<open>m\<close>; a grouped row is there as a whole.\<close>

definition row_in :: "schema \<Rightarrow> scalar list \<Rightarrow> nat set \<Rightarrow> (key \<rightharpoonup> string) \<Rightarrow> bool" where
  "row_in sc values cs m \<longleftrightarrow>
     (if kGroupedColumns sc then m (row_prefix sc values) = Some (row_bytes sc values)
      else \<forall>i \<in> cs. kPKeySize sc \<le> i \<longrightarrow> m (row_prefix sc values @ [char_of i]) = Some (scalar_bytes (values ! i)))"

lemma row_bytes_drop:
  assumes "row_ok sc values" "kPKeySize sc \<le> i" "i < kNumColumns sc"
  shows "\<exists>rest. drop (column_offset sc i) (c_mem (row_bytes sc values)) = scalar_bytes (values ! i) @ rest"
proof -
  note T = typedD [OF row_okD(2) [OF assms(1)]]
  let ?b = "\<lambda>i. scalar_bytes (values ! i)"
  have up: "non_pkey_columns sc = [kPKeySize sc..<i] @ i # [Suc i..<kNumColumns sc]"
    unfolding non_pkey_columns_def upt_split [OF assms(2) less_imp_le [OF assms(3)]] using assms(3) by (simp add: upt_conv_Cons)
  have "map length (map ?b [kPKeySize sc..<i]) = map (type_size \<circ> ColumnTypes sc) [kPKeySize sc..<i]"
    using T(5) assms(3) by simp
  then have "length (concat (map ?b [kPKeySize sc..<i])) = column_offset sc i"
    unfolding length_concat column_offset_def by (rule arg_cong [where f = sum_list])
  then have "drop (column_offset sc i) (c_mem (row_bytes sc values)) =
      ?b i @ concat (map ?b [Suc i..<kNumColumns sc]) @ [CHR 0x00]"
    by (simp add: row_bytes_def up c_mem_def)
  then show ?thesis by blast
qed

lemma stored_column_row:
  assumes "row_ok sc values" "kPKeySize sc \<le> i" "i < kNumColumns sc"
  shows "stored_column sc (row_bytes sc values) i = Inr (values ! i)"
proof -
  note T = typedD [OF row_okD(2) [OF assms(1)] assms(3)]
  obtain rest where "drop (column_offset sc i) (c_mem (row_bytes sc values)) = scalar_bytes (values ! i) @ rest"
    using row_bytes_drop [OF assms] by blast
  with MakeScalar_bytes [OF T(1), of rest] show ?thesis unfolding T(2) by (simp add: stored_column_def)
qed

locale row_store =
  fixes sa :: "'s storage_adapter" and inv :: "'s \<Rightarrow> bool" and content :: "'s \<Rightarrow> key \<rightharpoonup> string"
  assumes read: "inv s \<Longrightarrow> sa_Read sa k s = Inr (content s k, s)"
begin

lemma read_columns_row:
  assumes "inv s" "schema_ok sc" "row_ok sc values" "kPKeySize sc \<le> length pkey" "take (kPKeySize sc) pkey = take (kPKeySize sc) values"
    and "\<forall>i \<in> set cols. i < kNumColumns sc"
    and "\<forall>i \<in> set cols. kPKeySize sc \<le> i \<longrightarrow> content s (f i) = Some (scalar_bytes (values ! i))"
  shows "read_columns sa sc pkey (zip cols (map f cols)) s =
    Inr ((map (nth values) cols, \<exists>i \<in> set cols. kPKeySize sc \<le> i), s)"
  using assms(6,7)
proof (induction cols)
  case (Cons i cols)
  then have IH: "read_columns sa sc pkey (zip cols (map f cols)) s =
    Inr ((map (nth values) cols, \<exists>i \<in> set cols. kPKeySize sc \<le> i), s)" by simp
  show ?case
  proof (cases "i < kPKeySize sc")
    case True
    then have "pkey ! i = values ! i" using assms(5) by (metis nth_take)
    with True IH show ?thesis by (auto simp: m_bind_def)
  next
    case False
    then have i: "kPKeySize sc \<le> i" "i < kNumColumns sc" "content s (f i) = Some (scalar_bytes (values ! i))"
      using Cons.prems by auto
    note T = typedD [OF row_okD(2) [OF assms(3)] i(2)]
    have "scalar_bytes (values ! i) \<noteq> []" using T(5) schema_okD(5) [OF assms(2) i(2)] by auto
    moreover have "MakeScalar (ColumnTypes sc i) (c_mem (scalar_bytes (values ! i))) = Inr (values ! i)"
      using MakeScalar_bytes [OF T(1)] by (simp add: T(2) c_mem_def)
    ultimately show ?thesis using False i(3) IH read [OF assms(1), of "f i"] by (auto simp: m_bind_def)
  qed
qed simp

lemma Select_row:
  assumes "inv s" "schema_ok sc" "row_ok sc values" "pkey_ok sc pkey" "take (kPKeySize sc) pkey = take (kPKeySize sc) values"
    and "row_in sc values (column_no sc ` set cols) (content s)" "set cols \<subseteq> fst ` set (Columns sc)"
    and "\<exists>c \<in> set cols. kPKeySize sc \<le> column_no sc c"
  shows "Select sa sc pkey cols s = Inr (map (\<lambda>c. values ! column_no sc c) cols, s)"
proof -
  let ?cols = "map (column_no sc) cols"
  have less: "\<forall>i \<in> set ?cols. i < kNumColumns sc" using assms(7) column_no_less by auto
  have ne: "cols \<noteq> []" using assms(8) by auto
  have key: "row_key sc pkey = Inr (row_prefix sc values)"
    using row_key_eq [OF assms(2,4)] row_prefix_take [OF assms(2), of pkey] row_prefix_take [OF assms(2), of "values"] assms(5) by simp
  show ?thesis
  proof (cases "kGroupedColumns sc")
    case True
    have "r_map (\<lambda>i. if i < kPKeySize sc then Inr (pkey ! i) else stored_column sc (row_bytes sc values) i) ?cols =
      Inr (map (nth values) ?cols)"
    proof (rule r_map_Inr)
      fix i
      assume "i \<in> set ?cols"
      then have "i < kNumColumns sc" using less by blast
      then show "(if i < kPKeySize sc then Inr (pkey ! i) else stored_column sc (row_bytes sc values) i) = Inr (values ! i)"
        using stored_column_row [OF assms(3), of i] assms(5) by (auto dest: arg_cong [where f = "\<lambda>xs. xs ! i"])
    qed
    then show ?thesis
      using True ne key assms(6) read [OF assms(1)]
      by (simp add: Select_def SelectGrouped_def MakeStorageKey_def m_bind_def row_in_def comp_def)
  next
    case False
    have c: "\<forall>i \<in> set ?cols. kPKeySize sc \<le> i \<longrightarrow> content s (row_prefix sc values @ [char_of i]) = Some (scalar_bytes (values ! i))"
      using assms(6) False by (auto simp: row_in_def)
    have "kPKeySize sc \<le> length pkey" using assms(4) by (simp add: typed_def)
    note R = read_columns_row [OF assms(1-3) this assms(5) less c]
    have "\<exists>i \<in> set ?cols. kPKeySize sc \<le> i" using assms(8) by simp
    with R ne key False show ?thesis
      by (simp add: Select_def SelectUngrouped_def MakeStorageKeys_def m_bind_def comp_def)
  qed
qed

end

section \<open>Writing\<close>

text \<open>The part of the storage that an inserted row occupies.\<close>

definition row_image :: "schema \<Rightarrow> scalar list \<Rightarrow> key \<rightharpoonup> string" where
  "row_image sc values = (if kGroupedColumns sc then [row_prefix sc values \<mapsto> row_bytes sc values]
     else map_of (map (\<lambda>i. (row_prefix sc values @ [char_of i], scalar_bytes (values ! i))) (non_pkey_columns sc)))"

lemma row_image_in: "schema_ok sc \<Longrightarrow> row_ok sc values \<Longrightarrow> row_in sc values {0..<kNumColumns sc} (m ++ row_image sc values)"
proof -
  assume ok: "schema_ok sc" "row_ok sc values"
  have inj: "inj_on (\<lambda>i. row_prefix sc values @ [char_of i]) (set (non_pkey_columns sc))"
    using schema_okD(3) [OF ok(1)] by (intro inj_onI) (auto simp: non_pkey_columns_def char_of_inject)
  have "map_of (map (\<lambda>i. (row_prefix sc values @ [char_of i], scalar_bytes (values ! i))) (non_pkey_columns sc))
      (row_prefix sc values @ [char_of i]) = Some (scalar_bytes (values ! i))" if "i \<in> set (non_pkey_columns sc)" for i
    using inj that by (intro map_of_is_SomeI) (auto simp: distinct_map inj_on_def non_pkey_columns_def)
  then show ?thesis by (auto simp: row_in_def row_image_def map_add_def non_pkey_columns_def)
qed

lemma dom_row_image: "dom (row_image sc values) \<subseteq> storage_keys sc values"
  by (auto simp: row_image_def storage_keys_def dom_map_of_conv_image_fst non_pkey_columns_def)

locale row_writer = row_store sa inv content
  for sa :: "'s storage_adapter" and inv :: "'s \<Rightarrow> bool" and content :: "'s \<Rightarrow> key \<rightharpoonup> string" +
  fixes target :: "'s \<Rightarrow> key \<rightharpoonup> string" and writable :: "'s \<Rightarrow> key \<Rightarrow> bool"
  assumes insert: "inv s \<Longrightarrow> writable s k \<Longrightarrow>
    \<exists>s'. sa_Insert sa k v s = Inr (True, s') \<and> inv s' \<and> target s' = (target s)(k \<mapsto> v) \<and> writable s' = writable s"
begin

lemma insert_columns_ok:
  assumes "inv s" "\<forall>(k, v) \<in> set kvs. writable s k \<and> scalar_data v = Inr (b v)" "distinct (map fst kvs)"
  shows "\<exists>s'. insert_columns sa kvs ok s = Inr (ok, s') \<and> inv s' \<and>
    target s' = (target s) ++ map_of (map (\<lambda>(k, v). (k, b v)) kvs) \<and> writable s' = writable s"
  using assms
proof (induction kvs arbitrary: s)
  case (Cons kv kvs)
  obtain k v where kv: "kv = (k, v)" by (cases kv)
  from Cons.prems kv insert [of s k "b v"] obtain s1 where
    s1: "sa_Insert sa k (b v) s = Inr (True, s1)" "inv s1" "target s1 = (target s)(k \<mapsto> b v)" "writable s1 = writable s" by auto
  from Cons.IH [OF s1(2)] Cons.prems s1(4) obtain s' where
    s': "insert_columns sa kvs ok s1 = Inr (ok, s')" "inv s'"
      "target s' = (target s1) ++ map_of (map (\<lambda>(k, v). (k, b v)) kvs)" "writable s' = writable s" by auto
  have "k \<notin> fst ` set kvs" using Cons.prems(3) kv by simp
  then have "k \<notin> dom (map_of (map (\<lambda>(k, v). (k, b v)) kvs))" by (auto simp: dom_map_of_conv_image_fst case_prod_beta image_image)
  then have "target s' = (target s) ++ map_of (map (\<lambda>(k, v). (k, b v)) (kv # kvs))"
    using s'(3) s1(3) by (simp add: kv map_add_upd_left)
  moreover have "insert_columns sa (kv # kvs) ok s = Inr (ok, s')"
    using s1(1) s'(1) Cons.prems(2) by (simp add: kv m_bind_def)
  ultimately show ?case using s'(2,4) by blast
qed simp

lemma Insert_grouped:
  assumes "inv s" "schema_ok sc" "kGroupedColumns sc" "pkey_ok sc values" "length values = kNumColumns sc"
    and "\<And>i. i \<in> set (non_pkey_columns sc) \<Longrightarrow> ValidateType sc (values ! i) i = Inr () \<and> scalar_data (values ! i) = Inr (b i)"
    and "writable s (row_prefix sc values)"
  shows "\<exists>s'. Insert sa sc values s = Inr (True, s') \<and> inv s' \<and>
    target s' = (target s)(row_prefix sc values \<mapsto> concat (map b (non_pkey_columns sc))) \<and> writable s' = writable s"
proof -
  note key = row_key_eq [OF assms(2,4)]
  have val: "r_map (\<lambda>i. ValidateType sc (values ! i) i) (non_pkey_columns sc) = Inr (map (\<lambda>_. ()) (non_pkey_columns sc))"
    by (rule r_map_Inr) (use assms(6) in blast)
  have bs: "r_map (\<lambda>i. scalar_data (values ! i)) (non_pkey_columns sc) = Inr (map b (non_pkey_columns sc))"
    by (rule r_map_Inr) (use assms(6) in blast)
  from insert [OF assms(1,7), of "concat (map b (non_pkey_columns sc))"] assms(3) show ?thesis
    unfolding Insert_def m_bind_def val bs by (simp add: assms(5) key MakeStorageKey_def)
qed

lemma Insert_row:
  assumes "inv s" "schema_ok sc" "row_ok sc values" "\<forall>k \<in> storage_keys sc values. writable s k"
  shows "\<exists>s'. Insert sa sc values s = Inr (True, s') \<and> inv s' \<and> target s' = target s ++ row_image sc values \<and> writable s' = writable s"
proof -
  note T = typedD [OF row_okD(2) [OF assms(3)]] and key = row_key_eq [OF assms(2) row_okD(1) [OF assms(3,2)]]
  have len: "length values = kNumColumns sc" using assms(3) by (simp add: row_ok_def)
  have val: "r_map (\<lambda>i. ValidateType sc (values ! i) i) (non_pkey_columns sc) = Inr (map (\<lambda>_. ()) (non_pkey_columns sc))"
    by (rule r_map_Inr) (use T(6) in \<open>simp add: non_pkey_columns_def\<close>)
  show ?thesis
  proof (cases "kGroupedColumns sc")
    case True
    have bs: "r_map (\<lambda>i. scalar_data (values ! i)) (non_pkey_columns sc) = Inr (map (\<lambda>i. scalar_bytes (values ! i)) (non_pkey_columns sc))"
      by (rule r_map_Inr) (use T(4) in \<open>simp add: non_pkey_columns_def\<close>)
    have "writable s (row_prefix sc values)" using assms(4) True by (simp add: storage_keys_def)
    from insert [OF assms(1) this, of "row_bytes sc values"] True show ?thesis
      unfolding Insert_def m_bind_def val bs
      by (simp add: len key MakeStorageKey_def row_image_def row_bytes_def map_add_upd)
  next
    case False
    let ?ks = "map (\<lambda>i. row_prefix sc values @ [char_of i]) (non_pkey_columns sc)"
    have d: "drop (kPKeySize sc) values = map (nth values) (non_pkey_columns sc)"
      by (rule nth_equalityI) (simp_all add: non_pkey_columns_def len)
    have z: "zip ?ks (drop (kPKeySize sc) values) = map (\<lambda>i. (row_prefix sc values @ [char_of i], values ! i)) (non_pkey_columns sc)"
      unfolding d by (simp add: zip_map_map zip_same_conv_map)
    have inj: "inj_on (char_of :: nat \<Rightarrow> char) (set (non_pkey_columns sc))"
      using schema_okD(3) [OF assms(2)] by (intro inj_onI) (auto simp: non_pkey_columns_def char_of_inject)
    have "\<forall>(k, v) \<in> set (zip ?ks (drop (kPKeySize sc) values)). writable s k \<and> scalar_data v = Inr (scalar_bytes v)"
      unfolding z using assms(4) False T(4) by (auto simp: storage_keys_def non_pkey_columns_def)
    moreover have "distinct (map fst (zip ?ks (drop (kPKeySize sc) values)))"
      unfolding z using inj by (auto simp: distinct_map inj_on_def non_pkey_columns_def)
    ultimately obtain s' where "insert_columns sa (zip ?ks (drop (kPKeySize sc) values)) True s = Inr (True, s')" "inv s'"
      "target s' = target s ++ map_of (map (\<lambda>(k, v). (k, scalar_bytes v)) (zip ?ks (drop (kPKeySize sc) values)))" "writable s' = writable s"
      using insert_columns_ok [OF assms(1)] by blast
    with False show ?thesis
      unfolding Insert_def m_bind_def val z by (simp add: len key MakeStorageKeys_def row_image_def comp_def z)
  qed
qed

end

section \<open>Updating\<close>

definition updated :: "(nat \<times> scalar) list \<Rightarrow> scalar list \<Rightarrow> scalar list" where
  "updated cvs values = fold (\<lambda>(c, v) vs. vs[c := v]) cvs values"

lemma updated_simps [simp]: "updated [] values = values" "updated ((c, v) # cvs) values = updated cvs (values[c := v])"
  by (simp_all add: updated_def)

definition column_values :: "schema \<Rightarrow> (nat \<times> scalar) list \<Rightarrow> bool" where
  "column_values sc cvs \<longleftrightarrow> list_all (\<lambda>(c, v). kPKeySize sc \<le> c \<and> c < kNumColumns sc \<and> scalar_ok v \<and>
     scalar_type v = ColumnTypes sc c) cvs"

lemma column_values_simps [simp]:
  "column_values sc []"
  "column_values sc ((c, v) # cvs) \<longleftrightarrow>
     (kPKeySize sc \<le> c \<and> c < kNumColumns sc \<and> scalar_ok v \<and> scalar_type v = ColumnTypes sc c) \<and> column_values sc cvs"
  by (auto simp: column_values_def)

lemma row_ok_update:
  assumes "row_ok sc values" "scalar_ok v" "scalar_type v = ColumnTypes sc c"
  shows "row_ok sc (values[c := v])"
proof -
  have "values[c := v] ! i = (if i = c then v else values ! i)" if "i < length values" for i
    using that by (simp add: nth_list_update)
  with assms show ?thesis by (simp add: row_ok_def typed_def list_all_iff)
qed

lemma row_prefix_update: "kPKeySize sc \<le> c \<Longrightarrow> schema_ok sc \<Longrightarrow> row_prefix sc (values[c := v]) = row_prefix sc values"
  using schema_okD(1) [of sc] by (auto simp: row_prefix_def intro!: arg_cong [where f = concat] map_cong)

lemma updated_row:
  assumes "row_ok sc values" "column_values sc cvs" "schema_ok sc"
  shows "row_ok sc (updated cvs values)" "row_prefix sc (updated cvs values) = row_prefix sc values"
proof -
  have "row_ok sc (updated cvs values) \<and> row_prefix sc (updated cvs values) = row_prefix sc values"
    using assms(1,2)
  proof (induction cvs arbitrary: "values")
    case (Cons cv cvs)
    obtain c v where cv: "cv = (c, v)" by (cases cv)
    have "row_ok sc (values[c := v])" using row_ok_update Cons.prems by (simp add: cv)
    from Cons.IH [OF this] Cons.prems(2) row_prefix_update [OF _ assms(3)] show ?case by (simp add: cv)
  qed simp
  then show "row_ok sc (updated cvs values)" "row_prefix sc (updated cvs values) = row_prefix sc values" by simp_all
qed

lemma replace_one:
  assumes "row_ok sc values" "kPKeySize sc \<le> c" "c < kNumColumns sc" "scalar_ok v" "scalar_type v = ColumnTypes sc c"
  shows "string_replace (column_offset sc c) (type_size (ColumnTypes sc c)) (scalar_bytes v) (row_bytes sc values) =
    Inr (row_bytes sc (values[c := v]))"
proof -
  note T = typedD [OF row_okD(2) [OF assms(1)]]
  let ?b = "\<lambda>i. scalar_bytes (values ! i)" and ?b' = "\<lambda>i. scalar_bytes (values[c := v] ! i)"
  let ?xs = "[kPKeySize sc..<c]" and ?ys = "[Suc c..<kNumColumns sc]"
  have up: "non_pkey_columns sc = ?xs @ c # ?ys"
    unfolding non_pkey_columns_def upt_split [OF assms(2) less_imp_le [OF assms(3)]] using assms(3) by (simp add: upt_conv_Cons)
  have "map length (map ?b ?xs) = map (type_size \<circ> ColumnTypes sc) ?xs" using T(5) assms(3) by simp
  then have len: "length (concat (map ?b ?xs)) = column_offset sc c"
    unfolding length_concat column_offset_def by (rule arg_cong [where f = sum_list])
  have "length values = kNumColumns sc" using assms(1) by (simp add: row_ok_def)
  then have same: "map ?b' ?xs = map ?b ?xs" "map ?b' ?ys = map ?b ?ys" "?b' c = scalar_bytes v" using assms(3) by auto
  have "length (?b c) = type_size (ColumnTypes sc c)" by (rule T(5) [OF assms(3)])
  with len show ?thesis unfolding row_bytes_def up by (simp add: string_replace_def same)
qed

lemma replace_columns_row:
  assumes "row_ok sc values" "column_values sc cvs"
  shows "replace_columns sc cvs (row_bytes sc values) = Inr (row_bytes sc (updated cvs values))"
  using assms
proof (induction cvs arbitrary: "values")
  case (Cons cv cvs)
  obtain c v where cv: "cv = (c, v)" by (cases cv)
  with Cons.prems have v: "kPKeySize sc \<le> c" "c < kNumColumns sc" "scalar_ok v" "scalar_type v = ColumnTypes sc c" "column_values sc cvs"
    by simp_all
  from Cons.IH [OF row_ok_update [OF Cons.prems(1) v(3,4)] v(5)] replace_one [OF Cons.prems(1) v(1-4)] scalar_data_ok [OF v(3)]
  show ?case by (simp add: cv v(4))
qed simp

definition written_keys :: "schema \<Rightarrow> scalar list \<Rightarrow> nat set \<Rightarrow> key set" where
  "written_keys sc p cs = (if kGroupedColumns sc then {row_prefix sc p} else (\<lambda>i. row_prefix sc p @ [char_of i]) ` cs)"

lemma updated_nth:
  assumes "distinct (map fst cvs)" "(c, v) \<in> set cvs" "c < length values"
  shows "updated cvs values ! c = v"
  using assms
proof (induction cvs arbitrary: "values")
  case (Cons cv cvs)
  obtain c' v' where cv: "cv = (c', v')" by (cases cv)
  have keep: "updated cvs vs ! c = vs ! c" if "c \<notin> fst ` set cvs" for vs
    using that by (induction cvs arbitrary: vs) (auto simp: updated_def)
  show ?case
  proof (cases "(c, v) = cv")
    case True
    with Cons.prems cv keep show ?thesis by simp
  next
    case False
    with Cons.prems have "(c, v) \<in> set cvs" by auto
    with Cons.IH [of "values[c' := v']"] Cons.prems cv show ?thesis by auto
  qed
qed simp

locale row_updater = row_writer sa inv content target writable
  for sa :: "'s storage_adapter" and inv :: "'s \<Rightarrow> bool" and content :: "'s \<Rightarrow> key \<rightharpoonup> string"
    and target :: "'s \<Rightarrow> key \<rightharpoonup> string" and writable :: "'s \<Rightarrow> key \<Rightarrow> bool" +
  assumes insert_content: "inv s \<Longrightarrow> sa_Insert sa k v s = Inr (b, s') \<Longrightarrow> content s' = content s"
    and update: "inv s \<Longrightarrow> writable s k \<Longrightarrow> content s k = Some v \<Longrightarrow> v \<noteq> [] \<Longrightarrow> f v = Inr v' \<Longrightarrow>
      \<exists>s'. sa_Update sa k f s = Inr (True, s') \<and> inv s' \<and> target s' = (target s)(k \<mapsto> v') \<and> writable s' = writable s \<and> content s' = content s"
begin

lemma update_columns_ok:
  assumes "inv s" "\<forall>(k, v) \<in> set kvs. writable s k \<and> content s k \<noteq> None \<and> content s k \<noteq> Some [] \<and> scalar_data v = Inr (scalar_bytes v)"
    and "distinct (map fst kvs)"
  shows "\<exists>s'. update_columns sa kvs ok s = Inr (ok, s') \<and> inv s' \<and>
    target s' = target s ++ map_of (map (\<lambda>(k, v). (k, scalar_bytes v)) kvs) \<and> writable s' = writable s \<and> content s' = content s"
  using assms
proof (induction kvs arbitrary: s)
  case (Cons kv kvs)
  obtain k v where kv: "kv = (k, v)" by (cases kv)
  with Cons.prems(2) obtain old where old: "content s k = Some old" "old \<noteq> []" "writable s k" "scalar_data v = Inr (scalar_bytes v)" by auto
  from update [OF Cons.prems(1) old(3,1,2), of "\<lambda>_. scalar_data v"] old(4) obtain s1 where
    s1: "sa_Update sa k (\<lambda>_. scalar_data v) s = Inr (True, s1)" "inv s1" "target s1 = (target s)(k \<mapsto> scalar_bytes v)"
      "writable s1 = writable s" "content s1 = content s" by auto
  from Cons.IH [OF s1(2)] Cons.prems s1(4,5) obtain s' where
    s': "update_columns sa kvs ok s1 = Inr (ok, s')" "inv s'"
      "target s' = (target s1) ++ map_of (map (\<lambda>(k, v). (k, scalar_bytes v)) kvs)" "writable s' = writable s" "content s' = content s" by auto
  have "k \<notin> fst ` set kvs" using Cons.prems(3) kv by simp
  then have "k \<notin> dom (map_of (map (\<lambda>(k, v). (k, scalar_bytes v)) kvs))" by (auto simp: dom_map_of_conv_image_fst case_prod_beta image_image)
  then have "target s' = (target s) ++ map_of (map (\<lambda>(k, v). (k, scalar_bytes v)) (kv # kvs))"
    using s'(3) s1(3) by (simp add: kv map_add_upd_left)
  moreover have "update_columns sa (kv # kvs) ok s = Inr (ok, s')" using s1(1) s'(1) by (simp add: kv m_bind_def)
  ultimately show ?case using s'(2,4,5) by blast
qed simp

lemma Update_row:
  assumes "inv s" "schema_ok sc" "row_ok sc values" "pkey_ok sc pkey" "take (kPKeySize sc) pkey = take (kPKeySize sc) values"
    and "length cols = length vs" "column_values sc (zip (map (column_no sc) cols) vs)" "distinct (map (column_no sc) cols)"
    and "row_in sc values (column_no sc ` set cols) (content s)" "\<forall>k \<in> written_keys sc values (column_no sc ` set cols). writable s k"
  shows "\<exists>s'. Update sa sc pkey cols vs s = Inr (True, s') \<and> inv s' \<and> content s' = content s \<and> writable s' = writable s \<and>
    row_in sc (updated (zip (map (column_no sc) cols) vs) values) (column_no sc ` set cols) (target s') \<and>
    (\<forall>k. k \<notin> written_keys sc values (column_no sc ` set cols) \<longrightarrow> target s' k = target s k)"
proof -
  let ?cols = "map (column_no sc) cols"
  let ?cvs = "zip ?cols vs" and ?pre = "row_prefix sc values"
  note up = updated_row [OF assms(3,7,2)]
  have key: "row_key sc pkey = Inr ?pre"
    using row_key_eq [OF assms(2,4)] row_prefix_take [OF assms(2), of pkey] row_prefix_take [OF assms(2), of "values"] assms(5) by simp
  have cv: "kPKeySize sc \<le> c \<and> c < kNumColumns sc \<and> scalar_ok v \<and> scalar_type v = ColumnTypes sc c" if "(c, v) \<in> set ?cvs" for c v
    using assms(7) that by (auto simp: column_values_def list_all_iff)
  have "r_map (\<lambda>(v, c). ValidateType sc v c) (zip vs ?cols) = Inr (map (\<lambda>_. ()) (zip vs ?cols))"
  proof (rule r_map_Inr)
    fix x
    assume "x \<in> set (zip vs ?cols)"
    moreover obtain v c where "x = (v, c)" by (rule prod.exhaust)
    ultimately have x: "x = (v, c)" "(c, v) \<in> set ?cvs" by (auto simp: set_zip)
    with cv [OF x(2)] show "(case x of (v, c) \<Rightarrow> ValidateType sc v c) = Inr ()"
      by (cases "ColumnTypes sc c") (simp_all add: ValidateType_def)
  qed
  note val = this
  show ?thesis
  proof (cases "kGroupedColumns sc")
    case True
    have c: "content s ?pre = Some (row_bytes sc values)" using assms(9) True by (simp add: row_in_def)
    have w: "writable s ?pre" using assms(10) True by (simp add: written_keys_def)
    have "kPKeySize sc \<in> set (non_pkey_columns sc)" using schema_okD(2) [OF assms(2)] by (simp add: non_pkey_columns_def)
    moreover have "scalar_bytes (values ! kPKeySize sc) \<noteq> []"
      using typedD(5) [OF row_okD(2) [OF assms(3)] schema_okD(2) [OF assms(2)]] schema_okD(5) [OF assms(2) schema_okD(2) [OF assms(2)]] by auto
    ultimately have "row_bytes sc values \<noteq> []" by (auto simp: row_bytes_def)
    from update [where f = "replace_columns sc ?cvs", OF assms(1) w c this replace_columns_row [OF assms(3,7)]] obtain s' where
      "sa_Update sa ?pre (replace_columns sc ?cvs) s = Inr (True, s')" "inv s'"
      "target s' = (target s)(?pre \<mapsto> row_bytes sc (updated ?cvs values))" "writable s' = writable s" "content s' = content s" by blast
    with True key assms(6) val up(2) show ?thesis
      unfolding Update_def Let_def m_bind_def
      by (auto simp: MakeStorageKey_def row_in_def written_keys_def)
  next
    case False
    let ?f = "\<lambda>i. ?pre @ [char_of i]"
    have kz: "zip (map ?f ?cols) vs = map (\<lambda>(c, v). (?f c, v)) ?cvs" by (auto simp: zip_map1)
    have lt: "\<forall>i \<in> set ?cols. i < 256 \<and> kPKeySize sc \<le> i"
    proof
      fix i
      assume "i \<in> set ?cols"
      then obtain v where "(i, v) \<in> set ?cvs" using in_set_impl_in_set_zip1 [of ?cols vs i] assms(6) by auto
      with cv schema_okD(3) [OF assms(2)] show "i < 256 \<and> kPKeySize sc \<le> i" by fastforce
    qed
    have inj: "inj_on ?f (set ?cols)" using lt by (intro inj_onI) (auto simp: char_of_inject)
    have "\<forall>(k, v) \<in> set (zip (map ?f ?cols) vs). writable s k \<and> content s k \<noteq> None \<and> content s k \<noteq> Some [] \<and>
      scalar_data v = Inr (scalar_bytes v)"
    proof
      fix x
      assume "x \<in> set (zip (map ?f ?cols) vs)"
      then obtain c v where x: "x = (?f c, v)" "(c, v) \<in> set ?cvs" unfolding kz by auto
      then have c: "c \<in> column_no sc ` set cols" by (auto dest: set_zip_leftD)
      note v = cv [OF x(2)]
      have "content s (?f c) = Some (scalar_bytes (values ! c))" using assms(9) False c v by (auto simp: row_in_def)
      moreover have "scalar_bytes (values ! c) \<noteq> []"
        using typedD(5) [OF row_okD(2) [OF assms(3)]] schema_okD(5) [OF assms(2)] v by fastforce
      moreover have "writable s (?f c)" using assms(10) False c by (auto simp: written_keys_def)
      ultimately show "case x of (k, v) \<Rightarrow> writable s k \<and> content s k \<noteq> None \<and> content s k \<noteq> Some [] \<and> scalar_data v = Inr (scalar_bytes v)"
        using scalar_data_ok v by (simp add: x(1))
    qed
    moreover have dk: "distinct (map ?f ?cols)" unfolding distinct_map [of ?f ?cols] using assms(8) inj by blast
    then have "distinct (map fst (zip (map ?f ?cols) vs))" using assms(6) by (metis length_map map_fst_zip)
    ultimately obtain s' where s': "update_columns sa (zip (map ?f ?cols) vs) True s = Inr (True, s')" "inv s'"
      "target s' = target s ++ map_of (map (\<lambda>(k, v). (k, scalar_bytes v)) (zip (map ?f ?cols) vs))" "writable s' = writable s" "content s' = content s"
      using update_columns_ok [OF assms(1)] by blast
    let ?m = "map (\<lambda>(k, v). (k, scalar_bytes v)) (zip (map ?f ?cols) vs)"
    have "map fst ?m = map ?f ?cols" using assms(6) by (simp add: comp_def case_prod_beta map_fst_zip)
    then have dm': "distinct (map fst ?m)" using dk by metis
    from \<open>map fst ?m = map ?f ?cols\<close> have dm: "fst ` set ?m = ?f ` set ?cols" by (metis list.set_map)
    have mk: "map_of ?m (?f i) = Some (scalar_bytes (updated ?cvs values ! i))" if i: "i \<in> set ?cols" for i
    proof -
      from i obtain v where v: "(i, v) \<in> set ?cvs" using in_set_impl_in_set_zip1 [of ?cols vs i] assms(6) by auto
      have "length values = kNumColumns sc" using assms(3) by (simp add: row_ok_def)
      then have "updated ?cvs values ! i = v" using updated_nth [OF _ v, of "values"] cv [OF v] assms(6,8) by simp
      moreover have "(?f i, scalar_bytes v) \<in> set ?m" using v unfolding kz by force
      ultimately show ?thesis using map_of_is_SomeI [OF dm'] by blast
    qed
    have "row_in sc (updated ?cvs values) (column_no sc ` set cols) (target s')"
      using False mk s'(3) up(2) by (auto simp: row_in_def map_add_def)
    moreover have "target s' k = target s k" if "k \<notin> written_keys sc values (column_no sc ` set cols)" for k
      using that False dm s'(3) by (auto simp: written_keys_def map_add_dom_app_simps dom_map_of_conv_image_fst)
    moreover have "Update sa sc pkey cols vs s = Inr (True, s')"
      using False key assms(6) val s'(1) by (cases "cols = []") (simp_all add: Update_def m_bind_def MakeStorageKeys_def comp_def)
    ultimately show ?thesis using s'(2,4,5) by blast
  qed
qed

end

section \<open>The adapters of the source\<close>

interpretation kv_rows: row_writer "KVStorageAdapter init" "\<lambda>_. True" "\<lambda>st k. map_option rec_value (st k)"
  "\<lambda>st k. map_option rec_value (st k)" "\<lambda>_ k. \<exists>m. init k = Inr m" for init
proof unfold_locales
  show "sa_Read (KVStorageAdapter init) k s = Inr (map_option rec_value (s k), s)" for k s
    by (simp add: KVStorageAdapter_def)
  fix s :: storage and k v
  assume "\<exists>m. init k = Inr m"
  then obtain m where m: "init k = Inr m" ..
  let ?s = "s(k \<mapsto> SetMetadata m (SetValue v default_record))"
  have "sa_Insert (KVStorageAdapter init) k v s = Inr (True, ?s)" by (simp add: KVStorageAdapter_def m)
  moreover have "(\<lambda>k. map_option rec_value (?s k)) = (\<lambda>k. map_option rec_value (s k))(k \<mapsto> v)"
    by (auto simp: SetMetadata_def SetValue_def)
  ultimately show "\<exists>s'. sa_Insert (KVStorageAdapter init) k v s = Inr (True, s') \<and> True \<and>
      (\<lambda>k. map_option rec_value (s' k)) = (\<lambda>k. map_option rec_value (s k))(k \<mapsto> v) \<and>
      (\<lambda>k. \<exists>m. init k = Inr m) = (\<lambda>k. \<exists>m. init k = Inr m)" by blast
qed

definition ta_entry :: "txn_adapter \<Rightarrow> key \<Rightarrow> key_value option" where
  "ta_entry a k = map_option (nth (keys (ta_txn a))) (map_of (ta_key_index a) k)"

definition ta_ok :: "txn_adapter \<Rightarrow> bool" where
  "ta_ok a \<longleftrightarrow> length (ta_key_index a) = length (keys (ta_txn a)) \<and>
     (\<forall>k i. map_of (ta_key_index a) k = Some i \<longrightarrow> i < length (keys (ta_txn a)) \<and> kv_key (keys (ta_txn a) ! i) = k)"

definition ta_content :: "txn_adapter \<Rightarrow> key \<Rightarrow> string option" where
  "ta_content a k = map_option (ve_value \<circ> kv_entry) (ta_entry a k)"

definition ta_writable :: "txn_adapter \<Rightarrow> key \<Rightarrow> bool" where
  "ta_writable a k \<longleftrightarrow> (case ta_entry a k of None \<Rightarrow> False | Some kv \<Rightarrow> kv_type kv = WRITE)"

text \<open>The new values of the keys that the transaction writes.\<close>

definition ta_target :: "txn_adapter \<Rightarrow> key \<Rightarrow> string option" where
  "ta_target a k = (if ta_writable a k then map_option (ve_new_value \<circ> kv_entry) (ta_entry a k) else None)"

lemma CheckIndexSize_ok: "ta_ok a \<Longrightarrow> CheckIndexSize a = Inr ((), a)"
  by (simp add: CheckIndexSize_def ta_ok_def)

definition with_new_value :: "string \<Rightarrow> key_value \<Rightarrow> key_value" where
  "with_new_value v kv = kv\<lparr>kv_entry := (kv_entry kv)\<lparr>ve_new_value := v\<rparr>\<rparr>"

lemma with_new_value_simps [simp]:
  "kv_key (with_new_value v kv) = kv_key kv" "kv_type (with_new_value v kv) = kv_type kv"
  "ve_value (kv_entry (with_new_value v kv)) = ve_value (kv_entry kv)" "ve_new_value (kv_entry (with_new_value v kv)) = v"
  by (simp_all add: with_new_value_def)

lemma put_new_value_ok:
  assumes "ta_ok a" "map_of (ta_key_index a) k = Some i"
  shows "ta_ok (put_new_value i v a)"
    "ta_entry (put_new_value i v a) = (ta_entry a)(k := map_option (with_new_value v) (ta_entry a k))"
proof -
  have i: "i < length (keys (ta_txn a))" "kv_key (keys (ta_txn a) ! i) = k" using assms by (auto simp: ta_ok_def)
  have ks: "keys (ta_txn (put_new_value i v a)) = (keys (ta_txn a))[i := with_new_value v (keys (ta_txn a) ! i)]"
    "ta_key_index (put_new_value i v a) = ta_key_index a"
    by (simp_all add: put_new_value_def Let_def with_new_value_def)
  show "ta_ok (put_new_value i v a)" using assms(1) i by (auto simp: ta_ok_def ks nth_list_update)
  show "ta_entry (put_new_value i v a) = (ta_entry a)(k := map_option (with_new_value v) (ta_entry a k))"
  proof
    fix k'
    show "ta_entry (put_new_value i v a) k' = ((ta_entry a)(k := map_option (with_new_value v) (ta_entry a k))) k'"
    proof (cases "map_of (ta_key_index a) k'")
      case (Some j)
      then have j: "j < length (keys (ta_txn a))" "kv_key (keys (ta_txn a) ! j) = k'" using assms(1) by (auto simp: ta_ok_def)
      show ?thesis
      proof (cases "k' = k")
        case True
        with assms(2) i show ?thesis by (simp add: ta_entry_def ks)
      next
        case False
        then have "j \<noteq> i" using i j by auto
        with False Some show ?thesis by (simp add: ta_entry_def ks)
      qed
    qed (use assms(2) in \<open>auto simp: ta_entry_def ks\<close>)
  qed
qed

lemma put_new_value_views:
  assumes "ta_ok a" "map_of (ta_key_index a) k = Some i" "kv_type (keys (ta_txn a) ! i) = WRITE"
  shows "ta_target (put_new_value i v a) = (ta_target a)(k \<mapsto> v)" "ta_content (put_new_value i v a) = ta_content a"
    "ta_writable (put_new_value i v a) = ta_writable a"
proof -
  note E = put_new_value_ok(2) [OF assms(1,2), of v]
  have e: "ta_entry a k = Some (keys (ta_txn a) ! i)" using assms(2) by (simp add: ta_entry_def)
  show "ta_content (put_new_value i v a) = ta_content a" by (auto simp: ta_content_def E e)
  show w: "ta_writable (put_new_value i v a) = ta_writable a" by (rule ext) (simp add: ta_writable_def E e)
  show "ta_target (put_new_value i v a) = (ta_target a)(k \<mapsto> v)"
    unfolding ta_target_def w using assms(3) by (auto simp: E e ta_writable_def)
qed

lemma ta_writableD:
  assumes "ta_writable a k"
  obtains i where "map_of (ta_key_index a) k = Some i" "kv_type (keys (ta_txn a) ! i) = WRITE"
  using assms by (auto simp: ta_writable_def ta_entry_def split: option.splits)

interpretation txn_rows: row_updater txn_storage_adapter ta_ok ta_content ta_target ta_writable
proof unfold_locales
  fix s :: txn_adapter and k v b s' v' and f :: "string \<Rightarrow> string result"
  assume ok: "ta_ok s"
  show "sa_Read txn_storage_adapter k s = Inr (ta_content s k, s)"
    by (simp add: txn_storage_adapter_def TxnStorageAdapter_Read_def m_bind_def CheckIndexSize_ok [OF ok] ta_content_def ta_entry_def
        option.map_comp comp_def)
  show "sa_Insert txn_storage_adapter k v s = Inr (b, s') \<Longrightarrow> ta_content s' = ta_content s"
    using put_new_value_views(2) [OF ok]
    by (auto simp: txn_storage_adapter_def TxnStorageAdapter_Insert_def m_bind_def CheckIndexSize_ok [OF ok] split: option.splits if_splits)
  {
    assume "ta_writable s k"
    then obtain i where i: "map_of (ta_key_index s) k = Some i" "kv_type (keys (ta_txn s) ! i) = WRITE" by (rule ta_writableD)
    have "sa_Insert txn_storage_adapter k v s = Inr (True, put_new_value i v s)"
      by (simp add: txn_storage_adapter_def TxnStorageAdapter_Insert_def m_bind_def CheckIndexSize_ok [OF ok] i)
    with put_new_value_ok(1) [OF ok i(1)] put_new_value_views [OF ok i]
    show "\<exists>s'. sa_Insert txn_storage_adapter k v s = Inr (True, s') \<and> ta_ok s' \<and> ta_target s' = (ta_target s)(k \<mapsto> v) \<and>
      ta_writable s' = ta_writable s" by blast
  next
    assume "ta_writable s k" and v: "ta_content s k = Some v" "v \<noteq> []" "f v = Inr v'"
    then obtain i where i: "map_of (ta_key_index s) k = Some i" "kv_type (keys (ta_txn s) ! i) = WRITE" by (auto elim: ta_writableD)
    have "ve_value (kv_entry (keys (ta_txn s) ! i)) = v" using v(1) i(1) by (simp add: ta_content_def ta_entry_def)
    with v(2,3) have "sa_Update txn_storage_adapter k f s = Inr (True, put_new_value i v' s)"
      by (simp add: txn_storage_adapter_def TxnStorageAdapter_Update_def m_bind_def CheckIndexSize_ok [OF ok] i Let_def)
    with put_new_value_ok(1) [OF ok i(1)] put_new_value_views [OF ok i]
    show "\<exists>s'. sa_Update txn_storage_adapter k f s = Inr (True, s') \<and> ta_ok s' \<and> ta_target s' = (ta_target s)(k \<mapsto> v') \<and>
      ta_writable s' = ta_writable s \<and> ta_content s' = ta_content s" by blast
  }
qed

end
