(* ===== verification/Tpcc_Payment.thy ===== *)
theory Tpcc_Payment
  imports Tpcc_Transactions Tpcc_Rows
begin

text \<open>
  The effect of the payment transaction (\<^verbatim>\<open>execution/tpcc/payment.cpp\<close>) on any storage adapter that meets the contract
  \<open>row_updater\<close>.
\<close>

section \<open>Steps that succeed\<close>

fun scalar_int :: "scalar \<Rightarrow> int" where
  "scalar_int (Int8Scalar x) = x"
| "scalar_int (Int16Scalar x) = x"
| "scalar_int (Int32Scalar x) = x"
| "scalar_int (Int64Scalar x) = x"
| "scalar_int (FixedTextScalar _ _) = 0"

lemma cast_ok:
  "i < length res \<Longrightarrow> scalar_type (res ! i) = INT16 \<Longrightarrow> cast_int16 res i = Inr (scalar_int (res ! i))"
  "i < length res \<Longrightarrow> scalar_type (res ! i) = INT32 \<Longrightarrow> cast_int32 res i = Inr (scalar_int (res ! i))"
  "i < length res \<Longrightarrow> scalar_type (res ! i) = INT64 \<Longrightarrow> cast_int64 res i = Inr (scalar_int (res ! i))"
  "i < length res \<Longrightarrow> scalar_type (res ! i) = FIXED_TEXT w \<Longrightarrow> cast_text res i = Inr (res ! i)"
  by (cases "res ! i"; simp add: cast_int16_def cast_int32_def cast_int64_def cast_text_def res_at_def)+

lemma m_lift_Inr: "m_lift r s = Inr (x, s') \<longleftrightarrow> r = Inr x \<and> s' = s"
  by (cases r) auto

lemma arith_ok: "fits n x \<Longrightarrow> arith n x = Inr x"
  by (simp add: arith_def)

section \<open>Columns\<close>

lemma schema_facts:
  "schema_ok WarehouseSchema" "schema_ok DistrictSchema" "schema_ok CustomerSchema" "schema_ok HistorySchema"
  "kPKeySize WarehouseSchema = 1" "kPKeySize DistrictSchema = 2" "kPKeySize CustomerSchema = 3" "kPKeySize HistorySchema = 4"
  "kNumColumns WarehouseSchema = 5" "kNumColumns DistrictSchema = 7" "kNumColumns CustomerSchema = 15" "kNumColumns HistorySchema = 9"
  "\<not> kGroupedColumns WarehouseSchema" "\<not> kGroupedColumns DistrictSchema" "\<not> kGroupedColumns CustomerSchema" "kGroupedColumns HistorySchema"
  by code_simp+

lemma column_facts:
  "column_no WarehouseSchema ''NAME'' = 1" "column_no WarehouseSchema ''ADDRESS'' = 2" "column_no WarehouseSchema ''YTD'' = 4"
  "column_no DistrictSchema ''NAME'' = 2" "column_no DistrictSchema ''ADDRESS'' = 3" "column_no DistrictSchema ''YTD'' = 5"
  "column_no CustomerSchema ''FULL_NAME'' = 3" "column_no CustomerSchema ''ADDRESS'' = 4" "column_no CustomerSchema ''PHONE'' = 5"
  "column_no CustomerSchema ''SINCE'' = 6" "column_no CustomerSchema ''CREDIT'' = 7" "column_no CustomerSchema ''CREDIT_LIM'' = 8"
  "column_no CustomerSchema ''DISCOUNT'' = 9" "column_no CustomerSchema ''BALANCE'' = 10" "column_no CustomerSchema ''YTD_PAYMENT'' = 11"
  "column_no CustomerSchema ''PAYMENT_CNT'' = 12" "column_no CustomerSchema ''DATA'' = 14"
  by code_simp+

lemma type_facts:
  "ColumnTypes WarehouseSchema 1 = FIXED_TEXT 10" "ColumnTypes WarehouseSchema 2 = FIXED_TEXT 71" "ColumnTypes WarehouseSchema 4 = INT64"
  "ColumnTypes DistrictSchema 2 = FIXED_TEXT 10" "ColumnTypes DistrictSchema 3 = FIXED_TEXT 71" "ColumnTypes DistrictSchema 5 = INT64"
  "ColumnTypes CustomerSchema 3 = FIXED_TEXT 34" "ColumnTypes CustomerSchema 4 = FIXED_TEXT 71" "ColumnTypes CustomerSchema 5 = FIXED_TEXT 16"
  "ColumnTypes CustomerSchema 6 = INT64" "ColumnTypes CustomerSchema 7 = FIXED_TEXT 2" "ColumnTypes CustomerSchema 8 = INT64"
  "ColumnTypes CustomerSchema 9 = INT32" "ColumnTypes CustomerSchema 10 = INT64" "ColumnTypes CustomerSchema 11 = INT64"
  "ColumnTypes CustomerSchema 12 = INT16" "ColumnTypes CustomerSchema 14 = FIXED_TEXT 250"
  by code_simp+

lemma row_type: "row_ok sc values \<Longrightarrow> i < kNumColumns sc \<Longrightarrow> scalar_type (values ! i) = ColumnTypes sc i"
  by (rule typedD(2) [OF row_okD(2)])

text \<open>The rows that a payment reads: \<open>wv\<close> is the row of the warehouse, \<open>dv\<close> of the district and \<open>cv\<close> of the
  customer, of which the columns in use are stored in \<open>m\<close>.\<close>

definition payment_rows :: "payment_txn \<Rightarrow> scalar list \<Rightarrow> scalar list \<Rightarrow> scalar list \<Rightarrow> (key \<rightharpoonup> string) \<Rightarrow> bool" where
  "payment_rows p wv dv cv m \<longleftrightarrow>
     row_ok WarehouseSchema wv \<and> take 1 wv = [Int32Scalar (py_w_id p)] \<and> row_in WarehouseSchema wv {1, 2, 4} m \<and>
     row_ok DistrictSchema dv \<and> take 2 dv = [Int32Scalar (py_w_id p), Int8Scalar (py_d_id p)] \<and>
     row_in DistrictSchema dv {2, 3, 5} m \<and>
     row_ok CustomerSchema cv \<and> take 3 cv = [Int32Scalar (py_c_w_id p), Int8Scalar (py_c_d_id p), Int32Scalar (py_c_id p)] \<and>
     row_in CustomerSchema cv {3, 4, 5, 6, 7, 8, 9, 10, 11, 12, 14} m"

lemma row_in_subset: "row_in sc values cs m \<Longrightarrow> cs' \<subseteq> cs \<Longrightarrow> row_in sc values cs' m"
  by (auto simp: row_in_def)

lemma payment_rowsD:
  assumes "payment_rows p wv dv cv m"
  shows "row_ok WarehouseSchema wv" "pkey_ok WarehouseSchema [Int32Scalar (py_w_id p)]"
    "take (kPKeySize WarehouseSchema) [Int32Scalar (py_w_id p)] = take (kPKeySize WarehouseSchema) wv" "row_in WarehouseSchema wv {1, 2, 4} m"
    "row_ok DistrictSchema dv" "pkey_ok DistrictSchema [Int32Scalar (py_w_id p), Int8Scalar (py_d_id p)]"
    "take (kPKeySize DistrictSchema) [Int32Scalar (py_w_id p), Int8Scalar (py_d_id p)] = take (kPKeySize DistrictSchema) dv"
    "row_in DistrictSchema dv {2, 3, 5} m"
    "row_ok CustomerSchema cv" "pkey_ok CustomerSchema [Int32Scalar (py_c_w_id p), Int8Scalar (py_c_d_id p), Int32Scalar (py_c_id p)]"
    "take (kPKeySize CustomerSchema) [Int32Scalar (py_c_w_id p), Int8Scalar (py_c_d_id p), Int32Scalar (py_c_id p)] = take (kPKeySize CustomerSchema) cv"
    "row_in CustomerSchema cv {3, 4, 5, 6, 7, 8, 9, 10, 11, 12, 14} m"
proof -
  note T = typed_take [OF row_okD(1)]
  show "row_ok WarehouseSchema wv" "row_ok DistrictSchema dv" "row_ok CustomerSchema cv"
    "row_in WarehouseSchema wv {1, 2, 4} m" "row_in DistrictSchema dv {2, 3, 5} m"
    "row_in CustomerSchema cv {3, 4, 5, 6, 7, 8, 9, 10, 11, 12, 14} m"
    using assms by (simp_all add: payment_rows_def)
  have t: "take 1 wv = [Int32Scalar (py_w_id p)]" "take 2 dv = [Int32Scalar (py_w_id p), Int8Scalar (py_d_id p)]"
    "take 3 cv = [Int32Scalar (py_c_w_id p), Int8Scalar (py_c_d_id p), Int32Scalar (py_c_id p)]"
    using assms by (simp_all add: payment_rows_def)
  show "take (kPKeySize WarehouseSchema) [Int32Scalar (py_w_id p)] = take (kPKeySize WarehouseSchema) wv"
    "take (kPKeySize DistrictSchema) [Int32Scalar (py_w_id p), Int8Scalar (py_d_id p)] = take (kPKeySize DistrictSchema) dv"
    "take (kPKeySize CustomerSchema) [Int32Scalar (py_c_w_id p), Int8Scalar (py_c_d_id p), Int32Scalar (py_c_id p)] = take (kPKeySize CustomerSchema) cv"
    unfolding schema_facts t by simp_all
  show "pkey_ok WarehouseSchema [Int32Scalar (py_w_id p)]"
    using T [OF \<open>row_ok WarehouseSchema wv\<close> schema_facts(1)] unfolding schema_facts t .
  show "pkey_ok DistrictSchema [Int32Scalar (py_w_id p), Int8Scalar (py_d_id p)]"
    using T [OF \<open>row_ok DistrictSchema dv\<close> schema_facts(2)] unfolding schema_facts t .
  show "pkey_ok CustomerSchema [Int32Scalar (py_c_w_id p), Int8Scalar (py_c_d_id p), Int32Scalar (py_c_id p)]"
    using T [OF \<open>row_ok CustomerSchema cv\<close> schema_facts(3)] unfolding schema_facts t .
qed

section \<open>Reading\<close>

definition payment_read :: "scalar list \<Rightarrow> scalar list \<Rightarrow> scalar list \<Rightarrow> payment_txn \<Rightarrow> payment_txn" where
  "payment_read wv dv cv p =
     p\<lparr>py_w_name := wv ! 1, py_w_ytd := scalar_int (wv ! 4), py_d_name := dv ! 2, py_d_ytd := scalar_int (dv ! 5),
       py_c_balance := scalar_int (cv ! 10), py_c_ytd_payment := scalar_int (cv ! 11),
       py_c_payment_cnt := scalar_int (cv ! 12), py_c_data := cv ! 14\<rparr>"

lemma columns_of:
  "set [''NAME'', ''ADDRESS'', ''YTD''] \<subseteq> fst ` set (Columns WarehouseSchema)"
  "set [''NAME'', ''ADDRESS'', ''YTD''] \<subseteq> fst ` set (Columns DistrictSchema)"
  "set [''FULL_NAME'', ''ADDRESS'', ''PHONE'', ''SINCE'', ''CREDIT'', ''CREDIT_LIM'', ''DISCOUNT'', ''BALANCE'',
     ''YTD_PAYMENT'', ''PAYMENT_CNT'', ''DATA''] \<subseteq> fst ` set (Columns CustomerSchema)"
  by code_simp+

context row_store
begin

lemma Payment_Read_ok:
  assumes "inv s" "payment_rows p wv dv cv (content s)"
  shows "Payment_Read sa p s = Inr ((True, [], payment_read wv dv cv p), s)"
proof -
  note R = payment_rowsD [OF assms(2)]
  note ty = row_type [OF R(1), unfolded schema_facts] row_type [OF R(5), unfolded schema_facts] row_type [OF R(9), unfolded schema_facts]
  have w: "Select sa WarehouseSchema [Int32Scalar (py_w_id p)] [''NAME'', ''ADDRESS'', ''YTD''] s = Inr ([wv ! 1, wv ! 2, wv ! 4], s)"
    by (subst Select_row [OF assms(1) schema_facts(1) R(1-3) _ columns_of(1)])
       (use R(4) in \<open>simp_all add: column_facts schema_facts\<close>)
  have d: "Select sa DistrictSchema [Int32Scalar (py_w_id p), Int8Scalar (py_d_id p)] [''NAME'', ''ADDRESS'', ''YTD''] s =
      Inr ([dv ! 2, dv ! 3, dv ! 5], s)"
    by (subst Select_row [OF assms(1) schema_facts(2) R(5-7) _ columns_of(2)])
       (use R(8) in \<open>simp_all add: column_facts schema_facts\<close>)
  have c: "Select sa CustomerSchema [Int32Scalar (py_c_w_id p), Int8Scalar (py_c_d_id p), Int32Scalar (py_c_id p)]
       [''FULL_NAME'', ''ADDRESS'', ''PHONE'', ''SINCE'', ''CREDIT'', ''CREDIT_LIM'', ''DISCOUNT'', ''BALANCE'',
        ''YTD_PAYMENT'', ''PAYMENT_CNT'', ''DATA''] s =
      Inr ([cv ! 3, cv ! 4, cv ! 5, cv ! 6, cv ! 7, cv ! 8, cv ! 9, cv ! 10, cv ! 11, cv ! 12, cv ! 14], s)"
    by (subst Select_row [OF assms(1) schema_facts(3) R(9-11) _ columns_of(3)])
       (use R(12) in \<open>simp_all add: column_facts schema_facts\<close>)
  show ?thesis
    unfolding Payment_Read_def m_bind_def
    by (simp add: on_found_def m_bind_def w d c cast_ok ty type_facts type_facts(1) [unfolded One_nat_def] payment_read_def)
qed

end

section \<open>Writing\<close>

lemma fits_wrap: "0 < n \<Longrightarrow> fits n (wrap_int n x)"
proof -
  assume n: "0 < n"
  have h: "2 * (2::int) ^ (8 * n - 1) = 2 ^ (8 * n)" using n by (simp flip: power_Suc)
  have hn: "int (2 ^ (8 * n - 1)) = 2 ^ (8 * n - 1)" by simp
  define y where "y = x mod 2 ^ (8 * n)"
  have "0 \<le> y" "y < 2 ^ (8 * n)" by (simp_all add: y_def)
  moreover have "0 < (2::int) ^ (8 * n - 1)" by simp
  ultimately show ?thesis using h hn by (auto simp: fits_def wrap_int_def signed_of_def nat_less_iff simp flip: y_def)
qed

lemma written_keys_disjoint:
  assumes "sc \<in> set tpcc_schemas" "sc' \<in> set tpcc_schemas" "pkey_ok sc p" "pkey_ok sc' p'" "sc \<noteq> sc'"
    and "k \<in> written_keys sc p cs"
  shows "k \<notin> written_keys sc' p' cs'"
proof
  have *: "\<exists>as. k = row_prefix sc p @ as" if "k \<in> written_keys sc p cs" for sc p cs
    using that by (auto simp: written_keys_def split: if_splits)
  assume "k \<in> written_keys sc' p' cs'"
  with * [OF assms(6)] * [OF this] row_prefix_inject [OF assms(1-4)] assms(5) show False by blast
qed

lemma row_in_frame:
  assumes "row_in sc values cs m" "\<And>k. k \<in> written_keys sc values cs \<Longrightarrow> m' k = m k"
  shows "row_in sc values cs m'"
  using assms by (auto simp: row_in_def written_keys_def split: if_splits)

definition payment_fits :: "payment_txn \<Rightarrow> scalar list \<Rightarrow> scalar list \<Rightarrow> scalar list \<Rightarrow> bool" where
  "payment_fits p wv dv cv \<longleftrightarrow>
     fits 4 (py_h_id p) \<and> fits 8 (py_datetime p) \<and> fits 4 (py_amount p) \<and>
     fits 8 (scalar_int (wv ! 4) + py_amount p) \<and> fits 8 (scalar_int (dv ! 5) + py_amount p) \<and>
     fits 8 (scalar_int (cv ! 10) - py_amount p) \<and> fits 8 (scalar_int (cv ! 11) + py_amount p)"

definition history_row :: "payment_txn \<Rightarrow> scalar list" where
  "history_row p = [Int32Scalar (py_w_id p), Int8Scalar (py_d_id p), Int32Scalar (py_c_id p), Int32Scalar (py_h_id p),
     Int8Scalar (py_c_d_id p), Int32Scalar (py_c_w_id p), Int64Scalar (py_datetime p), Int32Scalar (py_amount p)]"

text \<open>The keys that a payment writes, and the rows after it.\<close>

definition payment_keys :: "payment_txn \<Rightarrow> scalar list \<Rightarrow> scalar list \<Rightarrow> scalar list \<Rightarrow> key set" where
  "payment_keys p wv dv cv = written_keys WarehouseSchema wv {4} \<union> written_keys DistrictSchema dv {5} \<union>
     written_keys CustomerSchema cv {10, 11, 12, 14} \<union> {row_prefix HistorySchema (history_row p)}"

definition paid :: "payment_txn \<Rightarrow> scalar list \<Rightarrow> scalar list \<Rightarrow> scalar list \<Rightarrow> (key \<rightharpoonup> string) \<Rightarrow> bool" where
  "paid p wv dv cv m \<longleftrightarrow>
     row_in WarehouseSchema (wv[4 := Int64Scalar (scalar_int (wv ! 4) + py_amount p)]) {4} m \<and>
     row_in DistrictSchema (dv[5 := Int64Scalar (scalar_int (dv ! 5) + py_amount p)]) {5} m \<and>
     row_in CustomerSchema (cv[10 := Int64Scalar (scalar_int (cv ! 10) - py_amount p),
       11 := Int64Scalar (scalar_int (cv ! 11) + py_amount p), 12 := Int16Scalar (wrap_int 2 (scalar_int (cv ! 12) + 1))]) {10, 11, 12, 14} m \<and>
     m (row_prefix HistorySchema (history_row p)) = Some (concat (map scalar_bytes (drop 4 (history_row p))))"

lemma Payment_Compute_ok:
  assumes "payment_fits p wv dv cv"
  shows "\<exists>p2. Payment_Compute (payment_read wv dv cv p) = Inr p2 \<and> py_new_w_ytd p2 = scalar_int (wv ! 4) + py_amount p \<and>
    py_new_d_ytd p2 = scalar_int (dv ! 5) + py_amount p \<and> py_new_c_balance p2 = scalar_int (cv ! 10) - py_amount p \<and>
    py_new_c_ytd_payment p2 = scalar_int (cv ! 11) + py_amount p \<and> py_new_c_payment_cnt p2 = wrap_int 2 (scalar_int (cv ! 12) + 1) \<and>
    py_c_data p2 = cv ! 14 \<and> (\<exists>b. py_new_h_data p2 = FixedTextScalar 0 b) \<and> history_row p2 = history_row p"
  using assms by (simp add: payment_fits_def payment_read_def Payment_Compute_def arith_ok history_row_def)

lemma history_row_key:
  assumes "payment_rows p wv dv cv m" "payment_fits p wv dv cv"
  shows "pkey_ok HistorySchema (history_row p @ vs)" "\<forall>v \<in> set (history_row p). scalar_ok v"
proof -
  have ok: "fits 4 (py_w_id p)" "fits 1 (py_d_id p)" "fits 4 (py_c_w_id p)" "fits 1 (py_c_d_id p)" "fits 4 (py_c_id p)"
    using payment_rowsD(6,10) [OF assms(1)] by (simp_all add: typed_def schema_facts upt_rec numeral_2_eq_2 numeral_3_eq_3)
  moreover have "ColumnTypes HistorySchema 0 = INT32" "ColumnTypes HistorySchema 1 = INT8"
    "ColumnTypes HistorySchema 2 = INT32" "ColumnTypes HistorySchema 3 = INT32" by code_simp+
  ultimately show "pkey_ok HistorySchema (history_row p @ vs)" "\<forall>v \<in> set (history_row p). scalar_ok v"
    using assms(2) by (simp_all add: typed_def schema_facts history_row_def payment_fits_def upt_rec numeral_2_eq_2 numeral_3_eq_3)
qed

lemma payment_schemas:
  "WarehouseSchema \<in> set tpcc_schemas" "DistrictSchema \<in> set tpcc_schemas" "CustomerSchema \<in> set tpcc_schemas"
  "HistorySchema \<in> set tpcc_schemas" "WarehouseSchema \<noteq> DistrictSchema" "WarehouseSchema \<noteq> CustomerSchema"
  "WarehouseSchema \<noteq> HistorySchema" "DistrictSchema \<noteq> CustomerSchema" "DistrictSchema \<noteq> HistorySchema"
  "CustomerSchema \<noteq> HistorySchema"
  by (simp_all add: tpcc_schemas_def WarehouseSchema_def DistrictSchema_def CustomerSchema_def HistorySchema_def)

lemma history_columns:
  "non_pkey_columns HistorySchema = [4, 5, 6, 7, 8]"
  "ColumnTypes HistorySchema 4 = INT8" "ColumnTypes HistorySchema 5 = INT32" "ColumnTypes HistorySchema 6 = INT64"
  "ColumnTypes HistorySchema 7 = INT32" "ColumnTypes HistorySchema 8 = FIXED_TEXT 24"
  by code_simp+

lemma history_values:
  assumes "\<forall>v \<in> set (history_row p). scalar_ok v" "i \<in> set (non_pkey_columns HistorySchema)"
  shows "ValidateType HistorySchema ((history_row p @ [FixedTextScalar 0 t]) ! i) i = Inr () \<and>
    scalar_data ((history_row p @ [FixedTextScalar 0 t]) ! i) = Inr (scalar_bytes ((history_row p @ [FixedTextScalar 0 t]) ! i))"
  using assms by (auto simp: history_columns history_row_def ValidateType_def read_bytes_def scalar_bytes_def)

lemma paid_customer:
  "updated [(10, a), (11, b), (12, c), (14, cv ! 14)] cv = cv[10 := a, 11 := b, 12 := c]"
proof -
  have "cv ! 14 = cv[10 := a, 11 := b, 12 := c] ! 14" by simp
  then show ?thesis by (simp only: updated_simps list_update_id)
qed

lemma written_keys_updated:
  assumes "row_ok sc values" "column_values sc cvs" "schema_ok sc"
  shows "written_keys sc (updated cvs values) cs = written_keys sc values cs"
  by (simp add: written_keys_def updated_row(2) [OF assms])

lemma payment_written:
  assumes "payment_rows p wv dv cv m" "payment_fits p wv dv cv"
  shows "written_keys WarehouseSchema (wv[4 := Int64Scalar (scalar_int (wv ! 4) + py_amount p)]) cs = written_keys WarehouseSchema wv cs"
    "written_keys DistrictSchema (dv[5 := Int64Scalar (scalar_int (dv ! 5) + py_amount p)]) cs = written_keys DistrictSchema dv cs"
    "written_keys CustomerSchema (cv[10 := Int64Scalar (scalar_int (cv ! 10) - py_amount p),
       11 := Int64Scalar (scalar_int (cv ! 11) + py_amount p), 12 := Int16Scalar (wrap_int 2 (scalar_int (cv ! 12) + 1))]) cs =
     written_keys CustomerSchema cv cs"
proof -
  note R = payment_rowsD [OF assms(1)] and F = assms(2) [unfolded payment_fits_def]
  show "written_keys WarehouseSchema (wv[4 := Int64Scalar (scalar_int (wv ! 4) + py_amount p)]) cs = written_keys WarehouseSchema wv cs"
    using written_keys_updated [OF R(1) _ schema_facts(1), of "[(4, Int64Scalar (scalar_int (wv ! 4) + py_amount p))]" cs] F
    by (simp add: schema_facts type_facts)
  show "written_keys DistrictSchema (dv[5 := Int64Scalar (scalar_int (dv ! 5) + py_amount p)]) cs = written_keys DistrictSchema dv cs"
    using written_keys_updated [OF R(5) _ schema_facts(2), of "[(5, Int64Scalar (scalar_int (dv ! 5) + py_amount p))]" cs] F
    by (simp add: schema_facts type_facts)
  show "written_keys CustomerSchema (cv[10 := Int64Scalar (scalar_int (cv ! 10) - py_amount p),
       11 := Int64Scalar (scalar_int (cv ! 11) + py_amount p), 12 := Int16Scalar (wrap_int 2 (scalar_int (cv ! 12) + 1))]) cs =
     written_keys CustomerSchema cv cs"
    using written_keys_updated [OF R(9) _ schema_facts(3), of "[(10, Int64Scalar (scalar_int (cv ! 10) - py_amount p)),
      (11, Int64Scalar (scalar_int (cv ! 11) + py_amount p)), (12, Int16Scalar (wrap_int 2 (scalar_int (cv ! 12) + 1)))]" cs] F fits_wrap [of 2]
    by (simp add: schema_facts type_facts)
qed

lemma payment_disjoint:
  assumes "payment_rows p wv dv cv m" "payment_fits p wv dv cv"
  shows "k \<in> written_keys WarehouseSchema wv A \<Longrightarrow> k \<notin> written_keys DistrictSchema dv B"
    "k \<in> written_keys WarehouseSchema wv A \<Longrightarrow> k \<notin> written_keys CustomerSchema cv C"
    "k \<in> written_keys WarehouseSchema wv A \<Longrightarrow> k \<noteq> row_prefix HistorySchema (history_row p)"
    "k \<in> written_keys DistrictSchema dv B \<Longrightarrow> k \<notin> written_keys CustomerSchema cv C"
    "k \<in> written_keys DistrictSchema dv B \<Longrightarrow> k \<noteq> row_prefix HistorySchema (history_row p)"
    "k \<in> written_keys CustomerSchema cv C \<Longrightarrow> k \<noteq> row_prefix HistorySchema (history_row p)"
proof -
  note R = payment_rowsD(1,5,9) [OF assms(1)]
  note P = row_okD(1) [OF R(1) schema_facts(1)] row_okD(1) [OF R(2) schema_facts(2)] row_okD(1) [OF R(3) schema_facts(3)]
    history_row_key(1) [OF assms, of "[]", simplified]
  note S = payment_schemas
  have H: "written_keys HistorySchema (history_row p) {} = {row_prefix HistorySchema (history_row p)}"
    by (simp add: written_keys_def schema_facts)
  note X = written_keys_disjoint [where cs' = "{}" and sc' = HistorySchema and p' = "history_row p", unfolded H singleton_iff]
  show "k \<in> written_keys WarehouseSchema wv A \<Longrightarrow> k \<notin> written_keys DistrictSchema dv B"
    by (rule written_keys_disjoint [OF S(1,2) P(1,2) S(5)])
  show "k \<in> written_keys WarehouseSchema wv A \<Longrightarrow> k \<notin> written_keys CustomerSchema cv C"
    by (rule written_keys_disjoint [OF S(1,3) P(1,3) S(6)])
  show "k \<in> written_keys DistrictSchema dv B \<Longrightarrow> k \<notin> written_keys CustomerSchema cv C"
    by (rule written_keys_disjoint [OF S(2,3) P(2,3) S(8)])
  show "k \<in> written_keys WarehouseSchema wv A \<Longrightarrow> k \<noteq> row_prefix HistorySchema (history_row p)"
    by (rule X [OF S(1,4) P(1,4) S(7)])
  show "k \<in> written_keys DistrictSchema dv B \<Longrightarrow> k \<noteq> row_prefix HistorySchema (history_row p)"
    by (rule X [OF S(2,4) P(2,4) S(9)])
  show "k \<in> written_keys CustomerSchema cv C \<Longrightarrow> k \<noteq> row_prefix HistorySchema (history_row p)"
    by (rule X [OF S(3,4) P(3,4) S(10)])
qed

context row_updater
begin

lemma Insert_content:
  assumes "inv s" "kGroupedColumns sc" "Insert sa sc values s = Inr (b, s')"
  shows "content s' = content s"
  using assms(2,3)
  by (auto simp: Insert_def m_bind_def m_lift_Inr r_bind_Inr split: if_splits intro: insert_content [OF assms(1)])

lemma history_insert:
  assumes "inv s" "payment_rows p wv dv cv m" "payment_fits p wv dv cv" "writable s (row_prefix HistorySchema (history_row p))"
  shows "\<exists>s'. Insert sa HistorySchema (history_row p @ [FixedTextScalar 0 t]) s = Inr (True, s') \<and> inv s' \<and> content s' = content s \<and>
    target s' = (target s)(row_prefix HistorySchema (history_row p) \<mapsto> concat (map scalar_bytes (drop 4 (history_row p))))"
proof -
  note H = history_row_key [OF assms(2,3)]
  let ?v = "history_row p @ [FixedTextScalar 0 t]"
  have pre: "row_prefix HistorySchema ?v = row_prefix HistorySchema (history_row p)"
    by (simp add: row_prefix_def schema_facts history_row_def upt_rec)
  have b: "concat (map (\<lambda>i. scalar_bytes (?v ! i)) (non_pkey_columns HistorySchema)) = concat (map scalar_bytes (drop 4 (history_row p)))"
    by (simp add: history_columns history_row_def scalar_bytes_def read_bytes_def)
  have len: "length ?v = kNumColumns HistorySchema" by (simp add: schema_facts history_row_def)
  from Insert_grouped [OF assms(1) schema_facts(4,16) H(1) len history_values [OF H(2)], unfolded pre b, OF _ assms(4)]
  obtain s' where s': "Insert sa HistorySchema ?v s = Inr (True, s')" "inv s'"
    "target s' = (target s)(row_prefix HistorySchema (history_row p) \<mapsto> concat (map scalar_bytes (drop 4 (history_row p))))" by blast
  moreover have "content s' = content s" using Insert_content [OF assms(1) schema_facts(16) s'(1)] .
  ultimately show ?thesis by blast
qed

lemma Update_ytd:
  assumes "inv s" "schema_ok sc" "row_ok sc values" "pkey_ok sc pkey" "take (kPKeySize sc) pkey = take (kPKeySize sc) values"
    and "row_in sc values {column_no sc ''YTD''} (content s)" "\<forall>k \<in> written_keys sc values {column_no sc ''YTD''}. writable s k"
    and "kPKeySize sc \<le> column_no sc ''YTD''" "column_no sc ''YTD'' < kNumColumns sc" "ColumnTypes sc (column_no sc ''YTD'') = INT64" "fits 8 x"
  shows "\<exists>s'. Update sa sc pkey [''YTD''] [Int64Scalar x] s = Inr (True, s') \<and> inv s' \<and> content s' = content s \<and> writable s' = writable s \<and>
    row_in sc (values[column_no sc ''YTD'' := Int64Scalar x]) {column_no sc ''YTD''} (target s') \<and>
    (\<forall>k. k \<notin> written_keys sc values {column_no sc ''YTD''} \<longrightarrow> target s' k = target s k)"
  using Update_row [OF assms(1-5), of "[''YTD'']" "[Int64Scalar x]"] assms(6-11) by simp

lemma Update_customer:
  assumes "inv s" "payment_rows p wv dv cv (content s)" "\<forall>k \<in> written_keys CustomerSchema cv {10, 11, 12, 14}. writable s k"
    and "fits 8 x" "fits 8 y" "fits 2 z"
  shows "\<exists>s'. Update sa CustomerSchema [Int32Scalar (py_c_w_id p), Int8Scalar (py_c_d_id p), Int32Scalar (py_c_id p)]
      [''BALANCE'', ''YTD_PAYMENT'', ''PAYMENT_CNT'', ''DATA''] [Int64Scalar x, Int64Scalar y, Int16Scalar z, cv ! 14] s = Inr (True, s') \<and>
    inv s' \<and> content s' = content s \<and> writable s' = writable s \<and>
    row_in CustomerSchema (cv[10 := Int64Scalar x, 11 := Int64Scalar y, 12 := Int16Scalar z]) {10, 11, 12, 14} (target s') \<and>
    (\<forall>k. k \<notin> written_keys CustomerSchema cv {10, 11, 12, 14} \<longrightarrow> target s' k = target s k)"
proof -
  note R = payment_rowsD [OF assms(2)]
  let ?cols = "[''BALANCE'', ''YTD_PAYMENT'', ''PAYMENT_CNT'', ''DATA'']" and ?vs = "[Int64Scalar x, Int64Scalar y, Int16Scalar z, cv ! 14]"
  have cols: "map (column_no CustomerSchema) ?cols = [10, 11, 12, 14]" "column_no CustomerSchema ` set ?cols = {10, 11, 12, 14}"
    by (simp_all add: column_facts)
  have "scalar_ok (cv ! 14)" "scalar_type (cv ! 14) = FIXED_TEXT 250"
    using typedD(1) [OF row_okD(2) [OF R(9)], of 14] row_type [OF R(9), of 14] by (simp_all add: schema_facts type_facts)
  then have cvs: "column_values CustomerSchema (zip [10, 11, 12, 14] ?vs)" using assms(4-6) by (simp add: schema_facts type_facts)
  have z: "updated (zip [10, 11, 12, 14] ?vs) cv = cv[10 := Int64Scalar x, 11 := Int64Scalar y, 12 := Int16Scalar z]"
    using paid_customer [of "Int64Scalar x" "Int64Scalar y" "Int16Scalar z" cv] by simp
  have r: "row_in CustomerSchema cv {10, 11, 12, 14} (content s)" by (rule row_in_subset [OF R(12)]) simp
  show ?thesis
    by (rule Update_row [OF assms(1) schema_facts(3) R(9-11), of ?cols ?vs, unfolded cols z, OF _ cvs _ r assms(3)]) simp_all
qed

lemma payment_updates:
  assumes "inv s" "payment_rows p wv dv cv (content s)" "payment_fits p wv dv cv" "\<forall>k \<in> payment_keys p wv dv cv. writable s k"
  shows "\<exists>s1 s2 s3. Update sa WarehouseSchema [Int32Scalar (py_w_id p)] [''YTD''] [Int64Scalar (scalar_int (wv ! 4) + py_amount p)] s = Inr (True, s1) \<and>
    Update sa DistrictSchema [Int32Scalar (py_w_id p), Int8Scalar (py_d_id p)] [''YTD''] [Int64Scalar (scalar_int (dv ! 5) + py_amount p)] s1 = Inr (True, s2) \<and>
    Update sa CustomerSchema [Int32Scalar (py_c_w_id p), Int8Scalar (py_c_d_id p), Int32Scalar (py_c_id p)]
      [''BALANCE'', ''YTD_PAYMENT'', ''PAYMENT_CNT'', ''DATA'']
      [Int64Scalar (scalar_int (cv ! 10) - py_amount p), Int64Scalar (scalar_int (cv ! 11) + py_amount p),
       Int16Scalar (wrap_int 2 (scalar_int (cv ! 12) + 1)), cv ! 14] s2 = Inr (True, s3) \<and>
    inv s3 \<and> content s3 = content s \<and> writable s3 = writable s \<and>
    paid p wv dv cv ((target s3)(row_prefix HistorySchema (history_row p) \<mapsto> concat (map scalar_bytes (drop 4 (history_row p))))) \<and>
    (\<forall>k. k \<notin> payment_keys p wv dv cv \<longrightarrow> target s3 k = target s k)"
proof -
  note R = payment_rowsD [OF assms(2)] and F = assms(3) [unfolded payment_fits_def]
  have W: "\<forall>k \<in> written_keys WarehouseSchema wv {4}. writable s k" "\<forall>k \<in> written_keys DistrictSchema dv {5}. writable s k"
    "\<forall>k \<in> written_keys CustomerSchema cv {10, 11, 12, 14}. writable s k" using assms(4) by (auto simp: payment_keys_def)
  from F have f8: "fits 8 (scalar_int (cv ! 10) - py_amount p)" "fits 8 (scalar_int (cv ! 11) + py_amount p)" by simp_all
  let ?w = "Int64Scalar (scalar_int (wv ! 4) + py_amount p)" and ?d = "Int64Scalar (scalar_int (dv ! 5) + py_amount p)"
  let ?h = "row_prefix HistorySchema (history_row p)"
  obtain s1 where s1: "Update sa WarehouseSchema [Int32Scalar (py_w_id p)] [''YTD''] [?w] s = Inr (True, s1)" "inv s1"
    "content s1 = content s" "writable s1 = writable s" "row_in WarehouseSchema (wv[4 := ?w]) {4} (target s1)"
    "\<forall>k. k \<notin> written_keys WarehouseSchema wv {4} \<longrightarrow> target s1 k = target s k"
    using Update_ytd [OF assms(1) schema_facts(1) R(1-3), unfolded column_facts schema_facts type_facts, OF row_in_subset [OF R(4)] W(1)] F by auto
  obtain s2 where s2: "Update sa DistrictSchema [Int32Scalar (py_w_id p), Int8Scalar (py_d_id p)] [''YTD''] [?d] s1 = Inr (True, s2)" "inv s2"
    "content s2 = content s" "writable s2 = writable s" "row_in DistrictSchema (dv[5 := ?d]) {5} (target s2)"
    "\<forall>k. k \<notin> written_keys DistrictSchema dv {5} \<longrightarrow> target s2 k = target s1 k"
    using Update_ytd [OF s1(2) schema_facts(2) R(5-7), unfolded column_facts schema_facts type_facts s1(3,4), OF row_in_subset [OF R(8)] W(2)] F by auto
  obtain s3 where s3: "Update sa CustomerSchema [Int32Scalar (py_c_w_id p), Int8Scalar (py_c_d_id p), Int32Scalar (py_c_id p)]
      [''BALANCE'', ''YTD_PAYMENT'', ''PAYMENT_CNT'', ''DATA'']
      [Int64Scalar (scalar_int (cv ! 10) - py_amount p), Int64Scalar (scalar_int (cv ! 11) + py_amount p),
       Int16Scalar (wrap_int 2 (scalar_int (cv ! 12) + 1)), cv ! 14] s2 = Inr (True, s3)" "inv s3" "content s3 = content s" "writable s3 = writable s"
    "row_in CustomerSchema (cv[10 := Int64Scalar (scalar_int (cv ! 10) - py_amount p),
       11 := Int64Scalar (scalar_int (cv ! 11) + py_amount p), 12 := Int16Scalar (wrap_int 2 (scalar_int (cv ! 12) + 1))]) {10, 11, 12, 14} (target s3)"
    "\<forall>k. k \<notin> written_keys CustomerSchema cv {10, 11, 12, 14} \<longrightarrow> target s3 k = target s2 k"
    using Update_customer [OF s2(2), unfolded s2(3,4), OF assms(2) W(3) f8(1,2) fits_wrap [of 2 "scalar_int (cv ! 12) + 1"]] by auto
  let ?m = "(target s3)(?h \<mapsto> concat (map scalar_bytes (drop 4 (history_row p))))"
  have ws: "?m k = target s1 k" if "k \<in> written_keys WarehouseSchema wv {4}" for k
    using s2(6) s3(6) payment_disjoint(1-3) [OF assms(2,3)] that by auto
  have ds: "?m k = target s2 k" if "k \<in> written_keys DistrictSchema dv {5}" for k
    using s3(6) payment_disjoint(4,5) [OF assms(2,3)] that by auto
  have cs: "?m k = target s3 k" if "k \<in> written_keys CustomerSchema cv {10, 11, 12, 14}" for k
    using payment_disjoint(6) [OF assms(2,3)] that by auto
  have "paid p wv dv cv ?m"
    unfolding paid_def
    using row_in_frame [OF s1(5)] ws row_in_frame [OF s2(5)] ds row_in_frame [OF s3(5)] cs
    by (simp add: payment_written [OF assms(2,3)])
  moreover have "target s3 k = target s k" if "k \<notin> payment_keys p wv dv cv" for k
    using s1(6) s2(6) s3(6) that by (simp add: payment_keys_def)
  ultimately show ?thesis using s1(1) s2(1) s3(1-4) by blast
qed

lemma Payment_ok:
  assumes "inv s" "payment_rows p wv dv cv (content s)" "payment_fits p wv dv cv" "\<forall>k \<in> payment_keys p wv dv cv. writable s k"
  shows "\<exists>s'. TPCCTransaction_Execute (Payment_Read sa) Payment_Compute (Payment_Write sa) p s = Inr ((True, []), s') \<and>
    inv s' \<and> content s' = content s \<and> paid p wv dv cv (target s') \<and>
    (\<forall>k. k \<notin> payment_keys p wv dv cv \<longrightarrow> target s' k = target s k)"
proof -
  from Payment_Compute_ok [OF assms(3)] obtain p2 t where
    p2: "Payment_Compute (payment_read wv dv cv p) = Inr p2"
      "py_new_w_ytd p2 = scalar_int (wv ! 4) + py_amount p" "py_new_d_ytd p2 = scalar_int (dv ! 5) + py_amount p"
      "py_new_c_balance p2 = scalar_int (cv ! 10) - py_amount p" "py_new_c_ytd_payment p2 = scalar_int (cv ! 11) + py_amount p"
      "py_new_c_payment_cnt p2 = wrap_int 2 (scalar_int (cv ! 12) + 1)" "py_c_data p2 = cv ! 14"
      "py_new_h_data p2 = FixedTextScalar 0 t" and h: "history_row p2 = history_row p" by auto
  from h have ids: "py_w_id p2 = py_w_id p" "py_d_id p2 = py_d_id p" "py_c_w_id p2 = py_c_w_id p" "py_c_d_id p2 = py_c_d_id p"
    "py_c_id p2 = py_c_id p" by (simp_all add: history_row_def)
  obtain s1 s2 s3 where U: "Update sa WarehouseSchema [Int32Scalar (py_w_id p2)] [''YTD''] [Int64Scalar (py_new_w_ytd p2)] s = Inr (True, s1)"
    "Update sa DistrictSchema [Int32Scalar (py_w_id p2), Int8Scalar (py_d_id p2)] [''YTD''] [Int64Scalar (py_new_d_ytd p2)] s1 = Inr (True, s2)"
    "Update sa CustomerSchema [Int32Scalar (py_c_w_id p2), Int8Scalar (py_c_d_id p2), Int32Scalar (py_c_id p2)]
      [''BALANCE'', ''YTD_PAYMENT'', ''PAYMENT_CNT'', ''DATA'']
      [Int64Scalar (py_new_c_balance p2), Int64Scalar (py_new_c_ytd_payment p2), Int16Scalar (py_new_c_payment_cnt p2), py_c_data p2] s2 = Inr (True, s3)"
    and s3: "inv s3" "content s3 = content s" "writable s3 = writable s"
    "paid p wv dv cv ((target s3)(row_prefix HistorySchema (history_row p) \<mapsto> concat (map scalar_bytes (drop 4 (history_row p)))))"
    "\<forall>k. k \<notin> payment_keys p wv dv cv \<longrightarrow> target s3 k = target s k"
    using payment_updates [OF assms] unfolding p2(2-7) ids by blast
  have "writable s3 (row_prefix HistorySchema (history_row p))" using assms(4) s3(3) by (simp add: payment_keys_def)
  from history_insert [OF s3(1) assms(2,3) this, of t] obtain s4 where
    s4: "Insert sa HistorySchema (history_row p2 @ [py_new_h_data p2]) s3 = Inr (True, s4)" "inv s4" "content s4 = content s3"
    "target s4 = (target s3)(row_prefix HistorySchema (history_row p) \<mapsto> concat (map scalar_bytes (drop 4 (history_row p))))"
    unfolding h p2(8) by blast
  have "Payment_Write sa ([], p2) s = Inr ((True, [], p2), s4)"
    using U s4(1) unfolding Payment_Write_def history_row_def by (simp add: must_def m_bind_def)
  then have "TPCCTransaction_Execute (Payment_Read sa) Payment_Compute (Payment_Write sa) p s = Inr ((True, []), s4)"
    by (simp add: TPCCTransaction_Execute_def m_bind_def Payment_Read_ok [OF assms(1,2)] p2(1))
  moreover have "target s4 k = target s k" if "k \<notin> payment_keys p wv dv cv" for k
    using s3(5) s4(4) that by (simp add: payment_keys_def)
  ultimately show ?thesis using s4(2-4) s3(2,4) by auto
qed

end

end
