(* ===== verification/Tpcc_Properties.thy ===== *)
theory Tpcc_Properties
  imports Tpcc_Payment
begin

text \<open>
  The TPC-C tables and transactions on the storage adapters of the source: where the rows of a warehouse are stored,
  the round trip of the loader, and the effect of a payment.
\<close>

section \<open>Keys of rows\<close>

lemma le_bytes_le_bytes32: "le_bytes 4 (int w) = le_bytes32 w"
proof -
  have 4: "(4::nat) = Suc (Suc (Suc (Suc 0)))" by simp
  have d: "int w div 256 = int (w div 256)" "int w mod 256 = int (w mod 256)" for w by (simp_all add: zdiv_int zmod_int)
  show ?thesis unfolding 4 by (simp add: le_bytes32_def d div_mult2_eq [symmetric])
qed

text \<open>C24. The storage keys of the TPC-C tables identify table, row and column: \<^verbatim>\<open>MakeStorageKey\<close> always succeeds on a
  well-typed primary key, and when the keys of two rows agree after appending any column suffixes, as
  \<^verbatim>\<open>MakeStorageKeys\<close> does, then the tables, the primary keys and the suffixes are the same.\<close>

theorem tpcc_keys_identify_rows:
  assumes "sc \<in> set tpcc_schemas" "sc' \<in> set tpcc_schemas" "pkey_ok sc p" "pkey_ok sc' p'"
  shows "\<exists>k k'. MakeStorageKey sc p = Inr k \<and> MakeStorageKey sc' p' = Inr k' \<and> MakeStorageKeys sc p [c] = Inr [k @ [char_of c]] \<and>
    (k @ cs = k' @ cs' \<longleftrightarrow> sc = sc' \<and> take (kPKeySize sc) p = take (kPKeySize sc) p' \<and> cs = cs')"
proof -
  note ok = tpcc_schemas_ok [OF assms(1)] tpcc_schemas_ok [OF assms(2)]
  have "row_prefix sc p @ cs = row_prefix sc' p' @ cs' \<longleftrightarrow> sc = sc' \<and> take (kPKeySize sc) p = take (kPKeySize sc) p' \<and> cs = cs'"
    using row_prefix_inject [OF assms, of cs cs'] row_prefix_take [OF ok(1), of p] row_prefix_take [OF ok(1), of p'] by auto
  then show ?thesis by (simp add: MakeStorageKey_def MakeStorageKeys_def row_key_eq [OF ok(1) assms(3)] row_key_eq [OF ok(2) assms(4)])
qed

theorem tpcc_keys_identify_rows_witness:
  "\<exists>k k'. MakeStorageKey DistrictSchema [Int32Scalar 1, Int8Scalar 2] = Inr k \<and>
     MakeStorageKey StockSchema [Int32Scalar 1, Int32Scalar 2] = Inr k' \<and> k @ [char_of (5::nat)] \<noteq> k' @ []"
proof -
  have "DistrictSchema \<in> set tpcc_schemas" "StockSchema \<in> set tpcc_schemas" "pkey_ok DistrictSchema [Int32Scalar 1, Int8Scalar 2]"
    "pkey_ok StockSchema [Int32Scalar 1, Int32Scalar 2]" "DistrictSchema \<noteq> StockSchema"
    by (simp_all add: tpcc_schemas_def DistrictSchema_def StockSchema_def) code_simp+
  from tpcc_keys_identify_rows [OF this(1-4), of 5 "[char_of (5::nat)]" "[]"] this(5) show ?thesis by blast
qed

text \<open>C26. All keys of the rows of a warehouse have the partition \<open>(w - 1) mod np\<close> and the home region
  \<open>((w - 1) div np) mod nr\<close>, for every table and column.\<close>

theorem tpcc_rows_follow_warehouse:
  assumes "sc \<in> set tpcc_schemas" "pkey_ok sc p" "p ! 0 = Int32Scalar (int w)" "1 \<le> w" "w < 2 ^ 31" "0 < np" "np < 2 ^ 32" "0 < nr"
    and "MakeStorageKey sc p = Inr k"
  shows "TPCCSharder_compute_partition np (k @ suffix) = Inr ((w - 1) mod np) \<and>
    TPCCMetadataInitializer_Compute nr np (k @ suffix) = Inr \<lparr>master = ((w - 1) div np) mod nr, counter = 0\<rparr>"
proof -
  have "row_prefix sc p = k" using row_key_eq [OF tpcc_schemas_ok [OF assms(1)] assms(2)] assms(9) by (simp add: MakeStorageKey_def)
  moreover have "scalar_bytes (p ! 0) = le_bytes32 w" by (simp add: assms(3) scalar_bytes_def le_bytes_le_bytes32)
  ultimately obtain rest where "k @ suffix = le_bytes32 w @ rest" by (auto simp: row_prefix_def)
  with tpcc_partition_of_warehouse [OF assms(6,7,4,5)] tpcc_home_of_warehouse [OF assms(6,8,4)] assms(5) show ?thesis by simp
qed

theorem tpcc_rows_follow_warehouse_witness:
  "TPCCSharder_compute_partition 2 ([CHR 0x04, CHR 0x00, CHR 0x00, CHR 0x00, CHR 0x01, CHR 0x07] @ [CHR 0x05]) = Inr ((4 - 1) mod 2) \<and>
    TPCCMetadataInitializer_Compute 3 2 ([CHR 0x04, CHR 0x00, CHR 0x00, CHR 0x00, CHR 0x01, CHR 0x07] @ [CHR 0x05]) =
      Inr \<lparr>master = ((4 - 1) div 2) mod 3, counter = 0\<rparr>"
proof (rule tpcc_rows_follow_warehouse)
  show "DistrictSchema \<in> set tpcc_schemas" by (simp add: tpcc_schemas_def)
  show "pkey_ok DistrictSchema [Int32Scalar 4, Int8Scalar 7]" by code_simp
  show "MakeStorageKey DistrictSchema [Int32Scalar 4, Int8Scalar 7] = Inr [CHR 0x04, CHR 0x00, CHR 0x00, CHR 0x00, CHR 0x01, CHR 0x07]"
    by code_simp
qed simp_all

section \<open>Loading and reading\<close>

text \<open>C19. A row that \<^verbatim>\<open>Insert\<close> puts into a partition through \<^verbatim>\<open>KVStorageAdapter\<close> is what \<^verbatim>\<open>Select\<close> returns for
  its primary key, for all columns asked for as long as one is outside the key; the values of other keys do not change.\<close>

theorem tpcc_insert_select:
  assumes "sc \<in> set tpcc_schemas" "row_ok sc values" "0 < nr" "0 < np"
    and "set cols \<subseteq> fst ` set (Columns sc)" "\<exists>c \<in> set cols. kPKeySize sc \<le> column_no sc c"
  shows "\<exists>st'. Insert (KVStorageAdapter (TPCCMetadataInitializer_Compute nr np)) sc values st = Inr (True, st') \<and>
    Select (KVStorageAdapter (TPCCMetadataInitializer_Compute nr np)) sc (take (kPKeySize sc) values) cols st' =
      Inr (map (\<lambda>c. values ! column_no sc c) cols, st') \<and>
    (\<forall>k. k \<notin> storage_keys sc values \<longrightarrow> map_option rec_value (st' k) = map_option rec_value (st k))"
proof -
  let ?init = "TPCCMetadataInitializer_Compute nr np" and ?v = "\<lambda>st k. map_option rec_value (st k)"
  note ok = tpcc_schemas_ok [OF assms(1)] and key = row_okD(1) [OF assms(2) tpcc_schemas_ok [OF assms(1)]]
  have "length (scalar_bytes (values ! 0)) = 4"
    using typedD(5) [OF key schema_okD(1) [OF ok]] by (simp add: schema_okD(4) [OF ok])
  then have "4 \<le> length k" if "k \<in> storage_keys sc values" for k
    using storage_keys_prefix [OF that] by (auto simp: row_prefix_def)
  then have "\<forall>k \<in> storage_keys sc values. \<exists>m. ?init k = Inr m"
    using assms(3,4) by (auto simp: TPCCMetadataInitializer_Compute_def not_less)
  from kv_rows.Insert_row [OF TrueI ok assms(2) this] obtain st' where
    st': "Insert (KVStorageAdapter ?init) sc values st = Inr (True, st')" "?v st' = ?v st ++ row_image sc values" by blast
  have "column_no sc ` set cols \<subseteq> {0..<kNumColumns sc}" using assms(5) by (auto intro!: column_no_less)
  then have "row_in sc values (column_no sc ` set cols) (?v st')"
    using row_in_subset row_image_in [OF ok assms(2), of "?v st"] st'(2) by metis
  from kv_rows.Select_row [OF TrueI ok assms(2) typed_take [OF key] _ this assms(5,6)]
  have "Select (KVStorageAdapter ?init) sc (take (kPKeySize sc) values) cols st' = Inr (map (\<lambda>c. values ! column_no sc c) cols, st')" by simp
  moreover have "?v st' k = ?v st k" if "k \<notin> storage_keys sc values" for k
  proof -
    have "k \<notin> dom (row_image sc values)" using dom_row_image [of sc "values"] that by blast
    with fun_cong [OF st'(2), of k] show ?thesis by (simp add: map_add_dom_app_simps)
  qed
  ultimately show ?thesis using st'(1) by blast
qed

theorem tpcc_insert_select_witness:
  "\<exists>st'. Insert (KVStorageAdapter (TPCCMetadataInitializer_Compute 2 2)) NewOrderSchema
       [Int32Scalar 1, Int8Scalar 2, Int32Scalar 3, Int8Scalar 0] Map.empty = Inr (True, st') \<and>
     Select (KVStorageAdapter (TPCCMetadataInitializer_Compute 2 2)) NewOrderSchema [Int32Scalar 1, Int8Scalar 2, Int32Scalar 3]
       [''O_ID'', ''DUMMY''] st' = Inr ([Int32Scalar 3, Int8Scalar 0], st')"
proof -
  let ?v = "[Int32Scalar 1, Int8Scalar 2, Int32Scalar 3, Int8Scalar 0]"
  have "NewOrderSchema \<in> set tpcc_schemas" by (simp add: tpcc_schemas_def)
  moreover have "row_ok NewOrderSchema ?v" "set [''O_ID'', ''DUMMY''] \<subseteq> fst ` set (Columns NewOrderSchema)"
    "\<exists>c \<in> set [''O_ID'', ''DUMMY'']. kPKeySize NewOrderSchema \<le> column_no NewOrderSchema c" by code_simp+
  moreover have "take (kPKeySize NewOrderSchema) ?v = [Int32Scalar 1, Int8Scalar 2, Int32Scalar 3]"
    "map (\<lambda>c. ?v ! column_no NewOrderSchema c) [''O_ID'', ''DUMMY''] = [Int32Scalar 3, Int8Scalar 0]" by code_simp+
  ultimately show ?thesis
    using tpcc_insert_select [of NewOrderSchema ?v 2 2 "[''O_ID'', ''DUMMY'']" Map.empty] by auto
qed

section \<open>Transactions\<close>

lemma txn_key_index_map:
  assumes "distinct (map kv_key kvs)" "\<forall>kv \<in> set kvs. kv_key kv \<notin> fst ` set ix"
  shows "txn_key_index kvs i ix = ix @ zip (map kv_key kvs) [i..<i + length kvs]"
  using assms
proof (induction kvs i ix rule: txn_key_index.induct)
  case (2 kv kvs i ix)
  have "map_of ix (kv_key kv) = None" using "2.prems"(2) by (auto simp: map_of_eq_None_iff)
  moreover have "\<forall>kv' \<in> set kvs. kv_key kv' \<noteq> kv_key kv" using "2.prems"(1) by (metis distinct.simps(2) image_eqI list.simps(9) set_map)
  ultimately have "txn_key_index (kv # kvs) i ix = (ix @ [(kv_key kv, i)]) @ zip (map kv_key kvs) [Suc i..<Suc i + length kvs]"
    using "2.IH" "2.prems" by (simp del: upt_Suc)
  moreover have "[i..<i + length (kv # kvs)] = i # [Suc i..<Suc i + length kvs]" by (simp add: upt_conv_Cons del: upt_Suc)
  ultimately show ?case by (simp del: upt_Suc)
qed simp

lemma ta_ok_TxnStorageAdapter: "distinct (map kv_key (keys txn)) \<Longrightarrow> ta_ok (TxnStorageAdapter txn)"
proof -
  assume d: "distinct (map kv_key (keys txn))"
  have ix: "ta_key_index (TxnStorageAdapter txn) = zip (map kv_key (keys txn)) [0..<length (keys txn)]"
    using txn_key_index_map [OF d, of "[]" 0] by (simp add: TxnStorageAdapter_def)
  have "i < length (keys txn) \<and> kv_key (keys txn ! i) = k" if "map_of (ta_key_index (TxnStorageAdapter txn)) k = Some i" for k i
    using map_of_SomeD [OF that] unfolding ix by (auto simp: in_set_zip)
  then show ?thesis by (simp add: ta_ok_def ix) (simp add: TxnStorageAdapter_def)
qed

text \<open>C18. A payment on a transaction that holds the columns in use of its warehouse, district and customer and may write
  what it changes succeeds: the warehouse and the district gain the amount, the balance of the customer loses it, the
  payments of the customer gain it, the payment counter goes up by one, the history row is added without its text, and
  nothing else is written.\<close>

theorem payment_effect:
  assumes "distinct (map kv_key (keys txn))" "payment_rows p wv dv cv (ta_content (TxnStorageAdapter txn))" "payment_fits p wv dv cv"
    and "\<forall>k \<in> payment_keys p wv dv cv. ta_writable (TxnStorageAdapter txn) k"
  shows "\<exists>a. TPCCTransaction_Execute (Payment_Read txn_storage_adapter) Payment_Compute (Payment_Write txn_storage_adapter) p
      (TxnStorageAdapter txn) = Inr ((True, []), a) \<and>
    paid p wv dv cv (ta_target a) \<and> ta_content a = ta_content (TxnStorageAdapter txn) \<and>
    (\<forall>k. k \<notin> payment_keys p wv dv cv \<longrightarrow> ta_target a k = ta_target (TxnStorageAdapter txn) k)"
  using txn_rows.Payment_ok [OF ta_ok_TxnStorageAdapter [OF assms(1)] assms(2-4)] by blast

definition pay_w :: "scalar list" where
  "pay_w = [Int32Scalar 1, FixedTextScalar 10 (replicate 10 CHR ''w''), FixedTextScalar 71 (replicate 71 CHR ''a''), Int32Scalar 5, Int64Scalar 1000]"

definition pay_d :: "scalar list" where
  "pay_d = [Int32Scalar 1, Int8Scalar 2, FixedTextScalar 10 (replicate 10 CHR ''d''), FixedTextScalar 71 (replicate 71 CHR ''b''),
     Int32Scalar 5, Int64Scalar 100, Int32Scalar 3001]"

definition pay_c :: "scalar list" where
  "pay_c = [Int32Scalar 1, Int8Scalar 2, Int32Scalar 7, FixedTextScalar 34 (replicate 34 CHR ''n''), FixedTextScalar 71 (replicate 71 CHR ''c''),
     FixedTextScalar 16 (replicate 16 CHR ''0''), Int64Scalar 1234, FixedTextScalar 2 ''GC'', Int64Scalar 50000, Int32Scalar 9,
     Int64Scalar 40, Int64Scalar 10, Int16Scalar 1, Int16Scalar 0, FixedTextScalar 250 (replicate 250 CHR ''t'')]"

definition column_entry :: "schema \<Rightarrow> scalar list \<Rightarrow> key_type \<Rightarrow> nat \<Rightarrow> key_value" where
  "column_entry sc values t i = \<lparr>kv_key = row_prefix sc values @ [char_of i],
     kv_entry = \<lparr>ve_value = scalar_bytes (values ! i), ve_new_value = [], ve_type = t, ve_metadata = None\<rparr>\<rparr>"

definition pay_txn :: "payment_txn" where
  "pay_txn = PaymentTxn 1 2 1 2 7 25 99 4"

definition pay_keys :: "key_value list" where
  "pay_keys = map (column_entry WarehouseSchema pay_w READ) [1, 2] @ [column_entry WarehouseSchema pay_w WRITE 4] @
     map (column_entry DistrictSchema pay_d READ) [2, 3] @ [column_entry DistrictSchema pay_d WRITE 5] @
     map (column_entry CustomerSchema pay_c READ) [3, 4, 5, 6, 7, 8, 9] @ map (column_entry CustomerSchema pay_c WRITE) [10, 11, 12, 14] @
     [\<lparr>kv_key = row_prefix HistorySchema (history_row pay_txn),
       kv_entry = \<lparr>ve_value = [], ve_new_value = [], ve_type = WRITE, ve_metadata = None\<rparr>\<rparr>]"

theorem payment_effect_witness:
  "\<exists>a. TPCCTransaction_Execute (Payment_Read txn_storage_adapter) Payment_Compute (Payment_Write txn_storage_adapter) pay_txn
      (TxnStorageAdapter (mk_txn 1 SINGLE_HOME 0 (Code []) pay_keys)) = Inr ((True, []), a) \<and> paid pay_txn pay_w pay_d pay_c (ta_target a)"
proof -
  let ?t = "mk_txn 1 SINGLE_HOME 0 (Code []) pay_keys"
  have "distinct (map kv_key (keys ?t))" by code_simp
  moreover have "payment_rows pay_txn pay_w pay_d pay_c (ta_content (TxnStorageAdapter ?t))" by code_simp
  moreover have "payment_fits pay_txn pay_w pay_d pay_c" by code_simp
  moreover have "\<forall>k \<in> payment_keys pay_txn pay_w pay_d pay_c. ta_writable (TxnStorageAdapter ?t) k" by code_simp
  ultimately show ?thesis using payment_effect [of ?t pay_txn pay_w pay_d pay_c] by blast
qed

text \<open>C39. An update of a key restarts from the value that was read and not from the value written before: of two updates
  of the same key by one transaction, as by two order lines for the same item, only the second one is kept.\<close>

theorem second_update_discards_first:
  assumes "ta_ok a" "ta_writable a k" "ta_content a k = Some v" "v \<noteq> []" "f v = Inr v1" "g v = Inr v2"
  shows "\<exists>a'. m_bind (sa_Update txn_storage_adapter k f) (\<lambda>_. sa_Update txn_storage_adapter k g) a = Inr (True, a') \<and>
    ta_target a' k = Some v2"
proof -
  obtain a1 where a1: "sa_Update txn_storage_adapter k f a = Inr (True, a1)" "ta_ok a1" "ta_writable a1 = ta_writable a" "ta_content a1 = ta_content a"
    using txn_rows.update [where f = f, OF assms(1-5)] by blast
  with assms(2,3) have "ta_writable a1 k" "ta_content a1 k = Some v" by simp_all
  from txn_rows.update [where f = g, OF a1(2) this assms(4,6)] a1(1) show ?thesis by (auto simp: m_bind_def)
qed

theorem second_update_discards_first_witness:
  "\<exists>a'. m_bind (sa_Update txn_storage_adapter ''S'' (\<lambda>v. Inr (''1'' @ v))) (\<lambda>_. sa_Update txn_storage_adapter ''S'' (\<lambda>v. Inr (''2'' @ v)))
      (TxnStorageAdapter (mk_txn 1 SINGLE_HOME 0 (Code []) [\<lparr>kv_key = ''S'',
        kv_entry = \<lparr>ve_value = ''q'', ve_new_value = [], ve_type = WRITE, ve_metadata = None\<rparr>\<rparr>])) = Inr (True, a') \<and>
    ta_target a' ''S'' = Some ''2q''"
proof -
  let ?t = "mk_txn 1 SINGLE_HOME 0 (Code []) [\<lparr>kv_key = ''S'',
     kv_entry = \<lparr>ve_value = ''q'', ve_new_value = [], ve_type = WRITE, ve_metadata = None\<rparr>\<rparr>]"
  have "ta_ok (TxnStorageAdapter ?t)" by (rule ta_ok_TxnStorageAdapter) code_simp
  moreover have "ta_writable (TxnStorageAdapter ?t) ''S''" "ta_content (TxnStorageAdapter ?t) ''S'' = Some ''q''" by code_simp+
  ultimately show ?thesis
    by (rule second_update_discards_first [where f = "\<lambda>v. Inr (''1'' @ v)" and g = "\<lambda>v. Inr (''2'' @ v)"]) simp_all
qed

end
