(* ===== verification/Tpcc_Types.thy ===== *)
theory Tpcc_Types
  imports Tpcc_Rows "HOL-Library.Sublist"
begin

text \<open>
  Typing of the operations of \<^verbatim>\<open>execution/tpcc/table.h\<close>: whatever bytes the storage holds, a selection only returns values
  of the types that the schema declares for the columns.
\<close>

definition has_type :: "data_type \<Rightarrow> scalar \<Rightarrow> bool" where
  "has_type ty x \<longleftrightarrow> scalar_ok x \<and> scalar_type x = ty"

lemma m_bind_eq_Inr: "m_bind m f s = Inr r \<longleftrightarrow> (\<exists>x s'. m s = Inr (x, s') \<and> f x s' = Inr r)"
  by (auto simp: m_bind_def r_bind_Inr)

lemma m_lift_eq_Inr: "m_lift r s = Inr (x, s') \<longleftrightarrow> r = Inr x \<and> s' = s"
  by (cases r) auto

lemma le_nat_less: "le_nat s < 256 ^ length s"
proof (induction s)
  case (Cons c s)
  have "of_char c < (256::nat)" by simp
  then have "of_char c + 256 * le_nat s < 256 * (1 + le_nat s)" by simp
  also have "\<dots> \<le> 256 * 256 ^ length s" using Cons by (intro mult_le_mono) simp_all
  finally show ?case by simp
qed simp

lemma signed_of_fits:
  assumes "0 < n" "v < 256 ^ n"
  shows "fits n (signed_of n v)"
proof -
  have h: "2 * (2::int) ^ (8 * n - 1) = 2 ^ (8 * n)" using assms(1) by (simp flip: power_Suc)
  have "(256::nat) ^ n = 2 ^ (8 * n)" by (simp add: power_mult)
  with assms(2) have "int v < int (2 ^ (8 * n))" by (metis of_nat_less_iff)
  then have v: "int v < 2 ^ (8 * n)" by simp
  have hn: "v < 2 ^ (8 * n - 1) \<longleftrightarrow> int v < 2 ^ (8 * n - 1)" by (metis of_nat_less_iff of_nat_numeral of_nat_power)
  show ?thesis
  proof (cases "v < 2 ^ (8 * n - 1)")
    case True
    moreover have "(0::int) \<le> 2 ^ (8 * n - 1)" by simp
    ultimately show ?thesis using hn unfolding fits_def signed_of_def if_P [OF True] by linarith
  next
    case False
    then have "\<not> int v < 2 ^ (8 * n - 1)" using hn by blast
    with v h show ?thesis unfolding fits_def signed_of_def if_not_P [OF False] by linarith
  qed
qed

lemma MakeScalar_type:
  assumes "MakeScalar ty mem = Inr x"
  shows "has_type ty x"
proof -
  from assms have len: "type_size ty \<le> length mem" by (auto simp: MakeScalar_def read_bytes_def split: if_splits)
  let ?s = "take (type_size ty) mem"
  have s: "length ?s = type_size ty" using len by simp
  have "fits (type_size ty) (signed_of (type_size ty) (le_nat ?s))" if "0 < type_size ty"
    using that le_nat_less [of ?s, unfolded s] by (rule signed_of_fits)
  with assms len s show ?thesis
    by (cases ty) (auto simp: MakeScalar_def read_bytes_def has_type_def MakeFixedTextScalar_def)
qed

lemma pkey_type: "pkey_ok sc pkey \<Longrightarrow> c < kPKeySize sc \<Longrightarrow> has_type (ColumnTypes sc c) (pkey ! c)"
  using typedD [of sc "kPKeySize sc" pkey c] by (simp add: has_type_def)

lemma read_columns_types:
  assumes "pkey_ok sc pkey"
  shows "read_columns sa sc pkey cks s = Inr ((xs, found), s') \<Longrightarrow>
    \<exists>cs. subseq cs (map fst cks) \<and> list_all2 (\<lambda>c. has_type (ColumnTypes sc c)) cs xs"
proof (induction cks arbitrary: s xs found s')
  case (Cons ck cks)
  obtain col k where ck: "ck = (col, k)" by (cases ck)
  have IH: "\<exists>cs. subseq cs (map fst cks) \<and> list_all2 (\<lambda>c. has_type (ColumnTypes sc c)) cs ys"
    if "read_columns sa sc pkey cks s1 = Inr ((ys, f), s2)" for s1 ys f s2 using that by (rule Cons.IH)
  have keep: ?case if "has_type (ColumnTypes sc col) x" "xs = x # ys"
    "\<exists>cs. subseq cs (map fst cks) \<and> list_all2 (\<lambda>c. has_type (ColumnTypes sc c)) cs ys" for x ys
  proof -
    from that(3) obtain cs where "subseq cs (map fst cks)" "list_all2 (\<lambda>c. has_type (ColumnTypes sc c)) cs ys" by blast
    with that(1,2) ck show ?thesis by (intro exI [of _ "col # cs"]) simp
  qed
  show ?case
  proof (cases "col < kPKeySize sc")
    case True
    with Cons.prems ck obtain ys f s2 where ys: "read_columns sa sc pkey cks s = Inr ((ys, f), s2)" "xs = pkey ! col # ys"
      by (auto simp: m_bind_def r_bind_Inr)
    show ?thesis by (rule keep [OF pkey_type [OF assms True] ys(2) IH [OF ys(1)]])
  next
    case False
    with Cons.prems ck obtain v s1 where v: "sa_Read sa k s = Inr (v, s1)" by (auto simp: m_bind_def r_bind_Inr)
    show ?thesis
    proof (cases "v = None \<or> v = Some []")
      case True
      with False Cons.prems ck v have "read_columns sa sc pkey cks s1 = Inr ((xs, found), s')"
        by (auto simp: m_bind_def)
      with IH obtain cs where "subseq cs (map fst cks)" "list_all2 (\<lambda>c. has_type (ColumnTypes sc c)) cs xs" by blast
      with ck show ?thesis by (intro exI [of _ cs]) (simp add: list_emb_Cons)
    next
      case v': False
      with False Cons.prems ck v obtain x s2 ys f s3 where ys: "MakeScalar (ColumnTypes sc col) (c_mem (the v)) = Inr x"
        "read_columns sa sc pkey cks s2 = Inr ((ys, f), s3)" "xs = x # ys"
        by (auto simp: m_bind_eq_Inr m_lift_eq_Inr) blast
      show ?thesis by (rule keep [OF MakeScalar_type [OF ys(1)] ys(3) IH [OF ys(2)]])
    qed
  qed
qed simp

lemma r_map_types:
  assumes "\<And>i x. i \<in> set js \<Longrightarrow> f i = Inr x \<Longrightarrow> P i x"
  shows "r_map f js = Inr xs \<Longrightarrow> list_all2 P js xs"
  using assms by (induction js arbitrary: xs) (auto simp: r_bind_Inr)

lemma subseq_map_ex: "subseq js (map f xs) \<Longrightarrow> \<exists>ys. subseq ys xs \<and> js = map f ys"
proof (induction xs arbitrary: js)
  case (Cons x xs)
  show ?case
  proof (cases js)
    case js: (Cons j js')
    show ?thesis
    proof (cases "j = f x")
      case True
      with Cons.prems js have "subseq js' (map f xs)" by simp
      with Cons.IH obtain ys where "subseq ys xs" "js' = map f ys" by blast
      with True js show ?thesis by (intro exI [of _ "x # ys"]) simp
    next
      case False
      with Cons.prems js have "subseq js (map f xs)" by simp
      with Cons.IH obtain ys where "subseq ys xs" "js = map f ys" by blast
      then show ?thesis by (intro exI [of _ ys]) (simp add: list_emb_Cons)
    qed
  qed (auto intro: exI [of _ "[]"])
qed (auto intro: exI [of _ "[]"])

lemma Select_types:
  assumes key: "pkey_ok sc pkey" and "cols \<noteq> []" and sel: "Select sa sc pkey cols s = Inr (xs, s')"
  shows "\<exists>cs. subseq cs cols \<and> list_all2 (\<lambda>c. has_type (ColumnTypes sc (column_no sc c))) cs xs \<and>
    (kGroupedColumns sc \<longrightarrow> cs = [] \<or> cs = cols)"
proof (cases "kGroupedColumns sc")
  case True
  let ?f = "\<lambda>v i. if i < kPKeySize sc then Inr (pkey ! i) else stored_column sc v i"
  from sel True assms(2) obtain k v s1 where
    v: "(case v of None \<Rightarrow> m_return [] | Some w \<Rightarrow> m_lift (r_map (?f w) (map (column_no sc) cols))) s1 = Inr (xs, s')"
    by (auto simp: Select_def SelectGrouped_def m_bind_eq_Inr)
  then have "v = None \<and> xs = [] \<or> (\<exists>w. v = Some w \<and> r_map (?f w) (map (column_no sc) cols) = Inr xs)"
    by (cases v) (simp_all add: m_lift_eq_Inr)
  then show ?thesis
  proof
    assume "\<exists>w. v = Some w \<and> r_map (?f w) (map (column_no sc) cols) = Inr xs"
    then obtain w where "r_map (?f w) (map (column_no sc) cols) = Inr xs" by blast
    then have "list_all2 (\<lambda>i. has_type (ColumnTypes sc i)) (map (column_no sc) cols) xs"
      by (rule r_map_types [rotated])
        (auto simp: stored_column_def pkey_type [OF key] intro: MakeScalar_type split: if_splits)
    then show ?thesis by (intro exI [of _ cols]) (simp add: list_all2_map1)
  qed (auto intro: exI [of _ "[]"])
next
  case False
  from sel False assms(2) obtain ks s1 ys found s2 where
    ks: "MakeStorageKeys sc pkey (map (column_no sc) cols) = Inr ks"
    "read_columns sa sc pkey (zip (map (column_no sc) cols) ks) s1 = Inr ((ys, found), s2)" "xs = (if found then ys else [])"
    by (auto simp: Select_def SelectUngrouped_def m_bind_eq_Inr m_lift_eq_Inr)
  from ks(1) assms(2) have "length ks = length cols" by (auto simp: MakeStorageKeys_def r_bind_Inr)
  then have "map fst (zip (map (column_no sc) cols) ks) = map (column_no sc) cols" by simp
  with read_columns_types [OF key ks(2)] obtain js where
    "subseq js (map (column_no sc) cols)" "list_all2 (\<lambda>c. has_type (ColumnTypes sc c)) js ys" by auto
  then obtain cs where "subseq cs cols" "js = map (column_no sc) cs" by (metis subseq_map_ex)
  with \<open>list_all2 _ js ys\<close> ks(3) False show ?thesis
    by (cases found) (auto simp: list_all2_map1 intro: exI [of _ cs] exI [of _ "[]"])
qed

section \<open>Selections are well typed\<close>

text \<open>C23. Selections are well typed on every adapter and whatever bytes it holds: the values that \<^verbatim>\<open>Select\<close> returns for a well-typed
  primary key are those of some of the requested columns, in their order, each a value of the type and width that the
  schema declares. A table that groups its columns returns all requested columns or none.\<close>

theorem tpcc_select_types:
  assumes "pkey_ok sc pkey" "cols \<noteq> []" "Select sa sc pkey cols s = Inr (xs, s')"
  shows "\<exists>cs. subseq cs cols \<and> list_all2 (\<lambda>c. has_type (ColumnTypes sc (column_no sc c))) cs xs \<and>
    (kGroupedColumns sc \<longrightarrow> cs = [] \<or> cs = cols)"
  using assms by (rule Select_types)

text \<open>A warehouse of which only the tax rate is stored.\<close>

definition tax_only :: storage where
  "tax_only = [[CHR 0x01, CHR 0x00, CHR 0x00, CHR 0x00, CHR 0x00, CHR 0x03] \<mapsto>
     \<lparr>rec_value = [CHR 0xFF, CHR 0xFF, CHR 0xFF, CHR 0xFF], rec_metadata = \<lparr>master = 0, counter = 0\<rparr>\<rparr>]"

theorem tpcc_select_types_witness:
  "map_sum id fst (Select (KVStorageAdapter (TPCCMetadataInitializer_Compute 1 1)) WarehouseSchema [Int32Scalar 1] [''NAME'', ''TAX''] tax_only) =
     Inr [Int32Scalar (- 1)] \<and>
   (\<exists>cs. subseq cs [''NAME'', ''TAX''] \<and>
      list_all2 (\<lambda>c. has_type (ColumnTypes WarehouseSchema (column_no WarehouseSchema c))) cs [Int32Scalar (- 1)])"
proof -
  let ?r = "Select (KVStorageAdapter (TPCCMetadataInitializer_Compute 1 1)) WarehouseSchema [Int32Scalar 1] [''NAME'', ''TAX''] tax_only"
  have r: "map_sum id fst ?r = Inr [Int32Scalar (- 1)]" by code_simp
  then obtain s' where s': "?r = Inr ([Int32Scalar (- 1)], s')" by (cases ?r) auto
  have "pkey_ok WarehouseSchema [Int32Scalar 1]" by code_simp
  from tpcc_select_types [OF this _ s'] obtain cs where "subseq cs [''NAME'', ''TAX'']"
    "list_all2 (\<lambda>c. has_type (ColumnTypes WarehouseSchema (column_no WarehouseSchema c))) cs [Int32Scalar (- 1)]"
    by (meson list.discI)
  with r show ?thesis by (intro conjI exI)
qed

end
