(* ===== verification/Per_Key_Remaster.thy ===== *)
theory Per_Key_Remaster
  imports Remaster_Manager "HOL-Library.AList"
begin

text \<open>
  \<^verbatim>\<open>module/scheduler_components/per_key_remaster_manager.{h,cpp}\<close>: a queue of blocked transactions per key, ordered by
  counter. \<^verbatim>\<open>TryToUnblock\<close> and \<^verbatim>\<open>ReleaseTransaction\<close> call each other; the model bounds the depth of these calls by
  fuel, and the theory shows that the number of blocked entries is always enough.
\<close>

section \<open>Model\<close>

text \<open>A pointer to a part of a transaction is the part itself: two parts in the manager differ in their transaction or
  in their home.\<close>

type_synonym blocked_entry = "transaction \<times> nat"
type_synonym blocked_queues = "(key \<times> blocked_entry list) list"
type_synonym per_key_state = "blocked_queues \<times> remaster_occurred_result"

definition home_kv :: "transaction \<Rightarrow> key_value \<Rightarrow> bool" where
  "home_kv txn kv \<longleftrightarrow> int32_of_uint32 (kv_master kv) = home (internal txn)"

definition home_keys :: "transaction \<Rightarrow> key list" where
  "home_keys txn = map kv_key (filter (home_kv txn) (keys txn))"

fun insert_entry :: "blocked_entry \<Rightarrow> blocked_entry list \<Rightarrow> blocked_entry list" where
  "insert_entry e [] = [e]"
| "insert_entry e (x # q) = (if snd x \<le> snd e then x # insert_entry e q else e # x # q)"

definition blocked_at :: "key \<Rightarrow> blocked_queues \<Rightarrow> blocked_entry list" where
  "blocked_at k qs = (case map_of qs k of None \<Rightarrow> [] | Some q \<Rightarrow> q)"

definition InsertIntoBlockedQueue :: "key \<Rightarrow> nat \<Rightarrow> transaction \<Rightarrow> blocked_queues \<Rightarrow> blocked_queues" where
  "InsertIntoBlockedQueue k c txn qs = AList.update k (insert_entry (txn, c) (blocked_at k qs)) qs"

fun indirectly_blocked :: "key_value list \<Rightarrow> blocked_queues \<Rightarrow> bool" where
  "indirectly_blocked [] qs = False"
| "indirectly_blocked (kv # kvs) qs =
     (case blocked_at (kv_key kv) qs of
        [] \<Rightarrow> indirectly_blocked kvs qs
      | e # _ \<Rightarrow> if snd e \<le> kv_counter kv then True else indirectly_blocked kvs qs)"

fun block_on_keys :: "transaction \<Rightarrow> key_value list \<Rightarrow> blocked_queues \<Rightarrow> blocked_queues" where
  "block_on_keys txn [] qs = qs"
| "block_on_keys txn (kv # kvs) qs =
     block_on_keys txn kvs (if home_kv txn kv then InsertIntoBlockedQueue (kv_key kv) (kv_counter kv) txn qs else qs)"

definition PerKey_VerifyMaster :: "storage \<Rightarrow> transaction \<Rightarrow> blocked_queues \<Rightarrow> (verify_master_result \<times> blocked_queues) result" where
  "PerKey_VerifyMaster st txn qs =
     (if keys txn = [] then Inr (VM_VALID, qs)
      else case CheckCounters txn True st of
             Inl e \<Rightarrow> Inl e
           | Inr VM_ABORT \<Rightarrow> Inr (VM_ABORT, qs)
           | Inr VM_VALID \<Rightarrow>
               if \<not> indirectly_blocked (keys txn) qs then Inr (VM_VALID, qs)
               else Inr (VM_WAITING, block_on_keys txn (keys txn) qs)
           | Inr VM_WAITING \<Rightarrow> Inr (VM_WAITING, block_on_keys txn (keys txn) qs))"

text \<open>The first loop of \<^verbatim>\<open>ReleaseTransaction\<close>.\<close>

fun erase_entry :: "txn_id \<Rightarrow> blocked_entry list \<Rightarrow> blocked_entry list" where
  "erase_entry t [] = []"
| "erase_entry t (e # q) = (if tid (fst e) = t then q else e # erase_entry t q)"

definition erase_at :: "txn_id \<Rightarrow> key \<Rightarrow> blocked_queues \<Rightarrow> blocked_queues" where
  "erase_at t k qs =
     (case map_of qs k of
        None \<Rightarrow> qs
      | Some q \<Rightarrow> let q' = erase_entry t q in if q' = [] then AList.delete k qs else AList.update k q' qs)"

fun erase_from :: "txn_id \<Rightarrow> key list \<Rightarrow> blocked_queues \<Rightarrow> blocked_queues" where
  "erase_from t [] qs = qs"
| "erase_from t (k # ks) qs = erase_from t ks (erase_at t k qs)"

text \<open>A loop that calls a function that may not return, such as \<^verbatim>\<open>TryToUnblock\<close>. \<open>None\<close> means that the fuel is used up.\<close>

fun each_call :: "('a \<Rightarrow> 's \<Rightarrow> 's result option) \<Rightarrow> 'a list \<Rightarrow> 's \<Rightarrow> 's result option" where
  "each_call f [] s = Some (Inr s)"
| "each_call f (k # ks) s =
     (case f k s of
        None \<Rightarrow> None
      | Some (Inl e) \<Rightarrow> Some (Inl e)
      | Some (Inr s') \<Rightarrow> each_call f ks s')"

text \<open>Whether the transaction is in front of all its queues, with the \<^verbatim>\<open>DCHECK\<close>.\<close>

fun in_front :: "transaction \<Rightarrow> key list \<Rightarrow> blocked_queues \<Rightarrow> bool result" where
  "in_front txn [] qs = Inr True"
| "in_front txn (k # ks) qs =
     (case map_of qs k of
        None \<Rightarrow> Inl (CheckFailed ''Transaction was not in correct blocked_queues'')
      | Some [] \<Rightarrow> Inl (UndefinedBehaviour ''front()'')
      | Some (e # _) \<Rightarrow> if fst e \<noteq> txn then Inr False else in_front txn ks qs)"

fun pop_fronts :: "key list \<Rightarrow> blocked_queues \<Rightarrow> blocked_queues result" where
  "pop_fronts [] qs = Inr qs"
| "pop_fronts (k # ks) qs =
     (case map_of qs k of
        None \<Rightarrow> Inl (UndefinedBehaviour ''q_it'')
      | Some [] \<Rightarrow> Inl (UndefinedBehaviour ''pop_front()'')
      | Some (_ # q) \<Rightarrow> pop_fronts ks (if q = [] then AList.delete k qs else AList.update k q qs))"

text \<open>The body of \<^verbatim>\<open>TryToUnblock\<close>, where \<open>unblock\<close> stands for its recursive calls, and the function with its fuel.\<close>

definition try_to_unblock_body ::
  "(key \<Rightarrow> per_key_state \<Rightarrow> per_key_state result option) \<Rightarrow> storage \<Rightarrow> key \<Rightarrow> per_key_state \<Rightarrow> per_key_state result option" where
  "try_to_unblock_body unblock st k s = (case s of (qs, res) \<Rightarrow>
     (case map_of qs k of
        None \<Rightarrow> Some (Inr (qs, res))
      | Some [] \<Rightarrow> Some (Inl (UndefinedBehaviour ''front()''))
      | Some ((txn, _) # _) \<Rightarrow>
          (case CheckCounters txn True st of
             Inl e \<Rightarrow> Some (Inl e)
           | Inr VM_ABORT \<Rightarrow>
               (let ks = map kv_key (keys txn)
                in case each_call unblock ks (erase_from (tid txn) ks qs, RemasterOccurredResult) of
                     None \<Rightarrow> None
                   | Some (Inl e) \<Rightarrow> Some (Inl e)
                   | Some (Inr (qs', r)) \<Rightarrow>
                       Some (Inr (qs', \<lparr>ror_unblocked = ror_unblocked res @ ror_unblocked r,
                                        ror_should_abort = ror_should_abort res @ [txn] @ ror_should_abort r\<rparr>)))
           | Inr VM_WAITING \<Rightarrow> Some (Inr (qs, res))
           | Inr VM_VALID \<Rightarrow>
               (case in_front txn (home_keys txn) qs of
                  Inl e \<Rightarrow> Some (Inl e)
                | Inr False \<Rightarrow> Some (Inr (qs, res))
                | Inr True \<Rightarrow>
                    (case pop_fronts (home_keys txn) qs of
                       Inl e \<Rightarrow> Some (Inl e)
                     | Inr qs' \<Rightarrow> each_call unblock (home_keys txn)
                                   (qs', res\<lparr>ror_unblocked := ror_unblocked res @ [txn]\<rparr>))))))"

fun PerKey_TryToUnblock :: "nat \<Rightarrow> storage \<Rightarrow> key \<Rightarrow> per_key_state \<Rightarrow> per_key_state result option" where
  "PerKey_TryToUnblock 0 st k s = None"
| "PerKey_TryToUnblock (Suc n) st k s = try_to_unblock_body (PerKey_TryToUnblock n st) st k s"

lemma PerKey_TryToUnblock_code [code]:
  "PerKey_TryToUnblock n st k s = (if n = 0 then None else try_to_unblock_body (PerKey_TryToUnblock (n - 1) st) st k s)"
  by (cases n) simp_all

declare try_to_unblock_body_def [simp]

definition num_blocked :: "blocked_queues \<Rightarrow> nat" where
  "num_blocked qs = sum_list (map (\<lambda>(k, q). length q) qs)"

definition PerKey_ReleaseTransaction :: "storage \<Rightarrow> transaction \<Rightarrow> blocked_queues \<Rightarrow> (remaster_occurred_result \<times> blocked_queues) result option" where
  "PerKey_ReleaseTransaction st txn qs =
     (let ks = map kv_key (keys txn); qs' = erase_from (tid txn) ks qs
      in map_option (map_sum id prod.swap)
           (each_call (PerKey_TryToUnblock (Suc (num_blocked qs')) st) ks (qs', RemasterOccurredResult)))"

definition PerKey_RemasterOccured :: "storage \<Rightarrow> key \<Rightarrow> nat \<Rightarrow> blocked_queues \<Rightarrow> (remaster_occurred_result \<times> blocked_queues) result option" where
  "PerKey_RemasterOccured st k remaster_counter qs =
     (if map_of qs k = None then Some (Inr (RemasterOccurredResult, qs))
      else map_option (map_sum id prod.swap) (PerKey_TryToUnblock (Suc (num_blocked qs)) st k (qs, RemasterOccurredResult)))"

section \<open>Queues\<close>

text \<open>Inserting keeps a queue ordered by counter, with earlier arrivals first among equal counters.\<close>

lemma insert_entry_sorted: "sorted (map snd q) \<Longrightarrow> sorted (map snd (insert_entry e q))"
proof (induction q)
  case (Cons x q)
  have "set (insert_entry e q) = insert e (set q)" for q by (induction q) auto
  with Cons show ?case by auto
qed simp

lemma insert_entry_stable: "filter (\<lambda>x. snd x = c) (insert_entry e q) = filter (\<lambda>x. snd x = c) q @ (if snd e = c then [e] else [])"
  if "sorted (map snd q)"
  using that
proof (induction q)
  case (Cons x q)
  show ?case
  proof (cases "snd x \<le> snd e")
    case False
    then have "filter (\<lambda>y. snd y = snd e) (x # q) = []" using Cons.prems by (auto simp: filter_empty_conv)
    with False show ?thesis by (cases "snd e = c") auto
  qed (use Cons in auto)
qed simp

lemma insert_entry_set [simp]: "set (insert_entry e q) = insert e (set q)"
  by (induction q) auto

lemma insert_entry_length [simp]: "length (insert_entry e q) = Suc (length q)"
  by (induction q) auto

lemma erase_entry_eq: "distinct (map (\<lambda>e. tid (fst e)) q) \<Longrightarrow> erase_entry t q = filter (\<lambda>e. tid (fst e) \<noteq> t) q"
proof (induction q)
  case (Cons e q)
  then have "tid (fst e) = t \<Longrightarrow> filter (\<lambda>e. tid (fst e) \<noteq> t) q = q" by (auto simp: filter_id_conv image_iff)
  with Cons show ?case by auto
qed simp

text \<open>The map holds no empty queue, so it is determined by \<^const>\<open>blocked_at\<close>.\<close>

definition wf_queues :: "blocked_queues \<Rightarrow> bool" where
  "wf_queues qs \<longleftrightarrow> distinct (map fst qs) \<and> (\<forall>q \<in> snd ` set qs. q \<noteq> [])"

definition set_blocked :: "key \<Rightarrow> blocked_entry list \<Rightarrow> blocked_queues \<Rightarrow> blocked_queues" where
  "set_blocked k q qs = (if q = [] then AList.delete k qs else AList.update k q qs)"

lemma map_of_queues: "wf_queues qs \<Longrightarrow> map_of qs k = (if blocked_at k qs = [] then None else Some (blocked_at k qs))"
  by (auto simp: wf_queues_def blocked_at_def split: option.splits dest!: map_of_SomeD)

lemma blocked_at_set_blocked [simp]: "blocked_at k' (set_blocked k q qs) = (if k' = k then q else blocked_at k' qs)"
  by (auto simp: blocked_at_def set_blocked_def update_conv' delete_conv')

lemma set_delete_subset: "set (AList.delete k qs) \<subseteq> set qs"
  by (simp add: AList.delete_eq)

lemma set_update_subset: "set (AList.update k q qs) \<subseteq> insert (k, q) (set qs)"
  by (induction qs) auto

lemma wf_set_blocked: "wf_queues qs \<Longrightarrow> wf_queues (set_blocked k q qs)"
  using set_delete_subset [of k qs] set_update_subset [of k q qs]
  by (fastforce simp: wf_queues_def set_blocked_def intro: distinct_update distinct_delete)

lemma num_blocked_eq:
  assumes "wf_queues qs" "finite K" "\<forall>k. blocked_at k qs \<noteq> [] \<longrightarrow> k \<in> K"
  shows "num_blocked qs = (\<Sum>k \<in> K. length (blocked_at k qs))"
proof -
  have d: "distinct (map fst qs)" using assms(1) by (simp add: wf_queues_def)
  then have "num_blocked qs = (\<Sum>k \<in> fst ` set qs. length (blocked_at k qs))"
    unfolding num_blocked_def
  proof (induction qs)
    case (Cons x qs)
    have "(\<Sum>k \<in> fst ` set qs. length (blocked_at k (x # qs))) = (\<Sum>k \<in> fst ` set qs. length (blocked_at k qs))"
    proof (rule sum.cong)
      fix k
      assume "k \<in> fst ` set qs"
      moreover have "fst x \<notin> fst ` set qs" using Cons.prems by simp
      ultimately have "k \<noteq> fst x" by blast
      then show "length (blocked_at k (x # qs)) = length (blocked_at k qs)" by (simp add: blocked_at_def)
    qed simp
    with Cons show ?case by (cases x) (simp add: blocked_at_def)
  qed simp
  also have "\<dots> = (\<Sum>k \<in> K. length (blocked_at k qs))"
  proof (rule sum.mono_neutral_left)
    have "blocked_at k qs \<noteq> []" if "k \<in> fst ` set qs" for k
      using that assms(1) map_of_eq_None_iff [of qs k] map_of_queues [of qs k] by auto
    with assms(3) show "fst ` set qs \<subseteq> K" by blast
    show "\<forall>k \<in> K - fst ` set qs. length (blocked_at k qs) = 0"
      by (auto simp: blocked_at_def split: option.splits dest: map_of_SomeD) (force dest: map_of_SomeD)
  qed (rule assms(2))
  finally show ?thesis .
qed

lemma num_blocked_filter:
  assumes "wf_queues qs" "wf_queues qs'" "\<forall>k. blocked_at k qs' = filter P (blocked_at k qs)"
  shows "num_blocked qs' \<le> num_blocked qs"
    "e \<in> set (blocked_at k qs) \<Longrightarrow> \<not> P e \<Longrightarrow> num_blocked qs' < num_blocked qs"
proof -
  let ?K = "fst ` set qs"
  have K: "finite ?K" "\<forall>k. blocked_at k qs \<noteq> [] \<longrightarrow> k \<in> ?K"
    by (auto simp: blocked_at_def split: option.splits dest!: map_of_SomeD intro: rev_image_eqI)
  have "blocked_at k qs \<noteq> []" if "blocked_at k qs' \<noteq> []" for k using that assms(3) by auto
  with K(2) have K': "\<forall>k. blocked_at k qs' \<noteq> [] \<longrightarrow> k \<in> ?K" by blast
  note eq = num_blocked_eq [OF assms(1) K] num_blocked_eq [OF assms(2) K(1) K']
  show "num_blocked qs' \<le> num_blocked qs"
    unfolding eq by (rule sum_mono) (simp add: assms(3))
  assume e: "e \<in> set (blocked_at k qs)" "\<not> P e"
  then have "length (filter P (blocked_at k qs)) < length (blocked_at k qs)" by (rule length_filter_less)
  moreover have "k \<in> ?K" using e(1) K(2) by (cases "blocked_at k qs = []") auto
  ultimately show "num_blocked qs' < num_blocked qs"
    unfolding eq by (intro sum_strict_mono_ex1 [OF K(1)]) (auto simp: assms(3))
qed

section \<open>Invariant\<close>

text \<open>
  Every queue is ordered by counter and holds a transaction at most once; a blocked part is in the queues of exactly its
  home keys, under the counter it expects; the parts of a transaction carry the same keys.
\<close>

definition pk_inv :: "blocked_queues \<Rightarrow> bool" where
  "pk_inv qs \<longleftrightarrow> wf_queues qs \<and>
     (\<forall>k. sorted (map snd (blocked_at k qs)) \<and> distinct (map (\<lambda>e. tid (fst e)) (blocked_at k qs))) \<and>
     (\<forall>k. \<forall>e \<in> set (blocked_at k qs).
        distinct (map kv_key (keys (fst e))) \<and>
        (\<exists>kv \<in> set (keys (fst e)). home_kv (fst e) kv \<and> kv_key kv = k \<and> kv_counter kv = snd e) \<and>
        (\<forall>k' \<in> set (home_keys (fst e)). fst e \<in> fst ` set (blocked_at k' qs))) \<and>
     (\<forall>k k'. \<forall>e \<in> set (blocked_at k qs). \<forall>e' \<in> set (blocked_at k' qs).
        tid (fst e) = tid (fst e') \<longrightarrow> keys (fst e) = keys (fst e'))"

lemma pk_inv_wf: "pk_inv qs \<Longrightarrow> wf_queues qs"
  by (simp add: pk_inv_def)

lemma pk_inv_distinct: "pk_inv qs \<Longrightarrow> distinct (map (\<lambda>e. tid (fst e)) (blocked_at k qs))"
  by (simp add: pk_inv_def)

lemma pk_inv_entry:
  assumes "pk_inv qs" "e \<in> set (blocked_at k qs)"
  shows "distinct (map kv_key (keys (fst e)))" "k \<in> set (home_keys (fst e))"
    "k' \<in> set (home_keys (fst e)) \<Longrightarrow> fst e \<in> fst ` set (blocked_at k' qs)"
proof -
  from assms(1) have "\<forall>e \<in> set (blocked_at k qs). distinct (map kv_key (keys (fst e))) \<and>
      (\<exists>kv \<in> set (keys (fst e)). home_kv (fst e) kv \<and> kv_key kv = k \<and> kv_counter kv = snd e) \<and>
      (\<forall>k' \<in> set (home_keys (fst e)). fst e \<in> fst ` set (blocked_at k' qs))"
    unfolding pk_inv_def by blast
  from bspec [OF this assms(2)] show "distinct (map kv_key (keys (fst e)))" "k \<in> set (home_keys (fst e))"
    "k' \<in> set (home_keys (fst e)) \<Longrightarrow> fst e \<in> fst ` set (blocked_at k' qs)"
    by (auto simp: home_keys_def)
qed

lemma pk_inv_keys:
  "pk_inv qs \<Longrightarrow> e \<in> set (blocked_at k qs) \<Longrightarrow> e' \<in> set (blocked_at k' qs) \<Longrightarrow> tid (fst e) = tid (fst e') \<Longrightarrow>
   keys (fst e) = keys (fst e')"
  unfolding pk_inv_def by blast

lemma home_keys_subset: "set (home_keys txn) \<subseteq> kv_key ` set (keys txn)"
  by (auto simp: home_keys_def)

lemma pk_inv_filter:
  assumes inv: "pk_inv qs" and wf: "wf_queues qs'"
    and f: "\<forall>k. blocked_at k qs' = filter (\<lambda>e. P (fst e)) (blocked_at k qs)"
  shows "pk_inv qs'"
proof -
  have "sorted (map snd (blocked_at k qs'))" "distinct (map (\<lambda>e. tid (fst e)) (blocked_at k qs'))" for k
    using inv by (simp_all add: pk_inv_def f sorted_filter distinct_map_filter)
  moreover have "distinct (map kv_key (keys (fst e))) \<and>
      (\<exists>kv \<in> set (keys (fst e)). home_kv (fst e) kv \<and> kv_key kv = k \<and> kv_counter kv = snd e) \<and>
      (\<forall>k' \<in> set (home_keys (fst e)). fst e \<in> fst ` set (blocked_at k' qs'))"
    if e: "e \<in> set (blocked_at k qs')" for k e
  proof -
    from e have e': "e \<in> set (blocked_at k qs)" "P (fst e)" by (auto simp: f)
    have "fst e \<in> fst ` set (blocked_at k' qs')" if "k' \<in> set (home_keys (fst e))" for k'
      using pk_inv_entry(3) [OF inv e'(1) that] e'(2) by (auto simp: f)
    with inv e' show ?thesis unfolding pk_inv_def by blast
  qed
  moreover have "tid (fst e) = tid (fst e') \<longrightarrow> keys (fst e) = keys (fst e')"
    if "e \<in> set (blocked_at k qs')" "e' \<in> set (blocked_at k' qs')" for k k' e e'
    using that pk_inv_keys [OF inv, of e k e' k'] by (simp add: f)
  ultimately show ?thesis using wf unfolding pk_inv_def by blast
qed

section \<open>Removing a transaction\<close>

lemma erase_at_eq: "wf_queues qs \<Longrightarrow> erase_at t k qs = (if blocked_at k qs = [] then qs else set_blocked k (erase_entry t (blocked_at k qs)) qs)"
  by (simp add: erase_at_def map_of_queues set_blocked_def Let_def)

lemma erase_from_wf: "wf_queues qs \<Longrightarrow> wf_queues (erase_from t ks qs)"
  by (induction ks arbitrary: qs) (auto simp: erase_at_eq intro: wf_set_blocked)

lemma blocked_at_erase_from:
  assumes "wf_queues qs" "\<forall>k. distinct (map (\<lambda>e. tid (fst e)) (blocked_at k qs))"
  shows "blocked_at k (erase_from t ks qs) = (if k \<in> set ks then filter (\<lambda>e. tid (fst e) \<noteq> t) (blocked_at k qs) else blocked_at k qs)"
  using assms
proof (induction ks arbitrary: qs)
  case (Cons k' ks)
  let ?qs = "erase_at t k' qs"
  have b: "blocked_at k ?qs = (if k = k' then filter (\<lambda>e. tid (fst e) \<noteq> t) (blocked_at k qs) else blocked_at k qs)" for k
    using Cons.prems by (simp add: erase_at_eq erase_entry_eq)
  have "wf_queues ?qs" using Cons.prems(1) by (simp add: erase_at_eq wf_set_blocked)
  moreover have "\<forall>k. distinct (map (\<lambda>e. tid (fst e)) (blocked_at k ?qs))"
    using Cons.prems(2) by (simp add: b distinct_map_filter)
  ultimately show ?case using Cons.IH [of ?qs] by (auto simp: b)
qed simp

lemma erase_blocked:
  assumes "pk_inv qs" "(txn, c) \<in> set (blocked_at k0 qs)"
  shows "blocked_at k (erase_from (tid txn) (map kv_key (keys txn)) qs) = filter (\<lambda>e. tid (fst e) \<noteq> tid txn) (blocked_at k qs)"
proof (cases "k \<in> kv_key ` set (keys txn)")
  case False
  have "tid (fst e) \<noteq> tid txn" if "e \<in> set (blocked_at k qs)" for e
    using pk_inv_entry(2) [OF assms(1) that] home_keys_subset [of "fst e"] pk_inv_keys [OF assms(1) that assms(2)] False by auto
  with False assms(1) show ?thesis
    by (simp add: blocked_at_erase_from pk_inv_wf pk_inv_distinct)
qed (use assms in \<open>simp add: blocked_at_erase_from pk_inv_wf pk_inv_distinct\<close>)

text \<open>Taking a part from the front of its queues.\<close>

lemma in_front_total:
  assumes "wf_queues qs" "\<forall>k \<in> set ks. txn \<in> fst ` set (blocked_at k qs)"
  shows "in_front txn ks qs = Inr (\<forall>k \<in> set ks. fst (hd (blocked_at k qs)) = txn)"
  using assms(2)
proof (induction ks)
  case (Cons k ks)
  then obtain e q where "blocked_at k qs = e # q" by (cases "blocked_at k qs") auto
  with Cons assms(1) show ?case by (auto simp: map_of_queues)
qed simp

lemma pop_fronts_eq:
  assumes "wf_queues qs" "distinct ks" "\<forall>k \<in> set ks. blocked_at k qs \<noteq> []"
  shows "\<exists>qs'. pop_fronts ks qs = Inr qs' \<and> wf_queues qs' \<and>
    (\<forall>k. blocked_at k qs' = (if k \<in> set ks then tl (blocked_at k qs) else blocked_at k qs))"
  using assms
proof (induction ks arbitrary: qs)
  case (Cons k ks)
  then obtain e q where q: "blocked_at k qs = e # q" by (cases "blocked_at k qs") auto
  with Cons.prems have *: "pop_fronts (k # ks) qs = pop_fronts ks (set_blocked k q qs)"
    by (simp add: map_of_queues set_blocked_def)
  have "\<forall>k' \<in> set ks. blocked_at k' (set_blocked k q qs) \<noteq> []" using Cons.prems by auto
  from Cons.IH [OF wf_set_blocked [OF Cons.prems(1)] _ this] Cons.prems(2)
  obtain qs' where "pop_fronts ks (set_blocked k q qs) = Inr qs'" "wf_queues qs'"
    "\<forall>k'. blocked_at k' qs' = (if k' \<in> set ks then tl (blocked_at k' (set_blocked k q qs)) else blocked_at k' (set_blocked k q qs))"
    by auto
  with Cons.prems(2) q show ?case unfolding * by (intro exI [of _ qs']) auto
qed simp

lemma tl_filter:
  assumes "distinct (map f xs)" "xs \<noteq> []" "g (hd xs) = y" "\<And>x. x \<in> set xs \<Longrightarrow> g x = y \<Longrightarrow> f x = f (hd xs)"
  shows "tl xs = filter (\<lambda>x. g x \<noteq> y) xs"
proof (cases xs)
  case (Cons x ys)
  have "g z \<noteq> y" if z: "z \<in> set ys" for z
  proof
    assume "g z = y"
    with assms(4) [of z] z Cons have "f z = f x" by simp
    with assms(1) Cons z show False by (metis distinct.simps(2) image_eqI list.simps(9) list.set_map)
  qed
  with Cons assms(3) show ?thesis by simp
qed (use assms(2) in simp)

lemma pop_blocked:
  assumes inv: "pk_inv qs" and e: "e0 \<in> set (blocked_at k0 qs)" "fst e0 = txn"
    and front: "\<forall>k \<in> set (home_keys txn). fst (hd (blocked_at k qs)) = txn"
  shows "\<exists>qs'. pop_fronts (home_keys txn) qs = Inr qs' \<and> wf_queues qs' \<and>
    (\<forall>k. blocked_at k qs' = filter (\<lambda>e. fst e \<noteq> txn) (blocked_at k qs))"
proof -
  have mem: "\<forall>k \<in> set (home_keys txn). blocked_at k qs \<noteq> []"
    using pk_inv_entry(3) [OF inv e(1)] e(2) by fastforce
  have "distinct (home_keys txn)"
    using pk_inv_entry(1) [OF inv e(1)] e(2) by (simp add: home_keys_def distinct_map_filter)
  from pop_fronts_eq [OF pk_inv_wf [OF inv] this mem]
  obtain qs' where qs': "pop_fronts (home_keys txn) qs = Inr qs'" "wf_queues qs'"
    "\<forall>k. blocked_at k qs' = (if k \<in> set (home_keys txn) then tl (blocked_at k qs) else blocked_at k qs)" by blast
  have "blocked_at k qs' = filter (\<lambda>e. fst e \<noteq> txn) (blocked_at k qs)" for k
  proof (cases "k \<in> set (home_keys txn)")
    case True
    with front mem have "tl (blocked_at k qs) = filter (\<lambda>e. fst e \<noteq> txn) (blocked_at k qs)"
      by (intro tl_filter [where f = "\<lambda>e. tid (fst e)"] pk_inv_distinct inv) auto
    with True qs' show ?thesis by simp
  next
    case False
    then have "\<forall>e \<in> set (blocked_at k qs). fst e \<noteq> txn" using pk_inv_entry(2) [OF inv] by blast
    with False qs' show ?thesis by (auto simp: filter_id_conv)
  qed
  with qs' show ?thesis by blast
qed

section \<open>Unblocking\<close>

text \<open>
  What a call that unblocks does, with \<open>u\<close> the parts it lets through and \<open>a\<close> those it aborts: these are the entries
  that leave the queues, each for the right verdict, no transaction is aborted twice, no part overtakes another one
  in a queue, and the parts of one queue are let through in the order of the queue.
\<close>

definition unblocks :: "storage \<Rightarrow> blocked_queues \<Rightarrow> transaction list \<Rightarrow> transaction list \<Rightarrow> blocked_queues \<Rightarrow> bool" where
  "unblocks st qs u a qs' \<longleftrightarrow> pk_inv qs' \<and>
     (\<forall>k. blocked_at k qs' = filter (\<lambda>e. fst e \<notin> set u \<and> tid (fst e) \<notin> tid ` set a) (blocked_at k qs)) \<and>
     (\<forall>t \<in> set u. CheckCounters t True st = Inr VM_VALID \<and> (\<exists>k. t \<in> fst ` set (blocked_at k qs))) \<and>
     (\<forall>t \<in> set a. CheckCounters t True st = Inr VM_ABORT \<and> (\<exists>k. t \<in> fst ` set (blocked_at k qs))) \<and>
     distinct u \<and> distinct (map tid a) \<and>
     (\<forall>k xs c ys. \<forall>t \<in> set u. blocked_at k qs = xs @ (t, c) # ys \<longrightarrow>
        (\<forall>e \<in> set xs. fst e \<in> set u \<or> tid (fst e) \<in> tid ` set a)) \<and>
     (\<forall>k. filter (\<lambda>t. t \<in> fst ` set (blocked_at k qs)) u = map fst (filter (\<lambda>e. fst e \<in> set u) (blocked_at k qs)))"

lemma unblocks_refl: "pk_inv qs \<Longrightarrow> unblocks st qs [] [] qs"
  by (simp add: unblocks_def)

lemma unblocks_num: "pk_inv qs \<Longrightarrow> unblocks st qs u a qs' \<Longrightarrow> num_blocked qs' \<le> num_blocked qs"
  by (rule num_blocked_filter(1)) (auto simp: unblocks_def pk_inv_wf)

lemma unblocks_subset: "unblocks st qs u a qs' \<Longrightarrow> e \<in> set (blocked_at k qs') \<Longrightarrow> e \<in> set (blocked_at k qs)"
  by (simp add: unblocks_def)

lemma unblocks_verdict:
  assumes "unblocks st qs u a qs'"
  shows "t \<in> set u \<Longrightarrow> CheckCounters t True st = Inr VM_VALID \<and> (\<exists>k. t \<in> fst ` set (blocked_at k qs))"
    "t \<in> set a \<Longrightarrow> CheckCounters t True st = Inr VM_ABORT \<and> (\<exists>k. t \<in> fst ` set (blocked_at k qs))"
  using assms by (simp_all add: unblocks_def)

lemma unblocksD:
  assumes "unblocks st qs u a qs'"
  shows "pk_inv qs'" "distinct u" "distinct (map tid a)"
    "\<forall>k xs c ys. \<forall>t \<in> set u. blocked_at k qs = xs @ (t, c) # ys \<longrightarrow> (\<forall>e \<in> set xs. fst e \<in> set u \<or> tid (fst e) \<in> tid ` set a)"
    "\<forall>k. filter (\<lambda>t. t \<in> fst ` set (blocked_at k qs)) u = map fst (filter (\<lambda>e. fst e \<in> set u) (blocked_at k qs))"
  using assms unfolding unblocks_def by - (elim conjE, assumption)+

lemma filter_disj:
  assumes "\<And>xs x ys y. q = xs @ x # ys \<Longrightarrow> P x \<Longrightarrow> y \<in> set xs \<Longrightarrow> Q y \<Longrightarrow> False"
    and "\<And>x. x \<in> set q \<Longrightarrow> P x \<Longrightarrow> \<not> Q x"
  shows "filter (\<lambda>x. P x \<or> Q x) q = filter P q @ filter Q q"
  using assms
proof (induction q)
  case (Cons x q)
  have IH: "filter (\<lambda>x. P x \<or> Q x) q = filter P q @ filter Q q"
  proof (rule Cons.IH)
    show False if "q = xs @ z # ys" "P z" "y \<in> set xs" "Q y" for xs z ys y
      using Cons.prems(1) [of "x # xs" z ys y] that by simp
    show "\<not> Q z" if "z \<in> set q" "P z" for z using Cons.prems(2) [of z] that by simp
  qed
  have "\<not> P z" if z: "z \<in> set q" and x: "Q x" for z
  proof
    assume "P z"
    obtain xs ys where "q = xs @ z # ys" using split_list [OF z] by blast
    with Cons.prems(1) [of "x # xs" z ys x] \<open>P z\<close> x show False by simp
  qed
  then have "Q x \<Longrightarrow> filter P q = []" by (simp add: filter_empty_conv)
  with IH Cons.prems(2) [of x] show ?case by auto
qed simp

lemma unblocks_trans:
  assumes 1: "unblocks st qs u a qs1" and 2: "unblocks st qs1 u' a' qs2"
  shows "unblocks st qs (u @ u') (a @ a') qs2"
proof -
  have b1: "blocked_at k qs1 = filter (\<lambda>e. fst e \<notin> set u \<and> tid (fst e) \<notin> tid ` set a) (blocked_at k qs)" for k
    using 1 by (simp add: unblocks_def)
  have b2: "blocked_at k qs2 = filter (\<lambda>e. fst e \<notin> set (u @ u') \<and> tid (fst e) \<notin> tid ` set (a @ a')) (blocked_at k qs)" for k
    using 2 by (simp add: unblocks_def b1) (rule filter_cong; auto)
  have new: "t \<notin> set u \<and> tid t \<notin> tid ` set a \<and> (\<exists>k. t \<in> fst ` set (blocked_at k qs))" if "t \<in> fst ` set (blocked_at k qs1)" for t k
    using that by (auto simp: b1)
  have u': "t \<notin> set u \<and> tid t \<notin> tid ` set a \<and> (\<exists>k. t \<in> fst ` set (blocked_at k qs))" if "t \<in> set u' \<or> t \<in> set a'" for t
    using unblocks_verdict [OF 2, of t] that new by blast
  have "fst e \<in> set (u @ u') \<or> tid (fst e) \<in> tid ` set (a @ a')"
    if t: "t \<in> set (u @ u')" and q: "blocked_at k qs = xs @ (t, c) # ys" and e: "e \<in> set xs" for k xs c ys t e
  proof (cases "t \<in> set u")
    case True
    with unblocksD(4) [OF 1] q e show ?thesis by fastforce
  next
    case False
    with t have "t \<in> set u'" by simp
    with u' have "blocked_at k qs1 = filter (\<lambda>e. fst e \<notin> set u \<and> tid (fst e) \<notin> tid ` set a) xs @ (t, c) #
      filter (\<lambda>e. fst e \<notin> set u \<and> tid (fst e) \<notin> tid ` set a) ys"
      by (simp add: b1 q)
    with unblocksD(4) [OF 2] \<open>t \<in> set u'\<close> have "\<forall>e \<in> set (filter (\<lambda>e. fst e \<notin> set u \<and> tid (fst e) \<notin> tid ` set a) xs).
      fst e \<in> set u' \<or> tid (fst e) \<in> tid ` set a'" by blast
    from bspec [OF this, of e] e show ?thesis by (simp add: image_Un) blast
  qed
  moreover have "distinct (u @ u')"
    using unblocksD(2) [OF 1] unblocksD(2) [OF 2] u' unfolding distinct_append by blast
  moreover have "filter (\<lambda>t. t \<in> fst ` set (blocked_at k qs)) (u @ u') = map fst (filter (\<lambda>e. fst e \<in> set (u @ u')) (blocked_at k qs))"
    for k
  proof -
    let ?Q = "blocked_at k qs"
    have o: "filter (\<lambda>t. t \<in> fst ` set ?Q) u = map fst (filter (\<lambda>e. fst e \<in> set u) ?Q)"
      "filter (\<lambda>t. t \<in> fst ` set (blocked_at k qs1)) u' = map fst (filter (\<lambda>e. fst e \<in> set u') (blocked_at k qs1))"
      using spec [OF unblocksD(5) [OF 1], of k] spec [OF unblocksD(5) [OF 2], of k] by (simp_all only:)
    have "filter (\<lambda>t. t \<in> fst ` set ?Q) u' = filter (\<lambda>t. t \<in> fst ` set (blocked_at k qs1)) u'"
      using u' by (intro filter_cong) (auto simp: b1)
    moreover have "filter (\<lambda>e. fst e \<in> set u') (blocked_at k qs1) = filter (\<lambda>e. fst e \<in> set u') ?Q"
      unfolding b1 filter_filter using u' by (intro filter_cong) auto
    moreover have "filter (\<lambda>e. fst e \<in> set u \<or> fst e \<in> set u') ?Q = filter (\<lambda>e. fst e \<in> set u) ?Q @ filter (\<lambda>e. fst e \<in> set u') ?Q"
    proof (rule filter_disj)
      fix xs x ys y
      assume q: "?Q = xs @ x # ys" "fst x \<in> set u" "y \<in> set xs" "fst y \<in> set u'"
      then have "?Q = xs @ (fst x, snd x) # ys" by simp
      with unblocksD(4) [OF 1] q(2,3) have "fst y \<in> set u \<or> tid (fst y) \<in> tid ` set a" by blast
      with u' [of "fst y"] q(4) show False by blast
    qed (use u' in blast)
    ultimately show ?thesis using o by simp
  qed
  moreover have "distinct (map tid (a @ a'))"
  proof -
    have "tid t \<notin> tid ` set a" if "t \<in> set a'" for t using u' that by blast
    then have "x \<notin> tid ` set a" if "x \<in> tid ` set a'" for x using that by (elim imageE) simp
    then have "set (map tid a) \<inter> set (map tid a') = {}" unfolding set_map by blast
    with unblocksD(3) [OF 1] unblocksD(3) [OF 2] show ?thesis unfolding map_append distinct_append by blast
  qed
  moreover have "\<forall>t \<in> set (u @ u'). CheckCounters t True st = Inr VM_VALID \<and> (\<exists>k. t \<in> fst ` set (blocked_at k qs))"
    "\<forall>t \<in> set (a @ a'). CheckCounters t True st = Inr VM_ABORT \<and> (\<exists>k. t \<in> fst ` set (blocked_at k qs))"
    using u' unblocks_verdict [OF 1] unblocks_verdict [OF 2] unfolding set_append by blast+
  moreover note unblocksD(1) [OF 2]
  ultimately show ?thesis unfolding unblocks_def using b2 by (intro conjI) (simp_all only:, blast+)
qed

lemma unblocks_abort:
  assumes inv: "pk_inv qs" and e: "(txn, c) \<in> set (blocked_at k qs)" and v: "CheckCounters txn True st = Inr VM_ABORT"
  shows "unblocks st qs [] [txn] (erase_from (tid txn) (map kv_key (keys txn)) qs)" (is "unblocks _ _ _ _ ?qs'")
    "num_blocked (erase_from (tid txn) (map kv_key (keys txn)) qs) < num_blocked qs"
proof -
  have b: "\<forall>k. blocked_at k ?qs' = filter (\<lambda>e. tid (fst e) \<noteq> tid txn) (blocked_at k qs)"
    using erase_blocked [OF inv e] by blast
  have wf: "wf_queues ?qs'" by (rule erase_from_wf [OF pk_inv_wf [OF inv]])
  from num_blocked_filter(2) [OF pk_inv_wf [OF inv] wf b e] show "num_blocked ?qs' < num_blocked qs" by simp
  have "pk_inv ?qs'" by (rule pk_inv_filter [where P = "\<lambda>t. tid t \<noteq> tid txn", OF inv wf b])
  moreover have "\<exists>k. txn \<in> fst ` set (blocked_at k qs)" using e by force
  ultimately show "unblocks st qs [] [txn] ?qs'" using b v by (simp add: unblocks_def)
qed

lemma unblocks_valid:
  assumes inv: "pk_inv qs" and e: "(txn, c) \<in> set (blocked_at k qs)" and v: "CheckCounters txn True st = Inr VM_VALID"
    and front: "\<forall>k \<in> set (home_keys txn). fst (hd (blocked_at k qs)) = txn"
  shows "\<exists>qs'. pop_fronts (home_keys txn) qs = Inr qs' \<and> unblocks st qs [txn] [] qs' \<and> num_blocked qs' < num_blocked qs \<and>
    (\<forall>k. k \<notin> set (home_keys txn) \<longrightarrow> blocked_at k qs' = blocked_at k qs)"
proof -
  from pop_blocked [OF inv e _ front] obtain qs' where p: "pop_fronts (home_keys txn) qs = Inr qs'" and wf: "wf_queues qs'"
    and b: "\<forall>k. blocked_at k qs' = filter (\<lambda>e. fst e \<noteq> txn) (blocked_at k qs)" by auto
  have first: "xs = []" if q: "blocked_at k qs = xs @ (txn, c) # ys" for k xs c ys
  proof (rule ccontr)
    assume "xs \<noteq> []"
    have "k \<in> set (home_keys txn)" using pk_inv_entry(2) [OF inv, of "(txn, c)" k] q by simp
    from bspec [OF front this] \<open>xs \<noteq> []\<close> have "fst (hd xs) = txn" by (simp add: q)
    with imageI [OF hd_in_set [OF \<open>xs \<noteq> []\<close>], of "\<lambda>e. tid (fst e)"] have "tid txn \<in> (\<lambda>e. tid (fst e)) ` set xs" by simp
    with pk_inv_distinct [OF inv, of k] show False unfolding q map_append distinct_append by simp
  qed
  from num_blocked_filter(2) [OF pk_inv_wf [OF inv] wf b e] have "num_blocked qs' < num_blocked qs" by simp
  moreover have "\<forall>k. k \<notin> set (home_keys txn) \<longrightarrow> filter (\<lambda>e. fst e \<noteq> txn) (blocked_at k qs) = blocked_at k qs"
    using pk_inv_entry(2) [OF inv] by (auto simp: filter_id_conv)
  moreover have "pk_inv qs'" by (rule pk_inv_filter [where P = "\<lambda>t. t \<noteq> txn", OF inv wf b])
  moreover have "\<exists>k. txn \<in> fst ` set (blocked_at k qs)" using e by force
  moreover have "\<forall>k xs c ys. blocked_at k qs = xs @ (txn, c) # ys \<longrightarrow> (\<forall>e \<in> set xs. fst e = txn)"
  proof (intro allI impI)
    fix k xs c ys
    assume "blocked_at k qs = xs @ (txn, c) # ys"
    from first [OF this] show "\<forall>e \<in> set xs. fst e = txn" by simp
  qed
  moreover have "filter (\<lambda>t. t \<in> fst ` set (blocked_at k qs)) [txn] = map fst (filter (\<lambda>e. fst e = txn) (blocked_at k qs))" for k
  proof (cases "txn \<in> fst ` set (blocked_at k qs)")
    case True
    then obtain d xs ys where q: "blocked_at k qs = xs @ (txn, d) # ys" by (metis imageE prod.collapse split_list)
    with first have x: "xs = []" by blast
    have "fst e \<noteq> txn" if "e \<in> set ys" for e
      using pk_inv_distinct [OF inv, of k] that unfolding q x by auto
    with True show ?thesis unfolding q x by (simp add: filter_empty_conv)
  next
    case False
    then have "filter (\<lambda>e. fst e = txn) (blocked_at k qs) = []" by (auto simp: filter_empty_conv)
    with False show ?thesis by simp
  qed
  ultimately show ?thesis using p b v by (simp add: unblocks_def)
qed

text \<open>The part in front of a queue can move when it is to be aborted, or expects the counters of the storage and is in front
  of all its queues. A call that settles the queues of \<open>K\<close> leaves no such part in front of one of them, and makes no
  other part able to move.\<close>

definition can_move :: "storage \<Rightarrow> blocked_queues \<Rightarrow> key \<Rightarrow> bool" where
  "can_move st qs k = (case blocked_at k qs of [] \<Rightarrow> False | e # _ \<Rightarrow>
     (case CheckCounters (fst e) True st of
        Inl _ \<Rightarrow> False
      | Inr VM_ABORT \<Rightarrow> True
      | Inr VM_WAITING \<Rightarrow> False
      | Inr VM_VALID \<Rightarrow> list_all (\<lambda>k'. fst (hd (blocked_at k' qs)) = fst e) (home_keys (fst e))))"

definition settles :: "storage \<Rightarrow> blocked_queues \<Rightarrow> key set \<Rightarrow> blocked_queues \<Rightarrow> bool" where
  "settles st qs K qs' \<longleftrightarrow> (\<forall>k'. can_move st qs' k' \<longrightarrow> can_move st qs k' \<and>
     fst (hd (blocked_at k' qs)) = fst (hd (blocked_at k' qs')) \<and>
     (\<forall>k \<in> K. blocked_at k qs' \<noteq> [] \<longrightarrow> fst (hd (blocked_at k qs')) \<noteq> fst (hd (blocked_at k' qs'))))"

lemma can_move_iff:
  "can_move st qs k \<longleftrightarrow> blocked_at k qs \<noteq> [] \<and>
     (CheckCounters (fst (hd (blocked_at k qs))) True st = Inr VM_ABORT \<or>
      CheckCounters (fst (hd (blocked_at k qs))) True st = Inr VM_VALID \<and>
        (\<forall>k' \<in> set (home_keys (fst (hd (blocked_at k qs)))). fst (hd (blocked_at k' qs)) = fst (hd (blocked_at k qs))))"
  by (auto simp: can_move_def list_all_iff split: list.splits sum.splits verify_master_result.splits)

lemma can_move_head:
  "can_move st qs k' \<Longrightarrow> blocked_at k qs \<noteq> [] \<Longrightarrow> fst (hd (blocked_at k qs)) = fst (hd (blocked_at k' qs)) \<Longrightarrow> can_move st qs k"
  by (simp add: can_move_iff)

lemma settles_none: "settles st qs {} qs"
  by (simp add: settles_def)

lemma settles_here: "\<not> can_move st qs k \<Longrightarrow> settles st qs {k} qs"
  using can_move_head [of st qs _ k] by (auto simp: settles_def)

lemma settles_subset: "settles st qs K qs' \<Longrightarrow> K' \<subseteq> K \<Longrightarrow> settles st qs K' qs'"
  unfolding settles_def by blast

lemma settlesD:
  assumes "settles st qs K qs'" "can_move st qs' k"
  shows "can_move st qs k" "fst (hd (blocked_at k qs)) = fst (hd (blocked_at k qs'))"
    "k' \<in> K \<Longrightarrow> blocked_at k' qs' \<noteq> [] \<Longrightarrow> fst (hd (blocked_at k' qs')) \<noteq> fst (hd (blocked_at k qs'))"
  using assms unfolding settles_def by blast+

lemma settled_stuck: "settles st qs K qs' \<Longrightarrow> k \<in> K \<Longrightarrow> \<not> can_move st qs' k"
  using settlesD(3) [of st qs K qs' k k] by (auto simp: can_move_iff)

lemma settles_trans:
  assumes 1: "settles st qs K qs1" and 2: "settles st qs1 K' qs2"
  shows "settles st qs (K \<union> K') qs2"
  unfolding settles_def
proof (intro allI impI conjI ballI)
  fix k'
  assume m: "can_move st qs2 k'"
  note m1 = settlesD(1,2) [OF 2 m]
  show "can_move st qs k'" "fst (hd (blocked_at k' qs)) = fst (hd (blocked_at k' qs2))"
    using settlesD(1,2) [OF 1 m1(1)] m1(2) by simp_all
  fix k
  assume k: "k \<in> K \<union> K'" "blocked_at k qs2 \<noteq> []"
  show "fst (hd (blocked_at k qs2)) \<noteq> fst (hd (blocked_at k' qs2))"
  proof
    assume h: "fst (hd (blocked_at k qs2)) = fst (hd (blocked_at k' qs2))"
    note k1 = settlesD(1,2) [OF 2 can_move_head [OF m k(2) h]]
    have "k \<in> K" using settlesD(3) [OF 2 m _ k(2)] h k(1) by blast
    moreover have "blocked_at k qs1 \<noteq> []" using k1(1) by (simp add: can_move_iff)
    ultimately show False using settlesD(3) [OF 1 m1(1)] h k1(2) m1(2) by simp
  qed
qed

text \<open>Removing entries from queues that are settled afterwards.\<close>

lemma settles_changed:
  assumes s: "settles st qs1 K qs2" and inv: "pk_inv qs2" and same: "\<And>k. k \<notin> K \<Longrightarrow> blocked_at k qs1 = blocked_at k qs"
  shows "settles st qs K qs2"
  unfolding settles_def
proof (intro allI impI conjI)
  fix k'
  assume m: "can_move st qs2 k'"
  note m1 = settlesD [OF s m]
  let ?T = "fst (hd (blocked_at k' qs2))"
  have ne: "blocked_at k' qs2 \<noteq> []" using m by (simp add: can_move_iff)
  then have e: "hd (blocked_at k' qs2) \<in> set (blocked_at k' qs2)" by simp
  have out: "k \<notin> K" if k: "k \<in> set (home_keys ?T)" and v: "CheckCounters ?T True st = Inr VM_VALID" for k
  proof
    assume "k \<in> K"
    moreover have "fst (hd (blocked_at k qs2)) = ?T" using m v k by (simp add: can_move_iff)
    moreover have "blocked_at k qs2 \<noteq> []" using pk_inv_entry(3) [OF inv e k] by auto
    ultimately show False using m1(3) by blast
  qed
  have k': "blocked_at k' qs1 = blocked_at k' qs"
    using same m1(3) ne by blast
  with m1(2) show "fst (hd (blocked_at k' qs)) = ?T" by simp
  show "can_move st qs k'"
    using m1(1,2) out same unfolding can_move_iff k' by auto
  show "\<forall>k \<in> K. blocked_at k qs2 \<noteq> [] \<longrightarrow> fst (hd (blocked_at k qs2)) \<noteq> ?T" using m1(3) by blast
qed

definition checks_pass :: "storage \<Rightarrow> blocked_queues \<Rightarrow> bool" where
  "checks_pass st qs \<longleftrightarrow> (\<forall>k. \<forall>e \<in> set (blocked_at k qs). \<exists>r. CheckCounters (fst e) True st = Inr r)"

definition add_result :: "transaction list \<Rightarrow> transaction list \<Rightarrow> remaster_occurred_result \<Rightarrow> remaster_occurred_result" where
  "add_result u a res = \<lparr>ror_unblocked = ror_unblocked res @ u, ror_should_abort = ror_should_abort res @ a\<rparr>"

lemma add_result_simps [simp]:
  "add_result [] [] res = res"
  "add_result u' a' (add_result u a res) = add_result (u @ u') (a @ a') res"
  "ror_unblocked (add_result u a res) = ror_unblocked res @ u"
  "ror_should_abort (add_result u a res) = ror_should_abort res @ a"
  by (simp_all add: add_result_def)

lemma each_call_ok:
  assumes f: "\<And>k qs res. pk_inv qs \<Longrightarrow> checks_pass st qs \<Longrightarrow> num_blocked qs < n \<Longrightarrow>
      \<exists>qs' u a. f k (qs, res) = Some (Inr (qs', add_result u a res)) \<and> unblocks st qs u a qs' \<and> settles st qs {k} qs'"
    and "pk_inv qs" "checks_pass st qs" "num_blocked qs < n"
  shows "\<exists>qs' u a. each_call f ks (qs, res) = Some (Inr (qs', add_result u a res)) \<and> unblocks st qs u a qs' \<and> settles st qs (set ks) qs'"
  using assms(2-)
proof (induction ks arbitrary: qs res)
  case Nil
  then show ?case using unblocks_refl [of qs st] settles_none [of st qs] by (intro exI [of _ qs] exI [of _ "[]"]) simp
next
  case (Cons k ks)
  from f [OF Cons.prems] obtain qs1 u a where 1: "f k (qs, res) = Some (Inr (qs1, add_result u a res))" "unblocks st qs u a qs1"
    "settles st qs {k} qs1" by blast
  have "pk_inv qs1" using 1 by (simp add: unblocks_def)
  moreover have "checks_pass st qs1" using Cons.prems(2) unblocks_subset [OF 1(2)] unfolding checks_pass_def by blast
  moreover have "num_blocked qs1 < n" using unblocks_num [OF Cons.prems(1) 1(2)] Cons.prems(3) by simp
  ultimately obtain qs2 u' a' where 2: "each_call f ks (qs1, add_result u a res) = Some (Inr (qs2, add_result u' a' (add_result u a res)))"
    "unblocks st qs1 u' a' qs2" "settles st qs1 (set ks) qs2" using Cons.IH by blast
  with 1 unblocks_trans [OF 1(2) 2(2)] settles_trans [OF 1(3) 2(3)] show ?case by auto
qed

lemma PerKey_TryToUnblock_ok:
  assumes "pk_inv qs" "checks_pass st qs" "num_blocked qs < n"
  shows "\<exists>qs' u a. PerKey_TryToUnblock n st k (qs, res) = Some (Inr (qs', add_result u a res)) \<and>
    unblocks st qs u a qs' \<and> settles st qs {k} qs'"
  using assms
proof (induction n arbitrary: k qs res)
  case (Suc n)
  have stay: ?case if "PerKey_TryToUnblock (Suc n) st k (qs, res) = Some (Inr (qs, res))" "\<not> can_move st qs k"
    using that unblocks_refl [OF Suc.prems(1)] settles_here [OF that(2)] by (intro exI [of _ qs] exI [of _ "[]"]) simp
  have pass: "checks_pass st qs'" if "unblocks st qs u a qs'" for qs' u a
    using Suc.prems(2) unblocks_subset [OF that] unfolding checks_pass_def by blast
  have inv: "pk_inv qs'" if "unblocks st qs u a qs'" for qs' u a using that by (simp add: unblocks_def)
  show ?case
  proof (cases "blocked_at k qs")
    case Nil
    with Suc.prems(1) show ?thesis by (intro stay) (simp_all add: map_of_queues pk_inv_wf can_move_def)
  next
    case (Cons e q)
    obtain txn c where [simp]: "e = (txn, c)" by (cases e)
    have m: "map_of qs k = Some ((txn, c) # q)" using Cons Suc.prems(1) by (simp add: map_of_queues pk_inv_wf)
    have e: "(txn, c) \<in> set (blocked_at k qs)" using Cons by simp
    then obtain r where r: "CheckCounters txn True st = Inr r" using Suc.prems(2) by (fastforce simp: checks_pass_def)
    show ?thesis
    proof (cases r)
      case VM_WAITING
      with r m Cons show ?thesis by (intro stay) (simp_all add: can_move_def)
    next
      case VM_ABORT
      let ?ks = "map kv_key (keys txn)"
      note a = unblocks_abort [OF Suc.prems(1) e r [unfolded VM_ABORT]]
      have n1: "num_blocked (erase_from (tid txn) ?ks qs) < n" using a(2) Suc.prems(3) by simp
      from each_call_ok [where f = "PerKey_TryToUnblock n st" and ks = ?ks and res = RemasterOccurredResult,
          OF Suc.IH inv [OF a(1)] pass [OF a(1)] n1]
      obtain qs' u' a' where 2: "each_call (PerKey_TryToUnblock n st) ?ks (erase_from (tid txn) ?ks qs, RemasterOccurredResult)
          = Some (Inr (qs', add_result u' a' RemasterOccurredResult))" "unblocks st (erase_from (tid txn) ?ks qs) u' a' qs'"
          "settles st (erase_from (tid txn) ?ks qs) (set ?ks) qs'" by blast
      have "pk_inv qs'" using 2(2) by (simp add: unblocks_def)
      from settles_changed [OF 2(3) this] have "settles st qs (set ?ks) qs'"
        using Suc.prems(1) by (simp add: blocked_at_erase_from pk_inv_wf pk_inv_distinct)
      moreover have "k \<in> set ?ks" using pk_inv_entry(2) [OF Suc.prems(1) e] home_keys_subset [of txn] by auto
      ultimately have "settles st qs {k} qs'" using settles_subset by blast
      with 2(1) r m VM_ABORT unblocks_trans [OF a(1) 2(2)] show ?thesis
        by (auto simp: Let_def add_result_def RemasterOccurredResult_def)
    next
      case VM_VALID
      have "\<forall>k \<in> set (home_keys txn). txn \<in> fst ` set (blocked_at k qs)"
        using pk_inv_entry(3) [OF Suc.prems(1) e] by simp
      note f = in_front_total [OF pk_inv_wf [OF Suc.prems(1)] this]
      show ?thesis
      proof (cases "\<forall>k \<in> set (home_keys txn). fst (hd (blocked_at k qs)) = txn")
        case False
        with r m VM_VALID f Cons show ?thesis by (intro stay) (auto simp: can_move_iff)
      next
        case True
        with f have f': "in_front txn (home_keys txn) qs = Inr True" by simp
        from unblocks_valid [OF Suc.prems(1) e r [unfolded VM_VALID] True] obtain qs1
          where p: "pop_fronts (home_keys txn) qs = Inr qs1" "unblocks st qs [txn] [] qs1" "num_blocked qs1 < num_blocked qs"
            "\<forall>k. k \<notin> set (home_keys txn) \<longrightarrow> blocked_at k qs1 = blocked_at k qs" by blast
        have n1: "num_blocked qs1 < n" using p(3) Suc.prems(3) by simp
        from each_call_ok [where f = "PerKey_TryToUnblock n st" and ks = "home_keys txn" and res = "add_result [txn] [] res",
            OF Suc.IH inv [OF p(2)] pass [OF p(2)] n1]
        obtain qs' u' a' where 2: "each_call (PerKey_TryToUnblock n st) (home_keys txn) (qs1, add_result [txn] [] res)
            = Some (Inr (qs', add_result u' a' (add_result [txn] [] res)))" "unblocks st qs1 u' a' qs'"
          "settles st qs1 (set (home_keys txn)) qs'" by blast
        have "pk_inv qs'" using 2(2) by (simp add: unblocks_def)
        from settles_changed [OF 2(3) this] have "settles st qs (set (home_keys txn)) qs'" using p(4) by simp
        with settles_subset pk_inv_entry(2) [OF Suc.prems(1) e] have s: "settles st qs {k} qs'" by auto
        have "PerKey_TryToUnblock (Suc n) st k (qs, res) = each_call (PerKey_TryToUnblock n st) (home_keys txn) (qs1, add_result [txn] [] res)"
          using r m VM_VALID f' p(1) by (cases res) (simp add: add_result_def)
        with 2(1) s unblocks_trans [OF p(2) 2(2)] show ?thesis by auto
      qed
    qed
  qed
qed simp

text \<open>\<^verbatim>\<open>RemasterOccured\<close> and \<^verbatim>\<open>ReleaseTransaction\<close> return: the number of blocked entries is enough fuel.\<close>

lemma PerKey_RemasterOccured_ok:
  assumes "pk_inv qs" "checks_pass st qs"
  shows "\<exists>qs' u a. PerKey_RemasterOccured st k c qs = Some (Inr (\<lparr>ror_unblocked = u, ror_should_abort = a\<rparr>, qs')) \<and>
    unblocks st qs u a qs' \<and> settles st qs {k} qs'"
proof (cases "map_of qs k")
  case None
  then have "\<not> can_move st qs k" by (simp add: can_move_def blocked_at_def)
  with None unblocks_refl [OF assms(1)] settles_here show ?thesis
    by (intro exI [of _ qs] exI [of _ "[]"]) (simp add: PerKey_RemasterOccured_def RemasterOccurredResult_def)
next
  case (Some q)
  with PerKey_TryToUnblock_ok [OF assms lessI, of k RemasterOccurredResult] show ?thesis
    by (auto simp: PerKey_RemasterOccured_def RemasterOccurredResult_def add_result_def simp del: PerKey_TryToUnblock.simps)
qed

text \<open>A transaction to be released has the keys of its blocked parts.\<close>

definition keys_agree :: "transaction \<Rightarrow> blocked_queues \<Rightarrow> bool" where
  "keys_agree txn qs \<longleftrightarrow> (\<forall>k. \<forall>e \<in> set (blocked_at k qs). tid (fst e) = tid txn \<longrightarrow> keys (fst e) = keys txn)"

lemma release_blocked:
  assumes inv: "pk_inv qs" and agree: "keys_agree txn qs"
  defines "qs' \<equiv> erase_from (tid txn) (map kv_key (keys txn)) qs"
  shows "pk_inv qs'" "blocked_at k qs' = filter (\<lambda>e. tid (fst e) \<noteq> tid txn) (blocked_at k qs)"
proof -
  have b: "blocked_at k qs' = filter (\<lambda>e. tid (fst e) \<noteq> tid txn) (blocked_at k qs)" for k
  proof (cases "\<exists>e \<in> set (blocked_at k qs). tid (fst e) = tid txn")
    case True
    then obtain e where e: "e \<in> set (blocked_at k qs)" "tid (fst e) = tid txn" by blast
    with agree have "keys (fst e) = keys txn" by (simp add: keys_agree_def)
    with e erase_blocked [OF inv, of "fst e" "snd e" k k] show ?thesis by (simp add: qs'_def)
  next
    case False
    then show ?thesis
      using inv by (simp add: qs'_def blocked_at_erase_from pk_inv_wf pk_inv_distinct)
  qed
  then show "blocked_at k qs' = filter (\<lambda>e. tid (fst e) \<noteq> tid txn) (blocked_at k qs)" .
  show "pk_inv qs'"
    by (rule pk_inv_filter [where P = "\<lambda>t. tid t \<noteq> tid txn", OF inv])
      (use b in \<open>auto simp: qs'_def erase_from_wf pk_inv_wf inv\<close>)
qed

lemma PerKey_ReleaseTransaction_ok:
  assumes inv: "pk_inv qs" and pass: "checks_pass st qs" and agree: "keys_agree txn qs"
  shows "\<exists>qs1 qs' u a. PerKey_ReleaseTransaction st txn qs = Some (Inr (\<lparr>ror_unblocked = u, ror_should_abort = a\<rparr>, qs')) \<and>
    (\<forall>k. blocked_at k qs1 = filter (\<lambda>e. tid (fst e) \<noteq> tid txn) (blocked_at k qs)) \<and> unblocks st qs1 u a qs' \<and>
    settles st qs1 (kv_key ` set (keys txn)) qs'"
proof -
  let ?ks = "map kv_key (keys txn)"
  let ?qs1 = "erase_from (tid txn) ?ks qs"
  note r = release_blocked [OF inv agree]
  have "checks_pass st ?qs1" using pass unfolding checks_pass_def r(2) set_filter by blast
  from each_call_ok [where ks = ?ks and res = RemasterOccurredResult and f = "PerKey_TryToUnblock (Suc (num_blocked ?qs1)) st",
      OF PerKey_TryToUnblock_ok r(1) this lessI]
  obtain qs' u a where "each_call (PerKey_TryToUnblock (Suc (num_blocked ?qs1)) st) ?ks (?qs1, RemasterOccurredResult)
      = Some (Inr (qs', add_result u a RemasterOccurredResult))" "unblocks st ?qs1 u a qs'"
      "settles st ?qs1 (set ?ks) qs'" by blast
  with r(2) show ?thesis
    by (intro exI [of _ ?qs1] exI [of _ qs'] exI [of _ u] exI [of _ a])
      (simp add: PerKey_ReleaseTransaction_def Let_def add_result_def RemasterOccurredResult_def del: PerKey_TryToUnblock.simps)
qed

section \<open>Blocking\<close>

lemma blocked_at_Insert: "blocked_at k' (InsertIntoBlockedQueue k c txn qs) =
    (if k' = k then insert_entry (txn, c) (blocked_at k qs) else blocked_at k' qs)"
  by (simp add: InsertIntoBlockedQueue_def blocked_at_def update_conv')

lemma Insert_wf: "wf_queues qs \<Longrightarrow> wf_queues (InsertIntoBlockedQueue k c txn qs)"
proof -
  have "insert_entry (txn, c) q \<noteq> []" for q by (cases q) auto
  then have "InsertIntoBlockedQueue k c txn qs = set_blocked k (insert_entry (txn, c) (blocked_at k qs)) qs"
    by (simp add: InsertIntoBlockedQueue_def set_blocked_def)
  then show "wf_queues qs \<Longrightarrow> wf_queues (InsertIntoBlockedQueue k c txn qs)" by (simp add: wf_set_blocked)
qed

lemma block_on_keys_wf: "wf_queues qs \<Longrightarrow> wf_queues (block_on_keys txn kvs qs)"
  by (induction kvs arbitrary: qs) (auto intro: Insert_wf)

lemma block_on_keys_other:
  "k \<notin> kv_key ` {kv \<in> set kvs. home_kv txn kv} \<Longrightarrow> blocked_at k (block_on_keys txn kvs qs) = blocked_at k qs"
proof (induction kvs arbitrary: qs)
  case (Cons x kvs)
  then have "k \<notin> kv_key ` {kv \<in> set kvs. home_kv txn kv}" "home_kv txn x \<Longrightarrow> k \<noteq> kv_key x" by auto
  with Cons.IH show ?case by (simp add: blocked_at_Insert)
qed simp

lemma block_on_keys_home:
  assumes "distinct (map kv_key kvs)" "kv \<in> set kvs" "home_kv txn kv"
  shows "blocked_at (kv_key kv) (block_on_keys txn kvs qs) = insert_entry (txn, kv_counter kv) (blocked_at (kv_key kv) qs)"
  using assms
proof (induction kvs arbitrary: qs)
  case (Cons x kvs)
  show ?case
  proof (cases "kv = x")
    case True
    have "kv_key x \<notin> kv_key ` {kv \<in> set kvs. home_kv txn kv}" using Cons.prems by auto
    with True Cons.prems block_on_keys_other show ?thesis by (simp add: blocked_at_Insert)
  next
    case False
    with Cons.prems have kv: "kv \<in> set kvs" by simp
    from imageI [OF this, of kv_key] Cons.prems(1) have "kv_key kv \<noteq> kv_key x" by auto
    with kv Cons show ?thesis by (simp add: blocked_at_Insert)
  qed
qed simp

text \<open>Blocking a new part keeps the invariant.\<close>

lemma block_on_keys_inv:
  assumes inv: "pk_inv qs" and dist: "distinct (map kv_key (keys txn))" and agree: "keys_agree txn qs"
    and new: "\<forall>k \<in> set (home_keys txn). tid txn \<notin> (\<lambda>e. tid (fst e)) ` set (blocked_at k qs)"
  shows "pk_inv (block_on_keys txn (keys txn) qs)" (is "pk_inv ?qs'")
proof -
  let ?H = "kv_key ` {kv \<in> set (keys txn). home_kv txn kv}"
  have H: "set (home_keys txn) = ?H" by (simp add: home_keys_def)
  note b = block_on_keys_home [OF dist] block_on_keys_other
  have set: "e \<in> set (blocked_at k ?qs') \<longleftrightarrow> e \<in> set (blocked_at k qs) \<or>
      (\<exists>kv \<in> set (keys txn). home_kv txn kv \<and> kv_key kv = k \<and> e = (txn, kv_counter kv))" for e k
  proof (cases "k \<in> ?H")
    case True
    then obtain kv where kv: "kv \<in> set (keys txn)" "home_kv txn kv" "k = kv_key kv" by auto
    with dist have "kv' = kv" if "kv' \<in> set (keys txn)" "kv_key kv' = k" for kv'
      using that by (auto simp: distinct_map inj_on_def)
    with kv have "(\<exists>kv \<in> set (keys txn). home_kv txn kv \<and> kv_key kv = k \<and> e = (txn, kv_counter kv)) \<longleftrightarrow> e = (txn, kv_counter kv)"
      by blast
    moreover from b(1) [OF kv(1,2)] have "set (blocked_at k ?qs') = insert (txn, kv_counter kv) (set (blocked_at k qs))"
      by (simp add: kv(3))
    ultimately show ?thesis by blast
  next
    case False
    then show ?thesis unfolding b(2) [OF False] by blast
  qed
  have "sorted (map snd (blocked_at k ?qs'))" "distinct (map (\<lambda>e. tid (fst e)) (blocked_at k ?qs'))" for k
  proof (atomize (full), cases "k \<in> ?H")
    case True
    then obtain kv where kv: "kv \<in> set (keys txn)" "home_kv txn kv" "k = kv_key kv" by auto
    have "distinct (map (\<lambda>e. tid (fst e)) (insert_entry (txn, c) q))"
      if "distinct (map (\<lambda>e. tid (fst e)) q)" "tid txn \<notin> (\<lambda>e. tid (fst e)) ` set q" for c q
      using that by (induction q) auto
    moreover have "tid txn \<notin> (\<lambda>e. tid (fst e)) ` set (blocked_at k qs)" using new True H by blast
    ultimately show "sorted (map snd (blocked_at k ?qs')) \<and> distinct (map (\<lambda>e. tid (fst e)) (blocked_at k ?qs'))"
      using b(1) [OF kv(1,2)] kv(3) inv unfolding pk_inv_def by (simp add: insert_entry_sorted)
  next
    case False
    with b(2) [OF False] inv show "sorted (map snd (blocked_at k ?qs')) \<and> distinct (map (\<lambda>e. tid (fst e)) (blocked_at k ?qs'))"
      unfolding pk_inv_def by simp
  qed
  moreover have "distinct (map kv_key (keys (fst e))) \<and>
      (\<exists>kv \<in> set (keys (fst e)). home_kv (fst e) kv \<and> kv_key kv = k \<and> kv_counter kv = snd e) \<and>
      (\<forall>k' \<in> set (home_keys (fst e)). fst e \<in> fst ` set (blocked_at k' ?qs'))"
    if e: "e \<in> set (blocked_at k ?qs')" for k e
    using e unfolding set
  proof
    assume e: "e \<in> set (blocked_at k qs)"
    have "fst e \<in> fst ` set (blocked_at k' ?qs')" if "k' \<in> set (home_keys (fst e))" for k'
      using pk_inv_entry(3) [OF inv e that] unfolding image_iff Bex_def set by blast
    with inv e show ?thesis unfolding pk_inv_def by blast
  next
    assume "\<exists>kv \<in> set (keys txn). home_kv txn kv \<and> kv_key kv = k \<and> e = (txn, kv_counter kv)"
    moreover have "txn \<in> fst ` set (blocked_at k' ?qs')" if "k' \<in> set (home_keys txn)" for k'
      using that unfolding H image_iff Bex_def set by auto
    ultimately show ?thesis using dist by auto
  qed
  moreover have "keys (fst e) = keys (fst e')"
    if "e \<in> set (blocked_at k ?qs')" "e' \<in> set (blocked_at k' ?qs')" "tid (fst e) = tid (fst e')" for k k' e e'
  proof -
    have "keys (fst e) = keys txn" if "e \<in> set (blocked_at k ?qs')" "tid (fst e) = tid txn" for e k
      using that agree unfolding set keys_agree_def by auto
    with that set pk_inv_keys [OF inv, of e k e' k'] show ?thesis by (metis fst_conv)
  qed
  ultimately show ?thesis unfolding pk_inv_def using block_on_keys_wf [OF pk_inv_wf [OF inv]] by blast
qed

lemma PerKey_VerifyMaster_inv:
  assumes "pk_inv qs" "distinct (map kv_key (keys txn))" "keys_agree txn qs"
    "\<forall>k \<in> set (home_keys txn). tid txn \<notin> (\<lambda>e. tid (fst e)) ` set (blocked_at k qs)"
    "PerKey_VerifyMaster st txn qs = Inr (r, qs')"
  shows "pk_inv qs'"
  using assms(5) block_on_keys_inv [OF assms(1-4)] assms(1)
  by (auto simp: PerKey_VerifyMaster_def split: if_splits sum.splits verify_master_result.splits)

lemma indirectly_blocked_iff:
  assumes "\<forall>k. sorted (map snd (blocked_at k qs))"
  shows "indirectly_blocked kvs qs \<longleftrightarrow> (\<exists>kv \<in> set kvs. \<exists>e \<in> set (blocked_at (kv_key kv) qs). snd e \<le> kv_counter kv)"
proof (induction kvs)
  case (Cons kv kvs)
  have "sorted (map snd (blocked_at (kv_key kv) qs))" using assms by blast
  with Cons show ?case by (cases "blocked_at (kv_key kv) qs") (auto 4 3)
qed simp

lemma PerKey_VerifyMaster_valid:
  assumes "pk_inv qs" "keys txn \<noteq> []"
  shows "PerKey_VerifyMaster st txn qs = Inr (VM_VALID, qs') \<longleftrightarrow> qs' = qs \<and> CheckCounters txn True st = Inr VM_VALID \<and>
    (\<forall>kv \<in> set (keys txn). \<forall>e \<in> set (blocked_at (kv_key kv) qs). kv_counter kv < snd e)"
proof -
  have "\<forall>k. sorted (map snd (blocked_at k qs))" using assms(1) unfolding pk_inv_def by blast
  from indirectly_blocked_iff [OF this] assms(2) show ?thesis
    by (auto simp: PerKey_VerifyMaster_def not_le split: sum.splits verify_master_result.splits)
qed

section \<open>Calls return\<close>

text \<open>The calls return on all queues that hold, under every key, only transactions with this key, and every operation
  keeps this.\<close>

definition queued_by_key :: "blocked_queues \<Rightarrow> bool" where
  "queued_by_key qs \<longleftrightarrow> wf_queues qs \<and> (\<forall>k. \<forall>e \<in> set (blocked_at k qs). k \<in> kv_key ` set (keys (fst e)))"

lemma queued_by_key_subset:
  "queued_by_key qs \<Longrightarrow> wf_queues qs' \<Longrightarrow> (\<And>k. set (blocked_at k qs') \<subseteq> set (blocked_at k qs)) \<Longrightarrow> queued_by_key qs'"
  unfolding queued_by_key_def by blast

lemma num_set_blocked:
  assumes "wf_queues qs"
  shows "num_blocked (set_blocked k q qs) + length (blocked_at k qs) = num_blocked qs + length q"
proof -
  let ?K = "insert k (fst ` set qs)"
  have K: "\<forall>k'. blocked_at k' qs \<noteq> [] \<longrightarrow> k' \<in> ?K"
    by (auto simp: blocked_at_def split: option.splits dest!: map_of_SomeD intro: rev_image_eqI)
  then have K': "\<forall>k'. blocked_at k' (set_blocked k q qs) \<noteq> [] \<longrightarrow> k' \<in> ?K" by auto
  have "(\<Sum>k' \<in> ?K - {k}. length (blocked_at k' (set_blocked k q qs))) = (\<Sum>k' \<in> ?K - {k}. length (blocked_at k' qs))"
    by (rule sum.cong) auto
  then show ?thesis
    using num_blocked_eq [OF assms _ K] num_blocked_eq [OF wf_set_blocked [OF assms] _ K']
    by (simp add: sum.remove [of ?K k])
qed

lemma set_erase_entry: "set (erase_entry t q) \<subseteq> set q"
  by (induction q) auto

lemma length_erase_entry: "length (erase_entry t q) \<le> length q"
  "q \<noteq> [] \<Longrightarrow> tid (fst (hd q)) = t \<Longrightarrow> length (erase_entry t q) < length q"
  by (induction q) auto

lemma erase_from_shrinks:
  assumes "wf_queues qs"
  shows "num_blocked (erase_from t ks qs) \<le> num_blocked qs" "set (blocked_at k (erase_from t ks qs)) \<subseteq> set (blocked_at k qs)"
    "k \<in> set ks \<Longrightarrow> blocked_at k qs \<noteq> [] \<Longrightarrow> tid (fst (hd (blocked_at k qs))) = t \<Longrightarrow> num_blocked (erase_from t ks qs) < num_blocked qs"
  using assms
proof (atomize (full), induction ks arbitrary: qs)
  case (Cons k' ks)
  let ?qs = "erase_at t k' qs"
  have wf: "wf_queues ?qs" using Cons.prems by (simp add: erase_at_eq wf_set_blocked)
  have b: "blocked_at k ?qs = (if k = k' then erase_entry t (blocked_at k qs) else blocked_at k qs)" for k
    using Cons.prems by (simp add: erase_at_eq)
  have n: "num_blocked ?qs + length (blocked_at k' qs) = num_blocked qs + length (erase_entry t (blocked_at k' qs))"
    using num_set_blocked [OF Cons.prems] Cons.prems by (simp add: erase_at_eq)
  with length_erase_entry(1) [of t "blocked_at k' qs"] have le: "num_blocked ?qs \<le> num_blocked qs" by simp
  from Cons.IH [rule_format, OF wf] have IH: "num_blocked (erase_from t ks ?qs) \<le> num_blocked ?qs"
    "set (blocked_at k (erase_from t ks ?qs)) \<subseteq> set (blocked_at k ?qs)"
    "k \<in> set ks \<Longrightarrow> blocked_at k ?qs \<noteq> [] \<Longrightarrow> tid (fst (hd (blocked_at k ?qs))) = t \<Longrightarrow> num_blocked (erase_from t ks ?qs) < num_blocked ?qs"
    by blast+
  have "set (blocked_at k ?qs) \<subseteq> set (blocked_at k qs)" using set_erase_entry by (simp add: b)
  moreover have "num_blocked (erase_from t ks ?qs) < num_blocked qs"
    if h: "k \<in> set (k' # ks)" "blocked_at k qs \<noteq> []" "tid (fst (hd (blocked_at k qs))) = t"
  proof (cases "k = k'")
    case True
    with n length_erase_entry(2) [OF h(2,3)] IH(1) show ?thesis by simp
  next
    case False
    with IH(3) h le show ?thesis by (simp add: b)
  qed
  ultimately show ?case using IH(1,2) le by auto
qed simp

lemma pop_fronts_shrinks:
  assumes "wf_queues qs" "pop_fronts ks qs = Inr qs'"
  shows "wf_queues qs' \<and> num_blocked qs' + length ks = num_blocked qs \<and> (\<forall>k. set (blocked_at k qs') \<subseteq> set (blocked_at k qs))"
  using assms
proof (induction ks arbitrary: qs)
  case (Cons k ks)
  from Cons.prems obtain e q where q: "blocked_at k qs = e # q" by (auto simp: map_of_queues split: if_splits list.splits)
  with Cons.prems have "pop_fronts ks (set_blocked k q qs) = Inr qs'" by (simp add: map_of_queues set_blocked_def)
  note IH = Cons.IH [OF wf_set_blocked [OF Cons.prems(1)] this]
  have "num_blocked qs' + length (k # ks) = num_blocked qs" using IH num_set_blocked [OF Cons.prems(1), of k q] q by simp
  moreover have "set (blocked_at k' qs') \<subseteq> set (blocked_at k' qs)" for k'
  proof -
    have "set (blocked_at k' qs') \<subseteq> set (blocked_at k' (set_blocked k q qs))" using IH by blast
    also have "\<dots> \<subseteq> set (blocked_at k' qs)" using q by auto
    finally show ?thesis .
  qed
  ultimately show ?case using IH by blast
qed simp

definition calls_return :: "nat \<Rightarrow> per_key_state result option \<Rightarrow> bool" where
  "calls_return m r \<longleftrightarrow> (\<exists>x. r = Some x \<and> (\<forall>qs res. x = Inr (qs, res) \<longrightarrow> queued_by_key qs \<and> num_blocked qs \<le> m))"

lemma calls_return_simps [simp]:
  "\<not> calls_return m None" "calls_return m (Some (Inl e))"
  "calls_return m (Some (Inr (qs, res))) \<longleftrightarrow> queued_by_key qs \<and> num_blocked qs \<le> m"
  by (simp_all add: calls_return_def)

lemma calls_return_mono: "calls_return m r \<Longrightarrow> m \<le> m' \<Longrightarrow> calls_return m' r"
  unfolding calls_return_def by fastforce

lemma calls_return_swap:
  assumes "calls_return m r"
  shows "\<exists>x. map_option (map_sum id prod.swap) r = Some x \<and> (\<forall>res qs. x = Inr (res, qs) \<longrightarrow> queued_by_key qs)"
proof -
  from assms obtain y where "r = Some y" "\<forall>qs res. y = Inr (qs, res) \<longrightarrow> queued_by_key qs" unfolding calls_return_def by blast
  then show ?thesis by (cases y) auto
qed

lemma each_call_per_key:
  assumes f: "\<And>k qs res. queued_by_key qs \<Longrightarrow> num_blocked qs < n \<Longrightarrow> calls_return (num_blocked qs) (f k (qs, res))"
    and "queued_by_key qs" "num_blocked qs < n"
  shows "calls_return (num_blocked qs) (each_call f ks (qs, res))"
  using assms(2,3)
proof (induction ks arbitrary: qs res)
  case (Cons k ks)
  from f [OF Cons.prems, of k res] obtain x where x: "f k (qs, res) = Some x"
    "\<And>qs' res'. x = Inr (qs', res') \<Longrightarrow> queued_by_key qs' \<and> num_blocked qs' \<le> num_blocked qs" unfolding calls_return_def by blast
  show ?case
  proof (cases x)
    case (Inr y)
    obtain qs' res' where y: "y = (qs', res')" by (cases y)
    with x Inr have "queued_by_key qs'" "num_blocked qs' \<le> num_blocked qs" by auto
    with Cons.IH [of qs' res'] Cons.prems x Inr y show ?thesis by (auto intro: calls_return_mono)
  qed (simp add: x)
qed simp

lemma TryToUnblock_returns:
  "queued_by_key qs \<Longrightarrow> num_blocked qs < n \<Longrightarrow> calls_return (num_blocked qs) (PerKey_TryToUnblock n st k (qs, res))"
proof (induction n arbitrary: k qs res)
  case (Suc n)
  have wf: "wf_queues qs" using Suc.prems(1) by (simp add: queued_by_key_def)
  show ?case
  proof (cases "blocked_at k qs")
    case Nil
    with wf Suc.prems show ?thesis by (simp add: map_of_queues)
  next
    case (Cons e q)
    obtain txn c where [simp]: "e = (txn, c)" by (cases e)
    have m: "map_of qs k = Some ((txn, c) # q)" using Cons wf by (simp add: map_of_queues)
    show ?thesis
    proof (cases "CheckCounters txn True st")
      case (Inr r)
      show ?thesis
      proof (cases r)
        case VM_WAITING
        with Inr m Suc.prems show ?thesis by simp
      next
        case VM_ABORT
        let ?ks = "map kv_key (keys txn)" and ?qs = "erase_from (tid txn) (map kv_key (keys txn)) qs"
        have "(txn, c) \<in> set (blocked_at k qs)" using Cons by simp
        with Suc.prems(1) have "k \<in> set ?ks" unfolding queued_by_key_def set_map by (metis fst_conv)
        then have less: "num_blocked ?qs < num_blocked qs" using erase_from_shrinks(3) [OF wf] Cons by simp
        then have n: "num_blocked ?qs < n" using Suc.prems(2) by simp
        have q': "queued_by_key ?qs"
          by (rule queued_by_key_subset [OF Suc.prems(1) erase_from_wf [OF wf] erase_from_shrinks(2) [OF wf]])
        from each_call_per_key [where f = "PerKey_TryToUnblock n st" and ks = ?ks and res = RemasterOccurredResult, OF Suc.IH q' n]
        have "calls_return (num_blocked qs) (each_call (PerKey_TryToUnblock n st) ?ks (?qs, RemasterOccurredResult))"
          using less by (rule calls_return_mono [OF _ less_imp_le])
        with Inr m VM_ABORT show ?thesis by (auto simp: Let_def calls_return_def split: option.splits sum.splits)
      next
        case VM_VALID
        show ?thesis
        proof (cases "\<exists>qs'. in_front txn (home_keys txn) qs = Inr True \<and> pop_fronts (home_keys txn) qs = Inr qs'")
          case True
          then obtain qs' where qs': "in_front txn (home_keys txn) qs = Inr True" "pop_fronts (home_keys txn) qs = Inr qs'" by blast
          note p = pop_fronts_shrinks [OF wf qs'(2)]
          have q': "queued_by_key qs'" by (rule queued_by_key_subset [OF Suc.prems(1)]) (use p in auto)
          have "calls_return (num_blocked qs) (each_call (PerKey_TryToUnblock n st) (home_keys txn) (qs', res'))" for res'
          proof (cases "home_keys txn")
            case Nil
            with q' p show ?thesis by simp
          next
            case (Cons k' ks)
            with p Suc.prems(2) have "num_blocked qs' < n" "num_blocked qs' \<le> num_blocked qs" by simp_all
            from calls_return_mono [OF each_call_per_key [where f = "PerKey_TryToUnblock n st", OF Suc.IH q' this(1)] this(2)]
            show ?thesis .
          qed
          with Inr m VM_VALID qs' show ?thesis by simp
        next
          case False
          with Inr m VM_VALID Suc.prems show ?thesis by (auto split: sum.splits bool.splits)
        qed
      qed
    qed (simp add: m)
  qed
qed simp

lemma block_on_keys_queued:
  assumes "queued_by_key qs" "set kvs \<subseteq> set (keys txn)"
  shows "queued_by_key (block_on_keys txn kvs qs)"
  using assms
proof (induction kvs arbitrary: qs)
  case (Cons kv kvs)
  have "queued_by_key (InsertIntoBlockedQueue (kv_key kv) (kv_counter kv) txn qs)"
    using Cons.prems by (auto simp: queued_by_key_def blocked_at_Insert Insert_wf)
  with Cons show ?case by simp
qed simp

section \<open>Checking the invariant\<close>

text \<open>On given queues the conditions can be evaluated.\<close>

lemma blocked_at_member: "e \<in> set (blocked_at k qs) \<Longrightarrow> (k, blocked_at k qs) \<in> set qs"
  by (auto simp: blocked_at_def split: option.splits dest: map_of_SomeD)

lemma pk_inv_check:
  assumes "distinct (map fst qs) \<and>
    list_all (\<lambda>(k, q). q \<noteq> [] \<and> sorted (map snd q) \<and> distinct (map (\<lambda>e. tid (fst e)) q) \<and>
      list_all (\<lambda>e. distinct (map kv_key (keys (fst e))) \<and>
        list_ex (\<lambda>kv. home_kv (fst e) kv \<and> kv_key kv = k \<and> kv_counter kv = snd e) (keys (fst e)) \<and>
        list_all (\<lambda>k'. fst e \<in> fst ` set (blocked_at k' qs)) (home_keys (fst e)) \<and>
        list_all (\<lambda>(k', q'). list_all (\<lambda>e'. tid (fst e) \<noteq> tid (fst e') \<or> keys (fst e) = keys (fst e')) q') qs) q) qs"
  shows "pk_inv qs"
proof -
  note all = iffD1 [OF list_all_iff, THEN bspec]
  let ?P = "\<lambda>k e. distinct (map kv_key (keys (fst e))) \<and>
        list_ex (\<lambda>kv. home_kv (fst e) kv \<and> kv_key kv = k \<and> kv_counter kv = snd e) (keys (fst e)) \<and>
        list_all (\<lambda>k'. fst e \<in> fst ` set (blocked_at k' qs)) (home_keys (fst e)) \<and>
        list_all (\<lambda>(k', q'). list_all (\<lambda>e'. tid (fst e) \<noteq> tid (fst e') \<or> keys (fst e) = keys (fst e')) q') qs"
  have q: "q \<noteq> []" "sorted (map snd q)" "distinct (map (\<lambda>e. tid (fst e)) q)" "list_all (?P k) q" if "(k, q) \<in> set qs" for k q
    using all [OF conjunct2 [OF assms] that] unfolding prod.case by blast+
  have e: "distinct (map kv_key (keys (fst e)))" "\<exists>kv \<in> set (keys (fst e)). home_kv (fst e) kv \<and> kv_key kv = k \<and> kv_counter kv = snd e"
      "\<forall>k' \<in> set (home_keys (fst e)). fst e \<in> fst ` set (blocked_at k' qs)"
      "(k', q') \<in> set qs \<Longrightarrow> e' \<in> set q' \<Longrightarrow> tid (fst e) = tid (fst e') \<Longrightarrow> keys (fst e) = keys (fst e')"
    if "(k, q) \<in> set qs" "e \<in> set q" for k q e k' q' e'
  proof -
    have P: "?P k e" using all [OF q(4) [OF that(1)] that(2)] .
    then show "distinct (map kv_key (keys (fst e)))" "\<exists>kv \<in> set (keys (fst e)). home_kv (fst e) kv \<and> kv_key kv = k \<and> kv_counter kv = snd e"
      "\<forall>k' \<in> set (home_keys (fst e)). fst e \<in> fst ` set (blocked_at k' qs)" by (simp_all add: list_all_iff list_ex_iff)
    assume "(k', q') \<in> set qs" "e' \<in> set q'" "tid (fst e) = tid (fst e')"
    with all [OF all [OF conjunct2 [OF conjunct2 [OF conjunct2 [OF P]]], of "(k', q')", unfolded prod.case], of e']
    show "keys (fst e) = keys (fst e')" by blast
  qed
  have "wf_queues qs" using conjunct1 [OF assms] q(1) unfolding wf_queues_def by auto
  moreover have "sorted (map snd (blocked_at k qs)) \<and> distinct (map (\<lambda>e. tid (fst e)) (blocked_at k qs))" for k
  proof (cases "blocked_at k qs")
    case (Cons a q')
    then have "(k, blocked_at k qs) \<in> set qs" using blocked_at_member [of a k qs] by simp
    from q(2,3) [OF this] show ?thesis by blast
  qed simp
  moreover have "distinct (map kv_key (keys (fst e))) \<and>
      (\<exists>kv \<in> set (keys (fst e)). home_kv (fst e) kv \<and> kv_key kv = k \<and> kv_counter kv = snd e) \<and>
      (\<forall>k' \<in> set (home_keys (fst e)). fst e \<in> fst ` set (blocked_at k' qs))" if "e \<in> set (blocked_at k qs)" for k e
    using e(1-3) [OF blocked_at_member [OF that] that] by blast
  moreover have "keys (fst e1) = keys (fst e2)"
    if "e1 \<in> set (blocked_at k qs)" "e2 \<in> set (blocked_at k' qs)" "tid (fst e1) = tid (fst e2)" for k k' e1 e2
    using e(4) [OF blocked_at_member [OF that(1)] that(1) blocked_at_member [OF that(2)] that(2,3)] .
  ultimately show ?thesis unfolding pk_inv_def by blast
qed

lemma checks_pass_check:
  assumes "list_all (\<lambda>(k, q). list_all (\<lambda>e. case CheckCounters (fst e) True st of Inl _ \<Rightarrow> False | Inr _ \<Rightarrow> True) q) qs"
  shows "checks_pass st qs"
  unfolding checks_pass_def
proof (intro allI ballI)
  fix k e
  assume e: "e \<in> set (blocked_at k qs)"
  from assms blocked_at_member [OF e] have "list_all (\<lambda>e. case CheckCounters (fst e) True st of Inl _ \<Rightarrow> False | Inr _ \<Rightarrow> True) (blocked_at k qs)"
    unfolding list_all_iff by blast
  with e have "case CheckCounters (fst e) True st of Inl _ \<Rightarrow> False | Inr _ \<Rightarrow> True" unfolding list_all_iff by blast
  then show "\<exists>r. CheckCounters (fst e) True st = Inr r" by (simp split: sum.splits)
qed

lemma keys_agree_check:
  assumes "list_all (\<lambda>(k, q). list_all (\<lambda>e. tid (fst e) \<noteq> tid txn \<or> keys (fst e) = keys txn) q) qs"
  shows "keys_agree txn qs"
  using assms blocked_at_member unfolding keys_agree_def list_all_iff by blast

end
