(* ===== verification/Scheduler_Remaster.thy ===== *)
theory Scheduler_Remaster
  imports Scheduler_Model Per_Key_Remaster Old_Lock_Manager
begin

text \<open>
  \<^verbatim>\<open>module/scheduler.cpp\<close> as compiled with one of the remaster protocols that count remasters (\<^verbatim>\<open>REMASTER_PROTOCOL_SIMPLE\<close> and
  \<^verbatim>\<open>REMASTER_PROTOCOL_PER_KEY\<close>): a part goes to the remaster manager before it goes to the lock manager, and a part that
  is aborted or unblocked may abort or unblock others. The operations of the two managers, which are chosen at compile time,
  are arguments. Aborts call each other; the depth of these calls is bounded by fuel, and the number of transactions that
  are not aborting is shown to be enough.

  These protocols compile only with \<^verbatim>\<open>LOCK_MANAGER_OLD\<close>: \<^verbatim>\<open>scheduler.h\<close> rejects them with \<^verbatim>\<open>#error\<close> for any other lock
  manager. So the body of \<^verbatim>\<open>TriggerPreDispatchAbort\<close>, which is left out under \<^verbatim>\<open>LOCK_MANAGER_DDR\<close>, is always there.
  The last section shows how aborting one transaction can abort another one, which is then aborted a second time.
\<close>

section \<open>Model\<close>

record 'r remaster_ops =
  rm_verify :: "transaction \<Rightarrow> 'r \<Rightarrow> (verify_master_result \<times> 'r) result"
  rm_occurred :: "key \<Rightarrow> nat \<Rightarrow> 'r \<Rightarrow> (remaster_occurred_result \<times> 'r) result option"
  rm_release :: "transaction \<Rightarrow> 'r \<Rightarrow> (remaster_occurred_result \<times> 'r) result option"

text \<open>The two remaster managers, on the storage they share with the workers.\<close>

definition simple_ops :: "storage \<Rightarrow> simple_queues remaster_ops" where
  "simple_ops st = \<lparr>rm_verify = Simple_VerifyMaster st,
     rm_occurred = (\<lambda>k c qs. Some (Simple_RemasterOccured st k c qs)),
     rm_release = (\<lambda>txn qs. Some (Simple_ReleaseTransaction st txn qs))\<rparr>"

definition per_key_ops :: "storage \<Rightarrow> blocked_queues remaster_ops" where
  "per_key_ops st = \<lparr>rm_verify = PerKey_VerifyMaster st, rm_occurred = PerKey_RemasterOccured st,
     rm_release = PerKey_ReleaseTransaction st\<rparr>"

type_synonym ('m, 'r) remaster_state = "'m scheduler \<times> 'r"
type_synonym ('m, 'r) abort_fn = "txn_id \<Rightarrow> ('m, 'r) remaster_state \<Rightarrow> ('m, 'r) remaster_state result option"

definition Remaster_SendToLockManager ::
  "'m acquire_fn \<Rightarrow> ('m, 'r) abort_fn \<Rightarrow> transaction \<Rightarrow> ('m, 'r) remaster_state \<Rightarrow> ('m, 'r) remaster_state result option" where
  "Remaster_SendToLockManager acquire abort txn sr =
     (case sr of (s, rm) \<Rightarrow>
        (case acquire txn (sc_lock_manager s) of
           Inl e \<Rightarrow> Some (Inl e)
         | Inr (r, lm) \<Rightarrow>
             (case r of
                ACQUIRED \<Rightarrow> Some (map_sum id (\<lambda>s'. (s', rm)) (Dispatch (tid txn) (s\<lparr>sc_lock_manager := lm\<rparr>)))
              | ABORT \<Rightarrow> abort (tid txn) (s\<lparr>sc_lock_manager := lm\<rparr>, rm)
              | WAITING \<Rightarrow> Some (Inr (s\<lparr>sc_lock_manager := lm\<rparr>, rm)))))"

text \<open>\<open>ord\<close> stands for the order in which the set of the transactions to abort is iterated.\<close>

definition ProcessRemasterResult ::
  "(txn_id list \<Rightarrow> txn_id list) \<Rightarrow> 'm acquire_fn \<Rightarrow> ('m, 'r) abort_fn \<Rightarrow> remaster_occurred_result \<Rightarrow> ('m, 'r) remaster_state \<Rightarrow>
   ('m, 'r) remaster_state result option" where
  "ProcessRemasterResult ord acquire abort res sr =
     (case each_call (Remaster_SendToLockManager acquire abort) (ror_unblocked res) sr of
        None \<Rightarrow> None
      | Some (Inl e) \<Rightarrow> Some (Inl e)
      | Some (Inr sr') \<Rightarrow>
          let aborting_txn_ids = remdups (map tid (ror_should_abort res))
          in if length (ror_should_abort res) \<noteq> length aborting_txn_ids
             then Some (Inl (CheckFailed ''Duplicate transactions returned for abort''))
             else each_call abort (ord aborting_txn_ids) sr')"

text \<open>The body of \<^verbatim>\<open>TriggerPreDispatchAbort\<close>, where \<open>abort\<close> stands for the aborts it calls, and the function with its fuel.\<close>

definition trigger_abort_body ::
  "('m, 'r) abort_fn \<Rightarrow> (txn_id list \<Rightarrow> txn_id list) \<Rightarrow> 'm acquire_fn \<Rightarrow> 'm release_fn \<Rightarrow> 'r remaster_ops \<Rightarrow> ('m, 'r) abort_fn" where
  "trigger_abort_body abort ord acquire release ops t sr = (case sr of (s, rm) \<Rightarrow>
     (case active_txns s t of
        None \<Rightarrow> Some (Inl (CheckFailed ''active_txn_it != active_txns_.end()''))
      | Some h \<Rightarrow>
          if aborting h then Some (Inl (CheckFailed ''Abort was triggered twice''))
          else case holder_txn h of
                 Inl e \<Rightarrow> Some (Inl e)
               | Inr txn \<Rightarrow>
                   (case rm_release ops txn rm of
                      None \<Rightarrow> None
                    | Some (Inl e) \<Rightarrow> Some (Inl e)
                    | Some (Inr (res, rm1)) \<Rightarrow>
                        (case ProcessRemasterResult ord acquire abort res
                                (s\<lparr>active_txns := (active_txns s)(t \<mapsto> h\<lparr>aborting := True\<rparr>)\<rparr>, rm1) of
                           None \<Rightarrow> None
                         | Some (Inl e) \<Rightarrow> Some (Inl e)
                         | Some (Inr (s1, rm2)) \<Rightarrow>
                             (case release t (sc_lock_manager s1) of
                                Inl e \<Rightarrow> Some (Inl e)
                              | Inr (unblocked, lm) \<Rightarrow>
                                  (case dispatch_all unblocked (s1\<lparr>sc_lock_manager := lm\<rparr>) of
                                     Inl e \<Rightarrow> Some (Inl e)
                                   | Inr s2 \<Rightarrow>
                                       Some (map_sum id (\<lambda>s'. (s', rm2))
                                         (Dispatch t (s2\<lparr>active_txns := (active_txns s2)(t := map_option
                                            (update_txn (\<lambda>x. x\<lparr>status := ABORTED\<rparr>)) (active_txns s2 t))\<rparr>)))))))))"

fun Remaster_TriggerPreDispatchAbort ::
  "nat \<Rightarrow> (txn_id list \<Rightarrow> txn_id list) \<Rightarrow> 'm acquire_fn \<Rightarrow> 'm release_fn \<Rightarrow> 'r remaster_ops \<Rightarrow> ('m, 'r) abort_fn" where
  "Remaster_TriggerPreDispatchAbort 0 ord acquire release ops t sr = None"
| "Remaster_TriggerPreDispatchAbort (Suc n) ord acquire release ops t sr =
     trigger_abort_body (Remaster_TriggerPreDispatchAbort n ord acquire release ops) ord acquire release ops t sr"

lemma Remaster_TriggerPreDispatchAbort_code [code]:
  "Remaster_TriggerPreDispatchAbort n ord acquire release ops t sr =
     (if n = 0 then None
      else trigger_abort_body (Remaster_TriggerPreDispatchAbort (n - 1) ord acquire release ops) ord acquire release ops t sr)"
  by (cases n) simp_all

declare trigger_abort_body_def [simp]

definition SendToRemasterManager ::
  "nat \<Rightarrow> (txn_id list \<Rightarrow> txn_id list) \<Rightarrow> 'm acquire_fn \<Rightarrow> 'm release_fn \<Rightarrow> 'r remaster_ops \<Rightarrow> transaction \<Rightarrow> ('m, 'r) remaster_state \<Rightarrow>
   ('m, 'r) remaster_state result option" where
  "SendToRemasterManager n ord acquire release ops txn sr =
     (case sr of (s, rm) \<Rightarrow>
        (case rm_verify ops txn rm of
           Inl e \<Rightarrow> Some (Inl e)
         | Inr (VM_VALID, rm') \<Rightarrow>
             Remaster_SendToLockManager acquire (Remaster_TriggerPreDispatchAbort n ord acquire release ops) txn (s, rm')
         | Inr (VM_ABORT, rm') \<Rightarrow> Remaster_TriggerPreDispatchAbort n ord acquire release ops (tid txn) (s, rm')
         | Inr (VM_WAITING, rm') \<Rightarrow> Some (Inr (s, rm'))))"

definition Remaster_ProcessTransaction ::
  "nat \<Rightarrow> (txn_id list \<Rightarrow> txn_id list) \<Rightarrow> 'm acquire_fn \<Rightarrow> 'm release_fn \<Rightarrow> 'r remaster_ops \<Rightarrow> nat \<Rightarrow> transaction \<Rightarrow> ('m, 'r) remaster_state \<Rightarrow>
   ('m, 'r) remaster_state result option" where
  "Remaster_ProcessTransaction n ord acquire release ops nr txn sr =
     (case sr of (s, rm) \<Rightarrow>
        let t = tid txn; c = global_log_counter s + 1; s0 = s\<lparr>global_log_counter := c\<rparr>;
            hm = home (internal txn)
        in case (case active_txns s t of
                   None \<Rightarrow> map_sum id (\<lambda>h. (True, h)) (TxnHolder nr txn)
                 | Some h \<Rightarrow> AddLockOnlyTxn txn h) of
             Inl e \<Rightarrow> Some (Inl e)
           | Inr (False, h) \<Rightarrow> Some (Inr (s0, rm))
           | Inr (True, h) \<Rightarrow>
               (case holder_txn h of
                  Inl e \<Rightarrow> Some (Inl e)
                | Inr _ \<Rightarrow>
                    let h1 = update_txn (add_log_position hm c) h;
                        s1 = s0\<lparr>active_txns := (active_txns s)(t \<mapsto> h1)\<rparr>;
                        txn' = (if active_txns s t = None then add_log_position hm c txn else txn)
                    in if aborting h1
                       then Some (Inr (if is_ready_for_gc h1 then s1\<lparr>active_txns := (active_txns s1)(t := None)\<rparr> else s1, rm))
                       else SendToRemasterManager n ord acquire release ops txn' (s1, rm)))"

definition Remaster_worker_done ::
  "nat \<Rightarrow> (txn_id list \<Rightarrow> txn_id list) \<Rightarrow> 'm acquire_fn \<Rightarrow> 'm release_fn \<Rightarrow> 'r remaster_ops \<Rightarrow> txn_id \<Rightarrow> ('m, 'r) remaster_state \<Rightarrow>
   ('m, 'r) remaster_state result option" where
  "Remaster_worker_done n ord acquire release ops t sr =
     (case sr of (s, rm) \<Rightarrow>
        (case release t (sc_lock_manager s) of
           Inl e \<Rightarrow> Some (Inl e)
         | Inr (unblocked, lm) \<Rightarrow>
             (case dispatch_all unblocked (s\<lparr>sc_lock_manager := lm\<rparr>) of
                Inl e \<Rightarrow> Some (Inl e)
              | Inr s1 \<Rightarrow>
                  (case active_txns s1 t of
                     None \<Rightarrow> Some (Inl (CheckFailed ''it != active_txns_.end()''))
                   | Some h \<Rightarrow>
                       (case (case remaster_result h of
                                None \<Rightarrow> Some (Inr (s1, rm))
                              | Some (k, c) \<Rightarrow>
                                  (case rm_occurred ops k c rm of
                                     None \<Rightarrow> None
                                   | Some (Inl e) \<Rightarrow> Some (Inl e)
                                   | Some (Inr (res, rm1)) \<Rightarrow>
                                       ProcessRemasterResult ord acquire
                                         (Remaster_TriggerPreDispatchAbort n ord acquire release ops) res (s1, rm1))) of
                          None \<Rightarrow> None
                        | Some (Inl e) \<Rightarrow> Some (Inl e)
                        | Some (Inr (s2, rm2)) \<Rightarrow>
                            (case active_txns s2 t of
                               None \<Rightarrow> Some (Inl (UndefinedBehaviour ''txn_holder''))
                             | Some h2 \<Rightarrow>
                                 let h3 = h2\<lparr>is_done := True\<rparr>
                                 in Some (Inr (s2\<lparr>active_txns := (active_txns s2)(t := if is_ready_for_gc h3 then None else Some h3)\<rparr>,
                                               rm2))))))))"

text \<open>
  Runs of the scheduler: parts that arrive and transactions a worker is done with, each with the storage at that time. A
  worker writes the key and the new counter of a remaster into the holder before it reports.
\<close>

datatype remaster_event = RArrive transaction | RDone txn_id "(key \<times> nat) option"

definition set_remaster_result :: "txn_id \<Rightarrow> (key \<times> nat) option \<Rightarrow> 'm scheduler \<Rightarrow> 'm scheduler" where
  "set_remaster_result t rr s =
     s\<lparr>active_txns := (active_txns s)(t := map_option (\<lambda>h. h\<lparr>remaster_result := rr\<rparr>) (active_txns s t))\<rparr>"

fun Remaster_step ::
  "nat \<Rightarrow> (txn_id list \<Rightarrow> txn_id list) \<Rightarrow> 'm acquire_fn \<Rightarrow> 'm release_fn \<Rightarrow> (storage \<Rightarrow> 'r remaster_ops) \<Rightarrow> nat \<Rightarrow> storage \<times> remaster_event \<Rightarrow>
   ('m, 'r) remaster_state \<Rightarrow> ('m, 'r) remaster_state result option" where
  "Remaster_step n ord acquire release ops nr (st, RArrive x) sr = Remaster_ProcessTransaction n ord acquire release (ops st) nr x sr"
| "Remaster_step n ord acquire release ops nr (st, RDone t rr) (s, rm) =
     Remaster_worker_done n ord acquire release (ops st) t (set_remaster_result t rr s, rm)"

definition Remaster_run ::
  "nat \<Rightarrow> (txn_id list \<Rightarrow> txn_id list) \<Rightarrow> 'm acquire_fn \<Rightarrow> 'm release_fn \<Rightarrow> (storage \<Rightarrow> 'r remaster_ops) \<Rightarrow> nat \<Rightarrow> (storage \<times> remaster_event) list \<Rightarrow>
   ('m, 'r) remaster_state \<Rightarrow> ('m, 'r) remaster_state result option" where
  "Remaster_run n ord acquire release ops nr = each_call (Remaster_step n ord acquire release ops nr)"

section \<open>Aborts end\<close>

definition pending :: "'m scheduler \<Rightarrow> txn_id set" where
  "pending s = {t. \<exists>h. active_txns s t = Some h \<and> \<not> aborting h}"

lemma Dispatch_pending: "Dispatch t s = Inr s' \<Longrightarrow> pending s' = pending s"
  by (auto simp: Dispatch_def pending_def split: option.splits if_splits)

lemma dispatch_all_pending: "dispatch_all ts s = Inr s' \<Longrightarrow> pending s' = pending s"
  by (induction ts arbitrary: s) (auto split: sum.splits dest: Dispatch_pending)

lemma pending_status: "pending (s\<lparr>active_txns := (active_txns s)(t := map_option (update_txn f) (active_txns s t))\<rparr>) = pending s"
  by (auto simp: pending_def update_txn_def split: if_splits)

lemma pending_remaster_result: "pending (set_remaster_result t rr s) = pending s"
  by (auto simp: pending_def set_remaster_result_def split: if_splits)

lemma pending_lock_manager [simp]: "pending (s\<lparr>sc_lock_manager := lm\<rparr>) = pending s"
  by (simp add: pending_def)

text \<open>
  What the scheduler relies on: the operations of the remaster manager return and keep its invariant, whatever the
  storage holds.
\<close>

locale remaster_manager =
  fixes ops :: "storage \<Rightarrow> 'r remaster_ops" and no_blocked :: 'r and rm_inv :: "'r \<Rightarrow> bool"
  assumes inv_init: "rm_inv no_blocked"
    and inv_verify: "rm_inv rm \<Longrightarrow> rm_verify (ops st) txn rm = Inr (v, rm') \<Longrightarrow> rm_inv rm'"
    and occurred_returns: "rm_inv rm \<Longrightarrow> \<exists>x. rm_occurred (ops st) k c rm = Some x \<and> (\<forall>res rm'. x = Inr (res, rm') \<longrightarrow> rm_inv rm')"
    and release_returns: "rm_inv rm \<Longrightarrow> \<exists>x. rm_release (ops st) txn rm = Some x \<and> (\<forall>res rm'. x = Inr (res, rm') \<longrightarrow> rm_inv rm')"
begin

text \<open>A call that returns, whatever it returns, and makes no transaction pending but those of \<open>P\<close>.\<close>

definition returns :: "txn_id set \<Rightarrow> ('m, 'r) remaster_state result option \<Rightarrow> bool" where
  "returns P r \<longleftrightarrow> (case r of None \<Rightarrow> False | Some (Inl _) \<Rightarrow> True | Some (Inr (s, rm)) \<Rightarrow> pending s \<subseteq> P \<and> rm_inv rm)"

lemma returns_simps [simp]:
  "\<not> returns P None" "returns P (Some (Inl e))" "returns P (Some (Inr (s, rm))) \<longleftrightarrow> pending s \<subseteq> P \<and> rm_inv rm"
  by (simp_all add: returns_def)

lemma returns_mono: "returns P r \<Longrightarrow> P \<subseteq> Q \<Longrightarrow> returns Q r"
  by (auto simp: returns_def split: option.splits sum.splits)

lemma returnsE:
  assumes "returns P r"
  obtains e where "r = Some (Inl e)" | s rm where "r = Some (Inr (s, rm))" "pending s \<subseteq> P" "rm_inv rm"
  using assms by (auto simp: returns_def split: option.splits sum.splits)

definition aborts_return :: "txn_id set \<Rightarrow> ('m, 'r) abort_fn \<Rightarrow> bool" where
  "aborts_return P abort \<longleftrightarrow> (\<forall>t s rm. pending s \<subseteq> P \<longrightarrow> rm_inv rm \<longrightarrow> returns P (abort t (s, rm)))"

lemma aborts_returnD: "aborts_return P abort \<Longrightarrow> pending s \<subseteq> P \<Longrightarrow> rm_inv rm \<Longrightarrow> returns P (abort t (s, rm))"
  by (simp add: aborts_return_def)

lemma each_call_returns:
  assumes f: "\<And>x s rm. pending s \<subseteq> P \<Longrightarrow> rm_inv rm \<Longrightarrow> returns P (f x (s, rm))"
    and "pending s \<subseteq> P" "rm_inv rm"
  shows "returns P (each_call f xs (s, rm))"
  using assms(2,3)
proof (induction xs arbitrary: s rm)
  case (Cons x xs)
  from f [OF Cons.prems, of x] show ?case by (rule returnsE) (simp_all add: Cons.IH)
qed simp

lemma Dispatch_returns: "pending s \<subseteq> P \<Longrightarrow> rm_inv rm \<Longrightarrow> returns P (Some (map_sum id (\<lambda>s'. (s', rm)) (Dispatch t s)))"
  by (cases "Dispatch t s") (auto dest: Dispatch_pending)

lemma Remaster_SendToLockManager_returns:
  assumes "aborts_return P abort" "pending s \<subseteq> P" "rm_inv rm"
  shows "returns P (Remaster_SendToLockManager acquire abort txn (s, rm))"
  using assms Dispatch_returns [of "s\<lparr>sc_lock_manager := lm\<rparr>" P rm "tid txn" for lm]
  by (auto simp: Remaster_SendToLockManager_def aborts_return_def split: sum.splits acquire_result.splits)

lemma ProcessRemasterResult_returns:
  assumes abort: "aborts_return P abort" and "pending s \<subseteq> P" "rm_inv rm"
  shows "returns P (ProcessRemasterResult ord acquire abort res (s, rm))"
proof -
  have "returns P (each_call (Remaster_SendToLockManager acquire abort) (ror_unblocked res) (s, rm))"
    by (rule each_call_returns) (use assms Remaster_SendToLockManager_returns [OF abort] in auto)
  then show ?thesis
  proof (rule returnsE)
    fix s1 rm1
    assume *: "each_call (Remaster_SendToLockManager acquire abort) (ror_unblocked res) (s, rm) = Some (Inr (s1, rm1))"
      "pending s1 \<subseteq> P" "rm_inv rm1"
    have "returns P (each_call abort ts (s1, rm1))" for ts
      by (rule each_call_returns) (use abort * in \<open>auto simp: aborts_return_def\<close>)
    with * show ?thesis by (simp add: ProcessRemasterResult_def Let_def)
  qed (simp add: ProcessRemasterResult_def)
qed

lemma finish_abort_returns:
  assumes "pending s1 \<subseteq> P" "rm_inv rm"
  shows "returns P (case release t (sc_lock_manager s1) of
      Inl e \<Rightarrow> Some (Inl e)
    | Inr (unblocked, lm) \<Rightarrow>
        (case dispatch_all unblocked (s1\<lparr>sc_lock_manager := lm\<rparr>) of
           Inl e \<Rightarrow> Some (Inl e)
         | Inr s2 \<Rightarrow>
             Some (map_sum id (\<lambda>s'. (s', rm))
               (Dispatch t (s2\<lparr>active_txns := (active_txns s2)(t := map_option (update_txn f) (active_txns s2 t))\<rparr>)))))"
proof (cases "release t (sc_lock_manager s1)")
  case (Inr y)
  obtain unblocked lm where y: "y = (unblocked, lm)" by (cases y)
  show ?thesis
  proof (cases "dispatch_all unblocked (s1\<lparr>sc_lock_manager := lm\<rparr>)")
    case Inr': (Inr s2)
    have "pending s2 = pending s1" using dispatch_all_pending [OF Inr'] by simp
    with assms Inr y Inr' show ?thesis by (simp add: Dispatch_returns pending_status)
  qed (simp add: Inr y)
qed simp

text \<open>Every abort that aborts others takes one transaction out of the pending ones.\<close>

lemma Remaster_TriggerPreDispatchAbort_returns:
  assumes "finite (pending s)" "card (pending s) < n" "rm_inv rm"
  shows "returns (pending s) (Remaster_TriggerPreDispatchAbort n ord acquire release (ops st) t (s, rm))"
  using assms
proof (induction n arbitrary: t s rm)
  case (Suc n)
  show ?case
  proof (cases "\<exists>h txn. active_txns s t = Some h \<and> \<not> aborting h \<and> holder_txn h = Inr txn")
    case False
    then show ?thesis by (auto split: option.splits sum.splits)
  next
    case True
    then obtain h txn where h: "active_txns s t = Some h" "\<not> aborting h" "holder_txn h = Inr txn" by blast
    let ?s = "s\<lparr>active_txns := (active_txns s)(t \<mapsto> h\<lparr>aborting := True\<rparr>)\<rparr>"
    let ?abort = "Remaster_TriggerPreDispatchAbort n ord acquire release (ops st)"
    have p: "pending ?s = pending s - {t}" "t \<in> pending s" using h by (auto simp: pending_def split: if_splits)
    then have fin: "finite (pending ?s)" and less: "card (pending ?s) < n"
      using card_Diff1_less [OF Suc.prems(1) p(2)] Suc.prems(1,2) by simp_all
    have "returns (pending ?s) (?abort u (s', rm'))" if "pending s' \<subseteq> pending ?s" "rm_inv rm'" for u s' rm'
      using finite_subset [OF that(1) fin] le_less_trans [OF card_mono [OF fin that(1)] less] that
      by (blast intro: returns_mono Suc.IH)
    then have abort: "aborts_return (pending ?s) ?abort" unfolding aborts_return_def by blast
    obtain x where x: "rm_release (ops st) txn rm = Some x" "\<And>res rm'. x = Inr (res, rm') \<Longrightarrow> rm_inv rm'"
      using release_returns [OF Suc.prems(3)] by blast
    show ?thesis
    proof (cases x)
      case (Inl e)
      with h x show ?thesis by simp
    next
      case (Inr y)
      obtain res rm1 where y: "y = (res, rm1)" by (cases y)
      have "returns (pending ?s) (ProcessRemasterResult ord acquire ?abort res (?s, rm1))"
        using abort subset_refl x(2) Inr y by (blast intro: ProcessRemasterResult_returns)
      then show ?thesis
      proof (rule returnsE)
        fix s1 rm2
        assume *: "ProcessRemasterResult ord acquire ?abort res (?s, rm1) = Some (Inr (s1, rm2))" "pending s1 \<subseteq> pending ?s" "rm_inv rm2"
        then have "pending s1 \<subseteq> pending s" using p(1) by blast
        from finish_abort_returns [OF this *(3), where release = release and t = t] h x Inr y *(1) show ?thesis by simp
      qed (use h x Inr y in simp)
    qed
  qed
qed simp

lemma aborts_return_ok:
  assumes "finite P" "card P < n"
  shows "aborts_return P (Remaster_TriggerPreDispatchAbort n ord acquire release (ops st))"
  unfolding aborts_return_def
proof (intro allI impI)
  fix t and s :: "'a scheduler" and rm
  assume sub: "pending s \<subseteq> P" and inv: "rm_inv rm"
  have "card (pending s) < n" using card_mono [OF assms(1) sub] assms(2) by simp
  from Remaster_TriggerPreDispatchAbort_returns [OF finite_subset [OF sub assms(1)] this inv] sub
  show "returns P (Remaster_TriggerPreDispatchAbort n ord acquire release (ops st) t (s, rm))" by (rule returns_mono)
qed

lemma SendToRemasterManager_returns:
  assumes "finite P" "card P < n" "pending s \<subseteq> P" "rm_inv rm"
  shows "returns P (SendToRemasterManager n ord acquire release (ops st) txn (s, rm))"
proof -
  note abort = aborts_return_ok [OF assms(1,2)]
  show ?thesis
  proof (cases "rm_verify (ops st) txn rm")
    case (Inr y)
    obtain v rm' where y: "y = (v, rm')" by (cases y)
    have inv: "rm_inv rm'" using inv_verify [OF assms(4)] Inr y by blast
    note abort' = Remaster_SendToLockManager_returns [OF abort assms(3) inv] aborts_returnD [OF abort assms(3) inv]
    from Inr y show ?thesis by (cases v) (simp_all add: SendToRemasterManager_def abort' assms(3) inv)
  qed (simp add: SendToRemasterManager_def)
qed

lemma Remaster_ProcessTransaction_returns:
  assumes "finite P" "card P < n" "insert (tid txn) (pending s) \<subseteq> P" "rm_inv rm"
  shows "returns P (Remaster_ProcessTransaction n ord acquire release (ops st) nr txn (s, rm))"
proof -
  have p: "pending (s\<lparr>global_log_counter := c, active_txns := (active_txns s)(tid txn := h)\<rparr>) \<subseteq> P" for c h
    using assms(3) by (auto simp: pending_def split: if_splits)
  have p0: "pending (s\<lparr>global_log_counter := c\<rparr>) \<subseteq> P" for c
    using assms(3) by (auto simp: pending_def)
  show ?thesis
    using SendToRemasterManager_returns [OF assms(1,2) p assms(4)] p p0 assms(4)
    by (auto simp: Remaster_ProcessTransaction_def Let_def split: sum.splits bool.splits)
qed

lemma Remaster_worker_done_returns:
  assumes "finite P" "card P < n" "pending s \<subseteq> P" "rm_inv rm"
  shows "returns P (Remaster_worker_done n ord acquire release (ops st) t (s, rm))"
proof (cases "release t (sc_lock_manager s)")
  case (Inr y)
  obtain unblocked lm where y: "y = (unblocked, lm)" by (cases y)
  note abort = aborts_return_ok [OF assms(1,2)]
  show ?thesis
  proof (cases "dispatch_all unblocked (s\<lparr>sc_lock_manager := lm\<rparr>)")
    case Inr': (Inr s1)
    have p1: "pending s1 \<subseteq> P" using dispatch_all_pending [OF Inr'] assms(3) by simp
    show ?thesis
    proof (cases "active_txns s1 t")
      case (Some h)
      let ?r = "case remaster_result h of
          None \<Rightarrow> Some (Inr (s1, rm))
        | Some (k, c) \<Rightarrow>
            (case rm_occurred (ops st) k c rm of
               None \<Rightarrow> None
             | Some (Inl e) \<Rightarrow> Some (Inl e)
             | Some (Inr (res, rm1)) \<Rightarrow>
                 ProcessRemasterResult ord acquire (Remaster_TriggerPreDispatchAbort n ord acquire release (ops st)) res (s1, rm1))"
      have "returns P ?r"
      proof (cases "remaster_result h")
        case (Some kc)
        obtain k c where kc: "kc = (k, c)" by (cases kc)
        obtain x where x: "rm_occurred (ops st) k c rm = Some x" "\<And>res rm'. x = Inr (res, rm') \<Longrightarrow> rm_inv rm'"
          using occurred_returns [OF assms(4)] by blast
        with Some kc ProcessRemasterResult_returns [OF abort p1] show ?thesis by (cases x) auto
      qed (use p1 assms(4) in simp)
      then show ?thesis
      proof (rule returnsE)
        fix s2 rm2
        assume *: "?r = Some (Inr (s2, rm2))" "pending s2 \<subseteq> P" "rm_inv rm2"
        have "pending (s2\<lparr>active_txns := (active_txns s2)(t := if b then None else Some (h2\<lparr>is_done := True\<rparr>))\<rparr>) \<subseteq> P"
          if "active_txns s2 t = Some h2" for b h2
          using that *(2) by (auto simp: pending_def split: if_splits)
        with Inr y Inr' Some * show ?thesis
          by (auto simp: Remaster_worker_done_def Let_def split: option.splits)
      qed (simp add: Inr y Inr' Some Remaster_worker_done_def)
    qed (simp add: Inr y Inr' Remaster_worker_done_def)
  qed (simp add: Inr y Remaster_worker_done_def)
qed (simp add: Remaster_worker_done_def)

text \<open>Enough fuel for a run is one more than the number of its events.\<close>

lemma Remaster_run_returns:
  assumes "finite P" "card P + length evs < n" "pending s \<subseteq> P" "rm_inv rm"
  shows "\<exists>Q. returns Q (Remaster_run n ord acquire release ops nr evs (s, rm))"
  using assms
proof (induction evs arbitrary: P s rm)
  case Nil
  then show ?case unfolding Remaster_run_def by auto
next
  case (Cons e evs)
  obtain st ev where e: "e = (st, ev)" by (cases e)
  let ?Q = "case ev of RArrive x \<Rightarrow> insert (tid x) P | RDone _ _ \<Rightarrow> P"
  have Q: "finite ?Q" "card ?Q \<le> Suc (card P)" "P \<subseteq> ?Q"
    using Cons.prems(1) by (auto simp: card_insert_if split: remaster_event.splits)
  then have less: "card ?Q < n" "card ?Q + length evs < n" using Cons.prems(2) by simp_all
  have "returns ?Q (Remaster_step n ord acquire release ops nr e (s, rm))"
  proof (cases ev)
    case (RArrive x)
    have "insert (tid x) (pending s) \<subseteq> ?Q" using RArrive Cons.prems(3) by auto
    from Remaster_ProcessTransaction_returns [OF Q(1) less(1) this Cons.prems(4)] show ?thesis by (simp add: e RArrive)
  next
    case (RDone t rr)
    have "pending (set_remaster_result t rr s) \<subseteq> ?Q" using RDone Cons.prems(3) by (simp add: pending_remaster_result)
    from Remaster_worker_done_returns [OF Q(1) less(1) this Cons.prems(4)] show ?thesis by (simp add: e RDone)
  qed
  then show ?case
  proof (rule returnsE)
    fix e'
    assume "Remaster_step n ord acquire release ops nr e (s, rm) = Some (Inl e')"
    then show ?thesis by (simp add: Remaster_run_def)
  next
    fix s1 rm1
    assume "Remaster_step n ord acquire release ops nr e (s, rm) = Some (Inr (s1, rm1))" "pending s1 \<subseteq> ?Q" "rm_inv rm1"
    with Cons.IH [OF Q(1) less(2)] show ?thesis by (simp add: Remaster_run_def)
  qed
qed

lemma Remaster_run_terminates:
  assumes "length evs < n"
  shows "Remaster_run n ord acquire release ops nr evs (Scheduler lm, no_blocked) \<noteq> None"
proof -
  have p: "pending (Scheduler lm) \<subseteq> {}" by (simp add: pending_def Scheduler_def)
  have "card {} + length evs < n" using assms by simp
  from Remaster_run_returns [OF finite.emptyI this p inv_init]
  obtain Q where "returns Q (Remaster_run n ord acquire release ops nr evs (Scheduler lm, no_blocked))" by blast
  then show ?thesis by (rule returnsE) simp_all
qed

end

section \<open>The two remaster managers\<close>

interpretation simple_rm: remaster_manager simple_ops "[]" "\<lambda>_. True"
  by unfold_locales (auto simp: simple_ops_def)

interpretation per_key_rm: remaster_manager per_key_ops "[]" queued_by_key
proof
  show "queued_by_key []" by (simp add: queued_by_key_def wf_queues_def blocked_at_def)
next
  fix rm st txn v rm'
  assume "queued_by_key rm" "rm_verify (per_key_ops st) txn rm = Inr (v, rm')"
  then show "queued_by_key rm'"
    by (auto simp: per_key_ops_def PerKey_VerifyMaster_def block_on_keys_queued split: if_splits sum.splits verify_master_result.splits)
next
  fix rm st k c
  assume "queued_by_key rm"
  with calls_return_swap [OF TryToUnblock_returns [OF this lessI, of st k RemasterOccurredResult]]
  show "\<exists>x. rm_occurred (per_key_ops st) k c rm = Some x \<and> (\<forall>res rm'. x = Inr (res, rm') \<longrightarrow> queued_by_key rm')"
    by (simp add: per_key_ops_def PerKey_RemasterOccured_def del: PerKey_TryToUnblock.simps)
next
  fix rm st txn
  assume q: "queued_by_key rm"
  let ?ks = "map kv_key (keys txn)" and ?qs = "erase_from (tid txn) (map kv_key (keys txn)) rm"
  have wf: "wf_queues rm" using q by (simp add: queued_by_key_def)
  have "queued_by_key ?qs"
    by (rule queued_by_key_subset [OF q erase_from_wf [OF wf] erase_from_shrinks(2) [OF wf]])
  from calls_return_swap [OF each_call_per_key [where f = "PerKey_TryToUnblock (Suc (num_blocked ?qs)) st" and ks = ?ks
      and res = RemasterOccurredResult, OF TryToUnblock_returns this lessI]]
  show "\<exists>x. rm_release (per_key_ops st) txn rm = Some x \<and> (\<forall>res rm'. x = Inr (res, rm') \<longrightarrow> queued_by_key rm')"
    by (simp add: per_key_ops_def PerKey_ReleaseTransaction_def Let_def del: PerKey_TryToUnblock.simps)
qed

section \<open>Aborting twice\<close>

definition doomed :: "txn_id \<Rightarrow> 'm scheduler \<Rightarrow> bool" where
  "doomed u s \<longleftrightarrow> (\<exists>h. active_txns s u = Some h \<and> aborting h)"

lemma doomed_lock_manager [simp]: "doomed u (s\<lparr>sc_lock_manager := lm\<rparr>) = doomed u s"
  by (simp add: doomed_def)

lemma Dispatch_doomed: "Dispatch t s = Inr s' \<Longrightarrow> doomed u s' = doomed u s"
  by (auto simp: Dispatch_def doomed_def split: option.splits if_splits)

lemma dispatch_all_doomed: "dispatch_all ts s = Inr s' \<Longrightarrow> doomed u s' = doomed u s"
  by (induction ts arbitrary: s) (auto split: sum.splits dest: Dispatch_doomed)

lemma doomed_status: "doomed u (s\<lparr>active_txns := (active_txns s)(t := map_option (update_txn f) (active_txns s t))\<rparr>) = doomed u s"
  by (auto simp: doomed_def update_txn_def)

lemma dispatch_all_remaster_result:
  "dispatch_all ts s = Inr s' \<Longrightarrow> map_option remaster_result (active_txns s' u) = map_option remaster_result (active_txns s u)"
proof (induction ts arbitrary: s)
  case (Cons t ts)
  then obtain s1 where s1: "Dispatch t s = Inr s1" "dispatch_all ts s1 = Inr s'" by (auto split: sum.splits)
  from s1(1) have "map_option remaster_result (active_txns s1 u) = map_option remaster_result (active_txns s u)"
    by (auto simp: Dispatch_def split: option.splits)
  with Cons.IH [OF s1(2)] show ?case by simp
qed simp

text \<open>Calls that keep what is aborting.\<close>

definition keeps_doomed :: "('a \<Rightarrow> ('m, 'r) remaster_state \<Rightarrow> ('m, 'r) remaster_state result option) \<Rightarrow> bool" where
  "keeps_doomed f \<longleftrightarrow> (\<forall>x s rm s' rm' u. f x (s, rm) = Some (Inr (s', rm')) \<longrightarrow> doomed u s \<longrightarrow> doomed u s')"

lemma keeps_doomedD: "keeps_doomed f \<Longrightarrow> f x (s, rm) = Some (Inr (s', rm')) \<Longrightarrow> doomed u s \<Longrightarrow> doomed u s'"
  unfolding keeps_doomed_def by blast

lemma each_call_cons:
  assumes "each_call f (x # xs) (s, rm) = Some (Inr (s', rm'))"
  obtains s1 rm1 where "f x (s, rm) = Some (Inr (s1, rm1))" "each_call f xs (s1, rm1) = Some (Inr (s', rm'))"
  using assms by (auto split: option.splits sum.splits)

lemma each_call_keeps:
  assumes "keeps_doomed f" "each_call f xs (s, rm) = Some (Inr (s', rm'))" "doomed u s"
  shows "doomed u s'"
  using assms(2,3)
proof (induction xs arbitrary: s rm)
  case (Cons x xs)
  from Cons.prems(1) obtain s1 rm1 where 1: "f x (s, rm) = Some (Inr (s1, rm1))" "each_call f xs (s1, rm1) = Some (Inr (s', rm'))"
    by (rule each_call_cons)
  from Cons.IH [OF 1(2) keeps_doomedD [OF assms(1) 1(1) Cons.prems(2)]] show ?case .
qed simp

text \<open>An abort marks its transaction and fails when it is marked.\<close>

definition dooms :: "('m, 'r) abort_fn \<Rightarrow> bool" where
  "dooms abort \<longleftrightarrow> keeps_doomed abort \<and> (\<forall>t s rm s' rm'. abort t (s, rm) = Some (Inr (s', rm')) \<longrightarrow> \<not> doomed t s \<and> doomed t s')"

lemma doomsD:
  assumes "dooms abort" "abort t (s, rm) = Some (Inr (s', rm'))"
  shows "\<not> doomed t s" "doomed t s'" "doomed u s \<Longrightarrow> doomed u s'"
  using assms keeps_doomedD [of abort t s rm s' rm' u] unfolding dooms_def by blast+

lemma each_abort:
  assumes d: "dooms abort" and r: "each_call abort ts (s, rm) = Some (Inr (s', rm'))" and u: "u \<in> set ts"
  shows "\<not> doomed u s" "doomed u s'"
  using r u
proof (atomize (full), induction ts arbitrary: s rm)
  case (Cons t ts)
  have k: "keeps_doomed abort" using d by (simp add: dooms_def)
  from Cons.prems(1) obtain s1 rm1 where 1: "abort t (s, rm) = Some (Inr (s1, rm1))" "each_call abort ts (s1, rm1) = Some (Inr (s', rm'))"
    by (rule each_call_cons)
  show ?case
  proof (cases "u = t")
    case True
    with doomsD(1,2) [OF d 1(1)] each_call_keeps [OF k 1(2)] show ?thesis by blast
  next
    case False
    with Cons.IH [OF 1(2)] Cons.prems(2) doomsD(3) [OF d 1(1)] show ?thesis by auto
  qed
qed simp

lemma Remaster_SendToLockManager_keeps: "keeps_doomed abort \<Longrightarrow> keeps_doomed (Remaster_SendToLockManager acquire abort)"
  unfolding keeps_doomed_def
proof (intro allI impI)
  fix x s rm s' rm' u
  assume a: "\<forall>x s rm s' rm' u. abort x (s, rm) = Some (Inr (s', rm')) \<longrightarrow> doomed u s \<longrightarrow> doomed u s'"
    and r: "Remaster_SendToLockManager acquire abort x (s, rm) = Some (Inr (s', rm'))" and u: "doomed u s"
  from r obtain v lm where acq: "acquire x (sc_lock_manager s) = Inr (v, lm)"
    by (auto simp: Remaster_SendToLockManager_def split: sum.splits)
  let ?s = "s\<lparr>sc_lock_manager := lm\<rparr>"
  have u': "doomed u ?s" using u by simp
  show "doomed u s'"
  proof (cases v)
    case ACQUIRED
    with r acq obtain d where "Dispatch (tid x) ?s = Inr d" "d = s'"
      by (cases "Dispatch (tid x) ?s") (auto simp: Remaster_SendToLockManager_def)
    with Dispatch_doomed u' show ?thesis by blast
  next
    case ABORT
    with r acq have "abort (tid x) (?s, rm) = Some (Inr (s', rm'))" by (simp add: Remaster_SendToLockManager_def)
    with a u' show ?thesis by blast
  next
    case WAITING
    with r acq u' show ?thesis by (auto simp: Remaster_SendToLockManager_def)
  qed
qed

lemma ProcessRemasterResult_cases:
  assumes "ProcessRemasterResult ord acquire abort res (s, rm) = Some (Inr (s', rm'))"
  obtains s1 rm1 where "each_call (Remaster_SendToLockManager acquire abort) (ror_unblocked res) (s, rm) = Some (Inr (s1, rm1))"
    "each_call abort (ord (remdups (map tid (ror_should_abort res)))) (s1, rm1) = Some (Inr (s', rm'))"
  using assms by (auto simp: ProcessRemasterResult_def Let_def split: option.splits sum.splits if_splits)

lemma ProcessRemasterResult_keeps:
  assumes "keeps_doomed abort" "ProcessRemasterResult ord acquire abort res (s, rm) = Some (Inr (s', rm'))" "doomed u s"
  shows "doomed u s'"
  using assms(2)
proof (rule ProcessRemasterResult_cases)
  fix s1 rm1
  assume 1: "each_call (Remaster_SendToLockManager acquire abort) (ror_unblocked res) (s, rm) = Some (Inr (s1, rm1))"
    and 2: "each_call abort (ord (remdups (map tid (ror_should_abort res)))) (s1, rm1) = Some (Inr (s', rm'))"
  from each_call_keeps [OF assms(1) 2 each_call_keeps [OF Remaster_SendToLockManager_keeps [OF assms(1)] 1 assms(3)]] show ?thesis .
qed

lemma abort_cases:
  assumes "trigger_abort_body abort ord acquire release ops t (s, rm) = Some (Inr (s', rm'))"
  obtains h txn res rm1 s1 unblocked lm s2 where "active_txns s t = Some h" "\<not> aborting h" "holder_txn h = Inr txn"
    "rm_release ops txn rm = Some (Inr (res, rm1))"
    "ProcessRemasterResult ord acquire abort res (s\<lparr>active_txns := (active_txns s)(t \<mapsto> h\<lparr>aborting := True\<rparr>)\<rparr>, rm1) = Some (Inr (s1, rm'))"
    "dispatch_all unblocked (s1\<lparr>sc_lock_manager := lm\<rparr>) = Inr s2"
    "Dispatch t (s2\<lparr>active_txns := (active_txns s2)(t := map_option (update_txn (\<lambda>x. x\<lparr>status := ABORTED\<rparr>)) (active_txns s2 t))\<rparr>) = Inr s'"
proof -
  from assms obtain h where h: "active_txns s t = Some h" "\<not> aborting h" by (auto split: option.splits if_splits)
  with assms obtain txn where txn: "holder_txn h = Inr txn" by (auto split: sum.splits)
  with assms h obtain res rm1 where rel: "rm_release ops txn rm = Some (Inr (res, rm1))" by (auto split: option.splits sum.splits)
  let ?s = "s\<lparr>active_txns := (active_txns s)(t \<mapsto> h\<lparr>aborting := True\<rparr>)\<rparr>"
  from assms h txn rel obtain s1 rm2 where p: "ProcessRemasterResult ord acquire abort res (?s, rm1) = Some (Inr (s1, rm2))"
    by (auto split: option.splits sum.splits)
  from assms h txn rel p obtain unblocked lm where r: "release t (sc_lock_manager s1) = Inr (unblocked, lm)" by (auto split: sum.splits)
  from assms h txn rel p r obtain s2 where d: "dispatch_all unblocked (s1\<lparr>sc_lock_manager := lm\<rparr>) = Inr s2" by (auto split: sum.splits)
  let ?s2 = "s2\<lparr>active_txns := (active_txns s2)(t := map_option (update_txn (\<lambda>x. x\<lparr>status := ABORTED\<rparr>)) (active_txns s2 t))\<rparr>"
  from assms h txn rel p r d have "map_sum id (\<lambda>s'. (s', rm2)) (Dispatch t ?s2) = Inr (s', rm')" by simp
  then have "Dispatch t ?s2 = Inr s'" "rm2 = rm'" by (cases "Dispatch t ?s2"; simp)+
  with that h txn rel p d show thesis by blast
qed

declare trigger_abort_body_def [simp del]

lemma abort_dooms: "dooms (Remaster_TriggerPreDispatchAbort n ord acquire release ops)"
proof (induction n)
  case 0
  then show ?case by (simp add: dooms_def keeps_doomed_def)
next
  case (Suc n)
  let ?abort = "Remaster_TriggerPreDispatchAbort n ord acquire release ops"
  have k: "keeps_doomed ?abort" using Suc.IH by (simp add: dooms_def)
  have step: "\<not> doomed t s \<and> (\<forall>u. u = t \<or> doomed u s \<longrightarrow> doomed u s')"
    if "Remaster_TriggerPreDispatchAbort (Suc n) ord acquire release ops t (s, rm) = Some (Inr (s', rm'))" for t s rm s' rm'
    using that unfolding Remaster_TriggerPreDispatchAbort.simps
  proof (rule abort_cases)
    fix h txn res rm1 s1 unblocked lm s2
    assume h: "active_txns s t = Some h" "\<not> aborting h"
      and p: "ProcessRemasterResult ord acquire ?abort res (s\<lparr>active_txns := (active_txns s)(t \<mapsto> h\<lparr>aborting := True\<rparr>)\<rparr>, rm1) = Some (Inr (s1, rm'))"
      and d: "dispatch_all unblocked (s1\<lparr>sc_lock_manager := lm\<rparr>) = Inr s2"
        "Dispatch t (s2\<lparr>active_txns := (active_txns s2)(t := map_option (update_txn (\<lambda>x. x\<lparr>status := ABORTED\<rparr>)) (active_txns s2 t))\<rparr>) = Inr s'"
    have "doomed u s1" if "u = t \<or> doomed u s" for u
      by (rule ProcessRemasterResult_keeps [OF k p]) (use that in \<open>auto simp: doomed_def\<close>)
    then have "doomed u s'" if "u = t \<or> doomed u s" for u
      using that Dispatch_doomed [OF d(2), of u] dispatch_all_doomed [OF d(1), of u] by (simp add: doomed_status)
    then show ?thesis using h by (auto simp: doomed_def)
  qed
  then show ?case unfolding dooms_def keeps_doomed_def by blast
qed

text \<open>What the simple manager reports when a transaction is released: the part that comes to the front of a queue and is to be
  aborted.\<close>

lemma release_from_queue:
  "distinct rs \<Longrightarrow> queue_at r (release_from t rs qs) = (if r \<in> set rs then remove_first t (queue_at r qs) else queue_at r qs)"
  by (induction rs arbitrary: qs) auto

lemma unblock_queue_grows: "unblock_queue st q res = Inr (q', res') \<Longrightarrow> set (ror_should_abort res) \<subseteq> set (ror_should_abort res')"
  by (induction q arbitrary: res) (fastforce split: sum.splits verify_master_result.splits)+

lemma TryToUnblock_grows:
  "Simple_TryToUnblock st r (qs, res) = Inr (qs', res') \<Longrightarrow> set (ror_should_abort res) \<subseteq> set (ror_should_abort res') \<and>
    (r' \<noteq> r \<longrightarrow> queue_at r' qs' = queue_at r' qs)"
  using unblock_queue_grows [of st "queue_at r qs" res]
  by (auto simp: Simple_TryToUnblock_def split: if_splits sum.splits)

lemma unblock_replicas_grows:
  "unblock_replicas st rs (qs, res) = Inr (qs', res') \<Longrightarrow> set (ror_should_abort res) \<subseteq> set (ror_should_abort res')"
proof (induction rs arbitrary: qs res)
  case (Cons r rs)
  then obtain qs1 res1 where 1: "Simple_TryToUnblock st r (qs, res) = Inr (qs1, res1)" "unblock_replicas st rs (qs1, res1) = Inr (qs', res')"
    by (auto split: sum.splits)
  from TryToUnblock_grows [OF 1(1)] Cons.IH [OF 1(2)] show ?case by blast
qed simp

lemma unblock_replicas_front:
  assumes "unblock_replicas st rs (qs, res) = Inr (qs', res')" "r \<in> set rs" "queue_at r qs = B # q"
    "CheckCounters B True st = Inr VM_ABORT"
  shows "B \<in> set (ror_should_abort res')"
  using assms(1-3)
proof (induction rs arbitrary: qs res)
  case (Cons x rs)
  then obtain qs1 res1 where 1: "Simple_TryToUnblock st x (qs, res) = Inr (qs1, res1)" "unblock_replicas st rs (qs1, res1) = Inr (qs', res')"
    by (auto split: sum.splits)
  show ?case
  proof (cases "x = r")
    case True
    from 1(1) True Cons.prems(3) assms(4) obtain q1 where
      "unblock_queue st q (res\<lparr>ror_should_abort := ror_should_abort res @ [B]\<rparr>) = Inr (q1, res1)"
      by (auto simp: Simple_TryToUnblock_def split: sum.splits)
    from unblock_queue_grows [OF this] unblock_replicas_grows [OF 1(2)] show ?thesis by auto
  next
    case False
    with TryToUnblock_grows [OF 1(1), of r] Cons show ?thesis using 1(2) by auto
  qed
qed simp

lemma ReleaseTransaction_front:
  assumes "Simple_ReleaseTransaction st txn qs = Inr (res, qs')" "distinct (involved_replicas (internal txn))"
    "r \<in> set (involved_replicas (internal txn))" "remove_first (tid txn) (queue_at r qs) = B # q" "CheckCounters B True st = Inr VM_ABORT"
  shows "B \<in> set (ror_should_abort res)"
proof -
  let ?rs = "involved_replicas (internal txn)"
  from assms(1) have u: "unblock_replicas st ?rs (release_from (tid txn) ?rs qs, RemasterOccurredResult) = Inr (qs', res)"
    by (cases "unblock_replicas st ?rs (release_from (tid txn) ?rs qs, RemasterOccurredResult)")
      (auto simp: Simple_ReleaseTransaction_def Let_def)
  show ?thesis
    by (rule unblock_replicas_front [OF u assms(3) _ assms(5)]) (simp add: release_from_queue assms(2-4))
qed

text \<open>So aborting one transaction aborts the other one, which must not be aborted again.\<close>

lemma simple_abort_dooms_next:
  assumes "Remaster_TriggerPreDispatchAbort n ord acquire release (simple_ops st) t1 (s, qs) = Some (Inr (s', qs'))"
    and "active_txns s t1 = Some h" "holder_txn h = Inr txn" "tid txn = t1" "distinct (involved_replicas (internal txn))"
    and "r \<in> set (involved_replicas (internal txn))" "remove_first t1 (queue_at r qs) = B # q" "CheckCounters B True st = Inr VM_ABORT"
    and "\<And>ts. set (ord ts) = set ts"
  shows "doomed (tid B) s'"
proof -
  obtain m where n: "n = Suc m" using assms(1) by (cases n) simp_all
  let ?abort = "Remaster_TriggerPreDispatchAbort m ord acquire release (simple_ops st)"
  from assms(1) have "trigger_abort_body ?abort ord acquire release (simple_ops st) t1 (s, qs) = Some (Inr (s', qs'))" by (simp add: n)
  then show ?thesis
  proof (rule abort_cases)
    fix h' txn' res rm1 s1 unblocked lm s2
    assume h': "active_txns s t1 = Some h'" "holder_txn h' = Inr txn'" "rm_release (simple_ops st) txn' qs = Some (Inr (res, rm1))"
      and p: "ProcessRemasterResult ord acquire ?abort res (s\<lparr>active_txns := (active_txns s)(t1 \<mapsto> h'\<lparr>aborting := True\<rparr>)\<rparr>, rm1) = Some (Inr (s1, qs'))"
      and d: "dispatch_all unblocked (s1\<lparr>sc_lock_manager := lm\<rparr>) = Inr s2"
        "Dispatch t1 (s2\<lparr>active_txns := (active_txns s2)(t1 := map_option (update_txn (\<lambda>x. x\<lparr>status := ABORTED\<rparr>)) (active_txns s2 t1))\<rparr>) = Inr s'"
    have "Simple_ReleaseTransaction st txn qs = Inr (res, rm1)" using h' assms(2,3) by (simp add: simple_ops_def)
    from ReleaseTransaction_front [OF this assms(5,6) _ assms(8)] assms(4,7) have B: "B \<in> set (ror_should_abort res)" by simp
    from p have "doomed (tid B) s1"
    proof (rule ProcessRemasterResult_cases)
      fix s3 rm3
      assume "each_call ?abort (ord (remdups (map tid (ror_should_abort res)))) (s3, rm3) = Some (Inr (s1, qs'))"
      from each_abort(2) [OF abort_dooms this, of "tid B"] B show ?thesis by (simp add: assms(9))
    qed
    with Dispatch_doomed [OF d(2), of "tid B"] dispatch_all_doomed [OF d(1), of "tid B"] show ?thesis by (simp add: doomed_status)
  qed
qed

lemma simple_remaster_fails:
  assumes res: "ror_unblocked res = []" "ord (remdups (map tid (ror_should_abort res))) = t1 # ts" "tid B \<in> set ts"
    and t1: "active_txns s t1 = Some h" "holder_txn h = Inr txn" "tid txn = t1" "distinct (involved_replicas (internal txn))"
    and B: "r \<in> set (involved_replicas (internal txn))" "remove_first t1 (queue_at r qs) = B # q" "CheckCounters B True st = Inr VM_ABORT"
    and ord: "\<And>ts. set (ord ts) = set ts"
  shows "ProcessRemasterResult ord acquire (Remaster_TriggerPreDispatchAbort n ord acquire release (simple_ops st)) res (s, qs) \<noteq> Some (Inr sr')"
proof
  let ?abort = "Remaster_TriggerPreDispatchAbort n ord acquire release (simple_ops st)"
  obtain s' qs' where sr: "sr' = (s', qs')" by (cases sr')
  assume "ProcessRemasterResult ord acquire ?abort res (s, qs) = Some (Inr sr')"
  then have "each_call ?abort (t1 # ts) (s, qs) = Some (Inr (s', qs'))"
    unfolding sr by (rule ProcessRemasterResult_cases) (simp add: res(1) del: each_call.simps(2), simp add: res(2))
  then obtain s1 qs1 where 1: "?abort t1 (s, qs) = Some (Inr (s1, qs1))" "each_call ?abort ts (s1, qs1) = Some (Inr (s', qs'))"
    by (rule each_call_cons)
  from each_abort(1) [OF abort_dooms 1(2) res(3)] simple_abort_dooms_next [OF 1(1) t1 B ord] show False by blast
qed

text \<open>A run in which a worker reports such a remaster.\<close>

lemma each_call_append:
  "each_call f (xs @ ys) s = (case each_call f xs s of Some (Inr s') \<Rightarrow> each_call f ys s' | r \<Rightarrow> r)"
  by (induction xs arbitrary: s) (auto split: option.splits sum.splits)

lemma simple_run_fails:
  assumes run: "Remaster_run n ord acquire release simple_ops nr evs (Scheduler lm0, []) = Some (Inr (s, qs))" and n: "Suc (length evs) < n"
    and rel: "release t (sc_lock_manager s) = Inr (unblocked, lm)"
      "dispatch_all unblocked ((set_remaster_result t (Some (k, c)) s)\<lparr>sc_lock_manager := lm\<rparr>) = Inr s1"
    and occ: "Simple_RemasterOccured st k c qs = Inr (res, qs1)"
    and fails: "\<And>sr'. ProcessRemasterResult ord acquire (Remaster_TriggerPreDispatchAbort n ord acquire release (simple_ops st)) res (s1, qs1) \<noteq>
      Some (Inr sr')"
  shows "\<exists>e. Remaster_run n ord acquire release simple_ops nr (evs @ [(st, RDone t (Some (k, c)))]) (Scheduler lm0, []) = Some (Inl e)"
proof -
  let ?e = "(st, RDone t (Some (k, c)))"
  let ?p = "ProcessRemasterResult ord acquire (Remaster_TriggerPreDispatchAbort n ord acquire release (simple_ops st)) res (s1, qs1)"
  let ?step = "Remaster_step n ord acquire release simple_ops nr ?e (s, qs)"
  have eq: "Remaster_run n ord acquire release simple_ops nr (evs @ [?e]) (Scheduler lm0, []) = ?step"
    using run by (simp add: Remaster_run_def each_call_append split: option.splits sum.splits)
  have "?step \<noteq> None"
    using simple_rm.Remaster_run_terminates [of "evs @ [?e]" n ord acquire release nr lm0] n unfolding eq by simp
  moreover have "?step \<noteq> Some (Inr sr')" for sr'
  proof (cases "active_txns s1 t")
    case None
    with rel show ?thesis by (simp add: Remaster_worker_done_def set_remaster_result_def)
  next
    case (Some h)
    have "map_option remaster_result (active_txns s1 t) = map_option (\<lambda>_. Some (k, c)) (active_txns s t)"
      using dispatch_all_remaster_result [OF rel(2), of t] by (simp add: set_remaster_result_def option.map_comp comp_def)
    with Some have "remaster_result h = Some (k, c)" by (cases "active_txns s t") auto
    moreover have "release t (sc_lock_manager (set_remaster_result t (Some (k, c)) s)) = Inr (unblocked, lm)"
      using rel(1) by (simp add: set_remaster_result_def)
    moreover have "?p = None \<or> (\<exists>e. ?p = Some (Inl e))" using fails by (metis option.exhaust sumE)
    ultimately show ?thesis
      using Some rel(2) occ by (auto simp: Remaster_worker_done_def simple_ops_def)
  qed
  ultimately have "\<exists>e. ?step = Some (Inl e)" by (metis not_Some_eq sumE)
  then show ?thesis unfolding eq .
qed

end
