(* ===== verification/Remaster_Properties.thy ===== *)
theory Remaster_Properties
  imports Scheduler_Remaster
begin

text \<open>
  What holds of the remaster protocols that count remasters: the two remaster managers, alone and under the scheduler with
  the lock manager of these protocols.
\<close>

section \<open>Concrete transactions\<close>

text \<open>Three regions; \<open>A\<close> and \<open>B\<close> are multi-home transactions with a part in region 0 and one in region 1.\<close>

definition rm_part :: "txn_id \<Rightarrow> nat \<Rightarrow> key_value list \<Rightarrow> transaction" where
  "rm_part t r kvs = set_internal (\<lambda>i. i\<lparr>involved_replicas := [0, 1]\<rparr>) (mk_txn t MULTI_HOME_OR_LOCK_ONLY (int r) (Code []) kvs)"

definition rm_remaster :: "txn_id \<Rightarrow> nat \<Rightarrow> key \<Rightarrow> transaction" where
  "rm_remaster t r k = set_internal (\<lambda>i. i\<lparr>involved_replicas := [r]\<rparr>) (mk_txn t SINGLE_HOME (int r) (Remaster 2 False) [mk_kv k r 0 WRITE])"

definition keys_A :: "key_value list" where
  "keys_A = [mk_kv ''k'' 0 1 WRITE, mk_kv ''m'' 0 0 WRITE, mk_kv ''y'' 1 1 WRITE]"

definition keys_B :: "key_value list" where
  "keys_B = [mk_kv ''x'' 0 0 WRITE, mk_kv ''z'' 1 0 WRITE]"

definition rm_storage :: "(key \<times> metadata) list \<Rightarrow> storage" where
  "rm_storage ms k = map_option (\<lambda>m. default_record\<lparr>rec_metadata := m\<rparr>) (map_of ms k)"

text \<open>\<open>k\<close> and \<open>y\<close> are still mastered by region 2, from which they are on their way.\<close>

definition metadata0 :: "(key \<times> metadata) list" where
  "metadata0 = [(''k'', \<lparr>master = 2, counter = 0\<rparr>), (''y'', \<lparr>master = 2, counter = 0\<rparr>), (''m'', \<lparr>master = 0, counter = 0\<rparr>),
     (''x'', \<lparr>master = 0, counter = 0\<rparr>), (''z'', \<lparr>master = 1, counter = 0\<rparr>)]"

definition after_remaster :: "key list \<Rightarrow> storage" where
  "after_remaster ks = rm_storage (map (\<lambda>k. (k, \<lparr>master = 2, counter = 1\<rparr>)) ks @ metadata0)"

definition rm_events :: "(storage \<times> remaster_event) list" where
  "rm_events =
     (let st = after_remaster []
      in [(st, RArrive (rm_remaster 10 0 ''x'')), (st, RArrive (rm_remaster 20 1 ''z'')), (st, RArrive (rm_remaster 30 0 ''m'')),
          (st, RArrive (rm_part 100 0 keys_A)), (st, RArrive (rm_part 100 1 keys_A)),
          (st, RArrive (rm_part 200 0 keys_B)), (st, RArrive (rm_part 200 1 keys_B)),
          (after_remaster [''x''], RDone 10 (Some (''x'', 1))),
          (after_remaster [''x'', ''z''], RDone 20 (Some (''z'', 1))),
          (after_remaster [''x'', ''z'', ''m''], RDone 30 (Some (''m'', 1)))])"

text \<open>Three transactions of region 0 that wait, the first of them on a key on its way.\<close>

definition wait_key :: "txn_id \<Rightarrow> (key \<times> nat) list \<Rightarrow> transaction" where
  "wait_key t ks = mk_txn t SINGLE_HOME 0 (Code []) (map (\<lambda>(k, c). mk_kv k 0 c WRITE) ks)"

definition wait_queues :: blocked_queues where
  "wait_queues =
     (let a = wait_key 1 [(''k'', 1), (''m'', 0)]; b = wait_key 2 [(''m'', 0), (''x'', 0)]; c = wait_key 3 [(''k'', 2)]
      in [(''k'', [(a, 1), (c, 2)]), (''m'', [(a, 0), (b, 0)]), (''x'', [(b, 0)])])"

definition remastered_k :: storage where
  "remastered_k = rm_storage ((''k'', \<lparr>master = 0, counter = 1\<rparr>) # metadata0)"

lemma wait_queues_inv: "pk_inv wait_queues" "checks_pass remastered_k wait_queues"
  by (rule pk_inv_check, code_simp) (rule checks_pass_check, code_simp)

lemma case_SomeE: "(case x of None \<Rightarrow> False | Some y \<Rightarrow> P y) \<Longrightarrow> (\<And>y. x = Some y \<Longrightarrow> P y \<Longrightarrow> R) \<Longrightarrow> R"
  by (cases x) auto

lemma case_InrE: "(case x of Inl _ \<Rightarrow> False | Inr y \<Rightarrow> P y) \<Longrightarrow> (\<And>y. x = Inr y \<Longrightarrow> P y \<Longrightarrow> R) \<Longrightarrow> R"
  by (cases x) auto

lemma case_ConsE: "(case x of [] \<Rightarrow> False | y # ys \<Rightarrow> P y ys) \<Longrightarrow> (\<And>y ys. x = y # ys \<Longrightarrow> P y ys \<Longrightarrow> R) \<Longrightarrow> R"
  by (cases x) auto

section \<open>Properties\<close>

text \<open>C20. A remaster never gets stuck in the remaster manager that blocks per key: from every state of its queues that satisfies the
  invariant \<^verbatim>\<open>RemasterOccured\<close> returns. With \<open>u\<close> the transactions it lets through and \<open>a\<close> those it aborts,
  exactly the entries of these leave the queues, the ones in \<open>u\<close> expect the counters of the storage and the ones in
  \<open>a\<close> an older one, no transaction is aborted twice, none overtakes another in a queue, the transactions of one queue are
  let through in the order of the queue and the invariant is kept. It lets through all it can: the part then in front of the
  queue of the remastered key cannot move, because it waits for a counter of the storage or for another queue, and no
  queue has a part in front that can move and could not before.\<close>

theorem per_key_unblocks_in_order:
  assumes "pk_inv qs" "checks_pass st qs"
  shows "\<exists>qs' u a. PerKey_RemasterOccured st k c qs = Some (Inr (\<lparr>ror_unblocked = u, ror_should_abort = a\<rparr>, qs')) \<and>
    unblocks st qs u a qs' \<and> \<not> can_move st qs' k \<and>
    (\<forall>k'. can_move st qs' k' \<longrightarrow> can_move st qs k' \<and> fst (hd (blocked_at k' qs)) = fst (hd (blocked_at k' qs')))"
proof -
  from PerKey_RemasterOccured_ok [OF assms] obtain qs' u a where
    r: "PerKey_RemasterOccured st k c qs = Some (Inr (\<lparr>ror_unblocked = u, ror_should_abort = a\<rparr>, qs'))" "unblocks st qs u a qs'"
      "settles st qs {k} qs'" by blast
  with settled_stuck [OF r(3)] settlesD(1,2) [OF r(3)] show ?thesis by blast
qed

theorem per_key_unblocks_in_order_witness:
  "\<exists>qs' u a. PerKey_RemasterOccured remastered_k ''k'' 1 wait_queues = Some (Inr (\<lparr>ror_unblocked = u, ror_should_abort = a\<rparr>, qs')) \<and>
     unblocks remastered_k wait_queues u a qs' \<and> can_move remastered_k wait_queues ''k'' \<and> \<not> can_move remastered_k qs' ''k'' \<and>
     map tid u = [1, 2] \<and> a = []"
proof -
  have r: "map_option (map_sum id (\<lambda>r. (map tid (ror_unblocked (fst r)), ror_should_abort (fst r)))) (PerKey_RemasterOccured remastered_k ''k'' 1 wait_queues) =
      Some (Inr ([1, 2], []))" by code_simp
  have m: "can_move remastered_k wait_queues ''k''" by code_simp
  obtain qs' u a where
    u: "PerKey_RemasterOccured remastered_k ''k'' 1 wait_queues = Some (Inr (\<lparr>ror_unblocked = u, ror_should_abort = a\<rparr>, qs'))"
    "unblocks remastered_k wait_queues u a qs'" "\<not> can_move remastered_k qs' ''k''"
    using per_key_unblocks_in_order [OF wait_queues_inv] by blast
  with r m show ?thesis by auto
qed

text \<open>C22. The remaster manager that blocks per key lets a transaction with keys through at once exactly when the storage has the counters
  it expects and every transaction blocked on one of its keys expects a later counter. Its answers keep the invariant
  of the queues, for a part with distinct keys that is new to the queues and agrees with the other parts of its
  transaction on the keys.\<close>

theorem per_key_verify_master:
  assumes "pk_inv qs" "keys txn \<noteq> []" "distinct (map kv_key (keys txn))" "keys_agree txn qs"
    "list_all (\<lambda>k. tid txn \<notin> (\<lambda>e. tid (fst e)) ` set (blocked_at k qs)) (home_keys txn)"
    and "PerKey_VerifyMaster st txn qs = Inr (r, qs')"
  shows "pk_inv qs' \<and>
    (r = VM_VALID \<longleftrightarrow> CheckCounters txn True st = Inr VM_VALID \<and>
       (\<forall>kv \<in> set (keys txn). \<forall>e \<in> set (blocked_at (kv_key kv) qs). kv_counter kv < snd e)) \<and>
    (r \<noteq> VM_WAITING \<longrightarrow> qs' = qs)"
proof -
  have new: "\<forall>k \<in> set (home_keys txn). tid txn \<notin> (\<lambda>e. tid (fst e)) ` set (blocked_at k qs)"
    using assms(5) by (simp add: list_all_iff)
  have same: "r \<noteq> VM_WAITING \<Longrightarrow> qs' = qs"
    using assms(6) by (auto simp: PerKey_VerifyMaster_def split: if_splits sum.splits verify_master_result.splits)
  have "r = VM_VALID \<longleftrightarrow> PerKey_VerifyMaster st txn qs = Inr (VM_VALID, qs)" using assms(6) same by auto
  with PerKey_VerifyMaster_valid [OF assms(1,2), of st qs] PerKey_VerifyMaster_inv [OF assms(1,3,4) new assms(6)] same
  show ?thesis by simp
qed

theorem per_key_verify_master_witness:
  "map_sum id fst (PerKey_VerifyMaster remastered_k (wait_key 4 [(''m'', 0), (''x'', 0)]) wait_queues) = Inr VM_WAITING \<and>
   (case PerKey_VerifyMaster remastered_k (wait_key 4 [(''m'', 0), (''x'', 0)]) wait_queues of Inr (r, qs') \<Rightarrow> pk_inv qs' | Inl _ \<Rightarrow> False)"
proof -
  let ?t = "wait_key 4 [(''m'', 0), (''x'', 0)]"
  have v: "map_sum id fst (PerKey_VerifyMaster remastered_k ?t wait_queues) = Inr VM_WAITING" by code_simp
  then obtain qs' where r: "PerKey_VerifyMaster remastered_k ?t wait_queues = Inr (VM_WAITING, qs')"
    by (cases "PerKey_VerifyMaster remastered_k ?t wait_queues") auto
  have "keys_agree ?t wait_queues" by (rule keys_agree_check) code_simp
  moreover have "keys ?t \<noteq> []" "distinct (map kv_key (keys ?t))"
    "list_all (\<lambda>k. tid ?t \<notin> (\<lambda>e. tid (fst e)) ` set (blocked_at k wait_queues)) (home_keys ?t)" by code_simp+
  ultimately have "pk_inv qs'" using per_key_verify_master [OF wait_queues_inv(1) _ _ _ _ r] by blast
  with v r show ?thesis by simp
qed

text \<open>C21. With either of the remaster managers, every run of the scheduler returns: however transactions that are aborted or let
  through abort and let through others, the calls of \<^verbatim>\<open>TriggerPreDispatchAbort\<close> and \<^verbatim>\<open>ProcessRemasterResult\<close> nest less deeply
  than there are events, whatever the lock manager, the storage and the order in which sets are iterated.\<close>

theorem remaster_aborts_terminate:
  assumes "length evs < n"
  shows "Remaster_run n ord acquire release simple_ops nr evs (Scheduler lm, []) \<noteq> None \<and>
    Remaster_run n ord acquire release per_key_ops nr evs (Scheduler lm, []) \<noteq> None"
  by (intro conjI simple_rm.Remaster_run_terminates per_key_rm.Remaster_run_terminates assms)

theorem remaster_aborts_terminate_witness:
  "Remaster_run 11 id Old_AcquireLocks Old_ReleaseLocks simple_ops 3 rm_events (Scheduler OldLockManager, []) \<noteq> None \<and>
   Remaster_run 11 id Old_AcquireLocks Old_ReleaseLocks per_key_ops 3 rm_events (Scheduler OldLockManager, []) \<noteq> None"
  by (rule remaster_aborts_terminate) code_simp

text \<open>C40. The simple remaster manager makes the scheduler fail. Take any run, with any lock manager, after which a worker reports a
  remaster that unblocks nothing and aborts several parts of the queue of a region, the first aborted being one of transaction
  \<open>t1\<close>. If transaction \<open>t1\<close> also has a part in the queue of another region, and the part that comes to the front of that
  queue when it is removed is to be aborted and belongs to a transaction that the remaster aborts as well, then the run
  fails: aborting \<open>t1\<close> aborts the other transaction, which is then aborted again. The witness shows that this does
  happen, and that the remaster manager that blocks per key aborts each transaction once on the same events.\<close>

theorem simple_remaster_aborts_twice:
  assumes "Remaster_run n ord acquire release simple_ops nr evs (Scheduler lm0, []) = Some (Inr (s, qs))" "Suc (length evs) < n"
    and "release t (sc_lock_manager s) = Inr (unblocked, lm)"
      "dispatch_all unblocked ((set_remaster_result t (Some (k, c)) s)\<lparr>sc_lock_manager := lm\<rparr>) = Inr s1"
    and "Simple_RemasterOccured st k c qs = Inr (res, qs1)"
      "ror_unblocked res = []" "ord (remdups (map tid (ror_should_abort res))) = t1 # ts" "tid B \<in> set ts"
    and "active_txns s1 t1 = Some h" "holder_txn h = Inr txn" "tid txn = t1" "distinct (involved_replicas (internal txn))"
    and "r \<in> set (involved_replicas (internal txn))" "remove_first t1 (queue_at r qs1) = B # q" "CheckCounters B True st = Inr VM_ABORT"
    and "\<And>ts. set (ord ts) = set ts"
  shows "\<exists>e. Remaster_run n ord acquire release simple_ops nr (evs @ [(st, RDone t (Some (k, c)))]) (Scheduler lm0, []) = Some (Inl e)"
  by (rule simple_run_fails [where release = release, OF assms(1-5) simple_remaster_fails [OF assms(6-16)]])

definition rm_last :: storage where
  "rm_last = after_remaster [''x'', ''z'', ''m'']"

theorem simple_remaster_aborts_twice_witness:
  "(\<exists>e. Remaster_run 11 id Old_AcquireLocks Old_ReleaseLocks simple_ops 3 (take 9 rm_events @ [(rm_last, RDone 30 (Some (''m'', 1)))])
       (Scheduler OldLockManager, []) = Some (Inl e) \<and> e = CheckFailed ''Abort was triggered twice'') \<and>
   map_option (map_sum id (\<lambda>sr. (dispatched (fst sr), snd sr)))
       (Remaster_run 11 id Old_AcquireLocks Old_ReleaseLocks per_key_ops 3 rm_events (Scheduler OldLockManager, [])) =
     Some (Inr ([10, 20, 30, 200, 100], []))"
proof
  let ?run = "Remaster_run 11 id Old_AcquireLocks Old_ReleaseLocks simple_ops 3"
  have "(case ?run (take 9 rm_events) (Scheduler OldLockManager, []) of Some (Inr (s, qs)) \<Rightarrow>
      (case Old_ReleaseLocks 30 (sc_lock_manager s) of Inr (ub, lm) \<Rightarrow>
        (case dispatch_all ub ((set_remaster_result 30 (Some (''m'', 1)) s)\<lparr>sc_lock_manager := lm\<rparr>) of Inr s1 \<Rightarrow>
          (case Simple_RemasterOccured rm_last ''m'' 1 qs of Inr (res, qs1) \<Rightarrow>
            (case active_txns s1 100 of Some h \<Rightarrow>
              (case holder_txn h of Inr txn \<Rightarrow>
                (case remove_first 100 (queue_at 1 qs1) of B # q \<Rightarrow>
                   ror_unblocked res = [] \<and> remdups (map tid (ror_should_abort res)) = [100, 200] \<and> tid B = 200 \<and> tid txn = 100 \<and>
                   involved_replicas (internal txn) = [0, 1] \<and> CheckCounters B True rm_last = Inr VM_ABORT
                 | _ \<Rightarrow> False) | _ \<Rightarrow> False) | _ \<Rightarrow> False) | _ \<Rightarrow> False) | _ \<Rightarrow> False) | _ \<Rightarrow> False) | _ \<Rightarrow> False)"
    by code_simp
  then obtain s qs ub lm s1 res qs1 h txn B q where
    r: "?run (take 9 rm_events) (Scheduler OldLockManager, []) = Some (Inr (s, qs))" "Old_ReleaseLocks 30 (sc_lock_manager s) = Inr (ub, lm)"
      "dispatch_all ub ((set_remaster_result 30 (Some (''m'', 1)) s)\<lparr>sc_lock_manager := lm\<rparr>) = Inr s1"
      "Simple_RemasterOccured rm_last ''m'' 1 qs = Inr (res, qs1)" "active_txns s1 100 = Some h" "holder_txn h = Inr txn"
      "remove_first 100 (queue_at 1 qs1) = B # q"
    and p: "ror_unblocked res = []" "remdups (map tid (ror_should_abort res)) = [100, 200]" "tid B = 200" "tid txn = 100"
      "involved_replicas (internal txn) = [0, 1]" "CheckCounters B True rm_last = Inr VM_ABORT"
    by (elim case_SomeE case_InrE case_ConsE case_prodE) (auto simp del: One_nat_def)
  have o: "id (remdups (map tid (ror_should_abort res))) = 100 # [200]" using p(2) by simp
  have l: "Suc (length (take 9 rm_events)) < 11" by (simp add: rm_events_def Let_def)
  have i: "tid B \<in> set [200]" "distinct (involved_replicas (internal txn))" "1 \<in> set (involved_replicas (internal txn))"
    using p(3,5) by simp_all
  have "\<exists>e. ?run (take 9 rm_events @ [(rm_last, RDone 30 (Some (''m'', 1)))]) (Scheduler OldLockManager, []) = Some (Inl e)"
    by (rule simple_remaster_aborts_twice [where ord = id, OF r(1) l r(2-4) p(1) o i(1) r(5,6) p(4) i(2,3) r(7) p(6)]) simp
  then obtain e where
    e: "?run (take 9 rm_events @ [(rm_last, RDone 30 (Some (''m'', 1)))]) (Scheduler OldLockManager, []) = Some (Inl e)" by blast
  have "map_option (map_sum id (\<lambda>_. ())) (?run (take 9 rm_events @ [(rm_last, RDone 30 (Some (''m'', 1)))]) (Scheduler OldLockManager, [])) =
    Some (Inl (CheckFailed ''Abort was triggered twice''))" by code_simp
  with e show "\<exists>e. ?run (take 9 rm_events @ [(rm_last, RDone 30 (Some (''m'', 1)))]) (Scheduler OldLockManager, []) = Some (Inl e) \<and>
    e = CheckFailed ''Abort was triggered twice''" by simp
  show "map_option (map_sum id (\<lambda>sr. (dispatched (fst sr), snd sr)))
       (Remaster_run 11 id Old_AcquireLocks Old_ReleaseLocks per_key_ops 3 rm_events (Scheduler OldLockManager, [])) =
     Some (Inr ([10, 20, 30, 200, 100], []))" by code_simp
qed

end
