(* ===== verification/Mem_Only_Storage.thy ===== *)
theory Mem_Only_Storage
  imports Concurrent_Hash_Map
begin

text \<open>
  \<^verbatim>\<open>MemOnlyStorage\<close> (\<^verbatim>\<open>storage/mem_only_storage.h\<close>) on the segmented hash table. Its contents are a map from keys to
  records, the \<open>storage\<close> of the execution and scheduling components. The hash function \<^verbatim>\<open>std::hash\<close> is the parameter
  \<open>hf\<close>.
\<close>

type_synonym mem_only_storage = "(key, stored_record) hash_map"

definition MemOnlyStorage :: mem_only_storage where
  "MemOnlyStorage = ConcurrentHashMap"

definition MemOnlyStorage_Read :: "(key \<Rightarrow> nat) \<Rightarrow> key \<Rightarrow> mem_only_storage \<Rightarrow> stored_record option \<times> mem_only_storage" where
  "MemOnlyStorage_Read hf k st = HashMap_Get hf k st"

definition MemOnlyStorage_Write :: "(key \<Rightarrow> nat) \<Rightarrow> key \<Rightarrow> stored_record \<Rightarrow> mem_only_storage \<Rightarrow> bool \<times> mem_only_storage" where
  "MemOnlyStorage_Write hf k r st = HashMap_InsertOrUpdate hf k r st"

definition MemOnlyStorage_Delete :: "(key \<Rightarrow> nat) \<Rightarrow> key \<Rightarrow> mem_only_storage \<Rightarrow> bool \<times> mem_only_storage" where
  "MemOnlyStorage_Delete hf k st = HashMap_Erase hf k st"

definition GetMasterMetadata :: "(key \<Rightarrow> nat) \<Rightarrow> key \<Rightarrow> mem_only_storage \<Rightarrow> metadata option \<times> mem_only_storage" where
  "GetMasterMetadata hf k st = (case HashMap_Get hf k st of (r, st') \<Rightarrow> (map_option rec_metadata r, st'))"

interpretation mos: kv_table MemOnlyStorage "MemOnlyStorage_Read hf" "MemOnlyStorage_Write hf" "MemOnlyStorage_Delete hf"
  "hash_map_ok hf" "hash_map_contents hf" for hf
  unfolding MemOnlyStorage_def MemOnlyStorage_Read_def [abs_def] MemOnlyStorage_Write_def [abs_def] MemOnlyStorage_Delete_def [abs_def]
  by (rule chm.kv_table_axioms)

lemma GetMasterMetadata_ok:
  assumes "hash_map_ok hf st" "GetMasterMetadata hf k st = (m, st')"
  shows "m = map_option rec_metadata (hash_map_contents hf st k) \<and> hash_map_ok hf st' \<and> hash_map_contents hf st' = hash_map_contents hf st"
proof -
  obtain r t where g: "HashMap_Get hf k st = (r, t)" by (rule prod.exhaust)
  with chm.get_ok [OF assms(1) g] assms(2) show ?thesis by (simp add: GetMasterMetadata_def)
qed

end
