(* ===== verification/Spec2Isabelle.thy ===== *)
theory Spec2Isabelle
  imports Lock_Manager_Properties Data_Properties Scheduler_Properties Execution_Properties Ordering_Properties
    Service_Properties Tpcc_Properties Tpcc_Types Remaster_Properties Mem_Only_Storage
begin

text \<open>
  A verification development for SLOG, a geo-distributed, deterministic transaction system.

  \<^bold>\<open>The program.\<close> A client sends a transaction to a server (\<^verbatim>\<open>module/server.cpp\<close>), which gives it an id. The
  forwarder (\<^verbatim>\<open>module/forwarder.cpp\<close>) looks up the home region of every key. A single-home transaction goes to
  a sequencer of its home (\<^verbatim>\<open>module/sequencer.cpp\<close>), a multi-home one to the multi-home orderer
  (\<^verbatim>\<open>module/multi_home_orderer.cpp\<close>), which has the global consensus order its batches before the sequencers of
  all involved regions get them. Sequencers cut the transactions into batches per partition, replicate them and
  have the local consensus order them (\<^verbatim>\<open>paxos\<close>, \<^verbatim>\<open>module/consensus.cpp\<close>). The interleaver
  (\<^verbatim>\<open>module/interleaver.cpp\<close>) merges the batches of all regions into one log; the scheduler
  (\<^verbatim>\<open>module/scheduler.cpp\<close>) takes locks in the order of that log and dispatches a transaction to a worker
  (\<^verbatim>\<open>module/scheduler_components/worker.cpp\<close>), which reads, exchanges remote reads, executes and answers.

  \<^bold>\<open>Conventions.\<close> A class is a record, a handler a function from the old state to the new state and what it
  sends, in the order of the calls. Exceptions, failed checks (\<^verbatim>\<open>CHECK\<close>, and \<^verbatim>\<open>DCHECK\<close> as in a debug build) and
  undefined behaviour are values of \<open>slog_error\<close>, to the left of the sum type \<open>'a result\<close>. Unsigned integers
  are natural numbers and signed ones integers; where they can wrap around the reduction is written out. Timers
  are outputs, the clock, random choices and the order of iteration over hash tables are arguments. What the
  compiler chooses by a macro (remaster protocol, lock manager) is an argument as well. Protocol buffer messages
  are datatypes with the members of their \<^verbatim>\<open>oneof\<close>. The JSON writer is the parameter \<open>write_json\<close>.

  \<^bold>\<open>Theories and what they show.\<close>

  \<^item> \<open>Slog_Prelude\<close>, \<open>Slog_Types\<close>: errors, words, \<^verbatim>\<open>common/types.h\<close>, \<^verbatim>\<open>proto/transaction.proto\<close>.
  \<^item> \<open>Lock_Spec\<close>: the abstract lock service. A transaction holds its locks when all its requests have arrived
    and no earlier request of an active transaction conflicts. The locale \<open>lock_manager\<close> states that an
    implementation simulates it and derives grants and mutual exclusion.
  \<^item> \<open>Lock_State\<close>, \<open>Rma_Lock_Manager\<close>, \<open>Ddr_Lock_Manager\<close>, \<open>Old_Lock_Manager\<close>: \<^verbatim>\<open>rma_lock_manager\<close> (a queue of
    holders and waiters per key and region), \<^verbatim>\<open>ddr_lock_manager\<close> (only the tail of each queue and a graph of
    waits) and \<^verbatim>\<open>old_lock_manager\<close> (queues per key, in a table that is pruned). All three interpret
    \<open>lock_manager\<close>, the old one by a simulation of the first; \<open>Lock_Manager_Properties\<close> concludes that the
    first two are equivalent on legal calls, exclude conflicts, and that single-shot requests never deadlock.
  \<^item> \<open>Lock_Stats\<close>: \<^verbatim>\<open>GetStats\<close> of the lock managers and the statistics and requests of the scheduler; what the RMA
    lock manager reports is determined by the abstract lock service.
  \<^item> \<open>Async_Log\<close>, \<open>Ordered_Log\<close>, \<open>Batch_Log\<close>, \<open>Local_Log\<close>: \<^verbatim>\<open>data_structure/async_log.h\<close>, \<^verbatim>\<open>batch_log.cpp\<close> and
    the \<^verbatim>\<open>LocalLog\<close> of the interleaver. The locale \<open>ordered_log\<close> says that a log gives out the items of
    consecutive slots as a function of its inputs and not of their order; both logs interpret it. Their
    draining loops are proved to terminate.
  \<^item> \<open>String_Utils\<close>, \<open>Slog_Config\<close>, \<open>Sharder_Model\<close>: \<^verbatim>\<open>common/string_utils.cpp\<close>, \<^verbatim>\<open>configuration.cpp\<close>, \<^verbatim>\<open>sharder.cpp\<close>
    and the metadata initializers; \<open>Data_Properties\<close> has round trips, ranges and the layout of keys.
  \<^item> \<open>Proto_Utils\<close>, \<open>Slog_Messages\<close>: \<^verbatim>\<open>common/proto_utils.cpp\<close> (types, lock-only and partitioned transactions,
    merging, printing) and the messages between modules.
  \<^item> \<open>Kv_Store\<close>, \<open>Concurrent_Hash_Map\<close>, \<open>Rw_Latch\<close>: the segmented hash table of the storage, which interprets
    the map interface \<open>kv_table\<close>, as does \<^verbatim>\<open>MemOnlyStorage\<close> on top of it (\<open>Mem_Only_Storage\<close>), and its latch as a step relation of any number of threads.
  \<^item> \<open>Execution_Kv\<close>, \<open>Txn_Holder\<close>, \<open>Worker_Model\<close>: key-value execution, \<^verbatim>\<open>txn_holder.cpp\<close> and \<^verbatim>\<open>worker.cpp\<close>;
    \<open>Execution_Properties\<close> shows their effect on the storage.
  \<^item> \<open>Remaster_Manager\<close>, \<open>Scheduler_Model\<close>: \<^verbatim>\<open>remaster_manager.h\<close>, \<^verbatim>\<open>simple_remaster_manager.cpp\<close> and the
    scheduler. The macro that selects the lock manager is the argument \<open>kind\<close>: with the DDR lock manager
    \<^verbatim>\<open>TriggerPreDispatchAbort\<close> does nothing. The locale \<open>scheduler_locks\<close> relies on \<open>lock_manager\<close> only;
    \<open>Scheduler_Properties\<close> interprets it for the three lock managers and shows isolation over the whole path, that
    unblocking a queue of the remaster manager terminates, and that the entry of a counterless remaster is never
    erased.
  \<^item> \<open>Per_Key_Remaster\<close>, \<open>Scheduler_Remaster\<close>: \<^verbatim>\<open>per_key_remaster_manager.cpp\<close>, and the scheduler as compiled with
    one of the remaster protocols that count remasters. The locale \<open>remaster_manager\<close> is the interface between
    them, interpreted for both remaster managers; the scheduler is proved to return in it once.
    These protocols compile only with the old lock manager. \<open>Remaster_Properties\<close> has the invariant, the order
    and the progress of the queues per key, the termination of aborts, and the condition under which the simple
    manager makes the scheduler fail.
  \<^item> \<open>Tpcc_Scalar\<close>, \<open>Tpcc_Table\<close>, \<open>Tpcc_Transactions\<close>: \<^verbatim>\<open>execution/tpcc\<close>, with its types, scalars, tables and storage
    adapters, and the five transactions with \<^verbatim>\<open>execution/tpcc.cpp\<close>. A transaction is a function in the state monad
    \<open>stm\<close> over the state of its adapter; an access outside a buffer and a signed overflow are errors.
    \<open>Tpcc_Rows\<close> has the contracts \<open>row_store\<close>, \<open>row_writer\<close> and \<open>row_updater\<close> of an adapter, interpreted for
    \<^verbatim>\<open>KVStorageAdapter\<close> and \<^verbatim>\<open>TxnStorageAdapter\<close>, and proves the operations of a table in them once.
    \<open>Tpcc_Payment\<close> derives the effect of a payment from \<open>row_updater\<close>; \<open>Tpcc_Properties\<close> states it for the code,
    with the layout of keys and the round trip of rows. \<open>Tpcc_Types\<close> shows that selections only return values of
    the declared types.
  \<^item> \<open>Interleaver_Model\<close>, \<open>Sequencer_Model\<close>, \<open>Paxos_Model\<close>, \<open>Batch_Stats\<close>, \<open>Multi_Home_Orderer\<close>: the ordering
    layer. Consensus is a step relation over a group of machines and its network. \<open>Orderer_System\<close> runs the
    multi-home orderers of all machines together, each receiving what the others send and the order of the global
    consensus. \<open>Ordering_Properties\<close> has numbering, agreement and order.
  \<^item> \<open>Forwarder_Model\<close>, \<open>Server_Model\<close>: the modules that face the clients; \<open>Service_Properties\<close> has uniqueness of
    ids over all runs of servers, one answer per request, when a transaction is forwarded, and which parts of it
    the partitions get.

  \<^bold>\<open>Bounds.\<close> Loops are structural recursion or functions with a termination proof, with two exceptions: the
  mutual recursions \<^verbatim>\<open>TryToUnblock\<close>/\<^verbatim>\<open>ReleaseTransaction\<close> of the per-key remaster manager and
  \<^verbatim>\<open>TriggerPreDispatchAbort\<close>/\<^verbatim>\<open>ProcessRemasterResult\<close> of the scheduler have fuel, and \<open>None\<close> when it is used up. One
  more than the number of blocked entries, respectively of events, is proved to be enough: every nested call
  has removed an entry, respectively marked one more transaction as aborting.
  Theorems about counters state the range in which they do not wrap around (\<open>2 ^ 32\<close> for slots and positions,
  \<open>2 ^ 57\<close> for the counter of transaction ids).

  \<^bold>\<open>Not modelled.\<close> Sockets, threads and polling (\<^verbatim>\<open>connection\<close>, \<^verbatim>\<open>module/base\<close>), as pure input and output; metrics
  (\<^verbatim>\<open>common/metrics.cpp\<close>, the macro \<^verbatim>\<open>RECORD\<close>) and CSV output, which no other code reads; the workload generators
  and the command line programs (\<^verbatim>\<open>workload\<close>, \<^verbatim>\<open>module/txn_generator.cpp\<close>, \<^verbatim>\<open>service\<close>), which only drive the system;
  the Python tools; the loader \<^verbatim>\<open>load_tables.cpp\<close>, which inserts random rows.
\<close>

end
